(* ===== verification/Prelude.thy ===== *)
theory Prelude
  imports Main "HOL-Library.Word" "HOL-Library.Monad_Syntax"
begin

text \<open>
  Shared vocabulary of the development: the fixed-width integer types of libs/types.h, the
  hint collections, and the generic lemmas on function updates, words and intervals that the
  component theories use. A value \<open>None\<close> of an option-valued operation always means that the
  C code has left its defined behaviour at that point (a list entry turned into a structure it
  does not belong to, an array index out of bounds, a null page dereferenced) or, for a loop
  defined by \<^theory_text>\<open>partial_function\<close>, that it does not return.
\<close>

unbundle bit_operations_syntax

section \<open>The integer types of libs/types.h\<close>

type_synonym u8 = "8 word"
type_synonym u16 = "16 word"
type_synonym u32 = "32 word"
type_synonym u64 = "64 word"

text \<open>A C \<open>int\<close> of the 32-bit target is an \<open>int\<close> kept in range by \<open>to_int\<close>, the conversion
  that gcc applies when an unsigned value is assigned to an \<open>int\<close>.\<close>

definition to_int :: "u32 \<Rightarrow> int" where
  "to_int w = sint w"

definition of_cint :: "int \<Rightarrow> u32" where
  "of_cint i = word_of_int i"

text \<open>ROUNDDOWN and ROUNDUP of libs/types.h on \<open>size_t\<close> values.\<close>

definition ROUNDDOWN :: "u32 \<Rightarrow> u32 \<Rightarrow> u32" where
  "ROUNDDOWN a n = a - a mod n"

definition ROUNDUP :: "u32 \<Rightarrow> u32 \<Rightarrow> u32" where
  "ROUNDUP a n = ROUNDDOWN (a + n - 1) n"

section \<open>Hint collections\<close>

named_theorems link_defs \<open>definitions of the linked-list operations\<close>
named_theorems frame_simps \<open>what an operation leaves unchanged\<close>

section \<open>Generic lemmas\<close>

lemma interval_split: "(m::nat) \<le> n \<Longrightarrow> {p..<p + n} = {p..<p + m} \<union> {p + m..<p + n}"
  by auto

lemma interval_disjoint: "{p..<p + m} \<inter> {p + m..<p + (n::nat)} = {}"
  by auto

lemma fun_upd_inj_frame: "x \<noteq> y \<Longrightarrow> (f(x := v)) y = f y"
  by simp

lemma map_eq_Cons_inj:
  "map f xs = y # ys \<longleftrightarrow> (\<exists>z zs. xs = z # zs \<and> y = f z \<and> ys = map f zs)"
  by (cases xs) auto

lemma unat_of_nat_u32: "n < 4294967296 \<Longrightarrow> unat (of_nat n :: u32) = n"
  by (simp add: unat_of_nat take_bit_eq_mod)

lemma unat_ucast_64 [simp]: "unat (ucast (x :: u32) :: u64) = unat x"
proof -
  have "unat x < 4294967296" using unsigned_less [of x, where ?'a = nat] by simp
  then show ?thesis by (simp add: unsigned_ucast_eq take_bit_eq_mod)
qed

text \<open>Monotonicity rules for the bodies of \<^theory_text>\<open>partial_function\<close> definitions that call back.\<close>

lemma mono_case_prod:
  "(\<And>a b. mono_option (\<lambda>f. B f a b)) \<Longrightarrow> mono_option (\<lambda>f. case y of (a, b) \<Rightarrow> B f a b)"
  by (cases y) simp

lemma mono_case_option:
  "mono_option A \<Longrightarrow> (\<And>a. mono_option (\<lambda>f. B f a)) \<Longrightarrow>
   mono_option (\<lambda>f. case y of None \<Rightarrow> A f | Some a \<Rightarrow> B f a)"
  by (cases y) simp_all

lemmas callback_mono = mono_case_prod mono_case_option partial_function_mono

end
