(* ===== verification/Mmu.thy ===== *)
theory Mmu
  imports Prelude
begin

text \<open>
  kern/mm/mmu.h and the address macros of kern/mm/memlayout.h and kern/mm/pmm.h: the split of a
  linear address into directory index, table index and offset, the conversions between pages,
  physical and kernel virtual addresses, and the descriptors of segments and gates. A bit field
  of width \<open>w\<close> is a \<open>w word\<close>; the macros truncate to it as the compiler does.
\<close>

section \<open>Constants\<close>

definition PGSIZE :: u32 where "PGSIZE = 4096"
definition KERNBASE :: u32 where "KERNBASE = 0xC0000000"
definition KMEMSIZE :: u32 where "KMEMSIZE = 0x38000000"
definition VPT :: u32 where "VPT = 0xFAC00000"

definition PTE_P :: u32 where "PTE_P = 1"
definition PTE_W :: u32 where "PTE_W = 2"
definition PTE_U :: u32 where "PTE_U = 4"
definition PTE_USER :: u32 where "PTE_USER = PTE_U OR PTE_W OR PTE_P"

section \<open>Linear addresses\<close>

definition PAGE_NUM :: "u32 \<Rightarrow> u32" where
  "PAGE_NUM la = drop_bit 12 la"

definition PDX :: "u32 \<Rightarrow> u32" where
  "PDX la = drop_bit 22 la AND 0x3FF"

definition PTX :: "u32 \<Rightarrow> u32" where
  "PTX la = drop_bit 12 la AND 0x3FF"

definition PG_OFF :: "u32 \<Rightarrow> u32" where
  "PG_OFF la = la AND 0xFFF"

definition PTE_ADDR :: "u32 \<Rightarrow> u32" where
  "PTE_ADDR pte = pte AND NOT 0xFFF"

definition PDE_ADDR :: "u32 \<Rightarrow> u32" where
  "PDE_ADDR pde = PTE_ADDR pde"

definition PGADDR :: "u32 \<Rightarrow> u32 \<Rightarrow> u32 \<Rightarrow> u32" where
  "PGADDR d t off = push_bit 22 d OR push_bit 12 t OR off"

section \<open>Pages, physical and kernel virtual addresses\<close>

definition PADDR :: "u32 \<Rightarrow> u32" where
  "PADDR kva = kva - KERNBASE"

definition VADDR :: "u32 \<Rightarrow> u32" where
  "VADDR kpa = kpa + KERNBASE"

definition page2pa :: "nat \<Rightarrow> u32" where
  "page2pa p = push_bit 12 (of_nat p)"

definition pa2page :: "u32 \<Rightarrow> nat" where
  "pa2page p = unat (PAGE_NUM p)"

definition page2va :: "nat \<Rightarrow> u32" where
  "page2va p = VADDR (page2pa p)"

definition va2page :: "u32 \<Rightarrow> nat" where
  "va2page p = pa2page (PADDR p)"

definition pte2page :: "u32 \<Rightarrow> nat" where
  "pte2page pte = pa2page (PTE_ADDR pte)"

definition pde2page :: "u32 \<Rightarrow> nat" where
  "pde2page pde = pa2page (PDE_ADDR pde)"

definition page2kva :: "nat \<Rightarrow> u32" where
  "page2kva p = page2pa p + KERNBASE"

definition kva2page :: "u32 \<Rightarrow> nat" where
  "kva2page kva = pa2page (PADDR kva)"

section \<open>Segment and gate descriptors\<close>

definition STA_X :: u32 where "STA_X = 8"
definition STA_W :: u32 where "STA_W = 2"
definition STA_R :: u32 where "STA_R = 2"
definition STS_T32A :: u32 where "STS_T32A = 9"
definition STS_IG32 :: u32 where "STS_IG32 = 0xE"
definition STS_TG32 :: u32 where "STS_TG32 = 0xF"

record gatedesc =
  gd_off_15_0 :: u16
  gd_ss :: u16
  gd_args :: "5 word"
  gd_rsv1 :: "3 word"
  gd_type :: "4 word"
  gd_s :: "1 word"
  gd_dpl :: "2 word"
  gd_p :: "1 word"
  gd_off_31_16 :: u16

record segdesc =
  sd_lim_15_0 :: u16
  sd_base_15_0 :: u16
  sd_base_23_16 :: u8
  sd_type :: "4 word"
  sd_s :: "1 word"
  sd_dpl :: "2 word"
  sd_p :: "1 word"
  sd_lim_19_16 :: "4 word"
  sd_avl :: "1 word"
  sd_rsv1 :: "1 word"
  sd_db :: "1 word"
  sd_g :: "1 word"
  sd_base_31_24 :: u8

definition SEG_NULL :: segdesc where
  "SEG_NULL = \<lparr>sd_lim_15_0 = 0, sd_base_15_0 = 0, sd_base_23_16 = 0, sd_type = 0, sd_s = 0,
     sd_dpl = 0, sd_p = 0, sd_lim_19_16 = 0, sd_avl = 0, sd_rsv1 = 0, sd_db = 0, sd_g = 0,
     sd_base_31_24 = 0\<rparr>"

definition SEG :: "u32 \<Rightarrow> u32 \<Rightarrow> u32 \<Rightarrow> u32 \<Rightarrow> segdesc" where
  "SEG type base lim dpl =
     \<lparr>sd_lim_15_0 = ucast (drop_bit 12 lim AND 0xffff), sd_base_15_0 = ucast (base AND 0xffff),
      sd_base_23_16 = ucast (drop_bit 16 base AND 0xff), sd_type = ucast type, sd_s = 1,
      sd_dpl = ucast dpl, sd_p = 1, sd_lim_19_16 = ucast (drop_bit 28 lim), sd_avl = 0,
      sd_rsv1 = 0, sd_db = 1, sd_g = 1, sd_base_31_24 = ucast (drop_bit 24 base)\<rparr>"

definition SEGTSS :: "u32 \<Rightarrow> u32 \<Rightarrow> u32 \<Rightarrow> u32 \<Rightarrow> segdesc" where
  "SEGTSS type base lim dpl =
     \<lparr>sd_lim_15_0 = ucast (lim AND 0xffff), sd_base_15_0 = ucast (base AND 0xffff),
      sd_base_23_16 = ucast (drop_bit 16 base AND 0xff), sd_type = ucast type, sd_s = 0,
      sd_dpl = ucast dpl, sd_p = 1, sd_lim_19_16 = ucast (drop_bit 16 lim), sd_avl = 0,
      sd_rsv1 = 0, sd_db = 1, sd_g = 0, sd_base_31_24 = ucast (drop_bit 24 base)\<rparr>"

definition SETGATE :: "gatedesc \<Rightarrow> bool \<Rightarrow> u32 \<Rightarrow> u32 \<Rightarrow> u32 \<Rightarrow> gatedesc" where
  "SETGATE gate istrap ss off dpl =
     gate\<lparr>gd_off_15_0 := ucast (off AND 0xffff), gd_ss := ucast ss, gd_args := 0, gd_rsv1 := 0,
       gd_type := ucast (if istrap then STS_TG32 else STS_IG32), gd_s := 0, gd_dpl := ucast dpl,
       gd_p := 1, gd_off_31_16 := ucast (drop_bit 16 off)\<rparr>"

text \<open>The global descriptor numbers of kern/mm/memlayout.h and the table \<open>gdt\<close> of kern/mm/pmm.c,
  after \<open>gdt_init\<close> has filled the entry of the task state segment at address \<open>ts\<close>.\<close>

definition GD_KTEXT :: u32 where "GD_KTEXT = push_bit 3 1"
definition GD_KDATA :: u32 where "GD_KDATA = push_bit 3 2"
definition GD_TSS :: u32 where "GD_TSS = push_bit 3 5"
definition DPL_KERNEL :: u32 where "DPL_KERNEL = 0"
definition DPL_USER :: u32 where "DPL_USER = 3"
definition KERNEL_CS :: u32 where "KERNEL_CS = GD_KTEXT OR DPL_KERNEL"
definition KERNEL_DS :: u32 where "KERNEL_DS = GD_KDATA OR DPL_KERNEL"

definition gdt :: "segdesc list" where
  "gdt = [SEG_NULL, SEG (STA_X OR STA_R) 0 0xFFFFFFFF DPL_KERNEL, SEG STA_W 0 0xFFFFFFFF DPL_KERNEL,
     SEG (STA_X OR STA_R) 0 0xFFFFFFFF DPL_USER, SEG STA_W 0 0xFFFFFFFF DPL_USER, SEG_NULL]"

definition sizeof_taskstate :: u32 where "sizeof_taskstate = 104"

definition gdt_init :: "u32 \<Rightarrow> segdesc list \<Rightarrow> segdesc list" where
  "gdt_init ts g = g[5 := SEGTSS STS_T32A ts sizeof_taskstate DPL_KERNEL]"

section \<open>How the processor reads a descriptor back\<close>

definition gate_offset :: "gatedesc \<Rightarrow> u32" where
  "gate_offset g = push_bit 16 (ucast (gd_off_31_16 g)) OR ucast (gd_off_15_0 g)"

definition seg_base :: "segdesc \<Rightarrow> u32" where
  "seg_base d = push_bit 24 (ucast (sd_base_31_24 d)) OR push_bit 16 (ucast (sd_base_23_16 d)) OR
     ucast (sd_base_15_0 d)"

definition seg_limit :: "segdesc \<Rightarrow> u32" where
  "seg_limit d = (let l = push_bit 16 (ucast (sd_lim_19_16 d)) OR ucast (sd_lim_15_0 d)
     in if sd_g d = 1 then push_bit 12 l OR 0xFFF else l)"

section \<open>Lemmas on the address arithmetic\<close>

lemma mask_numerals: "(0x3FF::u32) = mask 10" "(0xFFF::u32) = mask 12" "(0xffff::u32) = mask 16"
  "(0xff::u32) = mask 8"
  by (simp_all add: mask_eq_exp_minus_1)

lemma PGADDR_split: "PGADDR (PDX la) (PTX la) (PG_OFF la) = la"
proof (rule bit_word_eqI)
  fix n assume "n < LENGTH(32)"
  then show "bit (PGADDR (PDX la) (PTX la) (PG_OFF la)) n = bit la n"
    unfolding PGADDR_def PDX_def PTX_def PG_OFF_def mask_numerals
    by (cases "n < 12"; cases "n < 22") (auto simp: bit_simps)
qed

lemma seg_base_pieces:
  "push_bit 24 (ucast (ucast (drop_bit 24 b) :: u8)) OR
   push_bit 16 (ucast (ucast (drop_bit 16 b AND 0xff) :: u8)) OR
   (ucast (ucast (b AND 0xffff) :: u16) :: u32) = (b :: u32)"
proof (rule bit_word_eqI)
  fix n assume "n < LENGTH(32)"
  then show "bit (push_bit 24 (ucast (ucast (drop_bit 24 b) :: u8)) OR
     push_bit 16 (ucast (ucast (drop_bit 16 b AND 0xff) :: u8)) OR
     (ucast (ucast (b AND 0xffff) :: u16) :: u32)) n = bit b n"
    unfolding mask_numerals by (cases "n < 16"; cases "n < 24") (auto simp: bit_simps)
qed

lemma seg_base_SEG: "seg_base (SEG t b l d) = b"
  unfolding seg_base_def SEG_def segdesc.simps by (rule seg_base_pieces)

lemma seg_base_SEGTSS: "seg_base (SEGTSS t b l d) = b"
  unfolding seg_base_def SEGTSS_def segdesc.simps by (rule seg_base_pieces)

lemma seg_limit_SEG: "seg_limit (SEG t b l d) = l OR 0xFFF"
proof (rule bit_word_eqI)
  fix n assume "n < LENGTH(32)"
  then show "bit (seg_limit (SEG t b l d)) n = bit (l OR 0xFFF) n"
    unfolding seg_limit_def SEG_def mask_numerals segdesc.simps Let_def
    by (cases "n < 12"; cases "n < 28") (auto simp: bit_simps)
qed

lemma gate_offset_SETGATE: "gate_offset (SETGATE g i s off d) = off"
proof (rule bit_word_eqI)
  fix n assume "n < LENGTH(32)"
  then show "bit (gate_offset (SETGATE g i s off d)) n = bit off n"
    unfolding gate_offset_def SETGATE_def mask_numerals
    by (cases "n < 16") (auto simp: bit_simps)
qed

section \<open>Page frames and the cells of a table\<close>

text \<open>The frame an entry names, and the kernel virtual address of word \<open>i\<close> of frame \<open>d\<close>.
  Physical memory that the kernel maps has fewer than \<open>2 ^ 18\<close> frames, so cells do not wrap.\<close>

definition frame :: "u32 \<Rightarrow> nat" where
  "frame pte = unat (drop_bit 12 pte)"

definition cell :: "nat \<Rightarrow> nat \<Rightarrow> u32" where
  "cell d i = KERNBASE + of_nat (4096 * d + 4 * i)"

lemma PDX_lt: "unat (PDX la) < 1024" and PTX_lt: "unat (PTX la) < 1024"
proof -
  have "unat (w AND 0x3FF) < 1024" for w :: u32
    using and_mask_less' [of 10 w] by (simp add: mask_numerals [symmetric] word_less_nat_alt)
  then show "unat (PDX la) < 1024" "unat (PTX la) < 1024"
    by (auto simp: PDX_def PTX_def)
qed

lemma page2pa_of_nat: "page2pa p = of_nat (4096 * p)"
  by (simp add: page2pa_def push_bit_eq_mult mult.commute)

lemma pte2page_frame: "pte2page pte = frame pte"
proof -
  have "drop_bit 12 (pte AND NOT 0xFFF) = drop_bit 12 pte"
    unfolding mask_numerals by (rule bit_word_eqI) (auto simp: bit_simps dest: bit_imp_le_length)
  then show ?thesis
    by (simp add: pte2page_def PTE_ADDR_def pa2page_def PAGE_NUM_def frame_def)
qed

lemma pde2page_frame: "pde2page pde = frame pde"
  by (simp add: pde2page_def PDE_ADDR_def pte2page_frame [unfolded pte2page_def])

lemma PTE_ADDR_frame: "PTE_ADDR pte = of_nat (4096 * frame pte)"
proof -
  have "pte AND NOT 0xFFF = push_bit 12 (drop_bit 12 pte)"
    unfolding mask_numerals by (rule bit_word_eqI) (auto simp: bit_simps)
  then show ?thesis
    by (simp add: PTE_ADDR_def frame_def push_bit_eq_mult mult.commute)
qed

lemma frame_page2pa:
  assumes "p < 2 ^ 18" and "f AND NOT 0xFFF = 0"
  shows "frame (page2pa p OR f) = p"
proof -
  have "drop_bit 12 (push_bit 12 (of_nat p) OR f) = (of_nat p :: u32)"
  proof (rule bit_word_eqI)
    fix n assume n: "n < LENGTH(32)"
    have "\<not> bit (f AND NOT (mask 12)) (12 + n)"
      using assms(2) by (simp add: mask_numerals)
    then have "\<not> bit f (12 + n)"
      by (auto simp: bit_simps dest: bit_imp_le_length)
    moreover have "bit (of_nat p :: u32) n \<Longrightarrow> 12 + n < 32"
    proof -
      assume "bit (of_nat p :: u32) n"
      then have "bit p n" by (simp add: bit_of_nat_iff)
      then have "2 ^ n \<le> p" by (cases "p < 2 ^ n") (auto simp: bit_iff_odd)
      with assms(1) have "(2::nat) ^ n < 2 ^ 18" by (rule order_le_less_trans [rotated])
      then show ?thesis using power_less_imp_less_exp [of "2::nat" n 18] by simp
    qed
    ultimately show "bit (drop_bit 12 (push_bit 12 (of_nat p) OR f)) n = bit (of_nat p :: u32) n"
      using n by (auto simp: bit_simps)
  qed
  moreover have "unat (of_nat p :: u32) = p"
    using assms(1) by (simp add: unat_of_nat_u32)
  ultimately show ?thesis by (simp add: frame_def page2pa_def)
qed

lemma cell_inj:
  assumes "cell d i = cell e j" "d < 2 ^ 18" "e < 2 ^ 18" "i < 1024" "j < 1024"
  shows "d = e \<and> i = j"
proof -
  have "unat (of_nat (4096 * d + 4 * i) :: u32) = unat (of_nat (4096 * e + 4 * j) :: u32)"
    using assms(1) by (simp add: cell_def)
  then have "4096 * d + 4 * i = 4096 * e + 4 * j"
    using assms(2-5) by (subst (asm) (1 2) unat_of_nat_u32) auto
  moreover have "(4096 * d + 4 * i) div 4096 = d" "(4096 * e + 4 * j) div 4096 = e"
    using assms(4,5) by simp_all
  ultimately have "d = e" by metis
  with \<open>4096 * d + 4 * i = 4096 * e + 4 * j\<close> show ?thesis by simp
qed

lemma table_cell: "VADDR (PDE_ADDR pde) + 4 * PTX la = cell (frame pde) (unat (PTX la))"
  by (simp add: VADDR_def PDE_ADDR_def PTE_ADDR_frame cell_def algebra_simps)

lemma dir_cell: "page2va d + 4 * PDX la = cell d (unat (PDX la))"
  by (simp add: page2va_def VADDR_def page2pa_of_nat cell_def algebra_simps)

end
