(* ===== verification/Clist.thy ===== *)
theory Clist
  imports Prelude
begin

text \<open>
  libs/list.h: the intrusive, circular, doubly linked list that every kernel structure embeds.
  A heap of list entries maps a pointer to its pair of pointers; the operations are the stores
  of the C code in their order. \<open>lseg h a xs b\<close> is the abstraction: following \<open>next\<close> from \<open>a\<close>
  visits exactly \<open>xs\<close> and then \<open>b\<close>, and each visited entry points back to its predecessor.
  \<open>ring\<close> is the closed list a header owns.
\<close>

section \<open>Entries and operations\<close>

record 'p list_entry =
  prev :: 'p
  "next" :: 'p

type_synonym 'p heap = "'p \<Rightarrow> 'p list_entry"

definition set_prev :: "'p \<Rightarrow> 'p \<Rightarrow> 'p heap \<Rightarrow> 'p heap" where
  [link_defs]: "set_prev p v h = h(p := (h p)\<lparr>prev := v\<rparr>)"

definition set_next :: "'p \<Rightarrow> 'p \<Rightarrow> 'p heap \<Rightarrow> 'p heap" where
  [link_defs]: "set_next p v h = h(p := (h p)\<lparr>next := v\<rparr>)"

definition list_init :: "'p \<Rightarrow> 'p heap \<Rightarrow> 'p heap" where
  [link_defs]: "list_init phead h = set_prev phead phead (set_next phead phead h)"

definition list_add_before :: "'p \<Rightarrow> 'p \<Rightarrow> 'p heap \<Rightarrow> 'p heap" where
  [link_defs]: "list_add_before pcur pnode h =
     (let h = set_next (prev (h pcur)) pnode h;
          h = set_next pnode pcur h;
          h = set_prev pnode (prev (h pcur)) h
      in set_prev pcur pnode h)"

definition list_add_after :: "'p \<Rightarrow> 'p \<Rightarrow> 'p heap \<Rightarrow> 'p heap" where
  [link_defs]: "list_add_after pcur pnode h =
     (let h = set_prev (next (h pcur)) pnode h;
          h = set_next pnode (next (h pcur)) h;
          h = set_prev pnode pcur h
      in set_next pcur pnode h)"

definition list_add :: "'p \<Rightarrow> 'p \<Rightarrow> 'p heap \<Rightarrow> 'p heap" where
  [link_defs]: "list_add pcur pnode h = list_add_after pcur pnode h"

definition list_del :: "'p \<Rightarrow> 'p heap \<Rightarrow> 'p heap" where
  [link_defs]: "list_del pcur h =
     (let h = set_next (prev (h pcur)) (next (h pcur)) h
      in set_prev (next (h pcur)) (prev (h pcur)) h)"

definition list_del_init :: "'p \<Rightarrow> 'p heap \<Rightarrow> 'p heap" where
  [link_defs]: "list_del_init pcur h = list_init pcur (list_del pcur h)"

definition list_empty :: "'p \<Rightarrow> 'p heap \<Rightarrow> bool" where
  "list_empty phead h \<longleftrightarrow> next (h phead) = phead"

definition list_next :: "'p \<Rightarrow> 'p heap \<Rightarrow> 'p" where
  "list_next pcur h = next (h pcur)"

definition list_prev :: "'p \<Rightarrow> 'p heap \<Rightarrow> 'p" where
  "list_prev pcur h = prev (h pcur)"

section \<open>List segments\<close>

fun lseg :: "'p heap \<Rightarrow> 'p \<Rightarrow> 'p list \<Rightarrow> 'p \<Rightarrow> bool" where
  "lseg h a [] b \<longleftrightarrow> next (h a) = b"
| "lseg h a (x # xs) b \<longleftrightarrow> next (h a) = x \<and> prev (h x) = a \<and> lseg h x xs b"

lemma lseg_frame:
  "(\<And>p. p \<in> set (a # xs) \<Longrightarrow> h' p = h p) \<Longrightarrow> lseg h' a xs b = lseg h a xs b"
  by (induction xs arbitrary: a) auto

lemma lseg_cong_next_prev:
  "\<lbrakk>\<And>p. p \<in> set (a # xs) \<Longrightarrow> next (h' p) = next (h p);
    \<And>p. p \<in> set xs \<Longrightarrow> prev (h' p) = prev (h p)\<rbrakk> \<Longrightarrow> lseg h' a xs b = lseg h a xs b"
  by (induction xs arbitrary: a) auto

lemma lseg_append:
  "lseg h a (xs @ ys) b \<longleftrightarrow> lseg h a xs (hd (ys @ [b])) \<and>
     (ys \<noteq> [] \<longrightarrow> prev (h (hd ys)) = last (a # xs) \<and> lseg h (hd ys) (tl ys) b)"
  by (induction xs arbitrary: a) (cases ys; auto)+

lemma lseg_next_first: "lseg h a xs b \<Longrightarrow> next (h a) = hd (xs @ [b])"
  by (cases xs) auto

lemma lseg_snoc:
  "lseg h a (xs @ [x]) b \<longleftrightarrow> lseg h a xs x \<and> prev (h x) = last (a # xs) \<and> next (h x) = b"
  by (simp add: lseg_append)

section \<open>The operations on a segment\<close>

lemma list_add_after_other:
  "q \<notin> {pcur, pnode, next (h pcur)} \<Longrightarrow> list_add_after pcur pnode h q = h q"
  by (auto simp: link_defs Let_def)

lemma list_add_before_other:
  "q \<notin> {pcur, pnode, prev (h pcur)} \<Longrightarrow> pnode \<noteq> pcur \<Longrightarrow> list_add_before pcur pnode h q = h q"
  by (auto simp: link_defs Let_def)

lemma list_del_other:
  "q \<notin> {prev (h pcur), next (h pcur)} \<Longrightarrow> list_del pcur h q = h q"
  by (auto simp: link_defs Let_def)

lemma list_init_other: "q \<noteq> phead \<Longrightarrow> list_init phead h q = h q"
  by (auto simp: link_defs)

lemma list_add_after_fields:
  assumes "x \<noteq> a" "next (h a) \<noteq> x"
  shows "next (list_add_after a x h p) =
      (if p = a then x else if p = x then next (h a) else next (h p))"
    "prev (list_add_after a x h p) =
      (if p = x then a else if p = next (h a) then x else prev (h p))"
  using assms by (auto simp: link_defs Let_def)

lemma lseg_add_front:
  assumes "lseg h a xs b" and "distinct (a # xs)" and "x \<notin> set (a # xs)" and "x \<noteq> b"
  shows "lseg (list_add a x h) a (x # xs) b"
proof -
  have nx: "x \<noteq> a" "next (h a) \<noteq> x"
    using assms by (cases xs; auto)+
  have "lseg (list_add_after a x h) x xs b"
  proof (cases xs)
    case Nil
    with assms nx show ?thesis by (simp add: list_add_after_fields)
  next
    case (Cons y ys)
    have "lseg (list_add_after a x h) y ys b = lseg h y ys b"
      by (rule lseg_cong_next_prev)
        (use assms Cons nx in \<open>auto simp: list_add_after_fields\<close>)
    with assms Cons nx show ?thesis by (auto simp: list_add_after_fields)
  qed
  with nx show ?thesis by (simp add: list_add_def list_add_after_fields)
qed

lemma lseg_del_front:
  assumes "lseg h a (x # xs) b" and "distinct (a # x # xs)" and "b \<noteq> x"
  shows "lseg (list_del x h) a xs b"
proof (cases xs)
  case Nil
  with assms show ?thesis by (auto simp: link_defs Let_def)
next
  case (Cons y ys)
  have "lseg (list_del x h) y ys b = lseg h y ys b"
    by (rule lseg_cong_next_prev) (use assms Cons in \<open>auto simp: link_defs Let_def\<close>)
  with assms Cons show ?thesis by (auto simp: link_defs Let_def)
qed

section \<open>Rings\<close>

definition ring :: "'p heap \<Rightarrow> 'p \<Rightarrow> 'p list \<Rightarrow> bool" where
  "ring h a xs \<longleftrightarrow> lseg h a xs a \<and> prev (h a) = last (a # xs) \<and> distinct (a # xs)"

lemma ring_init: "ring (list_init p h) p []"
  by (simp add: ring_def link_defs)

lemma ring_frame:
  "(\<And>p. p \<in> set (a # xs) \<Longrightarrow> h' p = h p) \<Longrightarrow> ring h' a xs = ring h a xs"
  using lseg_frame [of a xs h' h a] by (simp add: ring_def)

lemma ring_empty: "ring h a xs \<Longrightarrow> list_empty a h \<longleftrightarrow> xs = []"
  by (cases xs) (auto simp: ring_def list_empty_def)

lemma ring_next: "ring h a xs \<Longrightarrow> list_next a h = hd (xs @ [a])"
  by (simp add: ring_def list_next_def lseg_next_first)

lemma ring_add:
  assumes "ring h a xs" and "x \<notin> set (a # xs)"
  shows "ring (list_add a x h) a (x # xs)"
proof -
  have nx: "next (h a) \<noteq> x"
    using assms by (cases xs) (auto simp: ring_def)
  have "lseg (list_add a x h) a (x # xs) a"
    using assms by (intro lseg_add_front) (auto simp: ring_def)
  moreover have "prev (list_add a x h a) = last (a # x # xs)"
    using assms nx by (cases xs) (auto simp: ring_def link_defs Let_def)
  ultimately show ?thesis
    using assms by (auto simp: ring_def)
qed

lemma ring_split_prev_next:
  assumes "ring h a (ys @ x # zs)"
  shows "prev (h x) = last (a # ys)" "next (h x) = hd (zs @ [a])"
  using assms by (auto simp: ring_def lseg_append lseg_next_first)

lemma list_del_fields:
  assumes "prev (h x) \<noteq> x"
  shows "next (list_del x h p) = (if p = prev (h x) then next (h x) else next (h p))"
    "prev (list_del x h p) = (if p = next (h x) then prev (h x) else prev (h p))"
  using assms by (auto simp: link_defs Let_def)

lemma lseg_del:
  assumes "lseg h a (ys @ x # zs) b" and "distinct (a # ys @ x # zs)" and "b \<notin> set (ys @ x # zs)"
  shows "lseg (list_del x h) a (ys @ zs) b"
  using assms
proof (induction ys arbitrary: a)
  case Nil
  then show ?case by (simp add: lseg_del_front)
next
  case (Cons y ys)
  have px: "prev (h x) = last (y # ys)"
    using Cons.prems(1) by (auto simp: lseg_append)
  then have ne: "prev (h x) \<noteq> x" "prev (h x) \<noteq> a" "prev (h x) \<in> set (y # ys)"
    using Cons.prems(2) last_in_set [of "y # ys"] by (auto split: if_splits)
  have nx: "next (h x) = hd (zs @ [b])"
    using Cons.prems(1) by (auto simp: lseg_append lseg_next_first)
  then have "next (h x) \<noteq> y"
    using Cons.prems(2,3) by (cases zs) auto
  moreover have "lseg (list_del x h) y (ys @ zs) b"
    using Cons.prems by (intro Cons.IH) auto
  ultimately show ?case
    using Cons.prems(1) ne by (simp add: list_del_fields)
qed

lemma ring_del:
  assumes "ring h a (ys @ x # zs)"
  shows "ring (list_del x h) a (ys @ zs)"
proof -
  have D: "distinct (a # ys @ x # zs)" and L: "lseg h a (ys @ x # zs) a"
    and P: "prev (h a) = last (a # ys @ x # zs)"
    using assms by (auto simp: ring_def)
  note pn = ring_split_prev_next [OF assms]
  have "prev (h x) \<noteq> x"
    using D pn(1) last_in_set [of "a # ys"] by (auto split: if_splits)
  then have "prev (list_del x h a) = last (a # ys @ zs)"
    using P D pn by (cases zs) (auto simp: list_del_fields)
  moreover have "lseg (list_del x h) a (ys @ zs) a"
    using L D by (intro lseg_del) auto
  ultimately show ?thesis using D by (simp add: ring_def)
qed

text \<open>A ring may be read from any of its entries, and so an entry can be added behind any of them.\<close>

lemma ring_rotate:
  assumes "ring h a (ys @ b # zs)"
  shows "ring h b (zs @ a # ys)"
  using assms by (auto simp: ring_def lseg_append)

lemma ring_add_after:
  assumes "ring h a (ys @ zs)" and "x \<notin> set (a # ys @ zs)"
  shows "ring (list_add_after (last (a # ys)) x h) a (ys @ x # zs)"
proof (cases ys rule: rev_cases)
  case Nil
  then show ?thesis using ring_add [of h a zs x] assms by (simp add: list_add_def)
next
  case (snoc us y)
  then have "ring h y (zs @ a # us)" using ring_rotate [of h a us y zs] assms(1) by simp
  then have "ring (list_add_after y x h) y ((x # zs) @ a # us)"
    using ring_add [of h y "zs @ a # us" x] assms(2) snoc by (auto simp: list_add_def)
  then show ?thesis using ring_rotate [of _ y "x # zs" a us] snoc by simp
qed

lemma list_add_after_ring_other:
  assumes "ring h a (ys @ zs)" "q \<notin> set (a # x # ys @ zs)"
  shows "list_add_after (last (a # ys)) x h q = h q"
proof (rule list_add_after_other)
  have "next (h (last (a # ys))) \<in> set (a # zs)"
    using assms(1) by (cases ys rule: rev_cases; cases zs) (auto simp: ring_def lseg_append)
  moreover have "last (a # ys) \<in> set (a # ys)" by (rule last_in_set) simp
  ultimately show "q \<notin> {last (a # ys), x, next (h (last (a # ys)))}" using assms(2) by auto
qed

text \<open>Appending at the tail, as \<open>list_add_before\<close> does when it is given the header.\<close>

lemma list_add_before_fields:
  assumes "x \<noteq> a" "prev (h a) \<noteq> x"
  shows "next (list_add_before a x h p) =
      (if p = x then a else if p = prev (h a) then x else next (h p))"
    "prev (list_add_before a x h p) =
      (if p = a then x else if p = x then prev (h a) else prev (h p))"
  using assms by (auto simp: link_defs Let_def)

lemma ring_add_before:
  assumes "ring h a xs" and "x \<notin> set (a # xs)"
  shows "ring (list_add_before a x h) a (xs @ [x])"
proof -
  have D: "distinct (a # xs)" and L: "lseg h a xs a" and P: "prev (h a) = last (a # xs)"
    using assms(1) by (auto simp: ring_def)
  have px: "prev (h a) \<noteq> x" and xa: "x \<noteq> a"
    using P assms(2) last_in_set [of "a # xs"] by (auto split: if_splits)
  have "lseg (list_add_before a x h) a xs x"
  proof (cases xs rule: rev_cases)
    case Nil
    then show ?thesis using px xa P by (simp add: list_add_before_fields)
  next
    case (snoc ys y)
    have "lseg (list_add_before a x h) a ys y = lseg h a ys y"
      by (rule lseg_cong_next_prev) (use snoc D P px xa assms(2) in \<open>auto simp: list_add_before_fields\<close>)
    with snoc L D px xa P assms(2) show ?thesis
      by (auto simp: lseg_snoc list_add_before_fields)
  qed
  then show ?thesis using D px P xa assms(2)
    by (auto simp: ring_def lseg_snoc list_add_before_fields)
qed

section \<open>Several lists in one heap\<close>

text \<open>The headers \<open>A\<close> own lists \<open>R\<close> that share no entry, so an operation on one of them leaves the
  others alone.\<close>

definition rings :: "'p heap \<Rightarrow> 'p set \<Rightarrow> ('p \<Rightarrow> 'p list) \<Rightarrow> bool" where
  "rings h A R \<longleftrightarrow> (\<forall>x \<in> A. ring h x (R x)) \<and>
     (\<forall>x \<in> A. \<forall>y \<in> A. x \<noteq> y \<longrightarrow> set (x # R x) \<inter> set (y # R y) = {})"

lemma ringsD: "rings h A R \<Longrightarrow> x \<in> A \<Longrightarrow> ring h x (R x)"
  by (simp add: rings_def)

lemma rings_apart:
  "rings h A R \<Longrightarrow> x \<in> A \<Longrightarrow> y \<in> A \<Longrightarrow> x \<noteq> y \<Longrightarrow> set (x # R x) \<inter> set (y # R y) = {}"
  unfolding rings_def by blast

lemma list_add_ring_other:
  assumes "ring h x xs" "q \<notin> set (x # xs)" "q \<noteq> n"
  shows "list_add x n h q = h q"
proof -
  have "next (h x) \<in> set (x # xs)" using assms(1) by (cases xs) (auto simp: ring_def)
  then show ?thesis using assms unfolding list_add_def by (intro list_add_after_other) auto
qed

lemma list_del_ring_other:
  assumes "ring h x (ys @ n # zs)" "q \<notin> set (x # ys @ zs)"
  shows "list_del n h q = h q"
proof -
  note pn = ring_split_prev_next [OF assms(1)]
  have "prev (h n) \<in> set (x # ys)" unfolding pn by (rule last_in_set) simp
  moreover have "next (h n) \<in> set (x # zs)" unfolding pn by (cases zs) auto
  ultimately show ?thesis using assms(2) by (intro list_del_other) auto
qed

lemma rings_add:
  assumes "rings h A R" "x \<in> A" "\<And>y. y \<in> A \<Longrightarrow> n \<notin> set (y # R y)"
  shows "rings (list_add x n h) A (R(x := n # R x))"
proof -
  have "ring (list_add x n h) y (R y)" if y: "y \<in> A" "y \<noteq> x" for y
  proof -
    have "list_add x n h q = h q" if "q \<in> set (y # R y)" for q
      using that y assms(3) [OF y(1)] rings_apart [OF assms(1,2) y(1)]
      by (intro list_add_ring_other [OF ringsD [OF assms(1,2)]]) auto
    then show ?thesis using ring_frame ringsD [OF assms(1) y(1)] by metis
  qed
  moreover have "ring (list_add x n h) x (n # R x)"
    by (rule ring_add [OF ringsD [OF assms(1,2)] assms(3) [OF assms(2)]])
  moreover have "set (y # (R(x := n # R x)) y) \<inter> set (z # (R(x := n # R x)) z) = {}"
    if "y \<in> A" "z \<in> A" "y \<noteq> z" for y z
    using rings_apart [OF assms(1) that] assms(3) [OF that(1)] assms(3) [OF that(2)] that(3) by auto
  ultimately show ?thesis unfolding rings_def by simp
qed

lemma rings_del:
  assumes "rings h A R" "x \<in> A" "R x = ys @ n # zs"
  shows "rings (list_del n h) A (R(x := ys @ zs))"
proof -
  note rx = ringsD [OF assms(1,2), unfolded assms(3)]
  have "ring (list_del n h) y (R y)" if y: "y \<in> A" "y \<noteq> x" for y
  proof -
    have "list_del n h q = h q" if "q \<in> set (y # R y)" for q
      using that y rings_apart [OF assms(1,2) y(1)] assms(3)
      by (intro list_del_ring_other [OF rx]) auto
    then show ?thesis using ring_frame ringsD [OF assms(1) y(1)] by metis
  qed
  moreover have "ring (list_del n h) x (ys @ zs)" by (rule ring_del [OF rx])
  moreover have "set (y # (R(x := ys @ zs)) y) \<inter> set (z # (R(x := ys @ zs)) z) = {}"
    if "y \<in> A" "z \<in> A" "y \<noteq> z" for y z
    using rings_apart [OF assms(1) that] assms(3) that(3) by auto
  ultimately show ?thesis unfolding rings_def by simp
qed

lemma rings_member_unique:
  assumes "rings h A R" "x \<in> A" "R x = ys @ n # zs"
  shows "n \<notin> set (ys @ zs)" "n \<noteq> x" "\<And>y. y \<in> A \<Longrightarrow> y \<noteq> x \<Longrightarrow> n \<notin> set (y # R y)"
proof -
  have "distinct (x # ys @ n # zs)" using ringsD [OF assms(1,2)] assms(3) by (simp add: ring_def)
  then show "n \<notin> set (ys @ zs)" "n \<noteq> x" by auto
  fix y assume "y \<in> A" "y \<noteq> x"
  then show "n \<notin> set (y # R y)" using rings_apart [OF assms(1,2)] assms(3) by fastforce
qed

text \<open>Moving an entry from one list to the front of another, as \<open>list_del\<close> and \<open>list_add\<close> do.\<close>

lemma rings_move:
  assumes "rings h A R" "x \<in> A" "R x = ys @ n # zs" "z \<in> A" "z \<noteq> x" "n \<notin> A"
  shows "rings (list_add z n (list_del n h)) A (R(x := ys @ zs, z := n # R z))"
proof -
  let ?R = "R(x := ys @ zs)"
  have "rings (list_del n h) A ?R" by (rule rings_del [OF assms(1-3)])
  moreover have "n \<notin> set (y # ?R y)" if "y \<in> A" for y
    using rings_member_unique [OF assms(1-3)] that assms(6) by auto
  ultimately have "rings (list_add z n (list_del n h)) A (?R(z := n # ?R z))"
    using assms(4) by (intro rings_add)
  then show ?thesis using assms(5) by simp
qed

lemma rings_init:
  assumes "rings h A R" "n \<notin> (\<Union>y \<in> A. set (y # R y))"
  shows "rings (list_init n h) (insert n A) (R(n := []))"
proof -
  have "ring (list_init n h) y (R y)" if "y \<in> A" for y
  proof -
    have "list_init n h q = h q" if "q \<in> set (y # R y)" for q
      using that \<open>y \<in> A\<close> assms(2) by (intro list_init_other) auto
    then show ?thesis using ring_frame ringsD [OF assms(1) \<open>y \<in> A\<close>] by metis
  qed
  moreover have n: "n \<notin> set (y # R y)" "y \<noteq> n" if "y \<in> A" for y using assms(2) that by auto
  ultimately have "\<forall>y \<in> insert n A. ring (list_init n h) y ((R(n := [])) y)"
    using ring_init [of n h] by simp
  moreover have "set (y # (R(n := [])) y) \<inter> set (z # (R(n := [])) z) = {}"
    if "y \<in> insert n A" "z \<in> insert n A" "y \<noteq> z" for y z
    using that n [of y] n [of z] rings_apart [OF assms(1), of y z] by (cases "y = n"; cases "z = n") auto
  ultimately show ?thesis unfolding rings_def by blast
qed

section \<open>Walking a list\<close>

text \<open>The loop \<open>while ((le = list_next(le)) != list)\<close> of the kernel, with \<open>f\<close> for its body.\<close>

partial_function (option) list_walk ::
  "('p \<Rightarrow> 's \<Rightarrow> 's option) \<Rightarrow> 'p heap \<Rightarrow> 'p \<Rightarrow> 'p \<Rightarrow> 's \<Rightarrow> 's option" where
  "list_walk f h list le s =
     (let le = list_next le h
      in if le = list then Some s
         else (case f le s of None \<Rightarrow> None | Some s \<Rightarrow> list_walk f h list le s))"

lemma list_walk_lseg:
  "lseg h le xs list \<Longrightarrow> list \<notin> set xs \<Longrightarrow>
   list_walk f h list le s = fold (\<lambda>x r. Option.bind r (f x)) xs (Some s)"
proof (induction xs arbitrary: le s)
  case Nil
  then show ?case by (subst list_walk.simps) (simp add: list_next_def)
next
  case (Cons x xs)
  have none: "fold (\<lambda>x r. Option.bind r (f x)) ys None = None" for ys :: "'a list"
    by (induction ys) simp_all
  show ?case
    using Cons by (subst list_walk.simps) (auto simp: list_next_def none split: option.split)
qed

lemma list_walk_ring:
  "ring h list xs \<Longrightarrow> list_walk f h list list s = fold (\<lambda>x r. Option.bind r (f x)) xs (Some s)"
  by (rule list_walk_lseg) (auto simp: ring_def)

end
