(* ===== verification/PageAlloc.thy ===== *)
theory PageAlloc
  imports Prelude
begin

text \<open>
  The interface \<open>struct pmm_manager\<close> of kern/mm/pmm.h: the table of functions through which
  the kernel reaches its physical page allocator, and the contract the callers rely on. A page
  pointer is an index in \<open>pages\<close>; a null result is \<open>None\<close>.
\<close>

section \<open>The function table\<close>

record 's pmm_manager =
  pm_name :: string
  pm_init :: "'s \<Rightarrow> 's"
  pm_init_memmap :: "nat \<Rightarrow> nat \<Rightarrow> 's \<Rightarrow> 's"
  pm_alloc_pages :: "nat \<Rightarrow> 's \<Rightarrow> (nat option \<times> 's) option"
  pm_free_pages :: "nat \<Rightarrow> nat \<Rightarrow> 's \<Rightarrow> 's option"

text \<open>The wrappers \<open>alloc_pages\<close>, \<open>free_pages\<close> and \<open>init_memmap\<close> of kern/mm/pmm.c.\<close>

definition alloc_pages :: "'s pmm_manager \<Rightarrow> nat \<Rightarrow> 's \<Rightarrow> (nat option \<times> 's) option" where
  "alloc_pages m n s = pm_alloc_pages m n s"

definition free_pages :: "'s pmm_manager \<Rightarrow> nat \<Rightarrow> nat \<Rightarrow> 's \<Rightarrow> 's option" where
  "free_pages m base n s = pm_free_pages m base n s"

definition init_memmap :: "'s pmm_manager \<Rightarrow> nat \<Rightarrow> nat \<Rightarrow> 's \<Rightarrow> 's" where
  "init_memmap m base n s = pm_init_memmap m base n s"

section \<open>Clients of the allocator\<close>

text \<open>What a sequence of calls can reach: the state of the allocator and the blocks
  \<open>(base, n)\<close> the callers hold.\<close>

inductive alloc_reach ::
  "'s pmm_manager \<Rightarrow> 's \<Rightarrow> 's \<Rightarrow> (nat \<times> nat) list \<Rightarrow> bool" for m s0 where
  start: "alloc_reach m s0 s0 []"
| got: "\<lbrakk>alloc_reach m s0 s held; 0 < n; alloc_pages m n s = Some (Some p, s')\<rbrakk>
    \<Longrightarrow> alloc_reach m s0 s' ((p, n) # held)"
| none: "\<lbrakk>alloc_reach m s0 s held; 0 < n; alloc_pages m n s = Some (None, s')\<rbrakk>
    \<Longrightarrow> alloc_reach m s0 s' held"
| freed: "\<lbrakk>alloc_reach m s0 s held; (p, n) \<in> set held; free_pages m p n s = Some s'\<rbrakk>
    \<Longrightarrow> alloc_reach m s0 s' (remove1 (p, n) held)"

inductive_cases alloc_reachE: "alloc_reach m s0 s held"

definition span :: "nat \<times> nat \<Rightarrow> nat set" where
  "span b = {fst b..<fst b + snd b}"

fun held_apart :: "(nat \<times> nat) list \<Rightarrow> bool" where
  "held_apart [] = True"
| "held_apart (b # bs) \<longleftrightarrow> (\<forall>c \<in> set bs. span b \<inter> span c = {}) \<and> held_apart bs"

definition held_pages :: "(nat \<times> nat) list \<Rightarrow> nat set" where
  "held_pages bs = (\<Union>b \<in> set bs. span b)"

lemma held_pages_simps [simp]:
  "held_pages [] = {}" "held_pages (b # bs) = span b \<union> held_pages bs"
  by (auto simp: held_pages_def)

lemma held_apart_remove1: "held_apart bs \<Longrightarrow> held_apart (remove1 b bs)"
proof (induction bs)
  case (Cons c cs)
  then show ?case using set_remove1_subset [of b cs] by (auto simp: subset_iff)
qed simp

lemma held_pages_remove1:
  "held_apart bs \<Longrightarrow> b \<in> set bs \<Longrightarrow> held_pages (remove1 b bs) = held_pages bs - span b"
proof (induction bs)
  case (Cons c cs)
  have d: "span c \<inter> held_pages cs = {}" using Cons.prems(1) by (auto simp: held_pages_def)
  show ?case
  proof (cases "b = c")
    case True
    with d show ?thesis by simp blast
  next
    case False
    with Cons.prems have "b \<in> set cs" "held_apart cs" by auto
    then have "held_pages (remove1 b cs) = held_pages cs - span b" "span b \<subseteq> held_pages cs"
      using Cons.IH by (auto simp: held_pages_def)
    with False d show ?thesis by simp blast
  qed
qed simp

lemma span_held: "b \<in> set bs \<Longrightarrow> span b \<subseteq> held_pages bs"
  by (auto simp: held_pages_def)

section \<open>The contract\<close>

text \<open>\<open>rel s F\<close> says that in state \<open>s\<close> exactly the pages \<open>F\<close> are free. An allocation of \<open>n > 0\<close>
  pages gives a run of free pages, or no page, which is all the page tables rely on (\<open>page_source\<close>);
  giving a run below the allocator's limit back makes exactly those pages free again.\<close>

locale page_source =
  fixes m :: "'s pmm_manager" and rel :: "'s \<Rightarrow> nat set \<Rightarrow> bool" and limit :: nat
  assumes alloc_law: "\<lbrakk>rel s F; 0 < n; alloc_pages m n s = Some (r, s')\<rbrakk> \<Longrightarrow>
      (case r of None \<Rightarrow> s' = s
       | Some p \<Rightarrow> {p..<p + n} \<subseteq> F \<and> n < limit \<and> rel s' (F - {p..<p + n}))"
begin

lemma alloc_some:
  assumes "rel s F" "0 < n" "alloc_pages m n s = Some (Some p, s')"
  shows "{p..<p + n} \<subseteq> F" "n < limit" "rel s' (F - {p..<p + n})"
  using alloc_law [OF assms] by auto

lemma alloc_none: "rel s F \<Longrightarrow> 0 < n \<Longrightarrow> alloc_pages m n s = Some (None, s') \<Longrightarrow> s' = s"
  using alloc_law [of s F n None s'] by simp

end

locale page_allocator = page_source m rel limit
  for m :: "'s pmm_manager" and rel :: "'s \<Rightarrow> nat set \<Rightarrow> bool" and limit :: nat +
  assumes free_law: "\<lbrakk>rel s F; {p..<p + n} \<inter> F = {}; n < limit\<rbrakk> \<Longrightarrow>
      \<exists>s'. free_pages m p n s = Some s' \<and> rel s' (F \<union> {p..<p + n})"
begin

lemma alloc_free_restores:
  assumes "rel s F" "0 < n" "alloc_pages m n s = Some (Some p, s')"
  shows "\<exists>s''. free_pages m p n s' = Some s'' \<and> rel s'' F"
proof -
  note A = alloc_some [OF assms]
  have "{p..<p + n} \<inter> (F - {p..<p + n}) = {}" by blast
  from free_law [OF A(3) this A(2)] obtain s'' where
    "free_pages m p n s' = Some s''" "rel s'' (F - {p..<p + n} \<union> {p..<p + n})" by blast
  moreover have "F - {p..<p + n} \<union> {p..<p + n} = F" using A(1) by blast
  ultimately show ?thesis by auto
qed

lemma reach_inv:
  assumes "alloc_reach m s0 s held" and "rel s0 F"
  shows "rel s (F - held_pages held) \<and> held_pages held \<subseteq> F \<and> held_apart held \<and>
    (\<forall>b \<in> set held. snd b < limit)"
  using assms
proof (induction rule: alloc_reach.induct)
  case start
  then show ?case by simp
next
  case (got s held n p s')
  then have R: "rel s (F - held_pages held)" "held_pages held \<subseteq> F" "held_apart held"
    "\<forall>b \<in> set held. snd b < limit" by auto
  note A = alloc_some [OF R(1) got.hyps(2,3)]
  have sp: "span (p, n) = {p..<p + n}" by (simp add: span_def)
  have "F - held_pages held - {p..<p + n} = F - held_pages ((p, n) # held)"
    unfolding held_pages_simps sp by blast
  moreover have "span (p, n) \<inter> span c = {}" if "c \<in> set held" for c
    using A(1) span_held [OF that] unfolding sp by blast
  ultimately show ?case using A R unfolding held_pages_simps sp by (simp add: sp) blast
next
  case (none s held n s')
  then show ?case using alloc_none by blast
next
  case (freed s held p n s')
  then have R: "rel s (F - held_pages held)" "held_pages held \<subseteq> F" "held_apart held"
    "\<forall>b \<in> set held. snd b < limit" by auto
  have sub: "span (p, n) \<subseteq> held_pages held" by (rule span_held [OF freed.hyps(2)])
  then have "{p..<p + n} \<inter> (F - held_pages held) = {}" by (auto simp: span_def)
  moreover have "n < limit" using R(4) freed.hyps(2) by force
  ultimately obtain t where "free_pages m p n s = Some t" "rel t (F - held_pages held \<union> {p..<p + n})"
    using free_law [OF R(1)] by blast
  then have "rel s' (F - held_pages held \<union> {p..<p + n})" using freed.hyps(3) by simp
  moreover have "F - held_pages held \<union> {p..<p + n} = F - held_pages (remove1 (p, n) held)"
    using sub R(2) held_pages_remove1 [OF R(3) freed.hyps(2)] by (auto simp: span_def)
  moreover have "held_pages (remove1 (p, n) held) \<subseteq> F"
    using R(2) set_remove1_subset [of "(p, n)" held] by (auto simp: held_pages_def)
  ultimately show ?case
    using held_apart_remove1 [OF R(3)] R(4) set_remove1_subset [of "(p, n)" held] by auto
qed

lemma free_never_fails:
  assumes "alloc_reach m s0 s held" and "rel s0 F" and "(p, n) \<in> set held"
  shows "\<exists>s'. free_pages m p n s = Some s'"
proof -
  note R = reach_inv [OF assms(1,2)]
  have "{p..<p + n} \<inter> (F - held_pages held) = {}"
    using span_held [OF assms(3)] by (auto simp: span_def)
  moreover have "n < limit" using R assms(3) by force
  ultimately show ?thesis using R free_law by blast
qed

end

text \<open>An allocator that never refuses a single page while one is free.\<close>

locale page_supplier = page_allocator m rel limit
  for m :: "'s pmm_manager" and rel :: "'s \<Rightarrow> nat set \<Rightarrow> bool" and limit :: nat +
  assumes one_law: "\<lbrakk>rel s F; F \<noteq> {}\<rbrakk> \<Longrightarrow> \<exists>p s'. alloc_pages m 1 s = Some (Some p, s')"

end
