(* ===== verification/Buddy.thy ===== *)
theory Buddy
  imports Clist PageAlloc
begin

text \<open>
  kern/mm/buddy_pmm.c with the page descriptors of kern/mm/memlayout.h: the physical page
  allocator. A page pointer is its index in the array \<open>pages\<close>; the list entries of the
  allocator are the headers \<open>free_list(0..10)\<close> and the \<open>page_link\<close> of each page. The invariant
  \<open>buddy_inv\<close> ties the eleven lists to a family of free blocks; \<open>buddy_rel\<close> relates a state to
  the set of its free pages, and the operations are shown to refine "take pages out of the set"
  and "put pages back into it".
\<close>

section \<open>State\<close>

definition MAX_ORDER :: nat where
  "MAX_ORDER = 10"

text \<open>A value of a \<open>list_entry_t *\<close> that the physical allocator can meet. The slab allocator
  reuses the two pointers of a page's \<open>page_link\<close> for a cache and a slab, hence the last two.\<close>

datatype page_ptr = Null | FreeList nat | PageLink nat | CacheRef nat | SlabRef u32

record page =
  flags :: u32
  order :: nat

record buddy =
  pg :: "nat \<Rightarrow> page"
  links :: "page_ptr heap"
  nr_free :: "nat \<Rightarrow> u32"

abbreviation set_order :: "nat \<Rightarrow> nat \<Rightarrow> buddy \<Rightarrow> buddy" where
  "set_order p k s \<equiv> s\<lparr>pg := (pg s)(p := (pg s p)\<lparr>order := k\<rparr>)\<rparr>"

section \<open>Operations\<close>

text \<open>The zero-initialised static array \<open>free_area\<close> before \<open>buddy_init\<close>.\<close>

definition static_free_area :: "(nat \<Rightarrow> page) \<Rightarrow> buddy" where
  "static_free_area p = \<lparr>pg = p, links = (\<lambda>_. \<lparr>prev = Null, next = Null\<rparr>), nr_free = (\<lambda>_. 0)\<rparr>"

definition buddy_init :: "buddy \<Rightarrow> buddy" where
  "buddy_init s =
     fold (\<lambda>i s. s\<lparr>links := list_init (FreeList i) (links s), nr_free := (nr_free s)(i := 0)\<rparr>)
       [0..<MAX_ORDER] s"

text \<open>\<open>list_add\<close> of a page to the list of an order, with its counter.\<close>

definition link_block :: "nat \<Rightarrow> nat \<Rightarrow> buddy \<Rightarrow> buddy" where
  "link_block i p s = s\<lparr>links := list_add (FreeList i) (PageLink p) (links s),
     nr_free := (nr_free s)(i := nr_free s i + 1)\<rparr>"

definition unlink_block :: "nat \<Rightarrow> nat \<Rightarrow> buddy \<Rightarrow> buddy" where
  "unlink_block i p s = s\<lparr>links := list_del (PageLink p) (links s),
     nr_free := (nr_free s)(i := nr_free s i - 1)\<rparr>"

definition clear_pages :: "nat \<Rightarrow> nat \<Rightarrow> buddy \<Rightarrow> buddy" where
  "clear_pages base n s =
     fold (\<lambda>p s. s\<lparr>pg := (pg s)(p := \<lparr>flags = 0, order = 0\<rparr>)\<rparr>) [base..<base + n] s"

function memmap_fill :: "nat \<Rightarrow> nat \<Rightarrow> nat \<Rightarrow> buddy \<Rightarrow> nat \<times> nat \<times> buddy" where
  "memmap_fill k p n s =
     (if 2 ^ k \<le> n then memmap_fill k (p + 2 ^ k) (n - 2 ^ k) (link_block k p (set_order p k s))
      else (p, n, s))"
  by pat_completeness auto
termination
  by (relation "measure (\<lambda>(k, p, n, s). n)") (auto intro!: diff_less simp: order_less_le_trans [of 0 "2 ^ _"])

declare memmap_fill.simps [simp del]

text \<open>The outer loop runs the order down; when it leaves order 0 no page remains, because
  the inner loop with blocks of one page has taken them all.\<close>

fun memmap_orders :: "nat \<Rightarrow> nat \<Rightarrow> nat \<Rightarrow> buddy \<Rightarrow> buddy" where
  "memmap_orders k p n s =
     (if n = 0 then s
      else (case memmap_fill k p n s of (p', n', s') \<Rightarrow>
        (case k of 0 \<Rightarrow> s' | Suc k' \<Rightarrow> memmap_orders k' p' n' s')))"

declare memmap_orders.simps [simp del]

definition buddy_init_memmap :: "nat \<Rightarrow> nat \<Rightarrow> buddy \<Rightarrow> buddy" where
  "buddy_init_memmap base n s = memmap_orders MAX_ORDER base n (clear_pages base n s)"

fun alloc_split :: "nat \<Rightarrow> nat \<Rightarrow> nat \<Rightarrow> nat \<Rightarrow> buddy \<Rightarrow> buddy" where
  "alloc_split pg0 0 sz k s = s"
| "alloc_split pg0 (Suc i) sz k s =
     (if k < Suc i then
        (let sz = sz div 2; b = pg0 + sz
         in alloc_split pg0 i sz k (link_block i b (set_order b i s)))
      else s)"

function alloc_scan :: "nat \<Rightarrow> nat \<Rightarrow> buddy \<Rightarrow> (nat option \<times> buddy) option" where
  "alloc_scan k i s =
     (if i \<le> MAX_ORDER then
        (if \<not> list_empty (FreeList i) (links s) then
           (case list_next (FreeList i) (links s) of
              PageLink p \<Rightarrow> Some (Some p, alloc_split p i (2 ^ i) k (unlink_block i p s))
            | _ \<Rightarrow> None)
         else alloc_scan k (Suc i) s)
      else Some (None, s))"
  by pat_completeness auto
termination
  by (relation "measure (\<lambda>(k, i, s). Suc MAX_ORDER - i)") auto

declare alloc_scan.simps [simp del]

definition buddy_alloc_pages_sub :: "nat \<Rightarrow> buddy \<Rightarrow> (nat option \<times> buddy) option" where
  "buddy_alloc_pages_sub k s = alloc_scan k k s"

text \<open>\<open>return -1\<close> of a \<open>size_t\<close> function is the largest \<open>size_t\<close>.\<close>

function getorder_loop :: "nat \<Rightarrow> nat \<Rightarrow> nat \<Rightarrow> nat" where
  "getorder_loop k order_size n =
     (if k \<le> MAX_ORDER then
        (if n \<le> order_size then k else getorder_loop (Suc k) (2 * order_size) n)
      else 4294967295)"
  by pat_completeness auto
termination
  by (relation "measure (\<lambda>(k, order_size, n). Suc MAX_ORDER - k)") auto

declare getorder_loop.simps [simp del]

definition getorder :: "nat \<Rightarrow> nat" where
  "getorder n = getorder_loop 0 1 n"

text \<open>The merging loop of \<open>buddy_free_pages_sub\<close>: only the first block of each list is looked
  at; on a match it is unlinked and the loop goes on one order up, otherwise \<open>flag\<close> stops it.\<close>

function coalesce :: "nat \<Rightarrow> nat \<Rightarrow> buddy \<Rightarrow> (nat \<times> nat \<times> buddy) option" where
  "coalesce i p s =
     (if i < MAX_ORDER then
        (let le = list_next (FreeList i) (links s) in
         if le = FreeList i then Some (i, p, s)
         else (case le of
             PageLink b \<Rightarrow>
               (if p = b + 2 ^ order (pg s b) then
                  (let s = unlink_block i b s
                   in coalesce (Suc i) b (set_order b (order (pg s b) + 1) s))
                else if p + 2 ^ order (pg s p) = b then
                  (let s = unlink_block i b s
                   in coalesce (Suc i) p (set_order p (order (pg s p) + 1) s))
                else Some (i, p, s))
           | _ \<Rightarrow> None))
      else Some (i, p, s))"
  by pat_completeness auto
termination
  by (relation "measure (\<lambda>(i, p, s). MAX_ORDER - i)") auto

declare coalesce.simps [simp del]

definition buddy_free_pages_sub :: "nat \<Rightarrow> nat \<Rightarrow> buddy \<Rightarrow> buddy option" where
  "buddy_free_pages_sub base k s =
     do { (i, p, s) \<leftarrow> coalesce k base (set_order base k s);
          if i \<le> MAX_ORDER then Some (link_block i p s) else None }"

function free_size :: "nat \<Rightarrow> nat \<Rightarrow> nat \<Rightarrow> nat \<times> nat" where
  "free_size i sz n = (if sz \<le> n \<and> 0 < sz then free_size (Suc i) (2 * sz) n else (i, sz))"
  by pat_completeness auto
termination
  by (relation "measure (\<lambda>(i, sz, n). Suc n - sz)") auto

declare free_size.simps [simp del]

fun shrink_size :: "nat \<Rightarrow> nat \<Rightarrow> nat \<Rightarrow> nat \<times> nat" where
  "shrink_size 0 sz n = (0, sz)"
| "shrink_size (Suc i) sz n =
     (if n < sz then shrink_size i (sz div 2) n else (Suc i, sz))"

text \<open>The splitting loop of \<open>buddy_free_pages\<close>. The guard \<open>0 < sz\<close> only serves the
  termination proof: \<open>sz\<close> is \<open>2 ^ i\<close> throughout.\<close>

function free_blocks :: "nat \<Rightarrow> nat \<Rightarrow> nat \<Rightarrow> nat \<Rightarrow> buddy \<Rightarrow> buddy option" where
  "free_blocks base i sz n s =
     (if n = 0 then Some s
      else (case shrink_size i sz n of (i, sz) \<Rightarrow>
        if 0 < sz then
          (case buddy_free_pages_sub base i (set_order base i s) of
             None \<Rightarrow> None
           | Some s \<Rightarrow> free_blocks (base + sz) i sz (n - sz) s)
        else None))"
  by pat_completeness auto
termination
  by (relation "measure (\<lambda>(base, i, sz, n, s). n)") auto

declare free_blocks.simps [simp del]

definition buddy_free_pages :: "nat \<Rightarrow> nat \<Rightarrow> buddy \<Rightarrow> buddy option" where
  "buddy_free_pages base n s =
     (if n = 1 then buddy_free_pages_sub base 0 s
      else (case free_size 0 1 n of (i, sz) \<Rightarrow> free_blocks base i sz n s))"

definition buddy_alloc_pages :: "nat \<Rightarrow> buddy \<Rightarrow> (nat option \<times> buddy) option" where
  "buddy_alloc_pages n s =
     (if n = 0 then Some (None, s)
      else do {
        (page, s) \<leftarrow> buddy_alloc_pages_sub (getorder n) s;
        case page of
          None \<Rightarrow> Some (None, s)
        | Some p \<Rightarrow>
            if n \<noteq> 2 ^ getorder n then
              do { s \<leftarrow> buddy_free_pages (p + n) (2 ^ getorder n - n) s; Some (Some p, s) }
            else Some (Some p, s) })"

section \<open>Free blocks and free pages\<close>

definition blocks :: "(nat \<Rightarrow> nat list) \<Rightarrow> (nat \<times> nat) set" where
  "blocks L = {(i, p). i \<le> MAX_ORDER \<and> p \<in> set (L i)}"

definition extent :: "nat \<Rightarrow> nat \<Rightarrow> nat set" where
  "extent i p = {p..<p + 2 ^ i}"

definition cover :: "(nat \<Rightarrow> nat list) \<Rightarrow> nat set" where
  "cover L = (\<Union>(i, p) \<in> blocks L. extent i p)"

definition disjoint_blocks :: "(nat \<Rightarrow> nat list) \<Rightarrow> bool" where
  "disjoint_blocks L \<longleftrightarrow>
     (\<forall>(i, p) \<in> blocks L. \<forall>(j, q) \<in> blocks L. (i, p) \<noteq> (j, q) \<longrightarrow> extent i p \<inter> extent j q = {})"

text \<open>The entry at which the list of order \<open>i\<close> ends: its own header, except that
  \<open>buddy_init\<close> leaves the header of order \<open>MAX_ORDER\<close> zeroed, so that list ends in \<open>Null\<close>.\<close>

definition list_end :: "page_ptr \<Rightarrow> nat \<Rightarrow> page_ptr" where
  "list_end t i = (if i = MAX_ORDER then t else FreeList i)"

definition buddy_inv :: "page_ptr \<Rightarrow> buddy \<Rightarrow> (nat \<Rightarrow> nat list) \<Rightarrow> bool" where
  "buddy_inv t s L \<longleftrightarrow> t \<in> {Null, FreeList MAX_ORDER} \<and> disjoint_blocks L \<and>
     (\<forall>i \<le> MAX_ORDER.
        lseg (links s) (FreeList i) (map PageLink (L i)) (list_end t i) \<and>
        distinct (L i) \<and> nr_free s i = of_nat (length (L i)) \<and>
        (\<forall>p \<in> set (L i). order (pg s p) = i))"

definition buddy_rel :: "page_ptr \<Rightarrow> buddy \<Rightarrow> nat set \<Rightarrow> bool" where
  "buddy_rel t s F \<longleftrightarrow> (\<exists>L. buddy_inv t s L \<and> cover L = F)"

lemma extent_nonempty [simp]: "p \<in> extent i p"
  by (simp add: extent_def)

lemma extent_ne [simp]: "extent i p \<noteq> {}"
  using extent_nonempty by blast

lemma block_in_cover: "i \<le> MAX_ORDER \<Longrightarrow> p \<in> set (L i) \<Longrightarrow> extent i p \<subseteq> cover L"
  by (auto simp: cover_def blocks_def)

lemma head_in_cover: "i \<le> MAX_ORDER \<Longrightarrow> p \<in> set (L i) \<Longrightarrow> p \<in> cover L"
  using block_in_cover extent_nonempty by blast

lemma disjoint_blocksD:
  "\<lbrakk>disjoint_blocks L; i \<le> MAX_ORDER; j \<le> MAX_ORDER; p \<in> set (L i); q \<in> set (L j);
    (i, p) \<noteq> (j, q)\<rbrakk> \<Longrightarrow> extent i p \<inter> extent j q = {}"
  by (fastforce simp: disjoint_blocks_def blocks_def)

lemma disjoint_heads:
  "\<lbrakk>disjoint_blocks L; i \<le> MAX_ORDER; j \<le> MAX_ORDER; p \<in> set (L i); p \<in> set (L j)\<rbrakk> \<Longrightarrow> i = j"
  using disjoint_blocksD [of L i j p p] extent_nonempty by blast

lemma blocks_push:
  "i \<le> MAX_ORDER \<Longrightarrow> blocks (L(i := p # L i)) = insert (i, p) (blocks L)"
  by (auto simp: blocks_def split: if_splits)

lemma cover_push:
  "i \<le> MAX_ORDER \<Longrightarrow> cover (L(i := p # L i)) = extent i p \<union> cover L"
  by (auto simp: cover_def blocks_push)

lemma disjoint_push:
  assumes "disjoint_blocks L" "i \<le> MAX_ORDER" "extent i p \<inter> cover L = {}"
  shows "disjoint_blocks (L(i := p # L i))"
proof -
  have "\<And>j q. (j, q) \<in> blocks L \<Longrightarrow> extent i p \<inter> extent j q = {}"
    using assms(3) by (fastforce simp: cover_def)
  then show ?thesis
    using assms(1,2) by (auto simp: disjoint_blocks_def blocks_push Int_commute) blast+
qed

lemma blocks_pop:
  assumes "i \<le> MAX_ORDER" "L i = p # ps" "distinct (L i)"
  shows "blocks (L(i := ps)) = blocks L - {(i, p)}"
  using assms by (auto simp: blocks_def split: if_splits)

lemma cover_pop:
  assumes "i \<le> MAX_ORDER" "L i = p # ps" "distinct (L i)" "disjoint_blocks L"
  shows "cover (L(i := ps)) = cover L - extent i p"
proof -
  have mem: "(i, p) \<in> blocks L" using assms by (simp add: blocks_def)
  then have "\<And>j q. (j, q) \<in> blocks L \<Longrightarrow> (j, q) \<noteq> (i, p) \<Longrightarrow> extent j q \<inter> extent i p = {}"
    using assms(4) by (fastforce simp: disjoint_blocks_def)
  with mem show ?thesis
    by (auto simp: cover_def blocks_pop [where L = L and i = i, OF assms(1-3)])
qed

lemma disjoint_pop:
  assumes "i \<le> MAX_ORDER" "L i = p # ps" "distinct (L i)" "disjoint_blocks L"
  shows "disjoint_blocks (L(i := ps))"
proof -
  have "blocks (L(i := ps)) \<subseteq> blocks L"
    by (simp add: blocks_pop [where L = L and i = i, OF assms(1-3)])
  with assms(4) show ?thesis unfolding disjoint_blocks_def by blast
qed

section \<open>Linking and unlinking a block\<close>

lemma buddy_invD:
  assumes "buddy_inv t s L" "i \<le> MAX_ORDER"
  shows "lseg (links s) (FreeList i) (map PageLink (L i)) (list_end t i)" "distinct (L i)"
    "nr_free s i = of_nat (length (L i))" "p \<in> set (L i) \<Longrightarrow> order (pg s p) = i"
  using assms by (auto simp: buddy_inv_def)

lemma buddy_inv_set_order:
  "buddy_inv t s L \<Longrightarrow> p \<notin> cover L \<Longrightarrow> buddy_inv t (set_order p k s) L"
  using head_in_cover by (fastforce simp: buddy_inv_def)

lemma list_end_not_page: "t \<in> {Null, FreeList MAX_ORDER} \<Longrightarrow> list_end t i \<noteq> PageLink p"
  by (auto simp: list_end_def)

lemma first_entry:
  assumes "buddy_inv t s L" "i \<le> MAX_ORDER"
  shows "next (links s (FreeList i)) = (case L i of [] \<Rightarrow> list_end t i | p # _ \<Rightarrow> PageLink p)"
  using lseg_next_first [OF buddy_invD(1) [OF assms]] by (auto split: list.split)

lemma link_block_inv:
  assumes inv: "buddy_inv t s L" and i: "i \<le> MAX_ORDER"
    and fresh: "extent i p \<inter> cover L = {}" and ord: "order (pg s p) = i"
  shows "buddy_inv t (link_block i p s) (L(i := p # L i))"
proof -
  have t: "t \<in> {Null, FreeList MAX_ORDER}" and dj: "disjoint_blocks L"
    using inv by (auto simp: buddy_inv_def)
  have pL: "\<And>j. j \<le> MAX_ORDER \<Longrightarrow> p \<notin> set (L j)"
    using fresh head_in_cover extent_nonempty by (metis disjoint_iff)
  let ?h = "list_add (FreeList i) (PageLink p) (links s)"
  have own: "lseg ?h (FreeList i) (map PageLink (p # L i)) (list_end t i)"
    using lseg_add_front [OF buddy_invD(1) [OF inv i], of "PageLink p"]
      buddy_invD(2) [OF inv i] pL [OF i] list_end_not_page [OF t, of i p]
    by (simp add: distinct_map inj_on_def image_iff not_sym)
  have other: "lseg ?h (FreeList j) (map PageLink (L j)) (list_end t j)"
    if j: "j \<le> MAX_ORDER" "j \<noteq> i" for j
  proof -
    have apart: "\<And>p. p \<in> set (L j) \<Longrightarrow> p \<notin> set (L i)"
      using disjoint_heads [OF dj i j(1)] j(2) by blast
    have "?h q = links s q" if q: "q \<in> set (FreeList j # map PageLink (L j))" for q
    proof -
      have "q \<noteq> next (links s (FreeList i))"
        using q j t apart first_entry [OF inv i]
        by (auto simp: list_end_def split: list.splits if_splits)
      then show ?thesis
        using q j pL [OF j(1)] unfolding list_add_def
        by (intro list_add_after_other) auto
    qed
    then show ?thesis using lseg_frame buddy_invD(1) [OF inv j(1)] by metis
  qed
  show ?thesis
    using t own other inv i ord pL disjoint_push [OF dj i fresh]
    by (auto simp: buddy_inv_def link_block_def)
qed

lemma unlink_block_inv:
  assumes inv: "buddy_inv t s L" and i: "i \<le> MAX_ORDER" and Li: "L i = p # ps"
  shows "buddy_inv t (unlink_block i p s) (L(i := ps))"
proof -
  have t: "t \<in> {Null, FreeList MAX_ORDER}" and dj: "disjoint_blocks L"
    using inv by (auto simp: buddy_inv_def)
  let ?h = "list_del (PageLink p) (links s)"
  have seg: "lseg (links s) (FreeList i) (PageLink p # map PageLink ps) (list_end t i)"
    using buddy_invD(1) [OF inv i] Li by simp
  have own: "lseg ?h (FreeList i) (map PageLink ps) (list_end t i)"
    using lseg_del_front [OF seg] buddy_invD(2) [OF inv i] Li list_end_not_page [OF t]
    by (auto simp: distinct_map inj_on_def)
  have other: "lseg ?h (FreeList j) (map PageLink (L j)) (list_end t j)"
    if j: "j \<le> MAX_ORDER" "j \<noteq> i" for j
  proof -
    have apart: "\<And>p. p \<in> set (L j) \<Longrightarrow> p \<notin> set (L i)"
      using disjoint_heads [OF dj i j(1)] j(2) by blast
    have "?h q = links s q" if q: "q \<in> set (FreeList j # map PageLink (L j))" for q
    proof -
      have "next (links s (PageLink p)) = hd (map PageLink ps @ [list_end t i])"
        using seg lseg_next_first by fastforce
      then have "q \<noteq> next (links s (PageLink p))"
        using q j t apart Li
        by (cases ps) (auto simp: list_end_def split: if_splits)
      moreover have "q \<noteq> prev (links s (PageLink p))"
        using q j seg by auto
      ultimately show ?thesis by (simp add: list_del_other)
    qed
    then show ?thesis using lseg_frame buddy_invD(1) [OF inv j(1)] by metis
  qed
  have "distinct (L i)" by (rule buddy_invD(2) [OF inv i])
  then show ?thesis
    using t own other inv i Li disjoint_pop [OF i Li _ dj]
    by (auto simp: buddy_inv_def unlink_block_def)
qed

section \<open>What an operation leaves alone\<close>

text \<open>Outside the pages \<open>A\<close> no \<open>page_link\<close> changes; page flags never do.\<close>

definition keeps_pages :: "nat set \<Rightarrow> buddy \<Rightarrow> buddy \<Rightarrow> bool" where
  "keeps_pages A s s' \<longleftrightarrow>
     (\<forall>p. p \<notin> A \<longrightarrow> links s' (PageLink p) = links s (PageLink p)) \<and>
     (\<forall>p. flags (pg s' p) = flags (pg s p))"

lemma keeps_pages_refl [simp]: "keeps_pages A s s"
  by (simp add: keeps_pages_def)

lemma keeps_pages_trans:
  "keeps_pages A s s' \<Longrightarrow> keeps_pages B s' s'' \<Longrightarrow> A \<union> B \<subseteq> C \<Longrightarrow> keeps_pages C s s''"
  by (fastforce simp: keeps_pages_def)

lemma keeps_pages_mono: "keeps_pages A s s' \<Longrightarrow> A \<subseteq> B \<Longrightarrow> keeps_pages B s s'"
  by (auto simp: keeps_pages_def)

lemma keeps_pages_set_order [simp]: "keeps_pages A s (set_order p k s)"
  by (simp add: keeps_pages_def)

lemma keeps_pages_link:
  assumes "buddy_inv t s L" "i \<le> MAX_ORDER"
  shows "keeps_pages (insert p (cover L)) s (link_block i p s)"
proof -
  have "q \<noteq> next (links s (FreeList i))" if "q = PageLink p'" "p' \<notin> cover L" for p' q
    using that first_entry [OF assms] list_end_not_page [of t i] assms(1)
      head_in_cover [OF assms(2), of p' L]
    by (auto simp: buddy_inv_def split: list.splits) (metis that(1))+
  then show ?thesis
    by (auto simp: keeps_pages_def link_block_def list_add_def intro!: list_add_after_other)
qed

lemma keeps_pages_unlink:
  assumes "buddy_inv t s L" "i \<le> MAX_ORDER" "L i = p # ps"
  shows "keeps_pages (cover L) s (unlink_block i p s)"
proof -
  have seg: "lseg (links s) (FreeList i) (PageLink p # map PageLink ps) (list_end t i)"
    using buddy_invD(1) [OF assms(1,2)] assms(3) by simp
  then have "next (links s (PageLink p)) = hd (map PageLink ps @ [list_end t i])"
    using lseg_next_first by fastforce
  moreover have "prev (links s (PageLink p)) = FreeList i" using seg by simp
  ultimately have "q \<notin> {prev (links s (PageLink p)), next (links s (PageLink p))}"
    if "q = PageLink p'" "p' \<notin> cover L" for p' q
    using that list_end_not_page [of t i, THEN not_sym] assms head_in_cover [OF assms(2), of p' L]
    by (cases ps) (auto simp: buddy_inv_def)
  then show ?thesis
    by (auto simp: keeps_pages_def unlink_block_def intro!: list_del_other)
qed

section \<open>Freeing\<close>

lemma extent_join: "extent (Suc i) b = extent i b \<union> extent i (b + 2 ^ i)"
  by (auto simp: extent_def)

lemma coalesce_correct:
  assumes "buddy_inv t s L" and "i \<le> MAX_ORDER" and "extent i p \<inter> cover L = {}"
    and "order (pg s p) = i"
  shows "\<exists>j q s' L'. coalesce i p s = Some (j, q, s') \<and> j \<le> MAX_ORDER \<and> buddy_inv t s' L' \<and>
    order (pg s' q) = j \<and> extent j q \<inter> cover L' = {} \<and>
    extent j q \<union> cover L' = extent i p \<union> cover L \<and> keeps_pages (extent i p \<union> cover L) s s'"
  using assms
proof (induction i p s arbitrary: L rule: coalesce.induct)
  case (1 i p s)
  note inv = "1.prems"(1) and i = "1.prems"(2) and fresh = "1.prems"(3) and ord = "1.prems"(4)
  show ?case
  proof (cases "i < MAX_ORDER \<and> L i \<noteq> []")
    case False
    then have "coalesce i p s = Some (i, p, s)"
      using first_entry [OF inv i] i
      by (auto simp: coalesce.simps [of i p s] list_next_def list_end_def Let_def)
    then show ?thesis using i inv fresh ord by auto
  next
    case True
    then obtain b bs where Lb: "L i = b # bs" by (cases "L i") auto
    let ?s1 = "unlink_block i b s" and ?L1 = "L(i := bs)"
    have le: "list_next (FreeList i) (links s) = PageLink b"
      using first_entry [OF inv i] Lb by (simp add: list_next_def)
    have ob: "order (pg s b) = i" using buddy_invD(4) [OF inv i] Lb by simp
    have ps1: "pg ?s1 = pg s" by (simp add: unlink_block_def)
    have inv1: "buddy_inv t ?s1 ?L1" by (rule unlink_block_inv [where L = L, OF inv i Lb])
    have dj: "disjoint_blocks L" using inv by (simp add: buddy_inv_def)
    have cov1: "cover ?L1 = cover L - extent i b"
      by (rule cover_pop [OF i Lb buddy_invD(2) [OF inv i] dj])
    have bsub: "extent i b \<subseteq> cover L" using block_in_cover [where L = L, OF i] Lb by simp
    have keep1: "keeps_pages (cover L) s ?s1" by (rule keeps_pages_unlink [where L = L, OF inv i Lb])
    have step: ?thesis
      if eq: "coalesce i p s = coalesce (Suc i) q (set_order q (Suc i) ?s1)"
        and ext: "extent (Suc i) q = extent i b \<union> extent i p"
        and IH: "\<And>L. buddy_inv t (set_order q (Suc i) ?s1) L \<Longrightarrow> Suc i \<le> MAX_ORDER \<Longrightarrow>
          extent (Suc i) q \<inter> cover L = {} \<Longrightarrow>
          order (pg (set_order q (Suc i) ?s1) q) = Suc i \<Longrightarrow>
          \<exists>j r s' L'. coalesce (Suc i) q (set_order q (Suc i) ?s1) = Some (j, r, s') \<and>
            j \<le> MAX_ORDER \<and> buddy_inv t s' L' \<and> order (pg s' r) = j \<and>
            extent j r \<inter> cover L' = {} \<and> extent j r \<union> cover L' = extent (Suc i) q \<union> cover L \<and>
            keeps_pages (extent (Suc i) q \<union> cover L) (set_order q (Suc i) ?s1) s'" for q
    proof -
      have fresh1: "extent (Suc i) q \<inter> cover ?L1 = {}"
        using ext cov1 fresh by auto
      then have "q \<notin> cover ?L1" using extent_nonempty by blast
      then have "buddy_inv t (set_order q (Suc i) ?s1) ?L1"
        by (rule buddy_inv_set_order [OF inv1])
      from IH [OF this _ fresh1] True obtain j r s' L' where
        R: "coalesce (Suc i) q (set_order q (Suc i) ?s1) = Some (j, r, s')" "j \<le> MAX_ORDER"
          "buddy_inv t s' L'" "order (pg s' r) = j" "extent j r \<inter> cover L' = {}"
          "extent j r \<union> cover L' = extent (Suc i) q \<union> cover ?L1"
          "keeps_pages (extent (Suc i) q \<union> cover ?L1) (set_order q (Suc i) ?s1) s'"
        by auto
      have cu: "extent (Suc i) q \<union> cover ?L1 = extent i p \<union> cover L"
        using ext cov1 bsub by auto
      have "keeps_pages (extent i p \<union> cover L) s s'"
        by (rule keeps_pages_trans [OF keeps_pages_trans [OF keep1 keeps_pages_set_order] R(7)])
          (auto simp: cu intro: subset_refl)
      with R eq cu show ?thesis by metis
    qed
    consider (left) "p = b + 2 ^ i" | (right) "p \<noteq> b + 2 ^ i" "p + 2 ^ i = b"
      | (none) "p \<noteq> b + 2 ^ i" "p + 2 ^ i \<noteq> b" by blast
    then show ?thesis
    proof cases
      case left
      show ?thesis
      proof (rule step)
        show "coalesce i p s = coalesce (Suc i) b (set_order b (Suc i) ?s1)"
          unfolding coalesce.simps [of i p s] using True le ob left ps1 by simp
        show "extent (Suc i) b = extent i b \<union> extent i p"
          by (simp add: left extent_join)
      qed (use "1.IH"(1) True le ob left ps1 in simp)
    next
      case right
      show ?thesis
      proof (rule step)
        show "coalesce i p s = coalesce (Suc i) p (set_order p (Suc i) ?s1)"
          unfolding coalesce.simps [of i p s] using True le ob ord right ps1 by simp
        show "extent (Suc i) p = extent i b \<union> extent i p"
          using right(2) by (auto simp: extent_join)
      qed (use "1.IH"(2) True le ob ord right ps1 in simp)
    next
      case none
      then have "coalesce i p s = Some (i, p, s)"
        using True le ob ord by (simp add: coalesce.simps [of i p s])
      then show ?thesis using i inv fresh ord by auto
    qed
  qed
qed

lemma buddy_free_pages_sub_correct:
  assumes "buddy_rel t s F" and "k \<le> MAX_ORDER" and "extent k p \<inter> F = {}"
  shows "\<exists>s'. buddy_free_pages_sub p k s = Some s' \<and> buddy_rel t s' (F \<union> extent k p) \<and>
    keeps_pages (F \<union> extent k p) s s'"
proof -
  from assms(1) obtain L where inv: "buddy_inv t s L" and F: "cover L = F"
    by (auto simp: buddy_rel_def)
  have "p \<notin> cover L" using assms(3) F extent_nonempty by blast
  then have inv1: "buddy_inv t (set_order p k s) L" by (rule buddy_inv_set_order [OF inv])
  have "extent k p \<inter> cover L = {}" using assms(3) F by simp
  from coalesce_correct [OF inv1 assms(2) this] obtain j q s' L' where
    R: "coalesce k p (set_order p k s) = Some (j, q, s')" "j \<le> MAX_ORDER" "buddy_inv t s' L'"
      "order (pg s' q) = j" "extent j q \<inter> cover L' = {}"
      "extent j q \<union> cover L' = extent k p \<union> cover L"
      "keeps_pages (extent k p \<union> cover L) (set_order p k s) s'"
    by auto
  have "buddy_inv t (link_block j q s') (L'(j := q # L' j))"
    using link_block_inv [OF R(3,2,5,4)] .
  then have "buddy_rel t (link_block j q s') (F \<union> extent k p)"
    using cover_push [OF R(2), of L' q] R(6) F by (auto simp: buddy_rel_def)
  moreover have "keeps_pages (F \<union> extent k p) s (link_block j q s')"
  proof (rule keeps_pages_trans)
    show "keeps_pages (extent k p \<union> cover L) s s'"
      using keeps_pages_trans [OF keeps_pages_set_order [of "{}"] R(7)] by blast
    show "keeps_pages (insert q (cover L')) s' (link_block j q s')"
      by (rule keeps_pages_link [OF R(3,2)])
    show "extent k p \<union> cover L \<union> insert q (cover L') \<subseteq> F \<union> extent k p"
      using R(6) F extent_nonempty by blast
  qed
  ultimately show ?thesis
    using R(1,2) by (simp add: buddy_free_pages_sub_def)
qed

lemma shrink_size_correct:
  "0 < n \<Longrightarrow> \<exists>j \<le> i. shrink_size i (2 ^ i) n = (j, 2 ^ j) \<and> 2 ^ j \<le> n \<and> (j = i \<or> n < 2 ^ Suc j)"
proof (induction i)
  case 0
  then show ?case by simp
next
  case (Suc i)
  show ?case
  proof (cases "n < 2 ^ Suc i")
    case True
    with Suc obtain j where "j \<le> i" "shrink_size i (2 ^ i) n = (j, 2 ^ j)" "2 ^ j \<le> n"
      "j = i \<or> n < 2 ^ Suc j" by auto
    with True show ?thesis by (intro exI [of _ j]) auto
  next
    case False
    then show ?thesis by (intro exI [of _ "Suc i"]) auto
  qed
qed

lemma free_size_correct:
  "\<exists>j \<ge> i. free_size i (2 ^ i) n = (j, 2 ^ j) \<and> n < 2 ^ j \<and> (j = i \<or> 2 ^ j \<le> 2 * n)"
proof (induction "Suc n - 2 ^ i" arbitrary: i rule: less_induct)
  case less
  show ?case
  proof (cases "2 ^ i \<le> n")
    case True
    moreover have "(0::nat) < 2 ^ i" by simp
    ultimately have "Suc n - 2 ^ Suc i < Suc n - 2 ^ i" unfolding power_Suc by linarith
    from less [OF this] obtain j where "j \<ge> Suc i" "free_size (Suc i) (2 ^ Suc i) n = (j, 2 ^ j)"
      "n < 2 ^ j" "j = Suc i \<or> 2 ^ j \<le> 2 * n" by blast
    with True show ?thesis
      by (intro exI [of _ j]) (auto simp: free_size.simps [of i "2 ^ i" n])
  next
    case False
    then show ?thesis by (simp add: free_size.simps [of i "2 ^ i" n])
  qed
qed

lemma buddy_rel_set_order: "buddy_rel t s F \<Longrightarrow> p \<notin> F \<Longrightarrow> buddy_rel t (set_order p k s) F"
  unfolding buddy_rel_def using buddy_inv_set_order by metis

lemma free_blocks_correct:
  assumes "buddy_rel t s F" and "{base..<base + n} \<inter> F = {}" and "n < 2048" and "sz = 2 ^ i"
    and "n < 2 ^ Suc i"
  shows "\<exists>s'. free_blocks base i sz n s = Some s' \<and> buddy_rel t s' (F \<union> {base..<base + n}) \<and>
    keeps_pages (F \<union> {base..<base + n}) s s'"
  using assms
proof (induction base i sz n s arbitrary: F rule: free_blocks.induct)
  case (1 base i sz n s)
  show ?case
  proof (cases "n = 0")
    case True
    with "1.prems" show ?thesis unfolding free_blocks.simps [of base i sz n s] by simp
  next
    case False
    then obtain j where j: "shrink_size i sz n = (j, 2 ^ j)" "2 ^ j \<le> n" "j \<le> i"
        "j = i \<or> n < 2 ^ Suc j"
      using shrink_size_correct [of n i] "1.prems"(4) by auto
    have n2: "n < 2 ^ Suc j" using j(4) "1.prems"(5) by auto
    have "(2::nat) ^ j < 2 ^ 11" using j(2) "1.prems"(3) by simp
    then have jM: "j \<le> MAX_ORDER" using power_less_imp_less_exp [of "2::nat" j 11]
      by (simp add: MAX_ORDER_def)
    have sub: "extent j base \<subseteq> {base..<base + n}" using j(2) by (auto simp: extent_def)
    have "base \<in> {base..<base + n}" using False by simp
    then have "base \<notin> F" using "1.prems"(2) by blast
    then have r1: "buddy_rel t (set_order base j s) F"
      by (rule buddy_rel_set_order [OF "1.prems"(1)])
    have "extent j base \<inter> F = {}" using sub "1.prems"(2) by blast
    from buddy_free_pages_sub_correct [OF r1 jM this] obtain s1 where s1:
      "buddy_free_pages_sub base j (set_order base j s) = Some s1"
      "buddy_rel t s1 (F \<union> extent j base)"
      "keeps_pages (F \<union> extent j base) (set_order base j s) s1" by blast
    let ?m = "n - 2 ^ j" and ?b = "base + 2 ^ j"
    have inside: "{?b..<?b + ?m} \<subseteq> {base..<base + n}" "{?b..<?b + ?m} \<inter> extent j base = {}"
      using j(2) by (auto simp: extent_def)
    have rest: "{?b..<?b + ?m} \<inter> (F \<union> extent j base) = {}" "?m < 2 ^ Suc j" "?m < 2048"
      using "1.prems"(2,3) n2 inside by (blast, simp_all)
    have pow: "(0::nat) < 2 ^ j" by simp
    note IH = "1.IH" [OF False j(1) [symmetric] pow s1(1) s1(2) rest(1,3) refl rest(2)]
    then obtain s2 where s2: "free_blocks ?b j (2 ^ j) ?m s1 = Some s2"
      "buddy_rel t s2 (F \<union> extent j base \<union> {?b..<?b + ?m})"
      "keeps_pages (F \<union> extent j base \<union> {?b..<?b + ?m}) s1 s2" by blast
    have cu: "F \<union> extent j base \<union> {?b..<?b + ?m} = F \<union> {base..<base + n}"
      using j(2) by (auto simp: extent_def)
    have "keeps_pages (F \<union> {base..<base + n}) s s2"
      by (rule keeps_pages_trans
          [OF keeps_pages_trans [OF keeps_pages_set_order s1(3) subset_refl] s2(3)])
        (use cu in auto)
    then show ?thesis
      using False j(1) s1(1) s2(1,2) cu by (simp add: free_blocks.simps [of base i sz n s])
  qed
qed

lemma buddy_free_pages_correct:
  assumes "buddy_rel t s F" and "{base..<base + n} \<inter> F = {}" and "n < 2048"
  shows "\<exists>s'. buddy_free_pages base n s = Some s' \<and> buddy_rel t s' (F \<union> {base..<base + n}) \<and>
    keeps_pages (F \<union> {base..<base + n}) s s'"
proof (cases "n = 1")
  case True
  then show ?thesis
    using buddy_free_pages_sub_correct [OF assms(1), of 0 base] assms(2)
    by (simp add: buddy_free_pages_def extent_def)
next
  case False
  obtain i where i: "free_size 0 1 n = (i, 2 ^ i)" "n < 2 ^ i"
    using free_size_correct [of 0 n] by auto
  then show ?thesis
    using free_blocks_correct [OF assms refl, of i] False
    by (simp add: buddy_free_pages_def)
qed

section \<open>Allocating\<close>

lemma alloc_split_correct:
  assumes "buddy_inv t s L" and "i \<le> MAX_ORDER" and "k \<le> i" and "sz = 2 ^ i"
    and "extent i p \<inter> cover L = {}"
  shows "\<exists>L'. buddy_inv t (alloc_split p i sz k s) L' \<and>
    cover L' = cover L \<union> (extent i p - extent k p) \<and>
    keeps_pages (cover L \<union> extent i p) s (alloc_split p i sz k s)"
  using assms
proof (induction i arbitrary: sz s L)
  case 0
  then show ?case by auto
next
  case (Suc i)
  show ?case
  proof (cases "k < Suc i")
    case False
    with Suc.prems have "k = Suc i" by simp
    with Suc.prems show ?thesis by auto
  next
    case True
    let ?b = "p + 2 ^ i" and ?s1 = "set_order (p + 2 ^ i) i s"
    have halves: "extent (Suc i) p = extent i p \<union> extent i ?b" "extent i p \<inter> extent i ?b = {}"
      by (auto simp: extent_def)
    have fresh: "extent i ?b \<inter> cover L = {}" using Suc.prems(5) halves by blast
    have "?b \<notin> cover L" using fresh extent_nonempty by blast
    then have i1: "buddy_inv t ?s1 L" by (rule buddy_inv_set_order [OF Suc.prems(1)])
    have iM: "i \<le> MAX_ORDER" using Suc.prems(2) by simp
    let ?s2 = "link_block i ?b ?s1" and ?L2 = "L(i := ?b # L i)"
    have i2: "buddy_inv t ?s2 ?L2" using link_block_inv [OF i1 iM fresh] by simp
    have c2: "cover ?L2 = extent i ?b \<union> cover L" by (rule cover_push [OF iM])
    have f2: "extent i p \<inter> cover ?L2 = {}" using c2 halves Suc.prems(5) by blast
    have "k \<le> i" using True by simp
    from Suc.IH [OF i2 iM this refl f2] obtain L' where L':
      "buddy_inv t (alloc_split p i (2 ^ i) k ?s2) L'"
      "cover L' = cover ?L2 \<union> (extent i p - extent k p)"
      "keeps_pages (cover ?L2 \<union> extent i p) ?s2 (alloc_split p i (2 ^ i) k ?s2)" by blast
    have "extent k p \<subseteq> extent i p"
      using True power_increasing [of k i "2::nat"] by (auto simp: extent_def)
    then have "cover L' = cover L \<union> (extent (Suc i) p - extent k p)"
      using L'(2) c2 halves by blast
    moreover have "keeps_pages (cover L \<union> extent (Suc i) p) s (alloc_split p i (2 ^ i) k ?s2)"
    proof (rule keeps_pages_trans [OF keeps_pages_trans [OF keeps_pages_set_order
            keeps_pages_link [OF i1 iM] subset_refl] L'(3)])
      show "{} \<union> insert ?b (cover L) \<union> (cover ?L2 \<union> extent i p) \<subseteq> cover L \<union> extent (Suc i) p"
        using c2 halves extent_nonempty by blast
    qed
    ultimately show ?thesis using L'(1) True Suc.prems(4) by (auto simp: Let_def)
  qed
qed

lemma alloc_scan_correct:
  assumes "buddy_inv t s L" and "k \<le> i"
  shows "(\<exists>p s' L'. alloc_scan k i s = Some (Some p, s') \<and> buddy_inv t s' L' \<and>
      extent k p \<subseteq> cover L \<and> cover L' = cover L - extent k p \<and> keeps_pages (cover L) s s' \<and>
      (\<exists>j \<ge> i. j \<le> MAX_ORDER \<and> L j \<noteq> [])) \<or>
    (\<forall>j \<ge> i. j \<le> MAX_ORDER \<longrightarrow> L j = []) \<and>
      alloc_scan k i s = (if t = Null \<and> i \<le> MAX_ORDER then None else Some (None, s))"
  using assms
proof (induction k i s rule: alloc_scan.induct)
  case (1 k i s)
  note inv = "1.prems"(1) and ki = "1.prems"(2)
  show ?case
  proof (cases "i \<le> MAX_ORDER")
    case False
    then show ?thesis by (simp add: alloc_scan.simps [of k i s])
  next
    case i: True
    show ?thesis
    proof (cases "L i")
      case Nil
      show ?thesis
      proof (cases "list_end t i = FreeList i")
        case True
        then have emp: "list_empty (FreeList i) (links s)"
          using first_entry [OF inv i] Nil by (simp add: list_empty_def)
        have eq: "alloc_scan k i s = alloc_scan k (Suc i) s"
          using i emp by (simp add: alloc_scan.simps [of k i s])
        have tM: "t = Null \<Longrightarrow> Suc i \<le> MAX_ORDER"
          using True i by (auto simp: list_end_def split: if_splits)
        have all: "(\<forall>j \<ge> i. j \<le> MAX_ORDER \<longrightarrow> L j = []) = (\<forall>j \<ge> Suc i. j \<le> MAX_ORDER \<longrightarrow> L j = [])"
          using Nil by (metis Suc_leD le_eq_less_or_eq Suc_leI)
        have ex: "(\<exists>j \<ge> i. j \<le> MAX_ORDER \<and> L j \<noteq> []) = (\<exists>j \<ge> Suc i. j \<le> MAX_ORDER \<and> L j \<noteq> [])"
          using all by blast
        have cond: "(t = Null \<and> i \<le> MAX_ORDER) = (t = Null \<and> Suc i \<le> MAX_ORDER)"
          using tM i by auto
        show ?thesis
          unfolding eq all ex cond by (rule "1.IH" [OF i _ inv]) (use emp ki in simp_all)
      next
        case False
        then have tN: "t = Null" "i = MAX_ORDER"
          using inv by (auto simp: list_end_def buddy_inv_def split: if_splits)
        then have "next (links s (FreeList i)) = Null"
          using first_entry [OF inv i] Nil by (simp add: list_end_def)
        then have "alloc_scan k i s = None"
          using i by (simp add: alloc_scan.simps [of k i s] list_empty_def list_next_def)
        then show ?thesis using tN Nil by auto
      qed
    next
      case (Cons p ps)
      have nx: "next (links s (FreeList i)) = PageLink p"
        using first_entry [OF inv i] Cons by simp
      let ?s1 = "unlink_block i p s" and ?L1 = "L(i := ps)"
      have eq: "alloc_scan k i s = Some (Some p, alloc_split p i (2 ^ i) k ?s1)"
        using i nx by (simp add: alloc_scan.simps [of k i s] list_empty_def list_next_def)
      have dj: "disjoint_blocks L" using inv by (simp add: buddy_inv_def)
      have i1: "buddy_inv t ?s1 ?L1" by (rule unlink_block_inv [where L = L, OF inv i Cons])
      have c1: "cover ?L1 = cover L - extent i p"
        by (rule cover_pop [OF i Cons buddy_invD(2) [OF inv i] dj])
      then have "extent i p \<inter> cover ?L1 = {}" by blast
      from alloc_split_correct [OF i1 i ki refl this] obtain L' where L':
        "buddy_inv t (alloc_split p i (2 ^ i) k ?s1) L'"
        "cover L' = cover ?L1 \<union> (extent i p - extent k p)"
        "keeps_pages (cover ?L1 \<union> extent i p) ?s1 (alloc_split p i (2 ^ i) k ?s1)" by blast
      have sub: "extent i p \<subseteq> cover L" using block_in_cover [where L = L, OF i] Cons by simp
      have ek: "extent k p \<subseteq> extent i p"
        using ki power_increasing [of k i "2::nat"] by (auto simp: extent_def)
      have "cover L' = cover L - extent k p" using L'(2) c1 sub ek by blast
      moreover have "keeps_pages (cover L) s (alloc_split p i (2 ^ i) k ?s1)"
        by (rule keeps_pages_trans [OF keeps_pages_unlink [where L = L, OF inv i Cons] L'(3)])
          (use c1 sub in auto)
      moreover have "extent k p \<subseteq> cover L" using sub ek by blast
      moreover have "\<exists>j \<ge> i. j \<le> MAX_ORDER \<and> L j \<noteq> []" using i Cons by auto
      ultimately show ?thesis using eq L'(1) by metis
    qed
  qed
qed

lemma getorder_loop_correct:
  assumes "k \<le> Suc MAX_ORDER" and "k = 0 \<or> 2 ^ (k - 1) < n"
  shows "if n \<le> 2 ^ MAX_ORDER
    then \<exists>g \<ge> k. getorder_loop k (2 ^ k) n = g \<and> g \<le> MAX_ORDER \<and> n \<le> 2 ^ g \<and> (g = 0 \<or> 2 ^ (g - 1) < n)
    else getorder_loop k (2 ^ k) n = 4294967295"
  using assms
proof (induction "Suc MAX_ORDER - k" arbitrary: k)
  case 0
  then have "k = Suc MAX_ORDER" by simp
  moreover have "getorder_loop (Suc MAX_ORDER) m n = 4294967295" for m
    by (subst getorder_loop.simps) simp
  ultimately show ?case using 0 by auto
next
  case (Suc d)
  then have k: "k \<le> MAX_ORDER" by simp
  show ?case
  proof (cases "n \<le> 2 ^ k")
    case True
    have "(2::nat) ^ k \<le> 2 ^ MAX_ORDER" using k by (intro power_increasing) auto
    with True have "n \<le> 2 ^ MAX_ORDER" by (rule order_trans)
    with True show ?thesis using k Suc.prems by (simp add: getorder_loop.simps [of k "2 ^ k"])
  next
    case False
    have eq: "getorder_loop k (2 ^ k) n = getorder_loop (Suc k) (2 ^ Suc k) n"
      using False k by (simp add: getorder_loop.simps [of k "2 ^ k"])
    have "d = Suc MAX_ORDER - Suc k" using Suc.hyps(2) by simp
    moreover have "Suc k = 0 \<or> 2 ^ (Suc k - 1) < n" using False by simp
    moreover have "Suc k \<le> Suc MAX_ORDER" using k by simp
    ultimately have IH: "if n \<le> 2 ^ MAX_ORDER
      then \<exists>g \<ge> Suc k. getorder_loop (Suc k) (2 ^ Suc k) n = g \<and> g \<le> MAX_ORDER \<and> n \<le> 2 ^ g \<and>
        (g = 0 \<or> 2 ^ (g - 1) < n)
      else getorder_loop (Suc k) (2 ^ Suc k) n = 4294967295"
      by (intro Suc.hyps(1))
    then show ?thesis unfolding eq by (metis Suc_leD)
  qed
qed

lemma getorder_correct:
  "n \<le> 1024 \<Longrightarrow> getorder n \<le> MAX_ORDER \<and> n \<le> 2 ^ getorder n \<and>
     (getorder n = 0 \<or> 2 ^ (getorder n - 1) < n)"
  "1024 < n \<Longrightarrow> getorder n = 4294967295"
  using getorder_loop_correct [of 0 n] by (auto simp: getorder_def MAX_ORDER_def)

lemma buddy_alloc_pages_cases:
  assumes "buddy_rel t s F" and "0 < n"
  shows "(\<exists>p s'. buddy_alloc_pages n s = Some (Some p, s') \<and> {p..<p + n} \<subseteq> F \<and>
      buddy_rel t s' (F - {p..<p + n}) \<and> keeps_pages F s s' \<and> n \<le> 1024) \<or>
    buddy_alloc_pages n s = (if t = Null \<and> n \<le> 1024 then None else Some (None, s))"
proof (cases "n \<le> 1024")
  case False
  then show ?thesis
    using getorder_correct(2) [of n] assms(2)
    by (simp add: buddy_alloc_pages_def buddy_alloc_pages_sub_def alloc_scan.simps MAX_ORDER_def)
next
  case n: True
  let ?g = "getorder n"
  note g = getorder_correct(1) [OF n]
  from assms(1) obtain L where inv: "buddy_inv t s L" and F: "cover L = F"
    by (auto simp: buddy_rel_def)
  from alloc_scan_correct [OF inv order_refl, of ?g] show ?thesis
  proof (elim disjE conjE exE)
    assume "alloc_scan ?g ?g s = (if t = Null \<and> ?g \<le> MAX_ORDER then None else Some (None, s))"
    then show ?thesis using assms(2) n g
      by (auto simp: buddy_alloc_pages_def buddy_alloc_pages_sub_def)
  next
    fix p s' L' j
    assume R: "alloc_scan ?g ?g s = Some (Some p, s')" "buddy_inv t s' L'" "extent ?g p \<subseteq> cover L"
      "cover L' = cover L - extent ?g p" "keeps_pages (cover L) s s'"
    have r': "buddy_rel t s' (F - extent ?g p)" using R F by (auto simp: buddy_rel_def)
    show ?thesis
    proof (cases "n = 2 ^ ?g")
      case True
      then have "extent ?g p = {p..<p + n}" by (simp add: extent_def)
      then show ?thesis using True R r' F n assms(2)
        by (auto simp: buddy_alloc_pages_def buddy_alloc_pages_sub_def)
    next
      case False
      let ?m = "2 ^ ?g - n"
      have le: "n \<le> 2 ^ ?g" and "(2::nat) ^ ?g \<le> 2 ^ MAX_ORDER"
        using g by (auto intro!: power_increasing)
      then have m: "?m < 2048" by (simp add: MAX_ORDER_def)
      have ext: "extent ?g p = {p..<p + n} \<union> {p + n..<p + n + ?m}"
        using le by (auto simp: extent_def)
      have "{p + n..<p + n + ?m} \<inter> (F - extent ?g p) = {}" using ext by blast
      from buddy_free_pages_correct [OF r' this m] obtain s2 where s2:
        "buddy_free_pages (p + n) ?m s' = Some s2"
        "buddy_rel t s2 (F - extent ?g p \<union> {p + n..<p + n + ?m})"
        "keeps_pages (F - extent ?g p \<union> {p + n..<p + n + ?m}) s' s2" by blast
      have Fs: "F - extent ?g p \<union> {p + n..<p + n + ?m} = F - {p..<p + n}"
        using ext R(3) F by auto
      have "keeps_pages F s s2"
        by (rule keeps_pages_trans [OF R(5) s2(3)]) (use Fs F in auto)
      then show ?thesis
        using False R(1,3) s2(1,2) Fs F n assms(2) ext
        by (auto simp: buddy_alloc_pages_def buddy_alloc_pages_sub_def)
    qed
  qed
qed

lemma buddy_alloc_pages_succeeds:
  assumes "buddy_inv t s L" and "0 < n" and "n \<le> 1024"
    and "getorder n \<le> j" and "j \<le> MAX_ORDER" and "L j \<noteq> []"
  shows "\<exists>p s'. buddy_alloc_pages n s = Some (Some p, s')"
proof -
  let ?g = "getorder n"
  from alloc_scan_correct [OF assms(1) order_refl, of ?g] assms(4-6)
  obtain p s' where "alloc_scan ?g ?g s = Some (Some p, s')" by blast
  moreover have fr: "buddy_free_pages (p + n) (2 ^ ?g - n) s' \<noteq> None"
  proof -
    from alloc_scan_correct [OF assms(1) order_refl, of ?g] assms(4-6)
      \<open>alloc_scan ?g ?g s = Some (Some p, s')\<close>
    obtain L' where L': "buddy_inv t s' L'" "cover L' = cover L - extent ?g p" by auto
    have "n \<le> 2 ^ ?g" and "(2::nat) ^ ?g \<le> 2 ^ MAX_ORDER"
      using getorder_correct(1) [OF assms(3)] by (auto intro!: power_increasing)
    then have "2 ^ ?g - n < 2048" "{p + n..<p + n + (2 ^ ?g - n)} \<subseteq> extent ?g p"
      by (auto simp: MAX_ORDER_def extent_def)
    moreover have "buddy_rel t s' (cover L')" using L'(1) by (auto simp: buddy_rel_def)
    ultimately show ?thesis
      using buddy_free_pages_correct [of t s' "cover L'" "p + n" "2 ^ ?g - n"] L'(2) by blast
  qed
  ultimately show ?thesis
    using assms(2) by (auto simp: buddy_alloc_pages_def buddy_alloc_pages_sub_def)
qed

section \<open>Initialisation\<close>

lemma buddy_init_links:
  "links (fold (\<lambda>i s. s\<lparr>links := list_init (FreeList i) (links s), nr_free := (nr_free s)(i := 0)\<rparr>)
      [0..<m] s) q =
    (case q of FreeList i \<Rightarrow> if i < m then \<lparr>prev = FreeList i, next = FreeList i\<rparr> else links s q
     | _ \<Rightarrow> links s q)"
  "nr_free (fold (\<lambda>i s. s\<lparr>links := list_init (FreeList i) (links s), nr_free := (nr_free s)(i := 0)\<rparr>)
      [0..<m] s) i = (if i < m then 0 else nr_free s i)"
  by (induction m) (auto simp: link_defs split: page_ptr.splits)

lemma buddy_init_inv: "buddy_inv Null (buddy_init (static_free_area d)) (\<lambda>_. [])"
  by (auto simp: buddy_inv_def disjoint_blocks_def blocks_def buddy_init_def buddy_init_links
      list_end_def static_free_area_def)

lemma cover_empty [simp]: "cover (\<lambda>_. []) = {}"
  by (simp add: cover_def blocks_def)

lemma buddy_init_rel: "buddy_rel Null (buddy_init (static_free_area d)) {}"
  unfolding buddy_rel_def by (intro exI conjI) (rule buddy_init_inv, rule cover_empty)

lemma clear_pages_fields:
  "links (clear_pages base n s) = links s" "nr_free (clear_pages base n s) = nr_free s"
  "pg (clear_pages base n s) p =
     (if p \<in> {base..<base + n} then \<lparr>flags = 0, order = 0\<rparr> else pg s p)"
  unfolding clear_pages_def by (induction n) auto

lemma clear_pages_rel:
  assumes "buddy_rel t s F" "{base..<base + n} \<inter> F = {}"
  shows "buddy_rel t (clear_pages base n s) F"
proof -
  from assms(1) obtain L where "buddy_inv t s L" "cover L = F" by (auto simp: buddy_rel_def)
  moreover have "\<And>i p. i \<le> MAX_ORDER \<Longrightarrow> p \<in> set (L i) \<Longrightarrow> p \<notin> {base..<base + n}"
    using assms(2) head_in_cover \<open>cover L = F\<close> by blast
  ultimately show ?thesis
    unfolding buddy_rel_def buddy_inv_def by (intro exI [of _ L]) (auto simp: clear_pages_fields)
qed

lemma memmap_fill_correct:
  assumes "buddy_rel t s F" and "{p..<p + n} \<inter> F = {}" and "k \<le> MAX_ORDER"
  shows "\<exists>p' n' s'. memmap_fill k p n s = (p', n', s') \<and> p \<le> p' \<and> p' + n' = p + n \<and>
    n' < 2 ^ k \<and> buddy_rel t s' (F \<union> {p..<p'})"
  using assms
proof (induction k p n s arbitrary: F rule: memmap_fill.induct)
  case (1 k p n s)
  show ?case
  proof (cases "2 ^ k \<le> n")
    case False
    with "1.prems" show ?thesis by (simp add: memmap_fill.simps [of k p n s])
  next
    case True
    from "1.prems"(1) obtain L where inv: "buddy_inv t s L" and F: "cover L = F"
      by (auto simp: buddy_rel_def)
    have sub: "extent k p \<subseteq> {p..<p + n}" using True by (auto simp: extent_def)
    then have fresh: "extent k p \<inter> cover L = {}" using "1.prems"(2) F by blast
    then have "p \<notin> cover L" using extent_nonempty by blast
    then have inv1: "buddy_inv t (set_order p k s) L" by (rule buddy_inv_set_order [OF inv])
    let ?s2 = "link_block k p (set_order p k s)"
    have "buddy_inv t ?s2 (L(k := p # L k))"
      using link_block_inv [OF inv1 "1.prems"(3) fresh] by simp
    then have r2: "buddy_rel t ?s2 (F \<union> extent k p)"
      using cover_push [OF "1.prems"(3), of L p] F by (auto simp: buddy_rel_def)
    have d2: "{p + 2 ^ k..<p + 2 ^ k + (n - 2 ^ k)} \<inter> (F \<union> extent k p) = {}"
    proof -
      have "{p + 2 ^ k..<p + 2 ^ k + (n - 2 ^ k)} \<subseteq> {p..<p + n}" by auto
      moreover have "{p + 2 ^ k..<p + 2 ^ k + (n - 2 ^ k)} \<inter> extent k p = {}"
        by (auto simp: extent_def)
      ultimately show ?thesis using "1.prems"(2) by blast
    qed
    from "1.IH" [OF True r2 d2 "1.prems"(3)] obtain p' n' s' where R:
      "memmap_fill k (p + 2 ^ k) (n - 2 ^ k) ?s2 = (p', n', s')" "p + 2 ^ k \<le> p'"
      "p' + n' = p + 2 ^ k + (n - 2 ^ k)" "n' < 2 ^ k"
      "buddy_rel t s' (F \<union> extent k p \<union> {p + 2 ^ k..<p'})" by blast
    have "F \<union> extent k p \<union> {p + 2 ^ k..<p'} = F \<union> {p..<p'}"
      using R(2) by (auto simp: extent_def)
    with R True show ?thesis by (simp add: memmap_fill.simps [of k p n s])
  qed
qed

lemma memmap_orders_correct:
  assumes "buddy_rel t s F" and "{p..<p + n} \<inter> F = {}" and "k \<le> MAX_ORDER"
  shows "buddy_rel t (memmap_orders k p n s) (F \<union> {p..<p + n})"
  using assms
proof (induction k arbitrary: p n s F)
  case 0
  obtain p' n' s' where R: "memmap_fill 0 p n s = (p', n', s')" "p \<le> p'" "p' + n' = p + n"
    "n' < 2 ^ 0" "buddy_rel t s' (F \<union> {p..<p'})"
    using memmap_fill_correct [OF "0.prems"] by blast
  then have "p' = p + n" by simp
  with R "0.prems"(1) show ?case by (simp add: memmap_orders.simps [of 0])
next
  case (Suc k)
  obtain p' n' s' where R: "memmap_fill (Suc k) p n s = (p', n', s')" "p \<le> p'" "p' + n' = p + n"
    "buddy_rel t s' (F \<union> {p..<p'})"
    using memmap_fill_correct [OF Suc.prems] by blast
  have sub: "{p'..<p' + n'} \<subseteq> {p..<p + n}" using R(2,3) by auto
  then have "{p'..<p' + n'} \<inter> F = {}" using Suc.prems(2) by blast
  moreover have "{p'..<p' + n'} \<inter> {p..<p'} = {}" by auto
  ultimately have "{p'..<p' + n'} \<inter> (F \<union> {p..<p'}) = {}" by blast
  then have "buddy_rel t (memmap_orders k p' n' s') (F \<union> {p..<p'} \<union> {p'..<p' + n'})"
    by (rule Suc.IH [OF R(4)]) (use Suc.prems(3) in simp)
  moreover have "F \<union> {p..<p'} \<union> {p'..<p' + n'} = F \<union> {p..<p + n}" using R(2,3) by auto
  ultimately show ?case using R(1) Suc.prems(1) by (simp add: memmap_orders.simps [of "Suc k"])
qed

lemma buddy_init_memmap_rel:
  assumes "buddy_rel t s F" and "{base..<base + n} \<inter> F = {}"
  shows "buddy_rel t (buddy_init_memmap base n s) (F \<union> {base..<base + n})"
  unfolding buddy_init_memmap_def
  by (rule memmap_orders_correct [OF clear_pages_rel [OF assms] assms(2) order_refl])

section \<open>The manager table and its contract\<close>

definition buddy_pmm_manager :: "buddy pmm_manager" where
  "buddy_pmm_manager = \<lparr>pm_name = ''buddy_pmm_manager'', pm_init = buddy_init,
     pm_init_memmap = buddy_init_memmap, pm_alloc_pages = buddy_alloc_pages,
     pm_free_pages = buddy_free_pages\<rparr>"

text \<open>\<open>buddy_check\<close>: three pages are taken and given back; a null page is not caught.\<close>

definition buddy_check :: "buddy \<Rightarrow> buddy option" where
  "buddy_check s =
     do { (p, s) \<leftarrow> alloc_pages buddy_pmm_manager 3 s;
          case p of None \<Rightarrow> None | Some p \<Rightarrow> free_pages buddy_pmm_manager p 3 s }"

interpretation buddy: page_allocator buddy_pmm_manager "buddy_rel t" 2048 for t
proof unfold_locales
  fix s F n r s'
  assume "buddy_rel t s F" "0 < n" "alloc_pages buddy_pmm_manager n s = Some (r, s')"
  then show "case r of None \<Rightarrow> s' = s
    | Some p \<Rightarrow> {p..<p + n} \<subseteq> F \<and> n < 2048 \<and> buddy_rel t s' (F - {p..<p + n})"
    using buddy_alloc_pages_cases [of t s F n]
    by (auto simp: alloc_pages_def buddy_pmm_manager_def split: if_splits)
next
  fix s F p n
  assume "buddy_rel t s F" "{p..<p + n} \<inter> F = {}" "n < (2048::nat)"
  then show "\<exists>s'. free_pages buddy_pmm_manager p n s = Some s' \<and>
      buddy_rel t s' (F \<union> {p..<p + n})"
    using buddy_free_pages_correct [of t s F p n]
    by (auto simp: free_pages_def buddy_pmm_manager_def)
qed

interpretation buddy_supply: page_supplier buddy_pmm_manager "buddy_rel t" 2048 for t
proof unfold_locales
  fix s F assume "buddy_rel t s F" "F \<noteq> {}"
  then obtain L i where L: "buddy_inv t s L" "i \<le> MAX_ORDER" "L i \<noteq> []"
    by (fastforce simp: buddy_rel_def cover_def blocks_def)
  have "getorder 1 = 0" by (simp add: getorder_def getorder_loop.simps MAX_ORDER_def)
  then show "\<exists>p s'. alloc_pages buddy_pmm_manager 1 s = Some (Some p, s')"
    using buddy_alloc_pages_succeeds [OF L(1) zero_less_one _ _ L(2,3)]
    by (simp add: alloc_pages_def buddy_pmm_manager_def)
qed

section \<open>Properties\<close>

text \<open>A small state used in the witnesses: one free block of eight pages at page 0, put there by
  the code's own operations after \<open>buddy_init\<close>.\<close>

definition eight_pages :: buddy where
  "eight_pages = link_block 3 0 (set_order 0 3
     (buddy_init (static_free_area (\<lambda>_. \<lparr>flags = 0, order = 0\<rparr>))))"

lemma eight_pages_inv: "buddy_inv Null eight_pages ((\<lambda>_. [])(3 := [0]))"
proof -
  let ?s = "buddy_init (static_free_area (\<lambda>_. \<lparr>flags = 0, order = 0\<rparr>))"
  have "buddy_inv Null (set_order 0 3 ?s) (\<lambda>_. [])"
    using buddy_inv_set_order [OF buddy_init_inv] by simp
  from link_block_inv [OF this, of 3 0] show ?thesis
    by (simp add: eight_pages_def MAX_ORDER_def)
qed

lemma eight_pages_rel: "buddy_rel Null eight_pages {0..<8}"
  using eight_pages_inv cover_push [of 3 "\<lambda>_. []" 0]
  by (auto simp: buddy_rel_def extent_def MAX_ORDER_def intro!: exI [of _ "(\<lambda>_. [])(3 := [0])"])

lemma eight_pages_alloc: "\<exists>p s. alloc_pages buddy_pmm_manager 3 eight_pages = Some (Some p, s)"
proof -
  have "getorder 3 \<le> 3"
    by (simp add: getorder_def getorder_loop.simps MAX_ORDER_def)
  then show ?thesis
    using buddy_alloc_pages_succeeds [OF eight_pages_inv, of 3 3]
    by (simp add: alloc_pages_def buddy_pmm_manager_def MAX_ORDER_def)
qed

lemma eight_pages_reach:
  "alloc_pages buddy_pmm_manager 3 eight_pages = Some (Some p, s) \<Longrightarrow>
     alloc_reach buddy_pmm_manager eight_pages s [(p, 3)]"
  by (rule alloc_reach.got [OF alloc_reach.start]) auto

text \<open>C1. Whatever sequence of allocations and frees of their own blocks the callers make, the
  blocks they hold never overlap, all come from the memory the allocator was given, and the pages
  free in the allocator are exactly the rest.\<close>

theorem buddy_blocks_never_overlap:
  assumes "alloc_reach buddy_pmm_manager s0 s held" and "buddy_rel t s0 F"
  shows "held_apart held \<and> held_pages held \<subseteq> F \<and> buddy_rel t s (F - held_pages held)"
  using buddy.reach_inv [OF assms] by blast

theorem buddy_blocks_never_overlap_witness:
  "\<exists>p s. alloc_reach buddy_pmm_manager eight_pages s [(p, 3)] \<and>
     held_pages [(p, 3)] \<subseteq> {0..<8} \<and> buddy_rel Null s ({0..<8} - held_pages [(p, 3)])"
  using eight_pages_alloc eight_pages_reach
    buddy_blocks_never_overlap [OF eight_pages_reach eight_pages_rel] by metis

text \<open>Giving back a block the callers hold never leaves the allocator's defined behaviour: the
  merging loop only meets entries that are pages, stays below the order limit, and ends.\<close>

theorem buddy_free_always_defined:
  assumes "alloc_reach buddy_pmm_manager s0 s held" and "buddy_rel t s0 F" and "(p, n) \<in> set held"
  shows "\<exists>s'. free_pages buddy_pmm_manager p n s = Some s'"
  by (rule buddy.free_never_fails [OF assms])

theorem buddy_free_always_defined_witness:
  "\<exists>p s s'. alloc_reach buddy_pmm_manager eight_pages s [(p, 3)] \<and>
     free_pages buddy_pmm_manager p 3 s = Some s'"
  using eight_pages_alloc eight_pages_reach
    buddy_free_always_defined [OF eight_pages_reach eight_pages_rel] by (metis list.set_intros(1))

text \<open>A request of at most 1024 pages succeeds whenever some list of a sufficient order is not
  empty: splitting a larger block and returning the unused tail always work out.\<close>

theorem buddy_alloc_succeeds_if_block:
  assumes "buddy_inv t s L" and "0 < n" and "n \<le> 1024"
    and "getorder n \<le> j" and "j \<le> MAX_ORDER" and "L j \<noteq> []"
  shows "\<exists>p s'. alloc_pages buddy_pmm_manager n s = Some (Some p, s') \<and>
    {p..<p + n} \<subseteq> cover L \<and> buddy_rel t s' (cover L - {p..<p + n})"
proof -
  have r: "buddy_rel t s (cover L)" using assms(1) by (auto simp: buddy_rel_def)
  from buddy_alloc_pages_succeeds [OF assms] obtain p s' where
    A: "alloc_pages buddy_pmm_manager n s = Some (Some p, s')"
    by (auto simp: alloc_pages_def buddy_pmm_manager_def)
  from buddy.alloc_some [OF r assms(2) A] A show ?thesis by blast
qed

theorem buddy_alloc_succeeds_if_block_witness:
  "\<exists>p s'. alloc_pages buddy_pmm_manager 3 eight_pages = Some (Some p, s') \<and>
     {p..<p + 3} \<subseteq> cover ((\<lambda>_. [])(3 := [0])) \<and>
     buddy_rel Null s' (cover ((\<lambda>_. [])(3 := [0])) - {p..<p + 3})"
  by (rule buddy_alloc_succeeds_if_block [OF eight_pages_inv, of 3 3])
    (simp_all add: getorder_def getorder_loop.simps MAX_ORDER_def)

text \<open>\<open>init_memmap\<close> makes exactly the pages of the region free, on top of those already free,
  cut into blocks that satisfy the allocator's invariant.\<close>

theorem buddy_init_memmap_adds_region:
  assumes "buddy_rel t s F" and "{base..<base + n} \<inter> F = {}"
  shows "buddy_rel t (init_memmap buddy_pmm_manager base n s) (F \<union> {base..<base + n})"
  using buddy_init_memmap_rel [OF assms] by (simp add: init_memmap_def buddy_pmm_manager_def)

theorem buddy_init_memmap_adds_region_witness:
  "buddy_rel Null (init_memmap buddy_pmm_manager 100 9 eight_pages) ({0..<8} \<union> {100..<100 + 9})"
  by (rule buddy_init_memmap_adds_region [OF eight_pages_rel]) auto

text \<open>Allocating a block and giving it back restores the set of free pages.\<close>

theorem buddy_alloc_free_restores:
  assumes "buddy_rel t s F" and "0 < n" and "alloc_pages buddy_pmm_manager n s = Some (Some p, s')"
  shows "\<exists>s''. free_pages buddy_pmm_manager p n s' = Some s'' \<and> buddy_rel t s'' F"
  by (rule buddy.alloc_free_restores [OF assms])

theorem buddy_alloc_free_restores_witness:
  "\<exists>p s' s''. alloc_pages buddy_pmm_manager 3 eight_pages = Some (Some p, s') \<and>
     free_pages buddy_pmm_manager p 3 s' = Some s'' \<and> buddy_rel Null s'' {0..<8}"
  using eight_pages_alloc buddy_alloc_free_restores [OF eight_pages_rel, of 3] by (metis zero_less_numeral)

text \<open>C36. \<open>buddy_init\<close> stops before \<open>MAX_ORDER\<close>, so the last header stays zeroed. An exhausted
  allocator therefore does not return a null page: it follows the null list entry and hands out a
  pointer computed from it. With that header initialised the same request returns a null page.\<close>

theorem buddy_exhausted_follows_null:
  "0 < n \<Longrightarrow> n \<le> 1024 \<Longrightarrow>
     alloc_pages buddy_pmm_manager n (pm_init buddy_pmm_manager (static_free_area d)) = None \<and>
     (\<forall>s. buddy_rel (FreeList MAX_ORDER) s {} \<longrightarrow>
        alloc_pages buddy_pmm_manager n s = Some (None, s))"
  using buddy_alloc_pages_cases [OF buddy_init_rel, of n]
    buddy_alloc_pages_cases [of "FreeList MAX_ORDER" _ "{}" n]
  by (fastforce simp: alloc_pages_def buddy_pmm_manager_def)

theorem buddy_exhausted_follows_null_witness:
  "alloc_pages buddy_pmm_manager 1
     (pm_init buddy_pmm_manager (static_free_area (\<lambda>_. \<lparr>flags = 0, order = 0\<rparr>))) = None"
  using buddy_exhausted_follows_null [of 1] by simp

end
