(* ===== verification/Paging.thy ===== *)
theory Paging
  imports Mmu Buddy
begin

text \<open>
  The page-table half of kern/mm/pmm.c: \<open>get_pte\<close>, \<open>page_insert\<close>, \<open>page_remove\<close>,
  \<open>map_physical_memory\<close>, the start-up memory scan \<open>page_init\<close> and the table printer's scan.
  Memory is a map from kernel virtual addresses of words to words; the allocator is reached
  through the table of theory PageAlloc. \<open>translate\<close> is the two-level walk the processor does.
\<close>

section \<open>State\<close>

text \<open>\<open>tlb\<close> holds the translations the processor may have cached, by page number.\<close>

record 's vm =
  mem :: "u32 \<Rightarrow> u32"
  cr3 :: u32
  tlb :: "u32 \<rightharpoonup> u32"
  pmm :: 's

abbreviation store :: "u32 \<Rightarrow> u32 \<Rightarrow> 's vm \<Rightarrow> 's vm" where
  "store a v s \<equiv> s\<lparr>mem := (mem s)(a := v)\<rparr>"

abbreviation present :: "u32 \<Rightarrow> bool" where
  "present e \<equiv> e AND PTE_P \<noteq> 0"

text \<open>\<open>memset(va, 0, PGSIZE)\<close>.\<close>

definition clear_page :: "u32 \<Rightarrow> (u32 \<Rightarrow> u32) \<Rightarrow> u32 \<Rightarrow> u32" where
  "clear_page va \<mu> = (\<lambda>a. if a - va < PGSIZE then 0 else \<mu> a)"

text \<open>\<open>alloc_page\<close> on the machine state; the callers do not test for a null page, and what they
  would compute from it is undefined.\<close>

definition alloc_page :: "'s pmm_manager \<Rightarrow> 's vm \<Rightarrow> (nat \<times> 's vm) option" where
  "alloc_page m s =
     (case alloc_pages m 1 (pmm s) of
        Some (Some p, q) \<Rightarrow> Some (p, s\<lparr>pmm := q\<rparr>)
      | _ \<Rightarrow> None)"

definition free_page :: "'s pmm_manager \<Rightarrow> nat \<Rightarrow> 's vm \<Rightarrow> 's vm option" where
  "free_page m p s = map_option (\<lambda>q. s\<lparr>pmm := q\<rparr>) (free_pages m p 1 (pmm s))"

section \<open>Page table operations\<close>

definition get_pte :: "'s pmm_manager \<Rightarrow> u32 \<Rightarrow> u32 \<Rightarrow> 's vm \<Rightarrow> (u32 \<times> 's vm) option" where
  "get_pte m pgdir la s =
     (let pde_p = pgdir + 4 * PDX la in
      do { s \<leftarrow>
             (if \<not> present (mem s pde_p) then
                do { (page, s) \<leftarrow> alloc_page m s;
                     let pa = page2pa page;
                     let s = s\<lparr>mem := clear_page (VADDR pa) (mem s)\<rparr>;
                     Some (store pde_p (pa OR PTE_U OR PTE_W OR PTE_P) s) }
              else Some s);
           Some (VADDR (PDE_ADDR (mem s pde_p)) + 4 * PTX la, s) })"

definition get_page :: "'s pmm_manager \<Rightarrow> u32 \<Rightarrow> u32 \<Rightarrow> 's vm \<Rightarrow> (nat option \<times> 's vm) option" where
  "get_page m pgdir la s =
     do { (pte_p, s) \<leftarrow> get_pte m pgdir la s;
          Some (if pte_p \<noteq> 0 \<and> present (mem s pte_p) then Some (pa2page (mem s pte_p)) else None, s) }"

definition invlpg :: "u32 \<Rightarrow> 's vm \<Rightarrow> 's vm" where
  "invlpg la s = s\<lparr>tlb := (tlb s)(PAGE_NUM la := None)\<rparr>"

definition tlb_invalidate :: "u32 \<Rightarrow> u32 \<Rightarrow> 's vm \<Rightarrow> 's vm" where
  "tlb_invalidate pgdir la s = (if cr3 s = PADDR pgdir then invlpg la s else s)"

definition page_remove_pte :: "u32 \<Rightarrow> u32 \<Rightarrow> u32 \<Rightarrow> 's vm \<Rightarrow> 's vm" where
  "page_remove_pte pgdir la pte_p s =
     (if present (mem s pte_p) then tlb_invalidate pgdir la (store pte_p 0 s) else s)"

definition page_remove :: "'s pmm_manager \<Rightarrow> u32 \<Rightarrow> u32 \<Rightarrow> 's vm \<Rightarrow> 's vm option" where
  "page_remove m pgdir la s =
     do { (pte_p, s) \<leftarrow> get_pte m pgdir la s;
          Some (if pte_p \<noteq> 0 then page_remove_pte pgdir la pte_p s else s) }"

definition page_insert :: "'s pmm_manager \<Rightarrow> u32 \<Rightarrow> nat \<Rightarrow> u32 \<Rightarrow> u32 \<Rightarrow> 's vm \<Rightarrow> (int \<times> 's vm) option" where
  "page_insert m pgdir page la perm s =
     do { (pte_p, s) \<leftarrow> get_pte m pgdir la s;
          let s = (if mem s pte_p \<noteq> 0 then
                     (if pte2page (mem s pte_p) \<noteq> page then page_remove_pte pgdir la pte_p s else s)
                   else s);
          let s = store pte_p (page2pa page OR PTE_P OR perm) s;
          Some (0, tlb_invalidate pgdir la s) }"

fun map_pages :: "'s pmm_manager \<Rightarrow> u32 \<Rightarrow> u32 \<Rightarrow> nat \<Rightarrow> u32 \<Rightarrow> u32 \<Rightarrow> 's vm \<Rightarrow> 's vm option" where
  "map_pages m pgdir la 0 pa perm s = Some s"
| "map_pages m pgdir la (Suc n) pa perm s =
     do { (pte_p, s) \<leftarrow> get_pte m pgdir la s;
          map_pages m pgdir (la + PGSIZE) n (pa + PGSIZE) perm (store pte_p (pa OR PTE_P OR perm) s) }"

definition map_physical_memory ::
  "'s pmm_manager \<Rightarrow> u32 \<Rightarrow> u32 \<Rightarrow> u32 \<Rightarrow> u32 \<Rightarrow> u32 \<Rightarrow> 's vm \<Rightarrow> 's vm option" where
  "map_physical_memory m pgdir la sz pa perm s =
     (let n = ROUNDUP (sz + PG_OFF la) PGSIZE div PGSIZE
      in map_pages m pgdir (ROUNDDOWN la PGSIZE) (unat n) (ROUNDDOWN pa PGSIZE) perm s)"

text \<open>\<open>check_pgdir\<close>, which \<open>pmm_init\<close> runs on the empty boot directory.\<close>

definition check_pgdir :: "'s pmm_manager \<Rightarrow> u32 \<Rightarrow> 's vm \<Rightarrow> 's vm option" where
  "check_pgdir m boot_pgdir s =
     do { (p, s) \<leftarrow> get_page m boot_pgdir 0 s;
          (p1, s) \<leftarrow> alloc_page m s;
          (r, s) \<leftarrow> page_insert m boot_pgdir p1 0 PTE_W s;
          (pte_p, s) \<leftarrow> get_pte m boot_pgdir 0 s;
          (p2, s) \<leftarrow> alloc_page m s;
          (r, s) \<leftarrow> page_insert m boot_pgdir p2 PGSIZE PTE_W s;
          (pte_p, s) \<leftarrow> get_pte m boot_pgdir PGSIZE s;
          s \<leftarrow> page_remove m boot_pgdir 0 s;
          s \<leftarrow> page_remove m boot_pgdir PGSIZE s;
          s \<leftarrow> free_page m (pa2page (mem s boot_pgdir)) s;
          Some (store boot_pgdir 0 s) }"

section \<open>The printer's scan of a table\<close>

definition perm2str :: "u32 \<Rightarrow> string" where
  "perm2str perm =
     [if perm AND PTE_U \<noteq> 0 then CHR ''u'' else CHR ''-'', CHR ''r'',
      if perm AND PTE_W \<noteq> 0 then CHR ''w'' else CHR ''-'']"

function skip_absent :: "nat \<Rightarrow> nat \<Rightarrow> (nat \<Rightarrow> u32) \<Rightarrow> nat" where
  "skip_absent start right table =
     (if start < right \<and> \<not> present (table start) then skip_absent (Suc start) right table else start)"
  by pat_completeness auto
termination
  by (relation "measure (\<lambda>(start, right, table). right - start)") auto

function skip_same :: "nat \<Rightarrow> nat \<Rightarrow> (nat \<Rightarrow> u32) \<Rightarrow> u32 \<Rightarrow> nat" where
  "skip_same start right table perm =
     (if start < right \<and> table start AND PTE_USER = perm then skip_same (Suc start) right table perm
      else start)"
  by pat_completeness auto
termination
  by (relation "measure (\<lambda>(start, right, table, perm). right - start)") auto

declare skip_absent.simps [simp del] skip_same.simps [simp del]

text \<open>The permission found, and the bounds stored through the two pointers when a run is found.\<close>

definition get_pgtable_items :: "nat \<Rightarrow> nat \<Rightarrow> (nat \<Rightarrow> u32) \<Rightarrow> u32 \<times> (nat \<times> nat) option" where
  "get_pgtable_items right start table =
     (if right \<le> start then (0, None)
      else let start = skip_absent start right table in
        if start < right then
          (let perm = table start AND PTE_USER; stop = skip_same (Suc start) right table perm
           in (perm, Some (start, stop)))
        else (0, None))"

section \<open>The memory map of the machine\<close>

record e820_entry =
  e_addr :: u64
  e_size :: u64
  e_type :: u32

definition E820_ARM :: u32 where "E820_ARM = 1"

definition max_pa :: "e820_entry list \<Rightarrow> u64" where
  "max_pa es =
     (let m = fold (\<lambda>e maxpa.
          let start = e_addr e; free_end = start + e_size e in
          if e_type e = E820_ARM then
            (if maxpa < free_end \<and> start < ucast KMEMSIZE then free_end else maxpa)
          else maxpa) es 0
      in if ucast KMEMSIZE < m then ucast KMEMSIZE else m)"

definition sizeof_Page :: u32 where "sizeof_Page = 16"

text \<open>ROUNDUP and ROUNDDOWN of a 64-bit value go through \<open>size_t\<close>.\<close>

definition ROUNDUP64 :: "u64 \<Rightarrow> u32 \<Rightarrow> u64" where
  "ROUNDUP64 a n = ucast (ROUNDUP (ucast a) n)"

definition ROUNDDOWN64 :: "u64 \<Rightarrow> u32 \<Rightarrow> u64" where
  "ROUNDDOWN64 a n = ucast (ROUNDDOWN (ucast a) n)"

text \<open>The region of one entry that is given to \<open>init_memmap\<close>: first page and page count.\<close>

definition free_region :: "u64 \<Rightarrow> e820_entry \<Rightarrow> (nat \<times> nat) option" where
  "free_region freemem e =
     (let start = e_addr e; free_end = start + e_size e in
      if e_type e = E820_ARM then
        (let start = (if start < freemem then freemem else start);
             free_end = (if ucast KMEMSIZE < free_end then ucast KMEMSIZE else free_end)
         in if start < free_end then
              (let start = ROUNDUP64 start PGSIZE; free_end = ROUNDDOWN64 free_end PGSIZE
               in if start < free_end then
                    Some (pa2page (ucast start), unat ((free_end - start) div ucast PGSIZE))
                  else None)
            else None)
      else None)"

text \<open>\<open>page_init\<close>: \<open>ende\<close> is the address of the symbol \<open>end\<close>. The result is the number of pages,
  the address of \<open>pages\<close> and the allocator after every usable region was added.\<close>

definition page_init :: "'s pmm_manager \<Rightarrow> u32 \<Rightarrow> e820_entry list \<Rightarrow> 's \<Rightarrow> u32 \<times> u32 \<times> 's" where
  "page_init m ende es s =
     (let npage = ucast (max_pa es div ucast PGSIZE) :: u32;
          pages = ROUNDUP ende PGSIZE;
          freemem = ucast (PADDR (pages + sizeof_Page * npage)) :: u64;
          s = fold (\<lambda>e s. case free_region freemem e of None \<Rightarrow> s | Some (p, n) \<Rightarrow> init_memmap m p n s) es s
      in (npage, pages, s))"

section \<open>The processor's walk\<close>

definition translate :: "(u32 \<Rightarrow> u32) \<Rightarrow> nat \<Rightarrow> u32 \<Rightarrow> u32 option" where
  "translate \<mu> d la =
     (let pde = \<mu> (cell d (unat (PDX la))) in
      if present pde then
        (let pte = \<mu> (cell (frame pde) (unat (PTX la))) in if present pte then Some pte else None)
      else None)"

text \<open>The directory slot that maps the directory itself; addresses below it are not user or
  kernel data and are left out of the statements.\<close>

definition self_slot :: nat where
  "self_slot = unat (PDX VPT)"

abbreviation ordinary :: "u32 \<Rightarrow> bool" where
  "ordinary la \<equiv> unat (PDX la) \<noteq> self_slot"

text \<open>Well-formed tables: the directory lies in frame \<open>d\<close>, each present slot names a frame of
  its own, and neither these nor the directory are free.\<close>

definition tables_ok :: "(u32 \<Rightarrow> u32) \<Rightarrow> nat \<Rightarrow> nat set \<Rightarrow> bool" where
  "tables_ok \<mu> d F \<longleftrightarrow> d < 2 ^ 18 \<and> d \<notin> F \<and> F \<subseteq> {..<2 ^ 18} \<and>
     (\<forall>i < 1024. i \<noteq> self_slot \<and> present (\<mu> (cell d i)) \<longrightarrow>
        frame (\<mu> (cell d i)) < 2 ^ 18 \<and> frame (\<mu> (cell d i)) \<notin> F \<and> frame (\<mu> (cell d i)) \<noteq> d \<and>
        (\<forall>j < 1024. j \<noteq> self_slot \<and> j \<noteq> i \<and> present (\<mu> (cell d j)) \<longrightarrow>
           frame (\<mu> (cell d j)) \<noteq> frame (\<mu> (cell d i))))"

lemma tables_okD:
  assumes "tables_ok \<mu> d F"
  shows "d < 2 ^ 18" "d \<notin> F" "F \<subseteq> {..<2 ^ 18}"
    "\<lbrakk>i < 1024; i \<noteq> self_slot; present (\<mu> (cell d i))\<rbrakk> \<Longrightarrow> frame (\<mu> (cell d i)) < 2 ^ 18"
    "\<lbrakk>i < 1024; i \<noteq> self_slot; present (\<mu> (cell d i))\<rbrakk> \<Longrightarrow> frame (\<mu> (cell d i)) \<notin> F"
    "\<lbrakk>i < 1024; i \<noteq> self_slot; present (\<mu> (cell d i))\<rbrakk> \<Longrightarrow> frame (\<mu> (cell d i)) \<noteq> d"
    "\<lbrakk>i < 1024; i \<noteq> self_slot; present (\<mu> (cell d i)); j < 1024; j \<noteq> self_slot;
      present (\<mu> (cell d j)); frame (\<mu> (cell d j)) = frame (\<mu> (cell d i))\<rbrakk> \<Longrightarrow> j = i"
  using assms unfolding tables_ok_def by blast+

lemma tables_ok_cong:
  assumes "tables_ok \<mu> d F" and "\<And>i. i < 1024 \<Longrightarrow> \<mu>' (cell d i) = \<mu> (cell d i)"
  shows "tables_ok \<mu>' d F"
  using assms unfolding tables_ok_def by (simp cong: conj_cong)

lemma same_page: "PAGE_NUM a = PAGE_NUM b \<longleftrightarrow> PDX a = PDX b \<and> PTX a = PTX b"
proof
  assume E: "PDX a = PDX b \<and> PTX a = PTX b"
  show "PAGE_NUM a = PAGE_NUM b"
  proof (rule bit_word_eqI)
    fix n assume "n < LENGTH(32)"
    have "bit (PTX a) n = bit (PTX b) n" "bit (PDX a) (n - 10) = bit (PDX b) (n - 10)"
      using E by simp_all
    then show "bit (PAGE_NUM a) n = bit (PAGE_NUM b) n"
      unfolding PAGE_NUM_def PDX_def PTX_def mask_numerals
      by (cases "n < 10") (auto simp: bit_simps dest: bit_imp_le_length)
  qed
next
  assume E: "PAGE_NUM a = PAGE_NUM b"
  have "drop_bit 10 (drop_bit 12 a) = drop_bit 10 (drop_bit 12 b)"
    using E by (simp add: PAGE_NUM_def)
  then show "PDX a = PDX b \<and> PTX a = PTX b"
    using E by (simp add: PAGE_NUM_def PDX_def PTX_def)
qed

lemma PAGE_NUM_unat: "unat (PAGE_NUM la) = unat la div 4096"
  by (simp only: PAGE_NUM_def unat_drop_bit_eq) (simp add: drop_bit_eq_div)

lemma PAGE_NUM_of_nat: "v < 2 ^ 20 \<Longrightarrow> unat (PAGE_NUM (of_nat (4096 * v))) = v"
  by (simp add: PAGE_NUM_unat unat_of_nat_u32 del: of_nat_mult)

lemma PDX_PAGE_NUM: "unat (PDX la) = unat (PAGE_NUM la) div 1024"
proof -
  have "unat la < 2 ^ 32" using unsigned_less [of la] by simp
  then have "unat la div 4194304 < 1024" by (simp add: less_mult_imp_div_less)
  moreover have "PDX la = take_bit 10 (drop_bit 22 la)"
    unfolding PDX_def mask_numerals take_bit_eq_mask by simp
  then have "unat (PDX la) = unat la div 4194304 mod 1024"
    by (simp only: unsigned_take_bit_eq unat_drop_bit_eq) (simp add: take_bit_eq_mod drop_bit_eq_div)
  ultimately show ?thesis by (simp add: PAGE_NUM_unat flip: div_mult2_eq)
qed

lemma translate_same_page:
  "PAGE_NUM a = PAGE_NUM b \<Longrightarrow> translate \<mu> d a = translate \<mu> d b"
  by (clarsimp simp: same_page translate_def Let_def)

lemma clear_page_cell:
  assumes "e < 2 ^ 18" "t < 2 ^ 18" "j < 1024"
  shows "clear_page (VADDR (page2pa t)) \<mu> (cell e j) = (if e = t then 0 else \<mu> (cell e j))"
proof -
  have eq: "cell e j - VADDR (page2pa t) = of_nat (4096 * e + 4 * j) - of_nat (4096 * t)"
    by (simp add: cell_def VADDR_def page2pa_of_nat)
  have "(cell e j - VADDR (page2pa t) < PGSIZE) = (e = t)"
  proof (cases "t \<le> e")
    case True
    then have "cell e j - VADDR (page2pa t) = (of_nat (4096 * (e - t) + 4 * j) :: u32)"
      unfolding eq by (subst of_nat_diff [symmetric]) (auto simp: algebra_simps diff_mult_distrib)
    moreover have "4096 * (e - t) + 4 * j < 4294967296" using assms by simp
    ultimately have "unat (cell e j - VADDR (page2pa t)) = 4096 * (e - t) + 4 * j"
      by (simp only: unat_of_nat_u32)
    then show ?thesis
      using True assms(3) by (auto simp: word_less_nat_alt PGSIZE_def)
  next
    case False
    have small: "4096 * t - (4096 * e + 4 * j) < 4294967296" "0 < 4096 * t - (4096 * e + 4 * j)"
      using False assms by auto
    have top: "(of_nat 4294967296 :: u32) = 0" by simp
    have "cell e j - VADDR (page2pa t) =
        of_nat 4294967296 - (of_nat (4096 * t - (4096 * e + 4 * j)) :: u32)"
      unfolding eq top using False assms(3) by (subst of_nat_diff) auto
    also have "\<dots> = of_nat (4294967296 - (4096 * t - (4096 * e + 4 * j)))"
      by (rule of_nat_diff [symmetric]) (use small in simp)
    finally have "unat (cell e j - VADDR (page2pa t)) =
        4294967296 - (4096 * t - (4096 * e + 4 * j))"
      using small by (simp only: unat_of_nat_u32)
    moreover have "4096 * t - (4096 * e + 4 * j) \<le> 4096 * 2 ^ 18" using assms(2) by simp
    ultimately show ?thesis using False by (auto simp: word_less_nat_alt PGSIZE_def)
  qed
  then show ?thesis by (simp add: clear_page_def)
qed

lemma page_table_flags:
  "frame (page2pa t OR PTE_U OR PTE_W OR PTE_P) = t" if "t < 2 ^ 18"
  using frame_page2pa [OF that, of "PTE_U OR PTE_W OR PTE_P"]
  by (simp add: PTE_U_def PTE_W_def PTE_P_def or.assoc)

lemma present_or: "present (a OR PTE_P)" "present (a OR PTE_P OR b)"
proof -
  have "(a OR PTE_P) AND PTE_P = PTE_P" "(a OR PTE_P OR b) AND PTE_P = PTE_P"
    by (auto intro!: bit_word_eqI simp: bit_simps)
  then show "present (a OR PTE_P)" "present (a OR PTE_P OR b)"
    by (simp_all add: PTE_P_def)
qed

lemma cell_nonzero: "e < 2 ^ 18 \<Longrightarrow> j < 1024 \<Longrightarrow> cell e j \<noteq> 0"
proof -
  assume "e < 2 ^ 18" "j < 1024"
  then have "3221225472 + (4096 * e + 4 * j) < 4294967296" by simp
  moreover have "cell e j = of_nat (3221225472 + (4096 * e + 4 * j))"
    by (simp add: cell_def KERNBASE_def)
  ultimately have "unat (cell e j) = 3221225472 + (4096 * e + 4 * j)"
    by (simp only: unat_of_nat_u32)
  then show ?thesis by auto
qed

lemma user_present: "a AND PTE_USER = b AND PTE_USER \<Longrightarrow> present a \<longleftrightarrow> present b"
proof -
  assume "a AND PTE_USER = b AND PTE_USER"
  then have "(a AND PTE_USER) AND PTE_P = (b AND PTE_USER) AND PTE_P" by simp
  then show ?thesis by (simp add: PTE_USER_def PTE_P_def PTE_W_def PTE_U_def and.assoc)
qed

section \<open>The operations over any allocator that keeps the contract\<close>

text \<open>What an operation on the tables may do besides its effect on translations.\<close>

definition vm_inv :: "('s \<Rightarrow> nat set \<Rightarrow> bool) \<Rightarrow> nat \<Rightarrow> nat set \<Rightarrow> 's vm \<Rightarrow> bool" where
  "vm_inv rel d F s \<longleftrightarrow> rel (pmm s) F \<and> tables_ok (mem s) d F"

text \<open>No cached translation disagrees with the tables of the current directory.\<close>

definition tlb_coherent :: "nat \<Rightarrow> 's vm \<Rightarrow> bool" where
  "tlb_coherent d s \<longleftrightarrow>
     (\<forall>la pte. ordinary la \<longrightarrow> tlb s (PAGE_NUM la) = Some pte \<longrightarrow> translate (mem s) d la = Some pte)"

lemma translate_update:
  assumes T: "tables_ok \<mu> d F" and i: "i < 1024" "i \<noteq> self_slot" "present (\<mu> (cell d i))"
    and j: "j < 1024" and o: "ordinary la"
  shows "translate (\<mu>(cell (frame (\<mu> (cell d i))) j := v)) d la =
    (if unat (PDX la) = i \<and> unat (PTX la) = j then (if present v then Some v else None)
     else translate \<mu> d la)"
    and "tables_ok (\<mu>(cell (frame (\<mu> (cell d i))) j := v)) d F"
proof -
  let ?t = "frame (\<mu> (cell d i))" and ?k = "unat (PDX la)"
  note TD = tables_okD [OF T]
  have k: "?k < 1024" by (rule PDX_lt)
  have dir: "cell d k \<noteq> cell ?t j" if "k < 1024" for k
    using cell_inj [of d k ?t j] TD(1) TD(4,6) [OF i] that j by auto
  have tab: "cell (frame (\<mu> (cell d ?k))) (unat (PTX la)) = cell ?t j \<longleftrightarrow>
      ?k = i \<and> unat (PTX la) = j" if p: "present (\<mu> (cell d ?k))"
    using cell_inj [of "frame (\<mu> (cell d ?k))" "unat (PTX la)" ?t j] TD(4) [OF i]
      TD(4) [OF k o p] TD(7) [OF i k o p] PTX_lt j by auto
  show "translate (\<mu>(cell ?t j := v)) d la =
    (if ?k = i \<and> unat (PTX la) = j then (if present v then Some v else None)
     else translate \<mu> d la)"
    using dir [OF k] tab i(3) by (auto simp: translate_def Let_def)
  show "tables_ok (\<mu>(cell ?t j := v)) d F"
    by (rule tables_ok_cong [OF T]) (use dir in auto)
qed

lemma entry_keeps_directory:
  assumes T: "tables_ok \<mu> d F" and i: "i < 1024" "i \<noteq> self_slot" "present (\<mu> (cell d i))"
    and j: "j < 1024" and k: "k < 1024"
  shows "(\<mu>(cell (frame (\<mu> (cell d i))) j := v)) (cell d k) = \<mu> (cell d k)"
  using cell_inj [of d k "frame (\<mu> (cell d i))" j] tables_okD(1) [OF T] tables_okD(4,6) [OF T i] j k
  by auto

lemma tables_ok_new_table:
  assumes T: "tables_ok \<mu> d F" and t: "t \<in> F" and i: "i < 1024" "i \<noteq> self_slot"
    and absent: "\<not> present (\<mu> (cell d i))"
    and v: "frame v = t" "present v"
  defines "\<mu>' \<equiv> (clear_page (VADDR (page2pa t)) \<mu>)(cell d i := v)"
  shows "tables_ok \<mu>' d (F - {t})" and "ordinary la \<Longrightarrow> translate \<mu>' d la = translate \<mu> d la"
    and "\<mu>' (cell d i) = v"
    and "k < 1024 \<Longrightarrow> \<mu>' (cell d k) = (if k = i then v else \<mu> (cell d k))"
proof -
  note TD = tables_okD [OF T]
  have td: "t < 2 ^ 18" "t \<noteq> d" using TD(2,3) t by auto
  have dir: "\<mu>' (cell d k) = (if k = i then v else \<mu> (cell d k))" if "k < 1024" for k
    using clear_page_cell [OF TD(1) td(1) that, of \<mu>] td(2) cell_inj [of d k d i] TD(1) that i
    by (auto simp: \<mu>'_def)
  have old: "frame (\<mu> (cell d k)) \<noteq> t" if "k < 1024" "k \<noteq> self_slot" "present (\<mu> (cell d k))" for k
    using TD(5) [OF that] t by auto
  show "tables_ok \<mu>' d (F - {t})"
    unfolding tables_ok_def
  proof (intro conjI allI impI)
    show "d < 2 ^ 18" "d \<notin> F - {t}" "F - {t} \<subseteq> {..<2 ^ 18}" using TD(1-3) by auto
  next
    fix k j assume k: "k < 1024" "k \<noteq> self_slot \<and> present (\<mu>' (cell d k))"
    show "frame (\<mu>' (cell d k)) < 2 ^ 18" "frame (\<mu>' (cell d k)) \<notin> F - {t}" "frame (\<mu>' (cell d k)) \<noteq> d"
      using k dir [OF k(1)] TD(4-6) [OF k(1)] v td by (auto split: if_splits)
    assume j: "j < 1024" "j \<noteq> self_slot \<and> j \<noteq> k \<and> present (\<mu>' (cell d j))"
    show "frame (\<mu>' (cell d j)) \<noteq> frame (\<mu>' (cell d k))"
      using k j dir [OF k(1)] dir [OF j(1)] old [OF k(1)] old [OF j(1)] TD(7) [OF k(1) _ _ j(1)] v
      by (auto split: if_splits)
  qed
  show "\<mu>' (cell d i) = v" by (simp add: \<mu>'_def)
  show "k < 1024 \<Longrightarrow> \<mu>' (cell d k) = (if k = i then v else \<mu> (cell d k))" by (rule dir)
  assume o: "ordinary la"
  let ?k = "unat (PDX la)" and ?j = "unat (PTX la)"
  have k: "?k < 1024" and j: "?j < 1024" by (rule PDX_lt, rule PTX_lt)
  have own: "\<mu>' (cell t ?j) = 0"
    using clear_page_cell [OF td(1) td(1) j, of \<mu>] cell_inj [of t ?j d i] td TD(1) i j
    by (auto simp: \<mu>'_def)
  have others: "\<mu>' (cell (frame (\<mu> (cell d ?k))) ?j) = \<mu> (cell (frame (\<mu> (cell d ?k))) ?j)"
    if p: "present (\<mu> (cell d ?k))"
    using clear_page_cell [OF TD(4) [OF k o p] td(1) j, of \<mu>] old [OF k o p]
      cell_inj [of "frame (\<mu> (cell d ?k))" ?j d i] TD(4,6) [OF k o p] TD(1) i j
    by (auto simp: \<mu>'_def)
  show "translate \<mu>' d la = translate \<mu> d la"
  proof (cases "?k = i")
    case True
    then show ?thesis using dir [OF k] own absent v by (simp add: translate_def Let_def)
  next
    case False
    then show ?thesis using dir [OF k] others by (simp add: translate_def Let_def)
  qed
qed

text \<open>At most one free page becomes a table, and only when slot \<open>i\<close> had none; no table goes away.\<close>

definition table_taken :: "nat \<Rightarrow> nat \<Rightarrow> (u32 \<Rightarrow> u32) \<Rightarrow> (u32 \<Rightarrow> u32) \<Rightarrow> nat set \<Rightarrow> nat set \<Rightarrow> bool" where
  "table_taken d i \<mu> \<mu>' F F' \<longleftrightarrow>
     (\<forall>j < 1024. present (\<mu> (cell d j)) \<longrightarrow> present (\<mu>' (cell d j))) \<and>
     (if present (\<mu> (cell d i)) then F' = F else \<exists>t \<in> F. F' = F - {t} \<and> present (\<mu>' (cell d i)))"

text \<open>The directory slots of \<open>A\<close> that have no table yet.\<close>

definition absent_slots :: "(u32 \<Rightarrow> u32) \<Rightarrow> nat \<Rightarrow> nat set \<Rightarrow> nat set" where
  "absent_slots \<mu> d A = {j \<in> A. \<not> present (\<mu> (cell d j))}"

lemma absent_slots_taken:
  assumes "table_taken d i \<mu> \<mu>' F F'" and "A \<subseteq> {..<1024}" and "i \<in> A" and "finite F"
    and "card (absent_slots \<mu> d A) \<le> card F"
  shows "card (absent_slots \<mu>' d A) \<le> card F'"
proof -
  have fin: "finite (absent_slots \<mu> d A)"
    using assms(2) finite_subset by (fastforce simp: absent_slots_def)
  have sub: "absent_slots \<mu>' d A \<subseteq> absent_slots \<mu> d A"
    using assms(1,2) by (auto simp: absent_slots_def table_taken_def)
  show ?thesis
  proof (cases "present (\<mu> (cell d i))")
    case True
    then show ?thesis using card_mono [OF fin sub] assms(1,5) by (simp add: table_taken_def)
  next
    case False
    then obtain t where t: "t \<in> F" "F' = F - {t}" "present (\<mu>' (cell d i))"
      using assms(1) by (auto simp: table_taken_def)
    have "absent_slots \<mu>' d A \<subseteq> absent_slots \<mu> d A - {i}" "i \<in> absent_slots \<mu> d A"
      using sub t(3) False assms(3) by (auto simp: absent_slots_def)
    then show ?thesis
      using card_mono [of "absent_slots \<mu> d A - {i}" "absent_slots \<mu>' d A"] fin assms(4,5) t(1,2)
      by (simp add: card_Diff_singleton)
  qed
qed

context page_source begin

lemma alloc_page_some:
  assumes "rel (pmm s) F" and "alloc_page m s = Some (p, s')"
  shows "p \<in> F" "rel (pmm s') (F - {p})" "mem s' = mem s" "cr3 s' = cr3 s" "tlb s' = tlb s"
proof -
  from assms(2) obtain q where q: "alloc_pages m 1 (pmm s) = Some (Some p, q)" "s' = s\<lparr>pmm := q\<rparr>"
    by (auto simp: alloc_page_def split: option.splits)
  from alloc_some [OF assms(1) _ q(1)] q(2)
  show "p \<in> F" "rel (pmm s') (F - {p})" "mem s' = mem s" "cr3 s' = cr3 s" "tlb s' = tlb s"
    by auto
qed

lemma get_pte_correct:
  assumes inv: "vm_inv rel d F s" and o: "ordinary la"
    and g: "get_pte m (page2va d) la s = Some (p, s')"
  shows "\<exists>F' \<subseteq> F. table_taken d (unat (PDX la)) (mem s) (mem s') F F' \<and>
      vm_inv rel d F' s' \<and> p = cell (frame (mem s' (cell d (unat (PDX la))))) (unat (PTX la)) \<and>
      present (mem s' (cell d (unat (PDX la)))) \<and>
      (\<forall>la'. ordinary la' \<longrightarrow> translate (mem s') d la' = translate (mem s) d la') \<and>
      cr3 s' = cr3 s \<and> tlb s' = tlb s"
proof -
  let ?i = "unat (PDX la)" and ?v = "\<lambda>t. page2pa t OR PTE_U OR PTE_W OR PTE_P"
  have rel: "rel (pmm s) F" and T: "tables_ok (mem s) d F" using inv by (auto simp: vm_inv_def)
  show ?thesis
  proof (cases "present (mem s (cell d ?i))")
    case True
    then have "s' = s" "p = cell (frame (mem s (cell d ?i))) (unat (PTX la))"
      using g by (auto simp: get_pte_def dir_cell table_cell Let_def)
    then show ?thesis using inv True by (auto simp: table_taken_def)
  next
    case False
    then obtain t s1 where al: "alloc_page m s = Some (t, s1)"
      and s': "s' = s1\<lparr>mem := (clear_page (VADDR (page2pa t)) (mem s1))(cell d ?i := ?v t)\<rparr>"
      and p: "p = cell (frame (mem s' (cell d ?i))) (unat (PTX la))"
      using g by (auto simp: get_pte_def dir_cell table_cell Let_def bind_eq_Some_conv)
    note A = alloc_page_some [OF rel al]
    have "t < 2 ^ 18" using A(1) tables_okD(3) [OF T] by auto
    then have v: "frame (?v t) = t" "present (?v t)"
      using page_table_flags present_or by (auto simp: or.assoc [symmetric])
    note N = tables_ok_new_table [OF T A(1) PDX_lt o False v]
    have "vm_inv rel d (F - {t}) s'"
      using A N(1) by (simp add: vm_inv_def s')
    moreover have "mem s' (cell d ?i) = ?v t" by (simp add: s')
    moreover have "ordinary la' \<Longrightarrow> translate (mem s') d la' = translate (mem s) d la'" for la'
      using N(2) A(3) by (simp add: s')
    moreover have "table_taken d ?i (mem s) (mem s') F (F - {t})"
      using N(4) A(1,3) v False by (auto simp: table_taken_def s')
    ultimately show ?thesis
      using p v A(4,5) by (intro exI [of _ "F - {t}"]) (simp add: s')
  qed
qed

lemma write_entry_correct:
  assumes inv: "vm_inv rel d F s" and o: "ordinary la"
    and p: "p = cell (frame (mem s (cell d (unat (PDX la))))) (unat (PTX la))"
    and pres: "present (mem s (cell d (unat (PDX la))))"
  shows "vm_inv rel d F (store p v s)"
    and "ordinary la' \<Longrightarrow> translate (mem (store p v s)) d la' =
      (if PAGE_NUM la' = PAGE_NUM la then (if present v then Some v else None)
       else translate (mem s) d la')"
proof -
  have T: "tables_ok (mem s) d F" using inv by (simp add: vm_inv_def)
  have pg: "PAGE_NUM la' = PAGE_NUM la \<longleftrightarrow> unat (PDX la') = unat (PDX la) \<and> unat (PTX la') = unat (PTX la)"
    unfolding same_page by (simp add: word_unat_eq_iff [symmetric])
  note U = translate_update [where i = "unat (PDX la)" and j = "unat (PTX la)", OF T PDX_lt o pres PTX_lt]
  show "vm_inv rel d F (store p v s)"
    using U(2) [OF o] inv by (simp add: vm_inv_def p)
  show "ordinary la' \<Longrightarrow> translate (mem (store p v s)) d la' =
      (if PAGE_NUM la' = PAGE_NUM la then (if present v then Some v else None)
       else translate (mem s) d la')"
    using U(1) by (simp only: p pg) simp
qed

lemma entry_translate:
  assumes "p = cell (frame (\<mu> (cell d (unat (PDX la))))) (unat (PTX la))"
    and "present (\<mu> (cell d (unat (PDX la))))"
  shows "translate \<mu> d la = (if present (\<mu> p) then Some (\<mu> p) else None)"
  using assms by (simp add: translate_def)

lemma page_insert_correct:
  assumes inv: "vm_inv rel d F s" and o: "ordinary la"
    and g: "page_insert m (page2va d) q la perm s = Some (r, s')"
  shows "\<exists>F' \<subseteq> F. vm_inv rel d F' s' \<and> r = 0 \<and> cr3 s' = cr3 s \<and>
      (\<forall>la'. ordinary la' \<longrightarrow> translate (mem s') d la' =
        (if PAGE_NUM la' = PAGE_NUM la then Some (page2pa q OR PTE_P OR perm)
         else translate (mem s) d la')) \<and>
      tlb s' = (if cr3 s = PADDR (page2va d) then (tlb s)(PAGE_NUM la := None) else tlb s)"
proof -
  let ?v = "page2pa q OR PTE_P OR perm"
  from g obtain p s1 where g1: "get_pte m (page2va d) la s = Some (p, s1)"
    by (auto simp: page_insert_def bind_eq_Some_conv)
  with g have s': "mem s' = (mem s1)(p := ?v)" "pmm s' = pmm s1" "cr3 s' = cr3 s1" "r = 0"
      "tlb s' = (if cr3 s1 = PADDR (page2va d) then (tlb s1)(PAGE_NUM la := None) else tlb s1)"
    by (auto simp: page_insert_def page_remove_pte_def tlb_invalidate_def invlpg_def Let_def)
  from get_pte_correct [OF inv o g1] obtain F' where G: "F' \<subseteq> F" "vm_inv rel d F' s1"
    "p = cell (frame (mem s1 (cell d (unat (PDX la))))) (unat (PTX la))"
    "present (mem s1 (cell d (unat (PDX la))))"
    "\<And>la'. ordinary la' \<Longrightarrow> translate (mem s1) d la' = translate (mem s) d la'"
    "cr3 s1 = cr3 s" "tlb s1 = tlb s" by blast
  note W = write_entry_correct [OF G(2) o G(3,4), where v = ?v]
  have "vm_inv rel d F' s'" using W(1) s' by (simp add: vm_inv_def)
  then show ?thesis using G W(2) s' present_or by (intro exI [of _ F']) simp
qed

lemma page_remove_correct:
  assumes inv: "vm_inv rel d F s" and o: "ordinary la"
    and g: "page_remove m (page2va d) la s = Some s'"
  shows "\<exists>F' \<subseteq> F. vm_inv rel d F' s' \<and> cr3 s' = cr3 s \<and>
      (\<forall>la'. ordinary la' \<longrightarrow> translate (mem s') d la' =
        (if PAGE_NUM la' = PAGE_NUM la then None else translate (mem s) d la')) \<and>
      tlb s' = (if cr3 s = PADDR (page2va d) \<and> translate (mem s) d la \<noteq> None
                then (tlb s)(PAGE_NUM la := None) else tlb s)"
proof -
  from g obtain p s1 where g1: "get_pte m (page2va d) la s = Some (p, s1)"
    and s1: "s' = (if p \<noteq> 0 then page_remove_pte (page2va d) la p s1 else s1)"
    by (auto simp: page_remove_def bind_eq_Some_conv)
  from get_pte_correct [OF inv o g1] obtain F' where G: "F' \<subseteq> F" "vm_inv rel d F' s1"
    "p = cell (frame (mem s1 (cell d (unat (PDX la))))) (unat (PTX la))"
    "present (mem s1 (cell d (unat (PDX la))))"
    "\<And>la'. ordinary la' \<Longrightarrow> translate (mem s1) d la' = translate (mem s) d la'"
    "cr3 s1 = cr3 s" "tlb s1 = tlb s" by blast
  note W = write_entry_correct [OF G(2) o G(3,4), where v = 0]
  note E = entry_translate [where \<mu> = "mem s1", OF G(3,4)]
  have "frame (mem s1 (cell d (unat (PDX la)))) < 2 ^ 18"
    using G(2,4) o PDX_lt tables_okD(4) by (auto simp: vm_inv_def)
  then have "p \<noteq> 0" using G(3) cell_nonzero PTX_lt by simp
  then have s': "s' = page_remove_pte (page2va d) la p s1" using s1 by simp
  have old: "translate (mem s) d la = (if present (mem s1 p) then Some (mem s1 p) else None)"
    using E G(5) [OF o] by simp
  show ?thesis
  proof (cases "present (mem s1 p)")
    case True
    then have "mem s' = (mem s1)(p := 0)" "pmm s' = pmm s1" "cr3 s' = cr3 s1"
      "tlb s' = (if cr3 s1 = PADDR (page2va d) then (tlb s1)(PAGE_NUM la := None) else tlb s1)"
      by (auto simp: s' page_remove_pte_def tlb_invalidate_def invlpg_def)
    moreover from this have "vm_inv rel d F' s'" using W(1) by (simp add: vm_inv_def)
    ultimately show ?thesis using G W(2) True old by (intro exI [of _ F']) simp
  next
    case False
    then have "s' = s1" by (simp add: s' page_remove_pte_def)
    moreover have "translate (mem s) d la' = None" if "PAGE_NUM la' = PAGE_NUM la" for la'
      using translate_same_page [OF that] old False by simp
    ultimately show ?thesis using G False old by (intro exI [of _ F']) auto
  qed
qed

lemma map_pages_correct:
  assumes "vm_inv rel d F s" and "v + n \<le> 2 ^ 20" and "\<And>k. v \<le> k \<Longrightarrow> k < v + n \<Longrightarrow> k div 1024 \<noteq> self_slot"
    and "map_pages m (page2va d) (of_nat (4096 * v)) n pa perm s = Some s'"
  shows "\<exists>F' \<subseteq> F. vm_inv rel d F' s' \<and> cr3 s' = cr3 s \<and> tlb s' = tlb s \<and>
      (\<forall>la. ordinary la \<longrightarrow> translate (mem s') d la =
        (if v \<le> unat (PAGE_NUM la) \<and> unat (PAGE_NUM la) < v + n
         then Some ((pa + of_nat (4096 * (unat (PAGE_NUM la) - v))) OR PTE_P OR perm)
         else translate (mem s) d la))"
  using assms
proof (induction n arbitrary: v pa s F)
  case 0
  then show ?case by auto
next
  case (Suc n)
  let ?la = "of_nat (4096 * v) :: u32" and ?v = "pa OR PTE_P OR perm"
  have v: "v < 2 ^ 20" using Suc.prems(2) by simp
  note pn = PAGE_NUM_of_nat [OF v]
  have o: "ordinary ?la" using Suc.prems(3) [of v] by (simp add: PDX_PAGE_NUM pn del: of_nat_mult)
  from Suc.prems(4) obtain p s1 where g1: "get_pte m (page2va d) ?la s = Some (p, s1)"
    and rest: "map_pages m (page2va d) (of_nat (4096 * Suc v)) n (pa + PGSIZE) perm (store p ?v s1) = Some s'"
    by (auto simp: bind_eq_Some_conv PGSIZE_def algebra_simps)
  from get_pte_correct [OF Suc.prems(1) o g1] obtain F1 where G: "F1 \<subseteq> F" "vm_inv rel d F1 s1"
    "p = cell (frame (mem s1 (cell d (unat (PDX ?la))))) (unat (PTX ?la))"
    "present (mem s1 (cell d (unat (PDX ?la))))"
    "\<And>la'. ordinary la' \<Longrightarrow> translate (mem s1) d la' = translate (mem s) d la'"
    "cr3 s1 = cr3 s" "tlb s1 = tlb s" by blast
  note W = write_entry_correct [OF G(2) o G(3,4), where v = ?v]
  from Suc.IH [OF W(1) _ _ rest] Suc.prems(2,3) obtain F' where F': "F' \<subseteq> F1" "vm_inv rel d F' s'"
    "cr3 s' = cr3 s" "tlb s' = tlb s"
    "\<And>la. ordinary la \<Longrightarrow> translate (mem s') d la =
        (if Suc v \<le> unat (PAGE_NUM la) \<and> unat (PAGE_NUM la) < Suc v + n
         then Some ((pa + PGSIZE + of_nat (4096 * (unat (PAGE_NUM la) - Suc v))) OR PTE_P OR perm)
         else translate (mem (store p ?v s1)) d la)"
    using G(6,7) by force
  have "translate (mem s') d la =
        (if v \<le> unat (PAGE_NUM la) \<and> unat (PAGE_NUM la) < v + Suc n
         then Some ((pa + of_nat (4096 * (unat (PAGE_NUM la) - v))) OR PTE_P OR perm)
         else translate (mem s) d la)" if la: "ordinary la" for la
  proof (cases "unat (PAGE_NUM la) = v")
    case True
    then have "PAGE_NUM la = PAGE_NUM ?la" using pn by (metis unsigned_word_eqI)
    then show ?thesis using True F'(5) [OF la] W(2) [OF la] present_or by simp
  next
    case False
    then have ne: "PAGE_NUM la \<noteq> PAGE_NUM ?la" using pn by metis
    then show ?thesis using False F'(5) [OF la] W(2) [OF la] G(5) [OF la]
      by (auto simp: PGSIZE_def algebra_simps)
  qed
  then show ?case using G(1) F' by (intro exI [of _ F']) auto
qed

end

text \<open>With an allocator that has pages left, the operations always finish.\<close>

context page_supplier begin

lemma get_pte_some:
  assumes "rel (pmm s) F" and "F \<noteq> {}"
  shows "\<exists>p s'. get_pte m pgdir la s = Some (p, s')"
proof -
  from one_law [OF assms] obtain p q where "alloc_pages m 1 (pmm s) = Some (Some p, q)" by blast
  then show ?thesis by (auto simp: get_pte_def alloc_page_def Let_def)
qed

lemma get_pte_some_if_present:
  "present (mem s (page2va d + 4 * PDX la)) \<Longrightarrow> \<exists>p s'. get_pte m (page2va d) la s = Some (p, s')"
  by (simp add: get_pte_def Let_def)

lemma map_pages_some:
  assumes "vm_inv rel d F s" and "finite F" and "v + n \<le> 2 ^ 20"
    and "\<And>k. v \<le> k \<Longrightarrow> k < v + n \<Longrightarrow> k div 1024 \<in> A" and "A \<subseteq> {..<1024} - {self_slot}"
    and "card (absent_slots (mem s) d A) \<le> card F"
  shows "\<exists>s'. map_pages m (page2va d) (of_nat (4096 * v)) n pa perm s = Some s'"
  using assms
proof (induction n arbitrary: v pa s F)
  case (Suc n)
  let ?la = "of_nat (4096 * v) :: u32" and ?v = "pa OR PTE_P OR perm"
  have v: "v < 2 ^ 20" using Suc.prems(3) by simp
  have slot: "unat (PDX ?la) = v div 1024"
    using PAGE_NUM_of_nat [OF v] by (simp add: PDX_PAGE_NUM del: of_nat_mult)
  have A: "v div 1024 \<in> A" using Suc.prems(4) [of v] by simp
  have o: "ordinary ?la" using A Suc.prems(5) slot by auto
  have rel: "rel (pmm s) F" using Suc.prems(1) by (simp add: vm_inv_def)
  have "\<exists>p s1. get_pte m (page2va d) ?la s = Some (p, s1)"
  proof (cases "present (mem s (cell d (v div 1024)))")
    case True
    then show ?thesis
      using get_pte_some_if_present [where d = d and la = ?la and s = s] slot
      by (simp add: dir_cell del: of_nat_mult)
  next
    case False
    then have "absent_slots (mem s) d A \<noteq> {}" using A by (auto simp: absent_slots_def)
    moreover have "finite (absent_slots (mem s) d A)"
      using Suc.prems(5) finite_subset by (fastforce simp: absent_slots_def)
    ultimately have "F \<noteq> {}" using Suc.prems(6) by auto
    then show ?thesis by (rule get_pte_some [OF rel])
  qed
  then obtain p s1 where g1: "get_pte m (page2va d) ?la s = Some (p, s1)" by blast
  from get_pte_correct [OF Suc.prems(1) o g1] obtain F1 where G:
    "F1 \<subseteq> F" "table_taken d (unat (PDX ?la)) (mem s) (mem s1) F F1" "vm_inv rel d F1 s1"
    "p = cell (frame (mem s1 (cell d (unat (PDX ?la))))) (unat (PTX ?la))"
    "present (mem s1 (cell d (unat (PDX ?la))))" by blast
  note W = write_entry_correct [OF G(3) o G(4,5), where v = ?v]
  have T1: "tables_ok (mem s1) d F1" using G(3) by (simp add: vm_inv_def)
  have "mem (store p ?v s1) (cell d x) = mem s1 (cell d x)" if "x < 1024" for x
    using entry_keeps_directory [where \<mu> = "mem s1" and d = d and i = "unat (PDX ?la)"
        and j = "unat (PTX ?la)", OF T1 PDX_lt o G(5) PTX_lt that]
    by (simp only: G(4)) simp
  then have keep: "absent_slots (mem (store p ?v s1)) d A = absent_slots (mem s1) d A"
    using Suc.prems(5) by (auto simp: absent_slots_def subset_iff simp del: fun_upd_apply vm.simps)
  have "card (absent_slots (mem s1) d A) \<le> card F1"
    using absent_slots_taken [OF G(2) _ _ Suc.prems(2,6)] Suc.prems(5) A slot by auto
  then have card: "card (absent_slots (mem (store p ?v s1)) d A) \<le> card F1" by (simp only: keep)
  have "\<exists>s'. map_pages m (page2va d) (of_nat (4096 * Suc v)) n (pa + PGSIZE) perm (store p ?v s1) = Some s'"
    by (rule Suc.IH [OF W(1) finite_subset [OF G(1) Suc.prems(2)] _ _ Suc.prems(5) card])
      (use Suc.prems(3,4) in auto)
  then show ?case using g1 by (simp add: PGSIZE_def algebra_simps)
qed simp

lemma page_insert_some:
  assumes "rel (pmm s) F" and "F \<noteq> {}"
  shows "\<exists>s'. page_insert m pgdir q la perm s = Some (0, s')"
proof -
  from get_pte_some [OF assms] obtain p s1 where "get_pte m pgdir la s = Some (p, s1)" by blast
  then show ?thesis by (auto simp: page_insert_def Let_def)
qed

lemma page_remove_some:
  assumes "rel (pmm s) F" and "F \<noteq> {}"
  shows "\<exists>s'. page_remove m pgdir la s = Some s'"
proof -
  from get_pte_some [OF assms] obtain p s1 where "get_pte m pgdir la s = Some (p, s1)" by blast
  then show ?thesis by (auto simp: page_remove_def)
qed

end

lemma unat_ROUNDDOWN: "unat (ROUNDDOWN a n) = unat a div unat n * unat n"
proof -
  have "a mod n \<le> a" by (simp add: word_le_nat_alt unat_mod)
  then have "unat (ROUNDDOWN a n) = unat a - unat a mod unat n"
    by (simp add: ROUNDDOWN_def unat_sub unat_mod)
  then show ?thesis by (simp add: minus_mod_eq_div_mult)
qed

lemma PAGE_NUM_ROUNDDOWN: "ROUNDDOWN la PGSIZE = of_nat (4096 * unat (PAGE_NUM la))"
proof (rule unsigned_word_eqI)
  have "4096 * unat (PAGE_NUM la) < 4294967296"
    using unsigned_less [of la, where ?'a = nat] by (simp add: PAGE_NUM_unat)
  then show "unat (ROUNDDOWN la PGSIZE) = unat (of_nat (4096 * unat (PAGE_NUM la)) :: u32)"
    unfolding unat_ROUNDDOWN by (simp only: unat_of_nat_u32 PAGE_NUM_unat) (simp add: PGSIZE_def)
qed

lemma ROUNDUP_pages:
  assumes "unat a + 4095 < 4294967296"
  shows "unat (ROUNDUP a PGSIZE) = (unat a + 4095) div 4096 * 4096"
    and "unat (ROUNDUP a PGSIZE div PGSIZE) = (unat a + 4095) div 4096"
proof -
  have "a + PGSIZE - 1 = of_nat (unat a + 4095)" by (simp add: PGSIZE_def)
  then have u: "unat (a + PGSIZE - 1) = unat a + 4095" using assms by (simp only: unat_of_nat_u32)
  show r: "unat (ROUNDUP a PGSIZE) = (unat a + 4095) div 4096 * 4096"
    unfolding ROUNDUP_def unat_ROUNDDOWN u by (simp add: PGSIZE_def)
  show "unat (ROUNDUP a PGSIZE div PGSIZE) = (unat a + 4095) div 4096"
    unfolding unat_div_distrib r by (simp add: PGSIZE_def)
qed

section \<open>The scan of a table\<close>

lemma skip_absent_correct:
  "start \<le> skip_absent start right table \<and>
   (\<forall>i. start \<le> i \<and> i < skip_absent start right table \<longrightarrow> i < right \<and> \<not> present (table i)) \<and>
   (skip_absent start right table < right \<longrightarrow> present (table (skip_absent start right table)))"
proof (induction start right table rule: skip_absent.induct)
  case (1 start right table)
  show ?case
  proof (cases "start < right \<and> \<not> present (table start)")
    case True
    then have "skip_absent start right table = skip_absent (Suc start) right table"
      by (simp add: skip_absent.simps [of start])
    then show ?thesis using 1 [OF True] True by (metis Suc_leD Suc_leI le_neq_implies_less)
  next
    case False
    then have "skip_absent start right table = start"
      by (subst skip_absent.simps) (simp only: if_False)
    then show ?thesis using False by auto
  qed
qed

lemma skip_same_correct:
  "start \<le> skip_same start right table perm \<and>
   (\<forall>i. start \<le> i \<and> i < skip_same start right table perm \<longrightarrow> i < right \<and> table i AND PTE_USER = perm) \<and>
   (skip_same start right table perm < right \<longrightarrow> table (skip_same start right table perm) AND PTE_USER \<noteq> perm)"
proof (induction start right table perm rule: skip_same.induct)
  case (1 start right table perm)
  show ?case
  proof (cases "start < right \<and> table start AND PTE_USER = perm")
    case True
    then have "skip_same start right table perm = skip_same (Suc start) right table perm"
      by (simp add: skip_same.simps [of start])
    then show ?thesis using 1 [OF True] True by (metis Suc_leD Suc_leI le_neq_implies_less)
  next
    case False
    then have "skip_same start right table perm = start"
      by (subst skip_same.simps) (simp only: if_False)
    then show ?thesis using False by auto
  qed
qed

lemma get_pgtable_items_correct:
  "case get_pgtable_items right start table of
     (perm, Some (l, r)) \<Rightarrow> start \<le> l \<and> l < r \<and> r \<le> right \<and>
       (\<forall>i. start \<le> i \<and> i < l \<longrightarrow> \<not> present (table i)) \<and>
       (\<forall>i. l \<le> i \<and> i < r \<longrightarrow> present (table i) \<and> table i AND PTE_USER = perm) \<and>
       (r < right \<longrightarrow> table r AND PTE_USER \<noteq> perm) \<and> perm \<noteq> 0
   | (perm, None) \<Rightarrow> perm = 0 \<and> (\<forall>i. start \<le> i \<and> i < right \<longrightarrow> \<not> present (table i))"
proof -
  let ?l = "skip_absent start right table"
  let ?perm = "table ?l AND PTE_USER"
  let ?r = "skip_same (Suc ?l) right table ?perm"
  note A = skip_absent_correct [of start right table]
  note B = skip_same_correct [of "Suc ?l" right table ?perm]
  show ?thesis
  proof (cases "start < right \<and> ?l < right")
    case True
    then have P: "present (table ?l)" using A by blast
    have run: "table i AND PTE_USER = ?perm" if "?l \<le> i" "i < ?r" for i
      using B that by (cases "i = ?l") auto
    have "present (table i)" if "?l \<le> i" "i < ?r" for i
      using user_present [OF run [OF that]] P by simp
    moreover have "?r \<le> right"
    proof (rule ccontr)
      assume "\<not> ?r \<le> right"
      then show False using B True by (metis Suc_leI not_le order_refl)
    qed
    moreover have "?perm \<noteq> 0" using P user_present [of "table ?l" 0] by auto
    moreover have "start \<le> ?l" "?l < ?r" using A B by auto
    moreover have eq: "get_pgtable_items right start table = (?perm, Some (?l, ?r))"
      using True by (simp add: get_pgtable_items_def Let_def)
    ultimately show ?thesis
      unfolding eq prod.case option.case using A B run by blast
  next
    case False
    then have eq: "get_pgtable_items right start table = (0, None)"
      by (auto simp: get_pgtable_items_def Let_def)
    have "\<forall>i. start \<le> i \<and> i < right \<longrightarrow> \<not> present (table i)"
      using A False by (metis le_less_trans not_le)
    then show ?thesis unfolding eq prod.case option.case by blast
  qed
qed

section \<open>The start-up memory scan\<close>

lemma unat_ucast_32: "unat (x :: u64) < 4294967296 \<Longrightarrow> unat (ucast x :: u32) = unat x"
  by (simp add: unsigned_ucast_eq take_bit_eq_mod)

lemma free_region_bounds:
  assumes r: "free_region freemem e = Some (p, n)"
    and top: "unat (e_addr e) + unat (e_size e) < 2 ^ 64"
  shows "e_type e = E820_ARM" "0 < n" "unat freemem \<le> 4096 * p" "unat (e_addr e) \<le> 4096 * p"
    "4096 * (p + n) \<le> unat KMEMSIZE" "4096 * (p + n) \<le> unat (e_addr e) + unat (e_size e)"
proof -
  let ?a = "if e_addr e < freemem then freemem else e_addr e"
  let ?b = "if ucast KMEMSIZE < e_addr e + e_size e then ucast KMEMSIZE else e_addr e + e_size e"
  let ?A = "ROUNDUP64 ?a PGSIZE" and ?B = "ROUNDDOWN64 ?b PGSIZE"
  from r have R: "e_type e = E820_ARM" "?a < ?b" "?A < ?B" "p = pa2page (ucast ?A)"
      "n = unat ((?B - ?A) div ucast PGSIZE)"
    by (simp_all only: free_region_def Let_def split: if_splits) auto
  have sum: "unat (e_addr e + e_size e) = unat (e_addr e) + unat (e_size e)"
    using top by (simp add: unat_word_ariths)
  have b: "unat ?b \<le> unat KMEMSIZE" "unat ?b \<le> unat (e_addr e) + unat (e_size e)"
    using sum by (auto simp: word_less_nat_alt)
  have a: "unat freemem \<le> unat ?a" "unat (e_addr e) \<le> unat ?a"
    by (auto simp: word_less_nat_alt)
  have ab: "unat ?a < unat ?b" using R(2) by (simp only: word_less_nat_alt)
  have K: "unat KMEMSIZE = 939524096" by (simp add: KMEMSIZE_def)
  have ua: "unat (ucast ?a :: u32) = unat ?a" "unat (ucast ?b :: u32) = unat ?b"
    using ab b(1) K by (simp_all only: unat_ucast_32)
  have A: "unat ?A = (unat ?a + 4095) div 4096 * 4096"
    unfolding ROUNDUP64_def unat_ucast_64 using ROUNDUP_pages(1) [of "ucast ?a"] ua ab b(1) K by simp
  have B: "unat ?B = unat ?b div 4096 * 4096"
    unfolding ROUNDDOWN64_def unat_ucast_64 unat_ROUNDDOWN ua by (simp add: PGSIZE_def)
  have AB: "unat ?A < unat ?B" using R(3) by (simp only: word_less_nat_alt)
  have Bb: "unat ?B \<le> unat ?b" unfolding B by simp
  have p: "p = (unat ?a + 4095) div 4096"
    unfolding R(4) pa2page_def PAGE_NUM_unat using AB Bb b(1) K A by (simp add: unat_ucast_32 del: unsigned_ucast_eq)
  have "unat (?B - ?A) = unat ?B - unat ?A" using AB by (simp only: unat_sub word_le_nat_alt)
  then have n: "n = unat ?b div 4096 - (unat ?a + 4095) div 4096"
    unfolding R(5) unat_div_distrib unat_ucast_64 A B
    by (simp add: PGSIZE_def diff_mult_distrib [symmetric])
  have pn: "p + n = unat ?b div 4096" "0 < n" using n p AB A B by auto
  then show "0 < n" by simp
  show "e_type e = E820_ARM" by (rule R(1))
  have "unat ?a \<le> 4096 * p" unfolding p by simp
  then show "unat freemem \<le> 4096 * p" "unat (e_addr e) \<le> 4096 * p"
    using a by (meson le_trans)+
  have "4096 * (p + n) \<le> unat ?b" unfolding pn(1) by simp
  then show "4096 * (p + n) \<le> unat KMEMSIZE" "4096 * (p + n) \<le> unat (e_addr e) + unat (e_size e)"
    using b by (meson le_trans)+
qed

definition max_pa_step :: "e820_entry \<Rightarrow> u64 \<Rightarrow> u64" where
  "max_pa_step e maxpa =
     (let start = e_addr e; free_end = start + e_size e in
      if e_type e = E820_ARM then
        (if maxpa < free_end \<and> start < ucast KMEMSIZE then free_end else maxpa)
      else maxpa)"

lemma max_pa_fold_mono: "x \<le> fold max_pa_step es x"
proof (induction es arbitrary: x)
  case (Cons e es)
  have "x \<le> max_pa_step e x" by (auto simp: max_pa_step_def Let_def)
  then show ?case using Cons [of "max_pa_step e x"] by simp
qed simp

lemma max_pa_step_ge:
  "e_type e = E820_ARM \<Longrightarrow> e_addr e < ucast KMEMSIZE \<Longrightarrow> e_addr e + e_size e \<le> max_pa_step e x"
  by (simp add: max_pa_step_def Let_def not_less)

lemma max_pa_fold_ge:
  "e \<in> set es \<Longrightarrow> e_type e = E820_ARM \<Longrightarrow> e_addr e < ucast KMEMSIZE \<Longrightarrow>
     e_addr e + e_size e \<le> fold max_pa_step es x"
proof (induction es arbitrary: x)
  case (Cons a es)
  show ?case
  proof (cases "e = a")
    case True
    then show ?thesis
      using order_trans [OF max_pa_step_ge max_pa_fold_mono] Cons.prems by simp
  next
    case False
    then show ?thesis using Cons by simp
  qed
qed simp

lemma max_pa_eq: "max_pa es = min (ucast KMEMSIZE) (fold max_pa_step es 0)"
proof -
  have "max_pa es = (let m = fold max_pa_step es 0 in if ucast KMEMSIZE < m then ucast KMEMSIZE else m)"
    by (simp only: max_pa_def max_pa_step_def [abs_def])
  then show ?thesis by (auto simp: min_def Let_def)
qed

lemma max_pa_le: "unat (max_pa es) \<le> unat KMEMSIZE"
proof -
  have "max_pa es \<le> ucast KMEMSIZE" unfolding max_pa_eq by simp
  then show ?thesis by (simp only: word_le_nat_alt unat_ucast_64)
qed

lemma free_region_npage:
  assumes "e \<in> set es" and r: "free_region freemem e = Some (p, n)"
    and top: "unat (e_addr e) + unat (e_size e) < 2 ^ 64"
  shows "p + n \<le> unat (ucast (max_pa es div ucast PGSIZE) :: u32)"
proof -
  note B = free_region_bounds [OF r top]
  have K: "unat KMEMSIZE = 939524096" by (simp add: KMEMSIZE_def)
  have "unat (e_addr e) < unat (ucast KMEMSIZE :: u64)"
    unfolding unat_ucast_64 using B(2,4,5) by (simp add: algebra_simps)
  then have "e_addr e < ucast KMEMSIZE" by (simp only: word_less_nat_alt)
  from max_pa_fold_ge [OF assms(1) B(1) this]
  have "unat (e_addr e + e_size e) \<le> unat (fold max_pa_step es 0)" by (simp only: word_le_nat_alt)
  then have "4096 * (p + n) \<le> unat (fold max_pa_step es 0)"
    using B(6) top by (simp add: unat_word_ariths)
  then have "4096 * (p + n) \<le> unat (max_pa es)"
    unfolding max_pa_eq min_def using B(5) by simp
  moreover have d: "unat (max_pa es div ucast PGSIZE) = unat (max_pa es) div 4096"
    by (simp add: unat_div_distrib PGSIZE_def)
  ultimately show ?thesis
    using max_pa_le [of es] K by (subst unat_ucast_32) (simp_all add: d)
qed

definition usable_regions :: "u64 \<Rightarrow> e820_entry list \<Rightarrow> (nat \<times> nat) list" where
  "usable_regions freemem es = List.map_filter (free_region freemem) es"

definition page_init_freemem :: "u32 \<Rightarrow> e820_entry list \<Rightarrow> u64" where
  "page_init_freemem ende es =
     ucast (PADDR (ROUNDUP ende PGSIZE + sizeof_Page * ucast (max_pa es div ucast PGSIZE)))"

lemma page_init_regions:
  "page_init m ende es s =
     (ucast (max_pa es div ucast PGSIZE), ROUNDUP ende PGSIZE,
      fold (\<lambda>(p, n). init_memmap m p n) (usable_regions (page_init_freemem ende es) es) s)"
proof -
  have "fold (\<lambda>e s. case free_region f e of None \<Rightarrow> s | Some (p, n) \<Rightarrow> init_memmap m p n s) es s =
      fold (\<lambda>(p, n). init_memmap m p n) (usable_regions f es) s" for f
    unfolding usable_regions_def
    by (induction es arbitrary: s) (auto simp: List.map_filter_simps split: option.splits)
  then show ?thesis by (simp add: page_init_def page_init_freemem_def Let_def)
qed

lemma buddy_add_regions:
  "held_apart rs \<Longrightarrow> held_pages rs \<inter> F = {} \<Longrightarrow> buddy_rel t s F \<Longrightarrow>
     buddy_rel t (fold (\<lambda>(p, n). init_memmap buddy_pmm_manager p n) rs s) (F \<union> held_pages rs)"
proof (induction rs arbitrary: s F)
  case (Cons r rs)
  obtain p n where r: "r = (p, n)" by (cases r)
  have "buddy_rel t (init_memmap buddy_pmm_manager p n s) (F \<union> {p..<p + n})"
    using buddy_init_memmap_rel [OF Cons.prems(3), of p n] Cons.prems(2)
    by (simp add: init_memmap_def buddy_pmm_manager_def r span_def held_pages_simps) blast
  moreover have "held_pages rs \<inter> (F \<union> {p..<p + n}) = {}"
    using Cons.prems(1,2) by (auto simp: r span_def held_pages_def)
  ultimately show ?case
    using Cons.IH [of "F \<union> {p..<p + n}"] Cons.prems(1)
    by (simp add: r span_def held_pages_simps Un_assoc)
qed (simp add: held_pages_def)

section \<open>Properties\<close>

text \<open>A machine used in the witnesses: eight free pages, an empty directory in page 20.\<close>

definition small_vm :: "buddy vm" where
  "small_vm = \<lparr>mem = \<lambda>_. 0, cr3 = PADDR (page2va 20), tlb = Map.empty, pmm = eight_pages\<rparr>"

lemma small_vm_inv: "vm_inv (buddy_rel Null) 20 {0..<8} small_vm"
  using eight_pages_rel by (auto simp: vm_inv_def small_vm_def tables_ok_def)

text \<open>C2. \<open>page_insert\<close> maps exactly the page of \<open>la\<close>, to the given page with the given
  permissions: afterwards the processor's walk finds the new entry there and what it found before
  everywhere else, the tables stay well formed with their frames taken from the free pages, and
  no stale translation of \<open>la\<close> stays in the TLB. It always finishes while a page is free.\<close>

theorem page_insert_maps_page:
  assumes "vm_inv (buddy_rel t) d F s" and "F \<noteq> {}" and "ordinary la" and "cr3 s = PADDR (page2va d)"
    and "tlb_coherent d s"
  shows "\<exists>s'. page_insert buddy_pmm_manager (page2va d) q la perm s = Some (0, s') \<and>
    (\<exists>F' \<subseteq> F. vm_inv (buddy_rel t) d F' s') \<and> tlb_coherent d s' \<and>
    (\<forall>la'. ordinary la' \<longrightarrow> translate (mem s') d la' =
      (if PAGE_NUM la' = PAGE_NUM la then Some (page2pa q OR PTE_P OR perm)
       else translate (mem s) d la'))"
proof -
  have "buddy_rel t (pmm s) F" using assms(1) by (simp add: vm_inv_def)
  from buddy_supply.page_insert_some [OF this assms(2)] obtain s' where
    s': "page_insert buddy_pmm_manager (page2va d) q la perm s = Some (0, s')" by blast
  from buddy.page_insert_correct [OF assms(1,3) s'] assms(4,5) show ?thesis
    unfolding s' by (auto simp: tlb_coherent_def)
qed

theorem page_insert_maps_page_witness:
  "\<exists>s'. page_insert buddy_pmm_manager (page2va 20) 7 0x1000 PTE_W small_vm = Some (0, s') \<and>
    (\<exists>F' \<subseteq> {0..<8}. vm_inv (buddy_rel Null) 20 F' s') \<and> tlb_coherent 20 s' \<and>
    (\<forall>la'. ordinary la' \<longrightarrow> translate (mem s') 20 la' =
      (if PAGE_NUM la' = PAGE_NUM 0x1000 then Some (page2pa 7 OR PTE_P OR PTE_W)
       else translate (mem small_vm) 20 la'))"
  by (rule page_insert_maps_page [OF small_vm_inv])
    (simp_all add: small_vm_def tlb_coherent_def self_slot_def PDX_def VPT_def)

text \<open>\<open>page_remove\<close> unmaps exactly the page of \<open>la\<close>, keeps the tables well formed and the
  TLB coherent, and always finishes while a page is free.\<close>

theorem page_remove_unmaps_page:
  assumes "vm_inv (buddy_rel t) d F s" and "F \<noteq> {}" and "ordinary la" and "cr3 s = PADDR (page2va d)"
    and "tlb_coherent d s"
  shows "\<exists>s'. page_remove buddy_pmm_manager (page2va d) la s = Some s' \<and>
    (\<exists>F' \<subseteq> F. vm_inv (buddy_rel t) d F' s') \<and> tlb_coherent d s' \<and>
    (\<forall>la'. ordinary la' \<longrightarrow> translate (mem s') d la' =
      (if PAGE_NUM la' = PAGE_NUM la then None else translate (mem s) d la'))"
proof -
  have "buddy_rel t (pmm s) F" using assms(1) by (simp add: vm_inv_def)
  from buddy_supply.page_remove_some [OF this assms(2)] obtain s' where
    s': "page_remove buddy_pmm_manager (page2va d) la s = Some s'" by blast
  note R = buddy.page_remove_correct [OF assms(1,3) s']
  have "tlb s (PAGE_NUM la') = None" if "translate (mem s) d la = None" "PAGE_NUM la' = PAGE_NUM la" for la'
    using assms(3,5) that by (metis not_None_eq option.distinct(1) tlb_coherent_def)
  with R assms(4,5) show ?thesis
    unfolding s' by (auto simp: tlb_coherent_def split: if_splits)
qed

theorem page_remove_unmaps_page_witness:
  "\<exists>s'. page_remove buddy_pmm_manager (page2va 20) 0x1000 small_vm = Some s' \<and>
    (\<exists>F' \<subseteq> {0..<8}. vm_inv (buddy_rel Null) 20 F' s') \<and> tlb_coherent 20 s' \<and>
    (\<forall>la'. ordinary la' \<longrightarrow> translate (mem s') 20 la' =
      (if PAGE_NUM la' = PAGE_NUM 0x1000 then None else translate (mem small_vm) 20 la'))"
  by (rule page_remove_unmaps_page [OF small_vm_inv])
    (simp_all add: small_vm_def tlb_coherent_def self_slot_def PDX_def VPT_def)

text \<open>\<open>map_physical_memory\<close>, as \<open>pmm_init\<close> calls it, maps every page that
  \<open>[la, la + sz)\<close> touches to consecutive physical pages from \<open>pa\<close> on, and no other page.\<close>

theorem map_physical_memory_linear:
  assumes "vm_inv (buddy_rel t) d F s" and "unat la + unat sz + 8190 < 4294967296"
    and "n = (unat sz + unat (PG_OFF la) + 4095) div 4096"
    and "\<And>k. unat la div 4096 \<le> k \<Longrightarrow> k < unat la div 4096 + n \<Longrightarrow> k div 1024 \<in> A"
    and "A \<subseteq> {..<1024} - {self_slot}" and "card (absent_slots (mem s) d A) \<le> card F"
  shows "\<exists>s'. map_physical_memory buddy_pmm_manager (page2va d) la sz pa perm s = Some s' \<and>
    (\<exists>F' \<subseteq> F. vm_inv (buddy_rel t) d F' s') \<and>
    (\<forall>la'. ordinary la' \<longrightarrow> translate (mem s') d la' =
      (let k = unat la' div 4096; k0 = unat la div 4096 in
       if k0 \<le> k \<and> k < k0 + n
       then Some ((ROUNDDOWN pa PGSIZE + of_nat (4096 * (k - k0))) OR PTE_P OR perm)
       else translate (mem s) d la'))"
proof -
  let ?v = "unat la div 4096"
  let ?go = "map_pages buddy_pmm_manager (page2va d) (of_nat (4096 * ?v)) n (ROUNDDOWN pa PGSIZE) perm s"
  have off: "unat (PG_OFF la) = unat la mod 4096"
    unfolding PG_OFF_def mask_numerals take_bit_eq_mask [symmetric]
    by (simp only: unsigned_take_bit_eq) (simp add: take_bit_eq_mod)
  have small: "unat sz + unat (PG_OFF la) + 4095 < 4294967296"
    using assms(2) off mod_less_eq_dividend [of "unat la" 4096] by linarith
  then have "unat (sz + PG_OFF la) = unat sz + unat (PG_OFF la)"
    by (simp add: unat_word_ariths)
  with small have cnt: "unat (ROUNDUP (sz + PG_OFF la) PGSIZE div PGSIZE) = n"
    using ROUNDUP_pages(2) assms(3) by simp
  have "4096 * ?v + unat la mod 4096 = unat la" by simp
  then have "4096 * ?v + 4096 * n < 4294967296 + 4096"
    using assms(2,3) off by linarith
  then have top: "?v + n \<le> 2 ^ 20" by simp
  have "F \<subseteq> {..<2 ^ 18}" using assms(1) unfolding vm_inv_def tables_ok_def by blast
  then have fin: "finite F" by (rule finite_subset) simp
  have go: "map_physical_memory buddy_pmm_manager (page2va d) la sz pa perm s = ?go"
    using cnt by (simp only: map_physical_memory_def Let_def PAGE_NUM_ROUNDDOWN [of la] PAGE_NUM_unat)
  from buddy_supply.map_pages_some [OF assms(1) fin top assms(4-6)] obtain s' where s': "?go = Some s'"
    by blast
  have "\<And>k. ?v \<le> k \<Longrightarrow> k < ?v + n \<Longrightarrow> k div 1024 \<noteq> self_slot" using assms(4,5) by blast
  from buddy.map_pages_correct [OF assms(1) top this s'] s'
  show ?thesis unfolding PAGE_NUM_unat Let_def go by blast
qed

theorem map_physical_memory_linear_witness:
  "\<exists>s'. map_physical_memory buddy_pmm_manager (page2va 20) 0xC0000000 0x800000 0 PTE_W small_vm = Some s' \<and>
    (\<exists>F' \<subseteq> {0..<8}. vm_inv (buddy_rel Null) 20 F' s') \<and>
    (\<forall>la'. ordinary la' \<longrightarrow> translate (mem s') 20 la' =
      (let k = unat la' div 4096; k0 = unat (0xC0000000 :: u32) div 4096 in
       if k0 \<le> k \<and> k < k0 + 2048
       then Some ((ROUNDDOWN 0 PGSIZE + of_nat (4096 * (k - k0))) OR PTE_P OR PTE_W)
       else translate (mem small_vm) 20 la'))"
proof (rule map_physical_memory_linear [OF small_vm_inv, where A = "{768, 769}"])
  show "k div 1024 \<in> {768, 769}"
    if "unat (0xC0000000 :: u32) div 4096 \<le> k" "k < unat (0xC0000000 :: u32) div 4096 + 2048" for k
    using that by auto
  have "card (absent_slots (mem small_vm) 20 {768, 769}) \<le> card {768, 769 :: nat}"
    by (rule card_mono) (auto simp: absent_slots_def)
  then show "card (absent_slots (mem small_vm) 20 {768, 769}) \<le> card {0..<8 :: nat}" by simp
qed (simp_all add: PG_OFF_def self_slot_def PDX_def VPT_def)


definition two_regions :: "e820_entry list" where
  "two_regions = [\<lparr>e_addr = 0, e_size = 0x9F000, e_type = 1\<rparr>,
     \<lparr>e_addr = 0x100000, e_size = 0x1F00000, e_type = 1\<rparr>, \<lparr>e_addr = 0x2000000, e_size = 0x1000, e_type = 2\<rparr>]"

lemma two_regions_usable:
  "usable_regions (page_init_freemem 0xC0110000 two_regions) two_regions = [(0x130, 0x1ED0)]"
proof -
  have "page_init_freemem 0xC0110000 two_regions = 0x130000"
    by (simp add: page_init_freemem_def two_regions_def max_pa_def E820_ARM_def KMEMSIZE_def PGSIZE_def
        ROUNDUP_def ROUNDDOWN_def PADDR_def KERNBASE_def sizeof_Page_def)
  then show ?thesis
    by (simp add: usable_regions_def two_regions_def List.map_filter_simps free_region_def E820_ARM_def
        KMEMSIZE_def PGSIZE_def ROUNDUP64_def ROUNDDOWN64_def ROUNDUP_def ROUNDDOWN_def pa2page_def PAGE_NUM_def)
qed


text \<open>When the reported RAM regions do not overlap, \<open>page_init\<close> makes exactly the pages of the
  usable regions free in the allocator.\<close>

theorem page_init_frees_usable:
  assumes "buddy_rel t s F" and "held_apart (usable_regions (page_init_freemem ende es) es)"
    and "held_pages (usable_regions (page_init_freemem ende es) es) \<inter> F = {}"
    and "page_init buddy_pmm_manager ende es s = (npage, pages, s')"
  shows "buddy_rel t s' (F \<union> held_pages (usable_regions (page_init_freemem ende es) es))"
  using buddy_add_regions [OF assms(2,3,1)] assms(4) by (auto simp: page_init_regions)

theorem page_init_frees_usable_witness:
  "buddy_rel Null (snd (snd (page_init buddy_pmm_manager 0xC0110000 two_regions eight_pages)))
     ({0..<8} \<union> held_pages [(0x130, 0x1ED0)])"
proof (cases "page_init buddy_pmm_manager 0xC0110000 two_regions eight_pages")
  case (fields npage pages s')
  have "buddy_rel Null s' ({0..<8} \<union> held_pages (usable_regions (page_init_freemem 0xC0110000 two_regions) two_regions))"
    by (rule page_init_frees_usable [OF eight_pages_rel _ _ fields])
      (auto simp: two_regions_usable span_def simp del: One_nat_def)
  then show ?thesis by (simp only: fields two_regions_usable snd_conv)
qed

text \<open>The table printer's scan finds the first run of present entries with equal permissions
  in the range, as long as possible, and reports nothing only when no entry is present.\<close>

theorem get_pgtable_items_first_run:
  "case get_pgtable_items right start table of
     (perm, Some (l, r)) \<Rightarrow> start \<le> l \<and> l < r \<and> r \<le> right \<and>
       (\<forall>i. start \<le> i \<and> i < l \<longrightarrow> \<not> present (table i)) \<and>
       (\<forall>i. l \<le> i \<and> i < r \<longrightarrow> present (table i) \<and> table i AND PTE_USER = perm) \<and>
       (r < right \<longrightarrow> table r AND PTE_USER \<noteq> perm) \<and> perm \<noteq> 0
   | (perm, None) \<Rightarrow> perm = 0 \<and> (\<forall>i. start \<le> i \<and> i < right \<longrightarrow> \<not> present (table i))"
  by (rule get_pgtable_items_correct)

theorem get_pgtable_items_first_run_witness:
  "\<exists>perm l r. get_pgtable_items 8 0 (\<lambda>i. if i = 2 \<or> i = 3 then 7 else 0) = (perm, Some (l, r)) \<and>
     (\<forall>i. l \<le> i \<and> i < r \<longrightarrow> (if i = 2 \<or> i = 3 then 7 else 0) AND PTE_USER = perm)"
proof -
  note T = get_pgtable_items_first_run [where right = 8 and start = 0 and table = "\<lambda>i. if i = 2 \<or> i = 3 then 7 else 0"]
  let ?t = "\<lambda>i::nat. if i = 2 \<or> i = 3 then 7 else (0::u32)"
  have two: "present (?t 2)" by (simp add: PTE_P_def)
  obtain perm o' where G: "get_pgtable_items 8 0 (\<lambda>i. if i = 2 \<or> i = 3 then 7 else 0) = (perm, o')"
    by fastforce
  show ?thesis
  proof (cases o')
    case None
    with T G have none: "\<forall>i. 0 \<le> i \<and> i < 8 \<longrightarrow> \<not> present (?t i)" by simp
    have "\<not> present (?t 2)" by (rule none [rule_format]) simp
    with two show ?thesis by (rule notE [rotated])
  next
    case (Some lr)
    with T G show ?thesis by (cases lr) auto
  qed
qed

end
