(* ===== verification/Cstring.thy ===== *)
theory Cstring
  imports Prelude
begin

text \<open>
  libs/string.c, with the routines of libs/x86.h it is compiled with: x86.h defines
  \<open>__HAVE_ARCH_STRCMP\<close> and its siblings, so \<open>strcmp\<close>, \<open>strcpy\<close>, \<open>memset\<close>, \<open>memmove\<close> and \<open>memcpy\<close>
  run the string instructions, and the C loops under \<open>#else\<close> are the reference versions. Memory is
  a map from addresses to bytes. A loop that ends at a null byte is a \<open>partial_function\<close>: it
  has no result where there is none.
\<close>

type_synonym bytes = "u32 \<Rightarrow> u8"

section \<open>Little-endian loads\<close>

definition load16 :: "bytes \<Rightarrow> u32 \<Rightarrow> u16" where
  "load16 \<mu> a = ucast (\<mu> a) OR push_bit 8 (ucast (\<mu> (a + 1)))"

definition load32 :: "bytes \<Rightarrow> u32 \<Rightarrow> u32" where
  "load32 \<mu> a = ucast (\<mu> a) OR push_bit 8 (ucast (\<mu> (a + 1))) OR push_bit 16 (ucast (\<mu> (a + 2))) OR
     push_bit 24 (ucast (\<mu> (a + 3)))"

section \<open>Scanning for the end\<close>

partial_function (option) strlen_loop :: "bytes \<Rightarrow> u32 \<Rightarrow> u32 \<Rightarrow> u32 option" where
  "strlen_loop \<mu> s cnt = (if \<mu> s \<noteq> 0 then strlen_loop \<mu> (s + 1) (cnt + 1) else Some cnt)"

definition strlen :: "bytes \<Rightarrow> u32 \<Rightarrow> u32 option" where
  "strlen \<mu> s = strlen_loop \<mu> s 0"

fun strnlen_loop :: "nat \<Rightarrow> bytes \<Rightarrow> u32 \<Rightarrow> u32 \<Rightarrow> u32" where
  "strnlen_loop 0 \<mu> s cnt = cnt"
| "strnlen_loop (Suc n) \<mu> s cnt = (if \<mu> s \<noteq> 0 then strnlen_loop n \<mu> (s + 1) (cnt + 1) else cnt)"

definition strnlen :: "bytes \<Rightarrow> u32 \<Rightarrow> u32 \<Rightarrow> u32" where
  "strnlen \<mu> s len = strnlen_loop (unat len) \<mu> s 0"

partial_function (option) strchr :: "bytes \<Rightarrow> u32 \<Rightarrow> u8 \<Rightarrow> u32 option option" where
  "strchr \<mu> s c =
     (if \<mu> s \<noteq> 0 then if \<mu> s = c then Some (Some s) else strchr \<mu> (s + 1) c else Some None)"

partial_function (option) strfind :: "bytes \<Rightarrow> u32 \<Rightarrow> u8 \<Rightarrow> u32 option" where
  "strfind \<mu> s c =
     (if \<mu> s \<noteq> 0 then if \<mu> s = c then Some s else strfind \<mu> (s + 1) c else Some s)"

section \<open>Copying and comparing strings\<close>

partial_function (option) c_strcpy_loop :: "bytes \<Rightarrow> u32 \<Rightarrow> u32 \<Rightarrow> bytes option" where
  "c_strcpy_loop \<mu> p src =
     (let c = \<mu> src; \<mu> = \<mu>(p := c) in if c \<noteq> 0 then c_strcpy_loop \<mu> (p + 1) (src + 1) else Some \<mu>)"

text \<open>lodsb; stosb; testb; jne.\<close>

partial_function (option) asm_strcpy :: "bytes \<Rightarrow> u32 \<Rightarrow> u32 \<Rightarrow> bytes option" where
  "asm_strcpy \<mu> edi esi =
     (let al = \<mu> esi; esi = esi + 1; \<mu> = \<mu>(edi := al); edi = edi + 1
      in if al AND al \<noteq> 0 then asm_strcpy \<mu> edi esi else Some \<mu>)"

definition strcpy :: "bytes \<Rightarrow> u32 \<Rightarrow> u32 \<Rightarrow> (u32 \<times> bytes) option" where
  "strcpy \<mu> dst src = map_option (\<lambda>\<mu>. (dst, \<mu>)) (asm_strcpy \<mu> dst src)"

fun strncpy_loop :: "nat \<Rightarrow> bytes \<Rightarrow> u32 \<Rightarrow> u32 \<Rightarrow> bytes" where
  "strncpy_loop 0 \<mu> p src = \<mu>"
| "strncpy_loop (Suc len) \<mu> p src =
     (let \<mu> = \<mu>(p := \<mu> src); src = (if \<mu> p \<noteq> 0 then src + 1 else src)
      in strncpy_loop len \<mu> (p + 1) src)"

definition strncpy :: "bytes \<Rightarrow> u32 \<Rightarrow> u32 \<Rightarrow> u32 \<Rightarrow> u32 \<times> bytes" where
  "strncpy \<mu> dst src len = (dst, strncpy_loop (unat len) \<mu> dst src)"

abbreviation uchar_diff :: "u8 \<Rightarrow> u8 \<Rightarrow> int" where
  "uchar_diff a b \<equiv> uint a - uint b"

partial_function (option) c_strcmp :: "bytes \<Rightarrow> u32 \<Rightarrow> u32 \<Rightarrow> int option" where
  "c_strcmp \<mu> s1 s2 =
     (if \<mu> s1 \<noteq> 0 \<and> \<mu> s1 = \<mu> s2 then c_strcmp \<mu> (s1 + 1) (s2 + 1)
      else Some (uchar_diff (\<mu> s1) (\<mu> s2)))"

text \<open>lodsb; scasb; at the first difference the borrow of the comparison decides the sign.\<close>

partial_function (option) asm_strcmp :: "bytes \<Rightarrow> u32 \<Rightarrow> u32 \<Rightarrow> int option" where
  "asm_strcmp \<mu> esi edi =
     (let al = \<mu> esi; esi = esi + 1; cf = al < \<mu> edi; ne = (al \<noteq> \<mu> edi); edi = edi + 1
      in if ne then Some (sint ((if cf then - 1 else 0 :: u32) OR 1))
         else if al AND al \<noteq> 0 then asm_strcmp \<mu> esi edi
         else Some 0)"

definition strcmp :: "bytes \<Rightarrow> u32 \<Rightarrow> u32 \<Rightarrow> int option" where
  "strcmp \<mu> s1 s2 = asm_strcmp \<mu> s1 s2"

fun strncmp_loop :: "nat \<Rightarrow> bytes \<Rightarrow> u32 \<Rightarrow> u32 \<Rightarrow> int" where
  "strncmp_loop 0 \<mu> s1 s2 = 0"
| "strncmp_loop (Suc n) \<mu> s1 s2 =
     (if \<mu> s1 \<noteq> 0 \<and> \<mu> s1 = \<mu> s2 then strncmp_loop n \<mu> (s1 + 1) (s2 + 1)
      else uchar_diff (\<mu> s1) (\<mu> s2))"

definition strncmp :: "bytes \<Rightarrow> u32 \<Rightarrow> u32 \<Rightarrow> u32 \<Rightarrow> int" where
  "strncmp \<mu> s1 s2 n = strncmp_loop (unat n) \<mu> s1 s2"

section \<open>Numbers\<close>

partial_function (option) skip_blanks :: "bytes \<Rightarrow> u32 \<Rightarrow> u32 option" where
  "skip_blanks \<mu> s = (if \<mu> s = 0x20 \<or> \<mu> s = 0x09 then skip_blanks \<mu> (s + 1) else Some s)"

definition digit_value :: "u8 \<Rightarrow> int option" where
  "digit_value c =
     (if 0x30 \<le> c \<and> c \<le> 0x39 then Some (uint c - 0x30)
      else if 0x61 \<le> c \<and> c \<le> 0x7A then Some (uint c - 0x61 + 10)
      else if 0x41 \<le> c \<and> c \<le> 0x5A then Some (uint c - 0x41 + 10)
      else None)"

text \<open>\<open>long\<close> is 32 bits wide; the source says it does not detect overflow, and the
  value wraps.\<close>

partial_function (option) strtol_digits :: "bytes \<Rightarrow> int \<Rightarrow> u32 \<Rightarrow> u32 \<Rightarrow> (u32 \<times> u32) option" where
  "strtol_digits \<mu> base s val =
     (case digit_value (\<mu> s) of
        None \<Rightarrow> Some (val, s)
      | Some dig \<Rightarrow>
          if base \<le> dig then Some (val, s)
          else strtol_digits \<mu> base (s + 1) (val * of_int base + of_int dig))"

definition strtol_sign :: "bytes \<Rightarrow> u32 \<Rightarrow> u32 \<times> bool" where
  "strtol_sign \<mu> s =
     (if \<mu> s = 0x2B then (s + 1, False) else if \<mu> s = 0x2D then (s + 1, True) else (s, False))"

definition strtol_prefix :: "bytes \<Rightarrow> u32 \<Rightarrow> int \<Rightarrow> u32 \<times> int" where
  "strtol_prefix \<mu> s base =
     (if (base = 0 \<or> base = 16) \<and> \<mu> s = 0x30 \<and> \<mu> (s + 1) = 0x78 then (s + 2, 16)
      else if base = 0 \<and> \<mu> s = 0x30 then (s + 1, 8)
      else if base = 0 then (s, 10)
      else (s, base))"

text \<open>The value and what is stored through \<open>endptr\<close>.\<close>

definition strtol :: "bytes \<Rightarrow> u32 \<Rightarrow> int \<Rightarrow> (u32 \<times> u32) option" where
  "strtol \<mu> s base =
     do { s \<leftarrow> skip_blanks \<mu> s;
          let (s, neg) = strtol_sign \<mu> s;
          let (s, base) = strtol_prefix \<mu> s base;
          (val, s) \<leftarrow> strtol_digits \<mu> base s 0;
          Some (if neg then - val else val, s) }"

section \<open>Blocks of memory\<close>

fun rep_stosb :: "nat \<Rightarrow> bytes \<Rightarrow> u32 \<Rightarrow> u8 \<Rightarrow> bytes" where
  "rep_stosb 0 \<mu> edi al = \<mu>"
| "rep_stosb (Suc n) \<mu> edi al = rep_stosb n (\<mu>(edi := al)) (edi + 1) al"

definition memset :: "bytes \<Rightarrow> u32 \<Rightarrow> u8 \<Rightarrow> u32 \<Rightarrow> u32 \<times> bytes" where
  "memset \<mu> s c n = (s, rep_stosb (unat n) \<mu> s c)"

fun rep_movsb :: "nat \<Rightarrow> bytes \<Rightarrow> u32 \<Rightarrow> u32 \<Rightarrow> bytes" where
  "rep_movsb 0 \<mu> edi esi = \<mu>"
| "rep_movsb (Suc n) \<mu> edi esi = rep_movsb n (\<mu>(edi := \<mu> esi)) (edi + 1) (esi + 1)"

text \<open>\<open>rep; movsb\<close> with the direction flag set.\<close>

fun rep_movsb_down :: "nat \<Rightarrow> bytes \<Rightarrow> u32 \<Rightarrow> u32 \<Rightarrow> bytes" where
  "rep_movsb_down 0 \<mu> edi esi = \<mu>"
| "rep_movsb_down (Suc n) \<mu> edi esi = rep_movsb_down n (\<mu>(edi := \<mu> esi)) (edi - 1) (esi - 1)"

definition movsl :: "bytes \<Rightarrow> u32 \<Rightarrow> u32 \<Rightarrow> bytes" where
  "movsl \<mu> edi esi =
     \<mu>(edi := \<mu> esi, edi + 1 := \<mu> (esi + 1), edi + 2 := \<mu> (esi + 2), edi + 3 := \<mu> (esi + 3))"

fun rep_movsl :: "nat \<Rightarrow> bytes \<Rightarrow> u32 \<Rightarrow> u32 \<Rightarrow> bytes" where
  "rep_movsl 0 \<mu> edi esi = \<mu>"
| "rep_movsl (Suc n) \<mu> edi esi = rep_movsl n (movsl \<mu> edi esi) (edi + 4) (esi + 4)"

definition memcpy :: "bytes \<Rightarrow> u32 \<Rightarrow> u32 \<Rightarrow> u32 \<Rightarrow> u32 \<times> bytes" where
  "memcpy \<mu> dst src n =
     (let ecx = n div 4; \<mu> = rep_movsl (unat ecx) \<mu> dst src;
          edi = dst + 4 * ecx; esi = src + 4 * ecx; ecx = n AND 3
      in (dst, if ecx = 0 then \<mu> else rep_movsb (unat ecx) \<mu> edi esi))"

definition memmove :: "bytes \<Rightarrow> u32 \<Rightarrow> u32 \<Rightarrow> u32 \<Rightarrow> u32 \<times> bytes" where
  "memmove \<mu> dst src n =
     (if dst < src then memcpy \<mu> dst src n
      else (dst, rep_movsb_down (unat n) \<mu> (n - 1 + dst) (n - 1 + src)))"

text \<open>The C loop of \<open>memmove\<close> under \<open>#else\<close>.\<close>

fun c_move_down :: "nat \<Rightarrow> bytes \<Rightarrow> u32 \<Rightarrow> u32 \<Rightarrow> bytes" where
  "c_move_down 0 \<mu> d s = \<mu>"
| "c_move_down (Suc n) \<mu> d s =
     (let d = d - 1; s = s - 1 in c_move_down n (\<mu>(d := \<mu> s)) d s)"

fun c_move_up :: "nat \<Rightarrow> bytes \<Rightarrow> u32 \<Rightarrow> u32 \<Rightarrow> bytes" where
  "c_move_up 0 \<mu> d s = \<mu>"
| "c_move_up (Suc n) \<mu> d s = c_move_up n (\<mu>(d := \<mu> s)) (d + 1) (s + 1)"

definition c_memmove :: "bytes \<Rightarrow> u32 \<Rightarrow> u32 \<Rightarrow> u32 \<Rightarrow> u32 \<times> bytes" where
  "c_memmove \<mu> dst src n =
     (dst, if src < dst \<and> dst < src + n then c_move_down (unat n) \<mu> (dst + n) (src + n)
           else c_move_up (unat n) \<mu> dst src)"

fun memcmp_loop :: "nat \<Rightarrow> bytes \<Rightarrow> u32 \<Rightarrow> u32 \<Rightarrow> int" where
  "memcmp_loop 0 \<mu> s1 s2 = 0"
| "memcmp_loop (Suc n) \<mu> s1 s2 =
     (if \<mu> s1 \<noteq> \<mu> s2 then uchar_diff (\<mu> s1) (\<mu> s2) else memcmp_loop n \<mu> (s1 + 1) (s2 + 1))"

definition memcmp :: "bytes \<Rightarrow> u32 \<Rightarrow> u32 \<Rightarrow> u32 \<Rightarrow> int" where
  "memcmp \<mu> v1 v2 n = memcmp_loop (unat n) \<mu> v1 v2"

section \<open>Strings in memory\<close>

text \<open>\<open>at \<mu> s xs\<close>: the bytes \<open>xs\<close> lie at \<open>s\<close>; \<open>cstr\<close>: a string, with its null byte.\<close>

fun at :: "bytes \<Rightarrow> u32 \<Rightarrow> u8 list \<Rightarrow> bool" where
  "at \<mu> s [] \<longleftrightarrow> True"
| "at \<mu> s (x # xs) \<longleftrightarrow> \<mu> s = x \<and> at \<mu> (s + 1) xs"

definition cstr :: "bytes \<Rightarrow> u32 \<Rightarrow> u8 list \<Rightarrow> bool" where
  "cstr \<mu> s xs \<longleftrightarrow> at \<mu> s (xs @ [0]) \<and> 0 \<notin> set xs"

lemma cstr_simps [simp]:
  "cstr \<mu> s [] \<longleftrightarrow> \<mu> s = 0" "cstr \<mu> s (x # xs) \<longleftrightarrow> \<mu> s = x \<and> x \<noteq> 0 \<and> cstr \<mu> (s + 1) xs"
  by (auto simp: cstr_def)

lemma at_append: "at \<mu> s (xs @ ys) \<longleftrightarrow> at \<mu> s xs \<and> at \<mu> (s + of_nat (length xs)) ys"
  by (induction xs arbitrary: s) (auto simp: algebra_simps)

lemma at_nth: "at \<mu> s xs \<longleftrightarrow> (\<forall>i < length xs. \<mu> (s + of_nat i) = xs ! i)"
proof (induction xs arbitrary: s)
  case (Cons x xs)
  show ?case
    by (auto simp: Cons nth_Cons algebra_simps split: nat.splits)
qed simp

lemma uint_inject: "uint a = uint b \<longleftrightarrow> a = b"
  by (rule word_uint_eq_iff [symmetric])

section \<open>Scanning\<close>

lemma strlen_loop_correct:
  "cstr \<mu> s xs \<Longrightarrow> strlen_loop \<mu> s cnt = Some (cnt + of_nat (length xs))"
  by (induction xs arbitrary: s cnt) (auto simp: strlen_loop.simps algebra_simps)

lemma strnlen_loop_correct:
  "cstr \<mu> s xs \<Longrightarrow> strnlen_loop n \<mu> s cnt = cnt + of_nat (min n (length xs))"
proof (induction n arbitrary: s xs cnt)
  case (Suc n)
  then show ?case by (cases xs) (auto simp: algebra_simps)
qed simp

text \<open>Index of the first \<open>c\<close>, or the length.\<close>

fun first_index :: "u8 \<Rightarrow> u8 list \<Rightarrow> nat" where
  "first_index c [] = 0"
| "first_index c (x # xs) = (if x = c then 0 else Suc (first_index c xs))"

lemma first_index_le: "first_index c xs \<le> length xs"
  by (induction xs) auto

lemma first_index_in: "first_index c xs < length xs \<longleftrightarrow> c \<in> set xs"
  by (induction xs) auto

lemma first_index_take: "c \<notin> set (take (first_index c xs) xs)"
  by (induction xs) auto

lemma first_index_nth: "c \<in> set xs \<Longrightarrow> xs ! first_index c xs = c"
  by (induction xs) auto

lemma strfind_correct:
  "cstr \<mu> s xs \<Longrightarrow> strfind \<mu> s c = Some (s + of_nat (first_index c xs))"
  by (induction xs arbitrary: s) (auto simp: strfind.simps algebra_simps)

lemma strchr_correct:
  "cstr \<mu> s xs \<Longrightarrow> strchr \<mu> s c =
     Some (if c \<in> set xs then Some (s + of_nat (first_index c xs)) else None)"
  by (induction xs arbitrary: s) (auto simp: strchr.simps algebra_simps)

section \<open>Comparing\<close>

text \<open>The reference order: bytes as unsigned numbers, a proper prefix first.\<close>

fun byte_cmp :: "u8 list \<Rightarrow> u8 list \<Rightarrow> int" where
  "byte_cmp [] [] = 0"
| "byte_cmp [] (y # ys) = - uint y"
| "byte_cmp (x # xs) [] = uint x"
| "byte_cmp (x # xs) (y # ys) = (if x = y then byte_cmp xs ys else uchar_diff x y)"

lemma c_strcmp_correct:
  "cstr \<mu> s1 xs \<Longrightarrow> cstr \<mu> s2 ys \<Longrightarrow> c_strcmp \<mu> s1 s2 = Some (byte_cmp xs ys)"
  by (induction xs ys arbitrary: s1 s2 rule: byte_cmp.induct) (simp_all add: c_strcmp.simps)

lemma asm_strcmp_correct:
  "cstr \<mu> s1 xs \<Longrightarrow> cstr \<mu> s2 ys \<Longrightarrow> asm_strcmp \<mu> s1 s2 = Some (sgn (byte_cmp xs ys))"
proof (induction xs ys arbitrary: s1 s2 rule: byte_cmp.induct)
  case (2 y ys)
  then have "0 < y" by (simp add: word_greater_zero_iff)
  then have "0 < uint y" by (simp add: word_less_def)
  then show ?case using 2 by (simp add: asm_strcmp.simps word_less_def)
next
  case (3 x xs)
  then have "0 < x" by (simp add: word_greater_zero_iff)
  then have "0 < uint x" "\<not> x < 0" by (simp_all add: word_less_def)
  then show ?case using 3 by (simp add: asm_strcmp.simps)
next
  case (4 x xs y ys)
  then show ?case
    by (auto simp: asm_strcmp.simps [of _ s1] word_less_def uint_inject sgn_if)
qed (simp_all add: asm_strcmp.simps)

lemma byte_cmp_eq: "0 \<notin> set xs \<Longrightarrow> 0 \<notin> set ys \<Longrightarrow> byte_cmp xs ys = 0 \<longleftrightarrow> xs = ys"
  by (induction xs ys rule: byte_cmp.induct) (auto simp: unsigned_eq_0_iff uint_inject)

lemma strncmp_loop_correct:
  "cstr \<mu> s1 xs \<Longrightarrow> cstr \<mu> s2 ys \<Longrightarrow> strncmp_loop n \<mu> s1 s2 = byte_cmp (take n xs) (take n ys)"
proof (induction n arbitrary: s1 s2 xs ys)
  case (Suc n)
  then show ?case by (cases xs; cases ys) simp_all
qed simp

lemma memcmp_loop_correct:
  "at \<mu> s1 xs \<Longrightarrow> at \<mu> s2 ys \<Longrightarrow> length xs = n \<Longrightarrow> length ys = n \<Longrightarrow>
     memcmp_loop n \<mu> s1 s2 = byte_cmp xs ys"
proof (induction n arbitrary: s1 s2 xs ys)
  case (Suc n)
  then obtain x xs' y ys' where "xs = x # xs'" "ys = y # ys'"
    by (metis Suc_length_conv)
  then show ?case using Suc by simp
qed simp

section \<open>Copying\<close>

text \<open>The memory after \<open>n\<close> bytes were copied as if through a buffer.\<close>

definition copied :: "bytes \<Rightarrow> u32 \<Rightarrow> u32 \<Rightarrow> nat \<Rightarrow> bytes" where
  "copied \<mu> d s n = (\<lambda>a. if unat (a - d) < n then \<mu> (s + (a - d)) else \<mu> a)"

text \<open>An upward copy never writes a byte it still has to read.\<close>

definition up_safe :: "u32 \<Rightarrow> u32 \<Rightarrow> nat \<Rightarrow> bool" where
  "up_safe d s n \<longleftrightarrow> (\<forall>i j. i < j \<and> j < n \<longrightarrow> d + of_nat i \<noteq> s + of_nat j)"

definition down_safe :: "u32 \<Rightarrow> u32 \<Rightarrow> nat \<Rightarrow> bool" where
  "down_safe d s n \<longleftrightarrow> (\<forall>i j. i < j \<and> j < n \<longrightarrow> d + of_nat j \<noteq> s + of_nat i)"

lemma offset_Suc:
  fixes a d :: u32
  assumes "a \<noteq> d"
  shows "unat (a - d) < Suc n \<longleftrightarrow> unat (a - (d + 1)) < n"
proof -
  have ne: "a - d \<noteq> 0" using assms by simp
  have "unat (a - (d + 1)) = unat (a - d) - 1"
    using unat_minus_one [OF ne] by (simp add: algebra_simps)
  moreover have "unat (a - d) \<noteq> 0" using ne unsigned_eq_0_iff by blast
  ultimately show ?thesis by linarith
qed

lemma offset_self: "n < 2 ^ 32 \<Longrightarrow> \<not> unat (d - (d + 1) :: u32) < n"
  by (simp add: unsigned_minus_1_eq_mask mask_eq_exp_minus_1)

lemma rep_movsb_correct:
  "n < 2 ^ 32 \<Longrightarrow> up_safe d s n \<Longrightarrow> rep_movsb n \<mu> d s = copied \<mu> d s n"
proof (induction n arbitrary: \<mu> d s)
  case (Suc n)
  have "up_safe (d + 1) (s + 1) n"
    unfolding up_safe_def
  proof (intro allI impI)
    fix i j assume "i < j \<and> j < n"
    then show "d + 1 + of_nat i \<noteq> s + 1 + of_nat j"
      using Suc.prems(2) [unfolded up_safe_def, rule_format, of "Suc i" "Suc j"] by (simp add: algebra_simps)
  qed
  with Suc have "rep_movsb (Suc n) \<mu> d s = copied (\<mu>(d := \<mu> s)) (d + 1) (s + 1) n" by simp
  also have "\<dots> = copied \<mu> d s (Suc n)"
  proof
    fix a
    have n: "n < 2 ^ 32" using Suc.prems(1) by simp
    have src: "s + (a - d) \<noteq> d" if "a \<noteq> d" "unat (a - d) < Suc n"
      using Suc.prems(2) [unfolded up_safe_def, rule_format, of 0 "unat (a - d)"] that
      by (auto simp: unat_gt_0)
    show "copied (\<mu>(d := \<mu> s)) (d + 1) (s + 1) n a = copied \<mu> d s (Suc n) a"
      using src offset_Suc [of a d n] offset_self [OF n, of d] by (cases "a = d") (auto simp: copied_def)
  qed
  finally show ?case .
qed (simp add: copied_def)

lemma rep_movsb_down_correct:
  "n < 2 ^ 32 \<Longrightarrow> down_safe d s n \<Longrightarrow>
     rep_movsb_down n \<mu> (d + of_nat n - 1) (s + of_nat n - 1) = copied \<mu> d s n"
proof (induction n arbitrary: \<mu>)
  case (Suc n)
  let ?\<mu> = "\<mu>(d + of_nat n := \<mu> (s + of_nat n))"
  have "down_safe d s n" using Suc.prems(2) by (auto simp: down_safe_def)
  with Suc have IH: "rep_movsb_down n ?\<mu> (d + of_nat n - 1) (s + of_nat n - 1) = copied ?\<mu> d s n" by simp
  have e: "d + of_nat (Suc n) - 1 = d + of_nat n" "s + of_nat (Suc n) - 1 = s + of_nat n" by simp_all
  have "rep_movsb_down (Suc n) \<mu> (d + of_nat (Suc n) - 1) (s + of_nat (Suc n) - 1) = copied ?\<mu> d s n"
    unfolding e rep_movsb_down.simps by (rule IH)
  also have "\<dots> = copied \<mu> d s (Suc n)"
  proof
    fix a
    have n: "unat (of_nat n :: u32) = n" using Suc.prems(1) by (simp add: unat_of_nat_u32)
    have src: "s + (a - d) \<noteq> d + of_nat n" if "unat (a - d) < n"
      using Suc.prems(2) [unfolded down_safe_def, rule_format, of "unat (a - d)" n] that by auto
    have eq: "a = d + of_nat n" if "unat (a - d) = n"
    proof -
      have "a - d = of_nat (unat (a - d))" by simp
      then have "a - d = of_nat n" unfolding that .
      then show ?thesis by (simp only: diff_eq_eq add.commute)
    qed
    show "copied ?\<mu> d s n a = copied \<mu> d s (Suc n) a"
    proof (cases "unat (a - d) < n")
      case True
      then show ?thesis using src [OF True] by (simp add: copied_def)
    next
      case False
      show ?thesis
      proof (cases "a = d + of_nat n")
        case True
        then show ?thesis using n by (simp add: copied_def)
      next
        case ne: False
        then have "\<not> unat (a - d) < Suc n" using eq False by auto
        then show ?thesis using False ne by (simp add: copied_def)
      qed
    qed
  qed
  finally show ?case .
qed (simp add: copied_def)

lemma copy_safe:
  assumes "unat d + n \<le> 2 ^ 32" "unat s + n \<le> 2 ^ 32"
  shows "d \<le> s \<or> unat s + n \<le> unat d \<Longrightarrow> up_safe d s n" and "s \<le> d \<Longrightarrow> down_safe d s n"
proof -
  have off: "unat (d + of_nat i) = unat d + i" "unat (s + of_nat i) = unat s + i" if "i < n" for i
    using that assms by (simp_all add: unat_word_ariths unat_of_nat_u32)
  show "d \<le> s \<or> unat s + n \<le> unat d \<Longrightarrow> up_safe d s n"
    unfolding up_safe_def
  proof (intro allI impI notI)
    fix i j assume A: "d \<le> s \<or> unat s + n \<le> unat d" "i < j \<and> j < n" "d + of_nat i = s + of_nat j"
    then have "unat d + i = unat s + j" using off(1) [of i] off(2) [of j] by simp
    then show False using A by (auto simp: word_le_nat_alt)
  qed
  show "s \<le> d \<Longrightarrow> down_safe d s n"
    unfolding down_safe_def
  proof (intro allI impI notI)
    fix i j assume A: "s \<le> d" "i < j \<and> j < n" "d + of_nat j = s + of_nat i"
    then have "unat d + j = unat s + i" using off(1) [of j] off(2) [of i] by simp
    then show False using A by (auto simp: word_le_nat_alt)
  qed
qed

lemma rep_movsb_add:
  "rep_movsb (a + b) \<mu> d s = rep_movsb b (rep_movsb a \<mu> d s) (d + of_nat a) (s + of_nat a)"
  by (induction a arbitrary: \<mu> d s) (auto simp: algebra_simps)

lemma up_safe_suffix: "up_safe d s (a + b) \<Longrightarrow> up_safe (d + of_nat a) (s + of_nat a) b"
  unfolding up_safe_def
proof (intro allI impI)
  fix i j assume U: "\<forall>i j. i < j \<and> j < a + b \<longrightarrow> d + of_nat i \<noteq> s + of_nat j" and "i < j \<and> j < b"
  then have "a + i < a + j \<and> a + j < a + b" by simp
  from U [rule_format, OF this] show "d + of_nat a + of_nat i \<noteq> s + of_nat a + of_nat j"
    by (simp add: algebra_simps)
qed

lemma movsl_bytes:
  assumes "up_safe d s 4"
  shows "movsl \<mu> d s = rep_movsb 4 \<mu> d s"
proof -
  have ne: "d + of_nat i \<noteq> s + of_nat j" if "i < j" "j < 4" for i j
    using assms that unfolding up_safe_def by blast
  have "d \<noteq> s + 1" "d \<noteq> s + 2" "d \<noteq> s + 3" "d + 1 \<noteq> s + 2" "d + 1 \<noteq> s + 3" "d + 2 \<noteq> s + 3"
    using ne [of 0 1] ne [of 0 2] ne [of 0 3] ne [of 1 2] ne [of 1 3] ne [of 2 3] by simp_all
  then show ?thesis by (auto simp: movsl_def numeral_eq_Suc fun_eq_iff algebra_simps)
qed

lemma rep_movsl_bytes:
  "up_safe d s (4 * n) \<Longrightarrow> rep_movsl n \<mu> d s = rep_movsb (4 * n) \<mu> d s"
proof (induction n arbitrary: \<mu> d s)
  case (Suc n)
  have eq: "4 * Suc n = 4 + 4 * n" by simp
  have "up_safe d s 4" "up_safe (d + of_nat 4) (s + of_nat 4) (4 * n)"
    using Suc.prems up_safe_suffix [of d s 4 "4 * n"] by (auto simp: up_safe_def)
  then show ?case
    using Suc.IH [of "d + 4" "s + 4"] movsl_bytes by (simp only: eq rep_movsb_add) simp
qed simp

lemma memcpy_correct:
  assumes "up_safe dst src (unat n)"
  shows "memcpy \<mu> dst src n = (dst, copied \<mu> dst src (unat n))"
proof -
  let ?q = "unat n div 4" and ?r = "unat n mod 4"
  have q: "unat (n div 4) = ?q" by (simp add: unat_div_distrib)
  have "n AND 3 = take_bit 2 n" by (simp add: take_bit_eq_mask mask_eq_exp_minus_1)
  then have r: "unat (n AND 3) = ?r" by (simp only: unsigned_take_bit_eq) (simp add: take_bit_eq_mod)
  have n: "unat n = 4 * ?q + ?r" by simp
  have "4 * (n div 4) = of_nat (4 * unat (n div 4))" by simp
  then have "4 * (n div 4) = of_nat (4 * ?q)" unfolding q .
  then have "memcpy \<mu> dst src n =
      (dst, rep_movsb ?r (rep_movsl ?q \<mu> dst src) (dst + of_nat (4 * ?q)) (src + of_nat (4 * ?q)))"
    using r by (auto simp: memcpy_def Let_def q simp flip: unsigned_eq_0_iff)
  also have "rep_movsl ?q \<mu> dst src = rep_movsb (4 * ?q) \<mu> dst src"
    using assms n by (intro rep_movsl_bytes) (auto simp: up_safe_def)
  also have "rep_movsb ?r (rep_movsb (4 * ?q) \<mu> dst src) (dst + of_nat (4 * ?q)) (src + of_nat (4 * ?q)) =
      rep_movsb (4 * ?q + ?r) \<mu> dst src"
    by (rule rep_movsb_add [symmetric])
  also have "\<dots> = copied \<mu> dst src (unat n)"
    using rep_movsb_correct [OF _ assms] unsigned_less [of n, where ?'a = nat] n by simp
  finally show ?thesis .
qed

lemma memmove_correct:
  assumes "unat dst + unat n \<le> 2 ^ 32" "unat src + unat n \<le> 2 ^ 32"
  shows "memmove \<mu> dst src n = (dst, copied \<mu> dst src (unat n))"
proof (cases "dst < src")
  case True
  then have "up_safe dst src (unat n)" using copy_safe(1) [OF assms] by (simp add: order_less_imp_le)
  then show ?thesis using True by (simp add: memmove_def memcpy_correct)
next
  case False
  then have ds: "down_safe dst src (unat n)" using copy_safe(2) [OF assms] by simp
  have e: "n - 1 + dst = dst + of_nat (unat n) - 1" "n - 1 + src = src + of_nat (unat n) - 1" by simp_all
  have "unat n < 2 ^ 32" using unsigned_less [of n, where ?'a = nat] by simp
  from rep_movsb_down_correct [OF this ds, of \<mu>]
  have "rep_movsb_down (unat n) \<mu> (n - 1 + dst) (n - 1 + src) = copied \<mu> dst src (unat n)"
    by (simp only: e)
  then show ?thesis using False by (simp add: memmove_def)
qed

lemma c_move_up: "c_move_up n \<mu> d s = rep_movsb n \<mu> d s"
  by (induction n arbitrary: \<mu> d s) auto

lemma c_move_down: "c_move_down n \<mu> d s = rep_movsb_down n \<mu> (d - 1) (s - 1)"
  by (induction n arbitrary: \<mu> d s) (auto simp: Let_def)

lemma c_memmove_correct:
  assumes "unat dst + unat n \<le> 2 ^ 32" "unat src + unat n < 2 ^ 32"
  shows "c_memmove \<mu> dst src n = (dst, copied \<mu> dst src (unat n))"
proof (cases "src < dst \<and> dst < src + n")
  case True
  have le: "unat src + unat n \<le> 2 ^ 32" using assms(2) by simp
  have "down_safe dst src (unat n)"
    using copy_safe(2) [OF assms(1) le] True by (simp add: order_less_imp_le)
  from rep_movsb_down_correct [OF _ this, of \<mu>] unsigned_less [of n, where ?'a = nat]
  have "c_move_down (unat n) \<mu> (dst + n) (src + n) = copied \<mu> dst src (unat n)"
    by (simp add: c_move_down)
  then show ?thesis using True by (simp add: c_memmove_def)
next
  case False
  have le: "unat src + unat n \<le> 2 ^ 32" using assms(2) by simp
  have "unat (src + n) = unat src + unat n" using assms(2) by (simp add: unat_word_ariths)
  then have "dst \<le> src \<or> unat src + unat n \<le> unat dst"
    using False by (auto simp: word_le_nat_alt word_less_nat_alt)
  then have "up_safe dst src (unat n)" using copy_safe(1) [OF assms(1) le] by simp
  then show ?thesis
    using False rep_movsb_correct unsigned_less [of n, where ?'a = nat]
    by (auto simp: c_memmove_def c_move_up)
qed

lemma rep_stosb_correct:
  "n < 2 ^ 32 \<Longrightarrow> rep_stosb n \<mu> d c = (\<lambda>a. if unat (a - d) < n then c else \<mu> a)"
proof (induction n arbitrary: \<mu> d)
  case (Suc n)
  have n: "n < 2 ^ 32" using Suc.prems by simp
  have "rep_stosb (Suc n) \<mu> d c = (\<lambda>a. if unat (a - (d + 1)) < n then c else (\<mu>(d := c)) a)"
    using Suc.IH [OF n] by simp
  also have "\<dots> = (\<lambda>a. if unat (a - d) < Suc n then c else \<mu> a)"
  proof
    fix a
    show "(if unat (a - (d + 1)) < n then c else (\<mu>(d := c)) a) = (if unat (a - d) < Suc n then c else \<mu> a)"
      using offset_Suc [of a d n] by (cases "a = d") auto
  qed
  finally show ?case .
qed simp

lemma cstr_upd:
  assumes "cstr \<mu> s xs" and "\<And>j. j \<le> length xs \<Longrightarrow> s + of_nat j \<noteq> d"
  shows "cstr (\<mu>(d := c)) s xs"
  using assms by (auto simp: cstr_def at_nth)

lemma asm_strcpy_correct:
  "cstr \<mu> s xs \<Longrightarrow> up_safe d s (Suc (length xs)) \<Longrightarrow>
     asm_strcpy \<mu> d s = Some (rep_movsb (Suc (length xs)) \<mu> d s)"
proof (induction xs arbitrary: \<mu> d s)
  case (Cons x xs)
  have "s + 1 + of_nat j \<noteq> d" if "j \<le> length xs" for j
    using Cons.prems(2) [unfolded up_safe_def, rule_format, of 0 "Suc j"] that by (auto simp: algebra_simps)
  with Cons.prems(1) have "cstr (\<mu>(d := x)) (s + 1) xs" by (intro cstr_upd) auto
  moreover have "up_safe (d + 1) (s + 1) (Suc (length xs))"
    using Cons.prems(2) up_safe_suffix [of d s 1 "Suc (length xs)"] by simp
  ultimately have "asm_strcpy (\<mu>(d := x)) (d + 1) (s + 1) =
      Some (rep_movsb (Suc (length xs)) (\<mu>(d := x)) (d + 1) (s + 1))"
    by (rule Cons.IH)
  then show ?case using Cons.prems(1) by (subst asm_strcpy.simps) (simp add: Let_def)
qed (subst asm_strcpy.simps, simp)

lemma c_strcpy_correct:
  "cstr \<mu> s xs \<Longrightarrow> up_safe d s (Suc (length xs)) \<Longrightarrow>
     c_strcpy_loop \<mu> d s = Some (rep_movsb (Suc (length xs)) \<mu> d s)"
proof (induction xs arbitrary: \<mu> d s)
  case (Cons x xs)
  have "s + 1 + of_nat j \<noteq> d" if "j \<le> length xs" for j
    using Cons.prems(2) [unfolded up_safe_def, rule_format, of 0 "Suc j"] that by (auto simp: algebra_simps)
  with Cons.prems(1) have "cstr (\<mu>(d := x)) (s + 1) xs" by (intro cstr_upd) auto
  moreover have "up_safe (d + 1) (s + 1) (Suc (length xs))"
    using Cons.prems(2) up_safe_suffix [of d s 1 "Suc (length xs)"] by simp
  ultimately have "c_strcpy_loop (\<mu>(d := x)) (d + 1) (s + 1) =
      Some (rep_movsb (Suc (length xs)) (\<mu>(d := x)) (d + 1) (s + 1))"
    by (rule Cons.IH)
  then show ?case using Cons.prems(1) by (subst c_strcpy_loop.simps) (simp add: Let_def)
qed (subst c_strcpy_loop.simps, simp)

lemma strncpy_loop_correct:
  assumes "cstr \<mu> s xs" and "n < 2 ^ 32" and "\<And>i j. i < n \<Longrightarrow> j \<le> length xs \<Longrightarrow> d + of_nat i \<noteq> s + of_nat j"
  shows "strncpy_loop n \<mu> d s =
    (\<lambda>a. if unat (a - d) < n then (xs @ replicate n 0) ! unat (a - d) else \<mu> a)"
  using assms
proof (induction n arbitrary: \<mu> d s xs)
  case (Suc n)
  let ?x = "(xs @ [0]) ! 0"
  let ?s = "if xs = [] then s else s + 1"
  have x: "\<mu> s = ?x" using Suc.prems(1) by (cases xs) auto
  have ne: "d + of_nat i \<noteq> s + of_nat j" if "i < Suc n" "j \<le> length xs" for i j
    using Suc.prems(3) that by blast
  have step: "strncpy_loop (Suc n) \<mu> d s = strncpy_loop n (\<mu>(d := ?x)) (d + 1) ?s"
    using Suc.prems(1) x by (cases xs) (auto simp: Let_def)
  have A: "cstr (\<mu>(d := ?x)) ?s (tl xs)"
  proof (cases xs)
    case Nil
    then show ?thesis using Suc.prems(1) ne [of 0 0] by auto
  next
    case (Cons y ys)
    have "s + 1 + of_nat j \<noteq> d" if "j \<le> length ys" for j
      using ne [of 0 "Suc j"] that Cons by (auto simp: algebra_simps)
    moreover have "cstr \<mu> (s + 1) ys" using Suc.prems(1) Cons by simp
    ultimately have "cstr (\<mu>(d := ?x)) (s + 1) ys" by (intro cstr_upd)
    then show ?thesis using Cons by simp
  qed
  have B: "d + 1 + of_nat i \<noteq> ?s + of_nat j" if "i < n" "j \<le> length (tl xs)" for i j
    using ne [of "Suc i" j] ne [of "Suc i" "Suc j"] that by (cases xs) (auto simp: algebra_simps)
  have "strncpy_loop (Suc n) \<mu> d s =
      (\<lambda>a. if unat (a - (d + 1)) < n then (tl xs @ replicate n 0) ! unat (a - (d + 1)) else (\<mu>(d := ?x)) a)"
    unfolding step by (rule Suc.IH [OF A _ B]) (use Suc.prems(2) in simp_all)
  also have "\<dots> = (\<lambda>a. if unat (a - d) < Suc n then (xs @ replicate (Suc n) 0) ! unat (a - d) else \<mu> a)"
  proof
    fix a
    show "(if unat (a - (d + 1)) < n then (tl xs @ replicate n 0) ! unat (a - (d + 1)) else (\<mu>(d := ?x)) a) =
        (if unat (a - d) < Suc n then (xs @ replicate (Suc n) 0) ! unat (a - d) else \<mu> a)"
    proof (cases "a = d")
      case True
      then show ?thesis using offset_self [of n d] Suc.prems(2) by (cases xs) auto
    next
      case False
      have nz: "a - d \<noteq> 0" using False by simp
      then have "unat (a - d) \<noteq> 0" using unsigned_eq_0_iff by blast
      moreover have "unat (a - (d + 1)) = unat (a - d) - 1"
        using unat_minus_one [OF nz] by (simp add: algebra_simps)
      ultimately have k: "unat (a - d) = Suc (unat (a - (d + 1)))" by linarith
      have "(xs @ replicate (Suc n) 0) ! Suc i = (tl xs @ replicate n 0) ! i" if "i < n" for i
        using that by (cases xs) (simp_all add: nth_append del: replicate_Suc)
      then show ?thesis using False k by auto
    qed
  qed
  finally show ?case .
qed simp

section \<open>Numbers\<close>

lemma skip_blanks_correct:
  "at \<mu> s ws \<Longrightarrow> set ws \<subseteq> {0x20, 0x09} \<Longrightarrow> \<mu> (s + of_nat (length ws)) \<notin> {0x20, 0x09} \<Longrightarrow>
     skip_blanks \<mu> s = Some (s + of_nat (length ws))"
  by (induction ws arbitrary: s) (auto simp: skip_blanks.simps algebra_simps)

definition digit_in :: "int \<Rightarrow> u8 \<Rightarrow> bool" where
  "digit_in base c \<longleftrightarrow> (case digit_value c of None \<Rightarrow> False | Some d \<Rightarrow> d < base)"

definition digits_value :: "int \<Rightarrow> u8 list \<Rightarrow> int" where
  "digits_value base ds = fold (\<lambda>c v. v * base + the (digit_value c)) ds 0"

lemma strtol_digits_correct:
  "at \<mu> s ds \<Longrightarrow> \<forall>c \<in> set ds. digit_in base c \<Longrightarrow> \<not> digit_in base (\<mu> (s + of_nat (length ds))) \<Longrightarrow>
     strtol_digits \<mu> base s (of_int v) =
       Some (of_int (fold (\<lambda>c v. v * base + the (digit_value c)) ds v), s + of_nat (length ds))"
proof (induction ds arbitrary: s v)
  case Nil
  then show ?case by (subst strtol_digits.simps) (auto simp: digit_in_def split: option.splits)
next
  case (Cons d ds)
  then obtain x where x: "digit_value (\<mu> s) = Some x" "x < base" "\<mu> s = d"
    by (auto simp: digit_in_def split: option.splits)
  let ?v = "v * base + x"
  have nd: "\<not> digit_in base (\<mu> (s + 1 + of_nat (length ds)))" using Cons.prems(3) by (simp add: algebra_simps)
  have "strtol_digits \<mu> base s (of_int v) = strtol_digits \<mu> base (s + 1) (of_int ?v)"
    using x by (subst strtol_digits.simps) simp
  also have "\<dots> = Some (of_int (fold (\<lambda>c v. v * base + the (digit_value c)) ds ?v), s + 1 + of_nat (length ds))"
    using Cons.prems(1,2) nd by (intro Cons.IH) auto
  finally show ?case using x by (simp add: algebra_simps)
qed

lemma strtol_correct:
  assumes "at \<mu> s (ws @ sg @ ds)" and "set ws \<subseteq> {0x20, 0x09}" and "sg \<in> {[], [0x2B], [0x2D]}"
    and "\<forall>c \<in> set ds. digit_in base c" and "ds \<noteq> []" and "base \<notin> {0, 16}" and "base \<le> 36"
    and "\<not> digit_in base (\<mu> (s + of_nat (length (ws @ sg @ ds))))"
  shows "strtol \<mu> s base =
    Some (of_int ((if sg = [0x2D] then -1 else 1) * digits_value base ds), s + of_nat (length (ws @ sg @ ds)))"
proof -
  let ?s1 = "s + of_nat (length ws)" and ?s2 = "s + of_nat (length ws) + of_nat (length sg)"
  from assms(1) have A: "at \<mu> s ws" "at \<mu> ?s1 sg" "at \<mu> ?s2 ds" by (auto simp: at_append)
  obtain d ds' where d: "ds = d # ds'" using assms(5) by (cases ds) auto
  then have md: "\<mu> ?s2 = d" using A(3) by simp
  have "digit_in base d" using assms(4) d by simp
  then have nd: "d \<notin> {0x20, 0x09, 0x2B, 0x2D}"
    by (auto simp: digit_in_def digit_value_def split: option.splits if_splits)
  have sgs: "(sg = [] \<and> \<mu> ?s1 = d) \<or> (sg = [0x2B] \<and> \<mu> ?s1 = 0x2B) \<or> (sg = [0x2D] \<and> \<mu> ?s1 = 0x2D)"
    using assms(3) A(2) md by auto
  then have "\<mu> ?s1 \<notin> {0x20, 0x09}" using nd by auto
  then have blanks: "skip_blanks \<mu> s = Some ?s1"
    using skip_blanks_correct [OF A(1) assms(2)] by simp
  have sign: "strtol_sign \<mu> ?s1 = (?s2, sg = [0x2D])"
    using sgs nd by (auto simp: strtol_sign_def)
  have pre: "strtol_prefix \<mu> ?s2 base = (?s2, base)" using assms(6) by (auto simp: strtol_prefix_def)
  have dig: "strtol_digits \<mu> base ?s2 0 = Some (of_int (digits_value base ds), ?s2 + of_nat (length ds))"
    using strtol_digits_correct [OF A(3) assms(4), of 0] assms(8)
    by (simp add: digits_value_def add.assoc)
  have len: "s + of_nat (length (ws @ sg @ ds)) = ?s2 + of_nat (length ds)" by (simp add: add.assoc)
  show ?thesis unfolding len by (simp add: strtol_def blanks sign pre dig Let_def)
qed

section \<open>Properties\<close>

text \<open>A memory that holds one string, used in the witnesses.\<close>

definition text_at :: "u32 \<Rightarrow> u8 list \<Rightarrow> bytes" where
  "text_at s xs = (\<lambda>a. if unat (a - s) < length xs then xs ! unat (a - s) else 0)"

lemma text_at_cstr: "0 \<notin> set xs \<Longrightarrow> length xs < 1000 \<Longrightarrow> cstr (text_at s xs) s xs"
  by (auto simp: cstr_def at_nth text_at_def nth_append unat_of_nat_u32 less_Suc_eq)

text \<open>C33. \<open>memmove\<close>, by the string instructions the kernel is compiled with, moves the block as
  if through a buffer, whatever the overlap, and changes no other byte.\<close>

theorem memmove_moves_block:
  assumes "unat dst + unat n \<le> 2 ^ 32" and "unat src + unat n \<le> 2 ^ 32"
  shows "memmove \<mu> dst src n =
    (dst, \<lambda>a. if unat (a - dst) < unat n then \<mu> (src + (a - dst)) else \<mu> a)"
  using memmove_correct [OF assms] by (simp add: copied_def)

theorem memmove_moves_block_witness:
  "memmove (\<lambda>a. ucast a) 0x1002 0x1000 9 =
    (0x1002, \<lambda>a. if unat (a - 0x1002) < unat (9 :: u32) then ucast (0x1000 + (a - 0x1002)) else ucast a)"
  by (rule memmove_moves_block) simp_all

text \<open>C34. The instruction sequences of x86.h compute what the C loops they replace compute:
  \<open>strcmp\<close> up to the size of a non-zero result, \<open>strcpy\<close> and \<open>memmove\<close> exactly.\<close>

theorem arch_routines_match_c:
  assumes "cstr \<mu> s xs" and "cstr \<mu> t ys" and "up_safe d s (Suc (length xs))"
    and "unat dst + unat n \<le> 2 ^ 32" and "unat src + unat n < 2 ^ 32"
  shows "strcmp \<mu> s t = map_option sgn (c_strcmp \<mu> s t) \<and>
    asm_strcpy \<mu> d s = c_strcpy_loop \<mu> d s \<and> memmove \<mu> dst src n = c_memmove \<mu> dst src n"
  using assms by (simp_all add: strcmp_def asm_strcmp_correct c_strcmp_correct asm_strcpy_correct
      c_strcpy_correct memmove_correct c_memmove_correct)

theorem arch_routines_match_c_witness:
  "strcmp (text_at 0 [0x61, 0x62]) 0 1 = map_option sgn (c_strcmp (text_at 0 [0x61, 0x62]) 0 1) \<and>
    asm_strcpy (text_at 0 [0x61, 0x62]) 0x200 0 = c_strcpy_loop (text_at 0 [0x61, 0x62]) 0x200 0 \<and>
    memmove (text_at 0 [0x61, 0x62]) 0x1002 0x1000 9 = c_memmove (text_at 0 [0x61, 0x62]) 0x1002 0x1000 9"
proof (rule arch_routines_match_c [of _ _ "[0x61, 0x62]" _ "[0x62]"])
  show "up_safe 0x200 0 (Suc (length [0x61 :: u8, 0x62]))" by (rule copy_safe(1)) simp_all
qed (simp_all add: text_at_def)

text \<open>\<open>strcmp\<close> returns zero exactly for equal strings, and otherwise a result whose sign is
  that of the unsigned comparison at the first difference.\<close>

theorem strcmp_orders_strings:
  assumes "cstr \<mu> s xs" and "cstr \<mu> t ys"
  shows "\<exists>r. strcmp \<mu> s t = Some r \<and> (r = 0 \<longleftrightarrow> xs = ys) \<and> sgn r = sgn (byte_cmp xs ys)"
proof -
  have "0 \<notin> set xs" "0 \<notin> set ys" using assms by (auto simp: cstr_def)
  then show ?thesis
    using assms by (simp add: strcmp_def asm_strcmp_correct sgn_0_0 byte_cmp_eq)
qed

theorem strcmp_orders_strings_witness:
  "\<exists>r. strcmp (text_at 0 [0x61, 0x62]) 0 1 = Some r \<and>
     (r = 0 \<longleftrightarrow> [0x61 :: u8, 0x62] = [0x62]) \<and> sgn r = sgn (byte_cmp [0x61, 0x62] [0x62])"
  by (rule strcmp_orders_strings) (simp_all add: text_at_def)

text \<open>\<open>strncpy\<close> writes exactly \<open>len\<close> bytes: the string, cut at \<open>len\<close> or padded with null bytes.\<close>

theorem strncpy_pads:
  assumes "cstr \<mu> src xs"
    and "\<And>i j. i < unat len \<Longrightarrow> j \<le> length xs \<Longrightarrow> dst + of_nat i \<noteq> src + of_nat j"
  shows "strncpy \<mu> dst src len =
    (dst, \<lambda>a. if unat (a - dst) < unat len then (xs @ replicate (unat len) 0) ! unat (a - dst) else \<mu> a)"
  using strncpy_loop_correct [OF assms(1) _ assms(2)] unsigned_less [of len, where ?'a = nat]
  by (simp add: strncpy_def)

theorem strncpy_pads_witness:
  "strncpy (text_at 0x100 [0x61, 0x62]) 0x200 0x100 4 =
    (0x200, \<lambda>a. if unat (a - 0x200) < unat (4 :: u32)
       then ([0x61, 0x62] @ replicate (unat (4 :: u32)) 0) ! unat (a - 0x200)
       else text_at 0x100 [0x61, 0x62] a)"
proof (rule strncpy_pads)
  fix i j :: nat assume "i < unat (4 :: u32)" "j \<le> length [0x61 :: u8, 0x62]"
  then have "0x200 + i \<noteq> 0x100 + j" "0x200 + i < 4294967296" "0x100 + j < 4294967296" by auto
  then have "unat (of_nat (0x200 + i) :: u32) \<noteq> unat (of_nat (0x100 + j) :: u32)"
    by (simp only: unat_of_nat_u32) simp
  then show "(0x200 :: u32) + of_nat i \<noteq> 0x100 + of_nat j" by (metis of_nat_add of_nat_numeral)
qed (simp add: text_at_def)

text \<open>\<open>strtol\<close> skips blanks, takes a sign, and returns the value of the longest run of digits
  of the base, modulo the width of \<open>long\<close>, with the address of the first byte after it.\<close>

theorem strtol_reads_number:
  assumes "at \<mu> s (ws @ sg @ ds)" and "set ws \<subseteq> {0x20, 0x09}" and "sg \<in> {[], [0x2B], [0x2D]}"
    and "\<forall>c \<in> set ds. digit_in base c" and "ds \<noteq> []" and "base \<notin> {0, 16}" and "base \<le> 36"
    and "\<not> digit_in base (\<mu> (s + of_nat (length (ws @ sg @ ds))))"
  shows "strtol \<mu> s base =
    Some (of_int ((if sg = [0x2D] then -1 else 1) * digits_value base ds), s + of_nat (length (ws @ sg @ ds)))"
  by (rule strtol_correct [OF assms])

theorem strtol_reads_number_witness:
  "strtol (text_at 0 [0x20, 0x2D, 0x34, 0x32, 0x2E]) 0 10 =
     Some (of_int ((if [0x2D :: u8] = [0x2D] then -1 else 1) * digits_value 10 [0x34, 0x32]),
       0 + of_nat (length ([0x20] @ [0x2D] @ [0x34, 0x32 :: u8])))"
  by (rule strtol_reads_number) (simp_all add: text_at_def digit_in_def digit_value_def)

end
