(* ===== verification/Stabs.thy ===== *)
theory Stabs
  imports Cstring "HOL-Library.Signed_Division"
begin

text \<open>
  The debugging table of kern/debug/stab.h and \<open>stab_binsearch\<close> of kern/debug/kdebug.c. The table between
  \<open>__STAB_BEGIN__\<close> and \<open>__STAB_END__\<close> is a list; an access outside it, or an \<open>int\<close> sum that overflows, is
  undefined and has the result \<open>None\<close>. The theory proves that the search ends on every table, and what it
  returns on one whose entries of the wanted type are sorted by address.
\<close>

section \<open>The table\<close>

record stab =
  n_strx :: u32
  n_type :: u8
  n_other :: u8
  n_desc :: u16
  n_value :: u32

definition N_FUN :: int where "N_FUN = 0x24"
definition N_SLINE :: int where "N_SLINE = 0x44"
definition N_SO :: int where "N_SO = 0x64"
definition N_SOL :: int where "N_SOL = 0x84"
definition N_PSYM :: int where "N_PSYM = 0xa0"

definition stab_at :: "stab list \<Rightarrow> int \<Rightarrow> stab option" where
  "stab_at xs i = (if 0 \<le> i \<and> i < int (length xs) then Some (xs ! nat i) else None)"

section \<open>The search\<close>

text \<open>\<open>while (m >= l && stabs[m].n_type != type) m --;\<close>\<close>

partial_function (option) stab_back :: "stab list \<Rightarrow> int \<Rightarrow> int \<Rightarrow> int \<Rightarrow> int option" where
  "stab_back xs l ty m =
     (if l \<le> m then do { e \<leftarrow> stab_at xs m;
                         if uint (n_type e) \<noteq> ty then stab_back xs l ty (m - 1) else Some m }
      else Some m)"

text \<open>The loop, with \<open>any_matches\<close> and the two locations it writes.\<close>

partial_function (option) binsearch_loop ::
  "stab list \<Rightarrow> int \<Rightarrow> u32 \<Rightarrow> int \<Rightarrow> int \<Rightarrow> bool \<Rightarrow> int \<Rightarrow> int \<Rightarrow> (bool \<times> int \<times> int) option" where
  "binsearch_loop xs ty addr l r any rl rr =
     (if l \<le> r then
        if l + r \<ge> 2 ^ 31 then None
        else do { let true_m = (l + r) sdiv 2;
                  m \<leftarrow> stab_back xs l ty true_m;
                  if m < l then binsearch_loop xs ty addr (true_m + 1) r any rl rr
                  else do { e \<leftarrow> stab_at xs m;
                            if n_value e < addr then binsearch_loop xs ty addr (true_m + 1) r True m rr
                            else if n_value e > addr then binsearch_loop xs ty addr l (m - 1) True rl (m - 1)
                            else binsearch_loop xs ty (addr + 1) m r True m rr } }
      else Some (any, rl, rr))"

text \<open>The second loop of the function stops above \<open>*region_left\<close>.\<close>

definition stab_binsearch :: "stab list \<Rightarrow> int \<Rightarrow> int \<Rightarrow> int \<Rightarrow> u32 \<Rightarrow> (int \<times> int) option" where
  "stab_binsearch xs region_left region_right ty addr =
     do { (any, rl, rr) \<leftarrow> binsearch_loop xs ty addr region_left region_right False region_left region_right;
          if \<not> any then Some (rl, rl - 1)
          else do { l \<leftarrow> stab_back xs (rl + 1) ty rr; Some (l, rr) } }"

section \<open>Scanning back\<close>

text \<open>The positions of the entries of a type between two bounds, and their addresses.\<close>

definition stab_hits :: "stab list \<Rightarrow> int \<Rightarrow> int \<Rightarrow> int \<Rightarrow> int set" where
  "stab_hits xs ty l r = {i. l \<le> i \<and> i \<le> r \<and> uint (n_type (xs ! nat i)) = ty}"

definition stab_addr :: "stab list \<Rightarrow> int \<Rightarrow> u32" where
  "stab_addr xs i = n_value (xs ! nat i)"

lemma stab_at_in: "0 \<le> i \<Longrightarrow> i < int (length xs) \<Longrightarrow> stab_at xs i = Some (xs ! nat i)"
  by (simp add: stab_at_def)

lemma stab_back_correct:
  assumes "0 \<le> l" and "m < int (length xs)" and "l - 1 \<le> m"
  shows "\<exists>k. stab_back xs l ty m = Some k \<and> l - 1 \<le> k \<and> k \<le> m \<and>
    (l \<le> k \<longrightarrow> uint (n_type (xs ! nat k)) = ty) \<and> (\<forall>i. k < i \<and> i \<le> m \<longrightarrow> uint (n_type (xs ! nat i)) \<noteq> ty)"
  using assms
proof (induction "nat (m + 1 - l)" arbitrary: m)
  case 0
  then show ?case by (auto simp: stab_back.simps)
next
  case (Suc n)
  then have lm: "l \<le> m" and rd: "stab_at xs m = Some (xs ! nat m)" by (auto simp: stab_at_in)
  show ?case
  proof (cases "uint (n_type (xs ! nat m)) = ty")
    case True
    then show ?thesis using lm rd by (auto simp: stab_back.simps)
  next
    case False
    have "n = nat (m - 1 + 1 - l)" "m - 1 < int (length xs)" "l - 1 \<le> m - 1" using Suc.hyps(2) Suc.prems lm by auto
    then obtain k where k: "stab_back xs l ty (m - 1) = Some k" "l - 1 \<le> k" "k \<le> m - 1"
      "l \<le> k \<longrightarrow> uint (n_type (xs ! nat k)) = ty" "\<forall>i. k < i \<and> i \<le> m - 1 \<longrightarrow> uint (n_type (xs ! nat i)) \<noteq> ty"
      using Suc.hyps(1) [of "m - 1"] Suc.prems(1) by blast
    have "stab_back xs l ty m = Some k" using k(1) lm rd False by (simp add: stab_back.simps [of xs l ty m])
    moreover have "uint (n_type (xs ! nat i)) \<noteq> ty" if "k < i" "i \<le> m" for i using k(5) that False by (cases "i = m") auto
    ultimately show ?thesis using k(2-4) by auto
  qed
qed

text \<open>The same with the set of hits: a scan from \<open>m\<close> down to \<open>l\<close> finds the last hit.\<close>

lemma stab_back_hits:
  assumes "0 \<le> l" and "m < int (length xs)" and "l - 1 \<le> m"
  obtains k where "stab_back xs l ty m = Some k" "l - 1 \<le> k" "k \<le> m" "l \<le> k \<longrightarrow> k \<in> stab_hits xs ty l m"
    "\<forall>i \<in> stab_hits xs ty l m. i \<le> k"
proof -
  obtain k where k: "stab_back xs l ty m = Some k" "l - 1 \<le> k" "k \<le> m"
    "l \<le> k \<longrightarrow> uint (n_type (xs ! nat k)) = ty" "\<forall>i. k < i \<and> i \<le> m \<longrightarrow> uint (n_type (xs ! nat i)) \<noteq> ty"
    using stab_back_correct [OF assms, of ty] by blast
  then have "\<forall>i \<in> stab_hits xs ty l m. i \<le> k" unfolding stab_hits_def by force
  with k show ?thesis by (intro that [of k]) (auto simp: stab_hits_def)
qed

section \<open>The loop\<close>

lemma half_bounds: "l \<le> r \<Longrightarrow> l \<le> (l + r) div 2 \<and> (l + r) div 2 \<le> (r :: int)"
  by auto

lemma sdiv_two: "0 \<le> (x :: int) \<Longrightarrow> x sdiv 2 = x div 2"
  by (simp add: signed_divide_int_def sgn_if)

text \<open>What is left to do: twice the width of the range, and one round more unless the range starts just
  after an exact match.\<close>

definition search_measure :: "stab list \<Rightarrow> int \<Rightarrow> u32 \<Rightarrow> int \<Rightarrow> int \<Rightarrow> nat" where
  "search_measure xs ty b l r = nat (2 * (r - l + 1)) +
     (if uint (n_type (xs ! nat l)) = ty \<and> b = stab_addr xs l + 1 then 0 else 1)"

lemma search_measure_narrow:
  assumes "l \<le> r" and "r' - l' < r - l"
  shows "search_measure xs ty b' l' r' < search_measure xs ty b l r"
proof -
  have "nat (2 * (r' - l' + 1)) + 2 \<le> nat (2 * (r - l + 1))"
  proof (cases "0 \<le> r' - l' + 1")
    case True
    then have "nat (2 * (r' - l' + 1)) + 2 = nat (2 * (r' - l' + 1) + 2)" by (simp add: nat_add_distrib)
    also have "\<dots> \<le> nat (2 * (r - l + 1))" using assms(2) by (intro nat_mono) simp
    finally show ?thesis .
  next
    case False
    have "nat 2 \<le> nat (2 * (r - l + 1))" using assms(1) by (intro nat_mono) simp
    then show ?thesis using False by simp
  qed
  then show ?thesis unfolding search_measure_def by (auto split: if_splits)
qed

text \<open>The loop ends in a state that satisfies every invariant of its rounds.\<close>

lemma binsearch_rule:
  assumes "0 \<le> l" and "r < int (length xs)" and "length xs \<le> 2 ^ 30" and "P b l r any rl"
    and step: "\<And>b l r any rl k. P b l r any rl \<Longrightarrow> 0 \<le> l \<Longrightarrow> l \<le> r \<Longrightarrow> r < int (length xs) \<Longrightarrow>
      l - 1 \<le> k \<Longrightarrow> k \<le> (l + r) div 2 \<Longrightarrow> l \<le> k \<longrightarrow> k \<in> stab_hits xs ty l ((l + r) div 2) \<Longrightarrow>
      \<forall>i \<in> stab_hits xs ty l ((l + r) div 2). i \<le> k \<Longrightarrow>
      (if k < l then P b ((l + r) div 2 + 1) r any rl
       else if stab_addr xs k < b then P b ((l + r) div 2 + 1) r True k
       else if b < stab_addr xs k then P b l (k - 1) True rl else P (b + 1) k r True k)"
  shows "\<exists>b' l' r' any' rl'. binsearch_loop xs ty b l r any rl r = Some (any', rl', r') \<and> r' < l' \<and> P b' l' r' any' rl'"
  using assms(1,2,4)
proof (induction "search_measure xs ty b l r" arbitrary: b l r any rl rule: less_induct)
  case less
  show ?case
  proof (cases "l \<le> r")
    case False
    then have "r < l" "binsearch_loop xs ty b l r any rl r = Some (any, rl, r)" by (simp_all add: binsearch_loop.simps)
    then show ?thesis using less.prems(3) by blast
  next
    case lr: True
    let ?t = "(l + r) div 2"
    have t: "l \<le> ?t" "?t \<le> r" "(l + r) sdiv 2 = ?t" using half_bounds [OF lr] less.prems(1) lr sdiv_two [of "l + r"] by auto
    have "int (length xs) \<le> 2 ^ 30" using assms(3) by (metis of_nat_le_iff of_nat_numeral of_nat_power)
    then have small: "\<not> l + r \<ge> 2 ^ 31" using less.prems(2) lr by simp
    obtain k where k: "stab_back xs l ty ?t = Some k" "l - 1 \<le> k" "k \<le> ?t" "l \<le> k \<longrightarrow> k \<in> stab_hits xs ty l ?t"
      "\<forall>i \<in> stab_hits xs ty l ?t. i \<le> k"
      using stab_back_hits [of l ?t xs ty] less.prems t by auto
    note S = step [OF less.prems(3,1) lr less.prems(2) k(2-5)]
    have rd: "stab_at xs k = Some (xs ! nat k)" if "\<not> k < l" using that k(3) less.prems t by (intro stab_at_in) auto
    note U = binsearch_loop.simps [of xs ty b l r any rl r, unfolded t(3) Let_def]
    have hit: "uint (n_type (xs ! nat k)) = ty" if "\<not> k < l" using k(4) that by (simp add: stab_hits_def)
    consider "k < l" | "\<not> k < l" "stab_addr xs k < b" | "\<not> k < l" "\<not> stab_addr xs k < b" "b < stab_addr xs k"
      | "\<not> k < l" "stab_addr xs k = b" by (meson linorder_neqE not_less)
    then show ?thesis
    proof cases
      case 1
      have "search_measure xs ty b (?t + 1) r < search_measure xs ty b l r" using t lr by (intro search_measure_narrow) auto
      from less.hyps [OF this] show ?thesis using S 1 less.prems t U k(1) lr small by auto
    next
      case 2
      have "search_measure xs ty b (?t + 1) r < search_measure xs ty b l r" using t lr by (intro search_measure_narrow) auto
      from less.hyps [OF this] show ?thesis using S 2 less.prems t U k(1) lr small rd by (auto simp: stab_addr_def)
    next
      case 3
      have "search_measure xs ty b l (k - 1) < search_measure xs ty b l r"
        using t lr k(3) 3(1) by (intro search_measure_narrow) auto
      from less.hyps [OF this] show ?thesis using S 3 less.prems t U k(1,3) lr small rd by (auto simp: stab_addr_def)
    next
      case 4
      have "search_measure xs ty (b + 1) k r < search_measure xs ty b l r"
      proof (cases "k = l")
        case True
        then show ?thesis using 4 hit by (auto simp: search_measure_def)
      next
        case False
        then show ?thesis using t lr k(3) 4 by (intro search_measure_narrow) auto
      qed
      from less.hyps [OF this] show ?thesis using S 4 less.prems t U k(1,3) lr small rd by (auto simp: stab_addr_def)
    qed
  qed
qed

section \<open>What the search returns\<close>

text \<open>On every table: the loop ends with the range empty, \<open>any_matches\<close> tells whether there is an entry of
  the type at all, and the locations stay inside.\<close>

lemma binsearch_total:
  assumes "0 \<le> L" and "L \<le> R + 1" and "R < int (length xs)" and "length xs \<le> 2 ^ 30"
  obtains any rl rr where "binsearch_loop xs ty a L R False L R = Some (any, rl, rr)"
    "any \<longleftrightarrow> stab_hits xs ty L R \<noteq> {}" "L - 1 \<le> rr" "rr \<le> R" "L \<le> rl" "any \<longrightarrow> rl \<le> R" "\<not> any \<longrightarrow> rl = L"
    "rr = R \<or> rr + 1 \<in> stab_hits xs ty L R"
proof -
  define P where "P = (\<lambda>(b :: u32) l r any rl. L \<le> l \<and> L - 1 \<le> r \<and> r \<le> R \<and> L \<le> rl \<and>
    (r = R \<or> r + 1 \<in> stab_hits xs ty L R) \<and> (any \<longrightarrow> rl \<le> R \<and> stab_hits xs ty L R \<noteq> {}) \<and>
    (\<not> any \<longrightarrow> rl = L \<and> r = R \<and> (\<forall>i \<in> stab_hits xs ty L R. l \<le> i)))"
  have "\<exists>b' l' r' any' rl'. binsearch_loop xs ty a L R False L R = Some (any', rl', r') \<and> r' < l' \<and> P b' l' r' any' rl'"
  proof (rule binsearch_rule [OF assms(1,3,4)])
    show "P a L R False L" using assms by (auto simp: P_def stab_hits_def)
  next
    fix b l r any rl k
    assume a: "P b l r any rl" "0 \<le> l" "l \<le> r" "r < int (length xs)" "l - 1 \<le> k" "k \<le> (l + r) div 2"
      "l \<le> k \<longrightarrow> k \<in> stab_hits xs ty l ((l + r) div 2)" "\<forall>i \<in> stab_hits xs ty l ((l + r) div 2). i \<le> k"
    note t = half_bounds [OF a(3)]
    have *: "(l + r) div 2 + 1 \<le> i" if "k < l" "i \<in> stab_hits xs ty L R" "l \<le> i" for i
      using a(8) that t by (cases "i \<le> (l + r) div 2") (force simp: stab_hits_def)+
    have "k \<in> stab_hits xs ty L R" if "\<not> k < l" using a(1,3,6,7) that t by (auto simp: P_def stab_hits_def)
    moreover from this have "stab_hits xs ty L R \<noteq> {}" if "\<not> k < l" using that by auto
    ultimately show "if k < l then P b ((l + r) div 2 + 1) r any rl
       else if stab_addr xs k < b then P b ((l + r) div 2 + 1) r True k
       else if b < stab_addr xs k then P b l (k - 1) True rl else P (b + 1) k r True k"
      using a(1-6) t * by (auto simp: P_def)
  qed
  then obtain b l r any rl where E: "binsearch_loop xs ty a L R False L R = Some (any, rl, r)" "r < l" "P b l r any rl" by blast
  have "stab_hits xs ty L R = {}" if "\<not> any" using E(2,3) that by (force simp: P_def stab_hits_def)
  with E show ?thesis by (intro that [of any rl r]) (auto simp: P_def)
qed

text \<open>The reference: the last entry of the type at or below the address, up to the entry before the next one
  above it; an empty range when there is no entry of the type. When all entries of the type are above, the
  left end is the start of the range, or the position before it.\<close>

definition stab_span :: "stab list \<Rightarrow> int \<Rightarrow> int \<Rightarrow> int \<Rightarrow> u32 \<Rightarrow> int \<times> int" where
  "stab_span xs L R ty a =
     (let hs = filter (\<lambda>i. uint (n_type (xs ! nat i)) = ty) [L..R];
          above = filter (\<lambda>i. a < stab_addr xs i) hs;
          below = filter (\<lambda>i. stab_addr xs i \<le> a) hs;
          stop = (if above = [] then R else hd above - 1)
      in if hs = [] then (L, L - 1) else (if below = [] then min L stop else last below, stop))"

definition stabs_sorted :: "stab list \<Rightarrow> int \<Rightarrow> int \<Rightarrow> int \<Rightarrow> bool" where
  "stabs_sorted xs ty L R \<longleftrightarrow>
     (\<forall>i \<in> stab_hits xs ty L R. \<forall>j \<in> stab_hits xs ty L R. i \<le> j \<longrightarrow> stab_addr xs i \<le> stab_addr xs j)"

lemma set_hits [simp]: "set (filter (\<lambda>i. uint (n_type (xs ! nat i)) = ty) [L..R]) = stab_hits xs ty L R"
  by (auto simp: stab_hits_def)

lemma sorted_ends: "sorted xs \<Longrightarrow> x \<in> set xs \<Longrightarrow> hd xs \<le> x \<and> x \<le> (last xs :: int)"
proof (induction xs)
  case (Cons y ys)
  then show ?case by (cases "ys = []") (auto intro: last_in_set)
qed simp

lemma last_filter_eq:
  assumes "sorted xs" and "m \<in> set xs" and "Q m" and "\<forall>i \<in> set xs. Q i \<longrightarrow> i \<le> m"
  shows "filter Q xs \<noteq> [] \<and> last (filter Q xs) = (m :: int)"
proof -
  have m: "m \<in> set (filter Q xs)" using assms by simp
  then have "last (filter Q xs) \<in> set (filter Q xs)" by (metis last_in_set empty_iff list.set(1))
  then have "last (filter Q xs) \<le> m" using assms(4) by simp
  moreover have "m \<le> last (filter Q xs)" using sorted_ends [OF _ m] assms(1) by (simp add: sorted_wrt_filter)
  ultimately show ?thesis using m by (auto simp: filter_empty_conv)
qed

lemma hd_filter_eq:
  assumes "sorted xs" and "m \<in> set xs" and "Q m" and "\<forall>i \<in> set xs. Q i \<longrightarrow> m \<le> i"
  shows "filter Q xs \<noteq> [] \<and> hd (filter Q xs) = (m :: int)"
proof -
  have m: "m \<in> set (filter Q xs)" using assms by simp
  then have "hd (filter Q xs) \<in> set (filter Q xs)" by (metis hd_in_set empty_iff list.set(1))
  then have "m \<le> hd (filter Q xs)" using assms(4) by simp
  moreover have "hd (filter Q xs) \<le> m" using sorted_ends [OF _ m] assms(1) by (simp add: sorted_wrt_filter)
  ultimately show ?thesis using m by (auto simp: filter_empty_conv)
qed

lemma less_plus_one: "a \<noteq> - 1 \<Longrightarrow> x < a + 1 \<longleftrightarrow> x \<le> (a :: u32)"
proof -
  assume "a \<noteq> - 1"
  then have "1 + a \<noteq> 0" by (metis add.commute eq_neg_iff_add_eq_0)
  then have "unat (a + 1) = Suc (unat a)" using unatSuc [of a] by (simp add: add.commute)
  then show ?thesis by (simp add: word_less_nat_alt word_le_nat_alt less_Suc_eq_le)
qed

lemma plus_one_above: "a \<noteq> - 1 \<Longrightarrow> a < a + (1 :: u32)"
  by (simp add: less_plus_one)

text \<open>The loop on a sorted table in which no entry starts just after one that starts at the address.\<close>

lemma binsearch_sorted:
  assumes "0 \<le> L" and "L \<le> R + 1" and "R < int (length xs)" and "length xs \<le> 2 ^ 30" and "a \<noteq> - 1"
    and sorted: "stabs_sorted xs ty L R"
    and gap: "(\<exists>i \<in> stab_hits xs ty L R. stab_addr xs i = a) \<longrightarrow> (\<forall>i \<in> stab_hits xs ty L R. stab_addr xs i \<noteq> a + 1)"
  obtains any rl rr where "binsearch_loop xs ty a L R False L R = Some (any, rl, rr)"
    "\<forall>i \<in> stab_hits xs ty L R. i \<le> rr \<longleftrightarrow> stab_addr xs i \<le> a" "rr = R \<or> rr + 1 \<in> stab_hits xs ty L R"
    "rl \<in> stab_hits xs ty L R \<and> stab_addr xs rl \<le> a \<or> rl = L \<and> (\<forall>i \<in> stab_hits xs ty L R. a < stab_addr xs i)"
proof -
  let ?H = "stab_hits xs ty L R"
  define P where "P = (\<lambda>(b :: u32) l r (any :: bool) rl. (b = a \<or> b = a + 1 \<and> (\<forall>i \<in> ?H. stab_addr xs i \<noteq> a + 1)) \<and>
    L \<le> l \<and> r \<le> R \<and> (\<forall>i \<in> ?H. i < l \<longrightarrow> stab_addr xs i \<le> a) \<and> (\<forall>i \<in> ?H. r < i \<longrightarrow> a < stab_addr xs i) \<and>
    (r = R \<or> r + 1 \<in> ?H) \<and> (rl \<in> ?H \<and> stab_addr xs rl \<le> a \<or> rl = L \<and> (\<forall>i \<in> ?H. l \<le> i)))"
  have "\<exists>b' l' r' any' rl'. binsearch_loop xs ty a L R False L R = Some (any', rl', r') \<and> r' < l' \<and> P b' l' r' any' rl'"
  proof (rule binsearch_rule [OF assms(1,3,4)])
    show "P a L R False L" by (auto simp: P_def stab_hits_def)
  next
    fix b l r any rl k
    assume p: "P b l r any rl" and a: "0 \<le> l" "l \<le> r" "r < int (length xs)" "l - 1 \<le> k" "k \<le> (l + r) div 2"
      "l \<le> k \<longrightarrow> k \<in> stab_hits xs ty l ((l + r) div 2)" "\<forall>i \<in> stab_hits xs ty l ((l + r) div 2). i \<le> k"
    define t where "t = (l + r) div 2"
    note a = a [folded t_def]
    have t: "l \<le> t" "t \<le> r" using half_bounds [OF a(2)] by (simp_all add: t_def)
    have b: "b = a \<or> b = a + 1 \<and> (\<forall>i \<in> ?H. stab_addr xs i \<noteq> a + 1)" using p by (simp add: P_def)
    have lim: "L \<le> l" "r \<le> R" and low: "\<forall>i \<in> ?H. i < l \<longrightarrow> stab_addr xs i \<le> a"
      and high: "\<forall>i \<in> ?H. r < i \<longrightarrow> a < stab_addr xs i" and rr: "r = R \<or> r + 1 \<in> ?H"
      and rl: "rl \<in> ?H \<and> stab_addr xs rl \<le> a \<or> rl = L \<and> (\<forall>i \<in> ?H. l \<le> i)"
      using p unfolding P_def by blast+
    have scan: "i < l \<or> i \<le> k" if "i \<in> ?H" "i < t + 1" for i
      using a(7) that t by (cases "i < l") (auto simp: stab_hits_def)
    have kH: "k \<in> ?H" if "\<not> k < l" using a(5,6) that t lim by (auto simp: stab_hits_def)
    have lo: "stab_addr xs i \<le> stab_addr xs k" if "\<not> k < l" "i \<in> ?H" "i \<le> k" for i
      using sorted kH that unfolding stabs_sorted_def by blast
    have hi: "stab_addr xs k \<le> stab_addr xs i" if "\<not> k < l" "i \<in> ?H" "k \<le> i" for i
      using sorted kH that unfolding stabs_sorted_def by blast
    consider "k < l" | "\<not> k < l" "stab_addr xs k < b" | "\<not> k < l" "\<not> stab_addr xs k < b" "b < stab_addr xs k"
      | "\<not> k < l" "stab_addr xs k = b" by (meson linorder_neqE not_less)
    then have "if k < l then P b (t + 1) r any rl
       else if stab_addr xs k < b then P b (t + 1) r True k
       else if b < stab_addr xs k then P b l (k - 1) True rl else P (b + 1) k r True k"
    proof cases
      case 1
      then have c: "i < l" if "i \<in> ?H" "i < t + 1" for i using scan [OF that] by linarith
      have "\<forall>i \<in> ?H. i < t + 1 \<longrightarrow> stab_addr xs i \<le> a" using c low by blast
      moreover have "\<forall>i \<in> ?H. t + 1 \<le> i" if "\<forall>i \<in> ?H. l \<le> i" using c that by (metis not_less)
      moreover have "L \<le> t + 1" using t lim by simp
      ultimately have "P b (t + 1) r any rl" using b lim(2) high rr rl unfolding P_def by (intro conjI) (assumption | blast)+
      then show ?thesis using 1 by simp
    next
      case 2
      then have "stab_addr xs k \<le> a" using b less_plus_one [OF assms(5), of "stab_addr xs k"] by (metis less_imp_le)
      moreover from this have "\<forall>i \<in> ?H. i < t + 1 \<longrightarrow> stab_addr xs i \<le> a"
        using scan lo [OF 2(1)] low by (meson order_trans)
      moreover have "L \<le> t + 1" using t lim by simp
      ultimately have "P b (t + 1) r True k" using b lim high rr kH [OF 2(1)] unfolding P_def by blast
      then show ?thesis using 2 by simp
    next
      case 3
      then have "a < stab_addr xs k" using b plus_one_above [OF assms(5)] by (metis less_trans)
      then have "\<forall>i \<in> ?H. k - 1 < i \<longrightarrow> a < stab_addr xs i" using hi [OF 3(1)] by force
      moreover have "k - 1 \<le> R" "k - 1 + 1 \<in> ?H" using a(5) t lim kH [OF 3(1)] by simp_all
      ultimately have "P b l (k - 1) True rl" using b lim(1) low rl unfolding P_def by blast
      then show ?thesis using 3 by simp
    next
      case 4
      then have "b = a" using b by (metis kH)
      moreover have "\<forall>i \<in> ?H. i < k \<longrightarrow> stab_addr xs i \<le> a" using lo [OF 4(1)] 4(2) \<open>b = a\<close> by auto
      moreover have "\<forall>i \<in> ?H. stab_addr xs i \<noteq> a + 1" using gap kH [OF 4(1)] 4(2) \<open>b = a\<close> by auto
      moreover have "L \<le> k" using 4(1) lim by simp
      ultimately have "P (b + 1) k r True k" using 4(2) kH [OF 4(1)] lim high rr unfolding P_def by force
      then show ?thesis using 4 by simp
    qed
    then show "if k < l then P b ((l + r) div 2 + 1) r any rl
       else if stab_addr xs k < b then P b ((l + r) div 2 + 1) r True k
       else if b < stab_addr xs k then P b l (k - 1) True rl else P (b + 1) k r True k" unfolding t_def .
  qed
  then obtain b l r any rl where E: "binsearch_loop xs ty a L R False L R = Some (any, rl, r)" "r < l" "P b l r any rl" by blast
  have low: "\<forall>i \<in> ?H. i < l \<longrightarrow> stab_addr xs i \<le> a" and high: "\<forall>i \<in> ?H. r < i \<longrightarrow> a < stab_addr xs i"
    and rr: "r = R \<or> r + 1 \<in> ?H" and rl: "rl \<in> ?H \<and> stab_addr xs rl \<le> a \<or> rl = L \<and> (\<forall>i \<in> ?H. l \<le> i)"
    using E(3) unfolding P_def by blast+
  have "\<forall>i \<in> ?H. i \<le> r \<longleftrightarrow> stab_addr xs i \<le> a" using low high E(2) by (meson not_less order_le_less_trans)
  moreover have "rl \<in> ?H \<and> stab_addr xs rl \<le> a \<or> rl = L \<and> (\<forall>i \<in> ?H. a < stab_addr xs i)"
    using rl high E(2) by (meson less_le_trans)
  ultimately show ?thesis using that E(1) rr by blast
qed

text \<open>Unless an entry lies at the last address, the left location is never moved past the right one.\<close>

lemma binsearch_left:
  assumes "0 \<le> L" and "R < int (length xs)" and "length xs \<le> 2 ^ 30"
    and last: "\<forall>i \<in> stab_hits xs ty L R. stab_addr xs i \<noteq> - 1"
    and res: "binsearch_loop xs ty a L R False L R = Some (any, rl, rr)"
  shows "rl = L \<or> rl \<in> stab_hits xs ty L R \<and> rl \<le> rr"
proof -
  let ?H = "stab_hits xs ty L R"
  define P where "P = (\<lambda>(b :: u32) l r (any :: bool) rl. L \<le> l \<and> r \<le> R \<and>
    (rl = L \<or> rl \<in> ?H \<and> rl \<le> r \<and> (rl < l \<or> rl = l \<and> b = stab_addr xs rl + 1)))"
  have "\<exists>b' l' r' any' rl'. binsearch_loop xs ty a L R False L R = Some (any', rl', r') \<and> r' < l' \<and> P b' l' r' any' rl'"
  proof (rule binsearch_rule [OF assms(1-3)])
    show "P a L R False L" by (simp add: P_def)
  next
    fix b l r any rl k
    assume p: "P b l r any rl" and a: "0 \<le> l" "l \<le> r" "r < int (length xs)" "l - 1 \<le> k" "k \<le> (l + r) div 2"
      "l \<le> k \<longrightarrow> k \<in> stab_hits xs ty l ((l + r) div 2)" "\<forall>i \<in> stab_hits xs ty l ((l + r) div 2). i \<le> k"
    note t = half_bounds [OF a(2)]
    have kH: "k \<in> ?H" if "\<not> k < l" using a(5,6) that t p by (auto simp: stab_hits_def P_def)
    have "rl \<le> k - 1" if "\<not> k < l" "b < stab_addr xs k" "rl \<noteq> L"
    proof (cases "rl = k")
      case True
      then have "b = stab_addr xs k + 1" using p that by (auto simp: P_def)
      then show ?thesis using plus_one_above [of "stab_addr xs k"] last kH [OF that(1)] that(2) by (meson less_asym)
    next
      case False
      then show ?thesis using p that by (auto simp: P_def)
    qed
    then show "if k < l then P b ((l + r) div 2 + 1) r any rl
       else if stab_addr xs k < b then P b ((l + r) div 2 + 1) r True k
       else if b < stab_addr xs k then P b l (k - 1) True rl else P (b + 1) k r True k"
      using p kH t a(2,5) by (auto simp: P_def)
  qed
  then show ?thesis using res by (auto simp: P_def)
qed

text \<open>Everything about the result on an arbitrary table.\<close>

lemma stab_binsearch_total:
  assumes "0 \<le> L" and "L \<le> R + 1" and "R < int (length xs)" and "length xs \<le> 2 ^ 30"
  obtains l r where "stab_binsearch xs L R ty a = Some (l, r)" "L - 1 \<le> l" "L - 1 \<le> r" "r \<le> R"
    "stab_hits xs ty L R \<noteq> {} \<Longrightarrow> l \<le> r" "stab_hits xs ty L R = {} \<Longrightarrow> l = L \<and> r = L - 1"
    "\<forall>i \<in> stab_hits xs ty L R. stab_addr xs i \<noteq> - 1 \<Longrightarrow>
       l = L \<or> l \<in> stab_hits xs ty L R \<or> l = L - 1 \<and> L \<in> stab_hits xs ty L R"
proof -
  let ?H = "stab_hits xs ty L R"
  obtain any rl rr where B: "binsearch_loop xs ty a L R False L R = Some (any, rl, rr)"
    "any \<longleftrightarrow> ?H \<noteq> {}" "L - 1 \<le> rr" "rr \<le> R" "L \<le> rl" "any \<longrightarrow> rl \<le> R" "\<not> any \<longrightarrow> rl = L" "rr = R \<or> rr + 1 \<in> ?H"
    by (rule binsearch_total [OF assms])
  show ?thesis
  proof (cases any)
    case False
    then show ?thesis using B by (intro that [of L "L - 1"]) (auto simp: stab_binsearch_def)
  next
    case True
    have "\<exists>l. stab_back xs (rl + 1) ty rr = Some l \<and> L - 1 \<le> l \<and> l \<le> rr \<and>
      (if rl \<le> rr then l = rl \<or> l \<in> ?H else l = rr)"
    proof (cases "rl \<le> rr")
      case True
      then obtain k where "stab_back xs (rl + 1) ty rr = Some k" "rl + 1 - 1 \<le> k" "k \<le> rr"
        "rl + 1 \<le> k \<longrightarrow> k \<in> stab_hits xs ty (rl + 1) rr"
        using stab_back_hits [of "rl + 1" rr xs ty] B(4,5) assms(1,3) by auto
      then show ?thesis using True B(4,5) by (cases "k = rl") (auto simp: stab_hits_def)
    next
      case False
      then show ?thesis using B(3) by (simp add: stab_back.simps)
    qed
    then obtain l where l: "stab_back xs (rl + 1) ty rr = Some l" "L - 1 \<le> l" "l \<le> rr"
      "if rl \<le> rr then l = rl \<or> l \<in> ?H else l = rr" by blast
    show ?thesis
    proof (rule that [of l rr])
      show "stab_binsearch xs L R ty a = Some (l, rr)" using B(1) True l(1) by (simp add: stab_binsearch_def)
      show "l = L \<or> l \<in> ?H \<or> l = L - 1 \<and> L \<in> ?H" if "\<forall>i \<in> ?H. stab_addr xs i \<noteq> - 1"
      proof (cases "rl \<le> rr")
        case le: True
        then show ?thesis using l(4) binsearch_left [OF assms(1,3,4) that B(1)] by auto
      next
        case gt: False
        then have "rl = L" using binsearch_left [OF assms(1,3,4) that B(1)] by auto
        then have "rr = L - 1" "l = L - 1" using gt l B(3) by auto
        then show ?thesis using B(6,8) True \<open>rl = L\<close> by auto
      qed
    qed (use l B True in auto)
  qed
qed

section \<open>Properties\<close>

text \<open>C18. \<open>stab_binsearch\<close> ends on every table, sorted or not, without reading outside the range; it leaves the
  left location above the right one exactly when no entry of the range has the type, whatever the address.\<close>

theorem stab_binsearch_always_ends:
  assumes "0 \<le> L" and "L \<le> R + 1" and "R < int (length xs)" and "length xs \<le> 2 ^ 30"
  shows "\<exists>l r. stab_binsearch xs L R ty a = Some (l, r) \<and> L - 1 \<le> l \<and> L - 1 \<le> r \<and> r \<le> R \<and>
    (if \<exists>i. L \<le> i \<and> i \<le> R \<and> uint (n_type (xs ! nat i)) = ty then l \<le> r else l = L \<and> r = L - 1)"
proof -
  have "(\<exists>i. L \<le> i \<and> i \<le> R \<and> uint (n_type (xs ! nat i)) = ty) \<longleftrightarrow> stab_hits xs ty L R \<noteq> {}" by (auto simp: stab_hits_def)
  then show ?thesis by (simp only: if_True) (rule stab_binsearch_total [OF assms, of ty a], auto)
qed

theorem stab_binsearch_always_ends_witness:
  "\<exists>l r. stab_binsearch [\<lparr>n_strx = 0, n_type = 0x64, n_other = 0, n_desc = 0, n_value = 16\<rparr>] 0 0 N_SO 4 = Some (l, r) \<and>
     - 1 \<le> l \<and> l \<le> r"
proof -
  let ?xs = "[\<lparr>n_strx = 0, n_type = 0x64, n_other = 0, n_desc = 0, n_value = 16\<rparr>]"
  have "\<exists>i. 0 \<le> i \<and> i \<le> 0 \<and> uint (n_type (?xs ! nat i)) = N_SO" by (intro exI [of _ 0]) (simp add: N_SO_def)
  then show ?thesis
    using stab_binsearch_always_ends [where L = 0 and R = 0 and xs = ?xs and ty = N_SO and a = 4] by auto
qed

text \<open>C12. On a table whose entries of the type are sorted by address, and in which none starts one byte
  after an entry that starts exactly at the address, \<open>stab_binsearch\<close> is a linear scan: it returns the last
  entry at or below the address and the position before the next entry above it.\<close>

theorem stab_binsearch_is_linear_scan:
  assumes "0 \<le> L" and "L \<le> R + 1" and "R < int (length xs)" and "length xs \<le> 2 ^ 30" and "a \<noteq> - 1"
    and "stabs_sorted xs ty L R"
    and "(\<exists>i \<in> stab_hits xs ty L R. stab_addr xs i = a) \<longrightarrow> (\<forall>i \<in> stab_hits xs ty L R. stab_addr xs i \<noteq> a + 1)"
  shows "stab_binsearch xs L R ty a = Some (stab_span xs L R ty a)"
proof -
  let ?H = "stab_hits xs ty L R" and ?hs = "filter (\<lambda>i. uint (n_type (xs ! nat i)) = ty) [L..R]"
  obtain any rl rr where B: "binsearch_loop xs ty a L R False L R = Some (any, rl, rr)"
    "any \<longleftrightarrow> ?H \<noteq> {}" "L - 1 \<le> rr" "rr \<le> R" "L \<le> rl" "any \<longrightarrow> rl \<le> R" "\<not> any \<longrightarrow> rl = L"
    by (rule binsearch_total [OF assms(1-4)])
  obtain any' rl' rr' where "binsearch_loop xs ty a L R False L R = Some (any', rl', rr')"
    "\<forall>i \<in> ?H. i \<le> rr' \<longleftrightarrow> stab_addr xs i \<le> a" "rr' = R \<or> rr' + 1 \<in> ?H"
    "rl' \<in> ?H \<and> stab_addr xs rl' \<le> a \<or> rl' = L \<and> (\<forall>i \<in> ?H. a < stab_addr xs i)"
    by (rule binsearch_sorted [OF assms])
  with B(1) have C: "\<forall>i \<in> ?H. i \<le> rr \<longleftrightarrow> stab_addr xs i \<le> a" "rr = R \<or> rr + 1 \<in> ?H"
    "rl \<in> ?H \<and> stab_addr xs rl \<le> a \<or> rl = L \<and> (\<forall>i \<in> ?H. a < stab_addr xs i)" by auto
  have hs: "sorted ?hs" "?hs = [] \<longleftrightarrow> ?H = {}" by (auto simp: sorted_wrt_filter filter_empty_conv stab_hits_def)
  show ?thesis
  proof (cases any)
    case False
    then show ?thesis using B hs(2) by (simp add: stab_binsearch_def stab_span_def)
  next
    case True
    have stop: "(if filter (\<lambda>i. a < stab_addr xs i) ?hs = [] then R else hd (filter (\<lambda>i. a < stab_addr xs i) ?hs) - 1) = rr"
    proof (cases "\<exists>i \<in> ?H. a < stab_addr xs i")
      case True
      then have "rr + 1 \<in> ?H" using C(1,2) by (auto simp: stab_hits_def not_le)
      moreover have "a < stab_addr xs (rr + 1)" using C(1) calculation by (meson not_le zle_add1_eq_le linorder_neqE add.commute less_add_one)
      moreover have "\<forall>i \<in> ?H. a < stab_addr xs i \<longrightarrow> rr + 1 \<le> i" using C(1) by (meson not_le zless_imp_add1_zle)
      ultimately have "filter (\<lambda>i. a < stab_addr xs i) ?hs \<noteq> [] \<and> hd (filter (\<lambda>i. a < stab_addr xs i) ?hs) = rr + 1"
        by (intro hd_filter_eq [OF hs(1)]) (simp_all only: set_hits)
      then show ?thesis by simp
    next
      case False
      then have "filter (\<lambda>i. a < stab_addr xs i) ?hs = []" by (auto simp: filter_empty_conv stab_hits_def)
      moreover have "rr = R" using C(1,2) False by (metis less_add_one not_le not_less)
      ultimately show ?thesis by simp
    qed
    show ?thesis
    proof (cases "\<exists>i \<in> ?H. stab_addr xs i \<le> a")
      case below: True
      then have rl: "rl \<in> ?H" "stab_addr xs rl \<le> a" using C(3) by (auto simp: not_le)
      then have "rl \<le> rr" using C(1) by blast
      then obtain k where k: "stab_back xs (rl + 1) ty rr = Some k" "rl + 1 - 1 \<le> k" "k \<le> rr"
        "rl + 1 \<le> k \<longrightarrow> k \<in> stab_hits xs ty (rl + 1) rr" "\<forall>i \<in> stab_hits xs ty (rl + 1) rr. i \<le> k"
        using stab_back_hits [of "rl + 1" rr xs ty] B(4,5) assms(1,3) by auto
      have kH: "k \<in> ?H" using k(2-4) rl(1) B(4,5) by (cases "k = rl") (auto simp: stab_hits_def)
      moreover have "stab_addr xs k \<le> a" using C(1) kH k(3) by blast
      moreover have "\<forall>i \<in> ?H. stab_addr xs i \<le> a \<longrightarrow> i \<le> k"
      proof (intro ballI impI)
        fix i assume i: "i \<in> ?H" "stab_addr xs i \<le> a"
        then have "i \<le> rr" using C(1) by blast
        then show "i \<le> k" using k(2,5) i(1) by (cases "i \<le> rl") (auto simp: stab_hits_def)
      qed
      ultimately have "filter (\<lambda>i. stab_addr xs i \<le> a) ?hs \<noteq> [] \<and> last (filter (\<lambda>i. stab_addr xs i \<le> a) ?hs) = k"
        by (intro last_filter_eq [OF hs(1)]) (simp_all only: set_hits)
      then show ?thesis using True B(1,2) hs(2) k(1) stop by (auto simp: stab_binsearch_def stab_span_def Let_def)
    next
      case above: False
      then have rl: "rl = L" using C(3) by blast
      have none: "filter (\<lambda>i. stab_addr xs i \<le> a) ?hs = []" using above by (auto simp: filter_empty_conv stab_hits_def)
      have "stab_hits xs ty (rl + 1) rr \<subseteq> {i \<in> ?H. i \<le> rr}" using B(4) rl by (auto simp: stab_hits_def)
      then have empty: "stab_hits xs ty (rl + 1) rr = {}" using C(1) above by blast
      have "stab_back xs (rl + 1) ty rr = Some (min L rr)"
      proof (cases "L \<le> rr")
        case True
        then show ?thesis using stab_back_hits [of "rl + 1" rr xs ty] empty B(4) assms(1,3) rl
          by (metis add_diff_cancel_right' add_nonneg_nonneg empty_iff less_add_one min.absorb1 nle_le not_less
              order_le_less_trans zero_le_one zless_imp_add1_zle)
      next
        case False
        then show ?thesis using rl by (simp add: stab_back.simps)
      qed
      then show ?thesis using True B(1,2) hs(2) none stop by (auto simp: stab_binsearch_def stab_span_def Let_def)
    qed
  qed
qed

definition file_stab :: "u32 \<Rightarrow> stab" where
  "file_stab v = \<lparr>n_strx = 0, n_type = 0x64, n_other = 0, n_desc = 0, n_value = v\<rparr>"

definition no_stab :: stab where
  "no_stab = \<lparr>n_strx = 0, n_type = 0, n_other = 0, n_desc = 0, n_value = 0\<rparr>"

theorem stab_binsearch_is_linear_scan_witness:
  "stab_binsearch [file_stab 16, no_stab, file_stab 64, no_stab] 0 3 N_SO 20 = Some (0, 1) \<and>
   stab_binsearch [file_stab 16, no_stab, file_stab 64, no_stab] 0 3 N_SO 64 = Some (2, 3) \<and>
   stab_binsearch [file_stab 16, no_stab, file_stab 64, no_stab] 0 3 N_SO 4 = Some (-1, -1)"
proof -
  let ?xs = "[file_stab 16, no_stab, file_stab 64, no_stab]"
  have r: "[0..3 :: int] = [0, 1, 2, 3]" by (simp add: upto_rec1)
  have h: "stab_hits ?xs N_SO 0 3 = {0, 2}"
  proof -
    have "stab_hits ?xs N_SO 0 3 = set (filter (\<lambda>i. uint (n_type (?xs ! nat i)) = N_SO) [0..3])" by (rule set_hits [symmetric])
    then show ?thesis by (simp add: r file_stab_def no_stab_def N_SO_def)
  qed
  have s: "stabs_sorted ?xs N_SO 0 3" unfolding stabs_sorted_def h by (simp add: stab_addr_def file_stab_def)
  have "stab_binsearch ?xs 0 3 N_SO a = Some (stab_span ?xs 0 3 N_SO a)" if "a \<in> {4, 20, 64}" for a
    using that unfolding h by (intro stab_binsearch_is_linear_scan s, unfold h) (auto simp: stab_addr_def file_stab_def)
  moreover have "stab_span ?xs 0 3 N_SO 20 = (0, 1)" "stab_span ?xs 0 3 N_SO 64 = (2, 3)" "stab_span ?xs 0 3 N_SO 4 = (-1, -1)"
    by (simp_all add: stab_span_def Let_def r file_stab_def no_stab_def N_SO_def stab_addr_def)
  ultimately show ?thesis by simp
qed

text \<open>After an exact match the search goes on for the next address. When an entry starts there, one byte
  after the one that was found, the result is that later entry, which does not contain the address.\<close>

theorem stab_binsearch_runs_past_match:
  "stab_binsearch [file_stab 16, file_stab 17] 0 1 N_SO 16 = Some (1, 1)"
proof -
  let ?xs = "[file_stab 16, file_stab 17]"
  have rd: "stab_at ?xs 0 = Some (file_stab 16)" "stab_at ?xs 1 = Some (file_stab 17)" by (simp_all add: stab_at_def)
  have scan: "stab_back ?xs l N_SO 0 = Some 0" "stab_back ?xs l N_SO 1 = Some 1" for l
    by (simp_all add: stab_back.simps stab_at_def file_stab_def N_SO_def)
  have d: "(0 + 1 :: int) sdiv 2 = 0" "(1 + 1 :: int) sdiv 2 = 1" by (simp_all add: sdiv_two)
  have "binsearch_loop ?xs N_SO 18 2 1 True 1 1 = Some (True, 1, 1)" by (simp add: binsearch_loop.simps)
  then have "binsearch_loop ?xs N_SO 18 1 1 True 1 1 = Some (True, 1, 1)"
    by (subst binsearch_loop.simps) (use d scan rd in \<open>simp\<close>, simp add: file_stab_def)
  then have "binsearch_loop ?xs N_SO 17 1 1 True 0 1 = Some (True, 1, 1)"
    by (subst binsearch_loop.simps) (use d scan rd in \<open>simp\<close>, simp add: file_stab_def)
  then have "binsearch_loop ?xs N_SO 17 0 1 True 0 1 = Some (True, 1, 1)"
    by (subst binsearch_loop.simps) (use d scan rd in \<open>simp\<close>, simp add: file_stab_def)
  then have "binsearch_loop ?xs N_SO 16 0 1 False 0 1 = Some (True, 1, 1)"
    by (subst binsearch_loop.simps) (use d scan rd in \<open>simp\<close>, simp add: file_stab_def)
  then show ?thesis by (simp add: stab_binsearch_def stab_back.simps)
qed

end
