(* ===== verification/Atomic.thy ===== *)
theory Atomic
  imports Prelude
begin

text \<open>
  libs/atomic.h: the bit operations on the flag words of the page descriptors, and the page flag
  macros of kern/mm/memlayout.h that use them.
\<close>

section \<open>Operations\<close>

text \<open>\<open>btsl\<close>, \<open>btcl\<close> and \<open>btl\<close> on a word; \<open>btcl\<close> complements the bit.\<close>

definition set_bit_x86 :: "nat \<Rightarrow> u32 \<Rightarrow> u32" where
  "set_bit_x86 nr w = w OR push_bit nr 1"

definition clear_bit_x86 :: "nat \<Rightarrow> u32 \<Rightarrow> u32" where
  "clear_bit_x86 nr w = w XOR push_bit nr 1"

definition test_bit_x86 :: "nat \<Rightarrow> u32 \<Rightarrow> bool" where
  "test_bit_x86 nr w = bit w nr"

text \<open>The flag macros of kern/mm/memlayout.h, on the value of \<open>page->flags\<close>.\<close>

definition PG_reserved :: nat where "PG_reserved = 0"
definition PG_property :: nat where "PG_property = 1"
definition PG_slab :: nat where "PG_slab = 2"

definition SetPageReserved :: "u32 \<Rightarrow> u32" where "SetPageReserved = set_bit_x86 PG_reserved"
definition ClearPageReserved :: "u32 \<Rightarrow> u32" where "ClearPageReserved = clear_bit_x86 PG_reserved"
definition PageReserved :: "u32 \<Rightarrow> bool" where "PageReserved = test_bit_x86 PG_reserved"
definition SetPageSlab :: "u32 \<Rightarrow> u32" where "SetPageSlab = set_bit_x86 PG_slab"
definition ClearPageSlab :: "u32 \<Rightarrow> u32" where "ClearPageSlab = clear_bit_x86 PG_slab"
definition PageSlab :: "u32 \<Rightarrow> bool" where "PageSlab = test_bit_x86 PG_slab"
definition SetPageProperty :: "u32 \<Rightarrow> u32" where "SetPageProperty = set_bit_x86 PG_reserved"
definition ClearPageProperty :: "u32 \<Rightarrow> u32" where "ClearPageProperty = clear_bit_x86 PG_property"
definition PageProperty :: "u32 \<Rightarrow> bool" where "PageProperty = test_bit_x86 PG_property"

section \<open>Lemmas\<close>

lemma test_set_bit: "nr < 32 \<Longrightarrow> test_bit_x86 m (set_bit_x86 nr w) \<longleftrightarrow> m = nr \<or> test_bit_x86 m w"
  by (auto simp: test_bit_x86_def set_bit_x86_def bit_simps)

lemma test_clear_bit:
  "nr < 32 \<Longrightarrow> test_bit_x86 m (clear_bit_x86 nr w) \<longleftrightarrow> (m = nr) \<noteq> test_bit_x86 m w"
  by (auto simp: test_bit_x86_def clear_bit_x86_def bit_simps)

lemma clear_set_bit: "nr < 32 \<Longrightarrow> \<not> test_bit_x86 nr w \<Longrightarrow> clear_bit_x86 nr (set_bit_x86 nr w) = w"
  by (rule bit_word_eqI) (auto simp: test_bit_x86_def set_bit_x86_def clear_bit_x86_def bit_simps)

section \<open>Properties\<close>

text \<open>\<open>clear_bit\<close> complements the bit instead of clearing it, so clearing a clear bit sets it.\<close>

theorem clear_bit_toggles:
  assumes "nr < 32"
  shows "test_bit_x86 nr (clear_bit_x86 nr w) \<longleftrightarrow> \<not> test_bit_x86 nr w"
  using assms by (simp add: test_bit_x86_def clear_bit_x86_def bit_simps)

theorem clear_bit_toggles_witness:
  "test_bit_x86 1 (clear_bit_x86 1 0) \<longleftrightarrow> \<not> test_bit_x86 1 0"
  by (rule clear_bit_toggles) simp

end
