(* ===== verification/Slab.thy ===== *)
theory Slab
  imports Atomic Mmu Buddy
begin

text \<open>
  kern/mm/slab.c: the object allocator behind \<open>kmalloc\<close> and \<open>kfree\<close>. Thirteen caches, one per power
  of two from 32 bytes to 128 KB, each own two lists of slabs; a slab is a run of pages cut into
  objects of one size, with a control block \<open>slab_t\<close> and an array of links between its free objects.
  The control block of a cache of large objects is itself an object of another cache. The pages
  come from the page allocator, and the slab of a page is found through the \<open>page_link\<close> of its
  descriptor.
\<close>

section \<open>State\<close>

definition BUFCTL_END :: u32 where "BUFCTL_END = 0xFFFFFFFF"
definition SLAB_LIMIT :: u32 where "SLAB_LIMIT = 0xFFFFFFFE"
definition MIN_SIZE_ORDER :: nat where "MIN_SIZE_ORDER = 5"
definition MAX_SIZE_ORDER :: nat where "MAX_SIZE_ORDER = 17"
definition SLAB_CACHE_NUM :: nat where "SLAB_CACHE_NUM = MAX_SIZE_ORDER - MIN_SIZE_ORDER + 1"
definition KMALLOC_MAX_ORDER :: nat where "KMALLOC_MAX_ORDER = 10"

text \<open>The list entries: the two headers of each cache and the \<open>slab_link\<close> of the slab at an address.\<close>

datatype slab_ptr = SlabsFull nat | SlabsNotfull nat | SlabLink u32

text \<open>A \<open>slab_t\<close> together with the array \<open>slab_bufctl(slabp)\<close> that follows it in memory.\<close>

record slab =
  s_mem :: u32
  inuse :: u32
  sl_offset :: u32
  sl_free :: u32
  bufctl :: "u32 \<Rightarrow> u32"

record kmem_cache =
  objsize :: u32
  num :: u32
  kc_offset :: u32
  off_slab :: bool
  page_order :: nat
  slab_cachep :: nat

text \<open>\<open>slab_cache\<close> is indexed by the position in the array; \<open>slabs\<close> by the address of the \<open>slab_t\<close>.\<close>

record kmem =
  slab_cache :: "nat \<Rightarrow> kmem_cache"
  slabs :: "u32 \<Rightarrow> slab"
  slinks :: "slab_ptr heap"
  frames :: buddy

definition sizeof_slab_t :: u32 where "sizeof_slab_t = 24"
definition sizeof_bufctl :: u32 where "sizeof_bufctl = 4"

section \<open>Layout of the slabs\<close>

definition slab_mgmt_size :: "u32 \<Rightarrow> u32 \<Rightarrow> u32" where
  "slab_mgmt_size n align = ROUNDUP (sizeof_slab_t + n * sizeof_bufctl) align"

partial_function (option) reduce_objs :: "u32 \<Rightarrow> u32 \<Rightarrow> u32 \<Rightarrow> u32 \<Rightarrow> u32 option" where
  "reduce_objs slab_size osize align nr =
     (if slab_size < slab_mgmt_size nr align + nr * osize
      then reduce_objs slab_size osize align (nr - 1) else Some nr)"

declare reduce_objs.simps [code]

text \<open>The pair of the remainder and the number of objects. \<open>None\<close>: the loop does not end, or the
  division by \<open>osize\<close> faults.\<close>

definition cache_estimate :: "nat \<Rightarrow> u32 \<Rightarrow> u32 \<Rightarrow> bool \<Rightarrow> (u32 \<times> u32) option" where
  "cache_estimate k osize align off =
     (let slab_size = push_bit k PGSIZE in
      if off then
        (if osize = 0 then None
         else (let nr = slab_size div osize;
                   nr = (if SLAB_LIMIT < nr then SLAB_LIMIT else nr)
               in Some (slab_size - nr * osize - 0, nr)))
      else if osize + sizeof_bufctl = 0 then None
      else do {
        nr \<leftarrow> reduce_objs slab_size osize align ((slab_size - sizeof_slab_t) div (osize + sizeof_bufctl));
        let nr = (if SLAB_LIMIT < nr then SLAB_LIMIT else nr);
        Some (slab_size - nr * osize - slab_mgmt_size nr align, nr) })"

text \<open>The loop from order \<open>k\<close> on. The second component is \<open>left_over\<close>: \<open>None\<close> when no order was
  accepted, so that the variable was never written.\<close>

function slab_order_loop :: "nat \<Rightarrow> u32 \<Rightarrow> u32 \<Rightarrow> bool \<Rightarrow> kmem_cache \<Rightarrow> (kmem_cache \<times> u32 option) option" where
  "slab_order_loop k osize align off cachep =
     (if k \<le> KMALLOC_MAX_ORDER then
        (case cache_estimate k osize align off of
           None \<Rightarrow> None
         | Some (remainder, n) \<Rightarrow>
             if n \<noteq> 0 \<and> remainder * 8 \<le> push_bit k PGSIZE
             then Some (cachep\<lparr>num := n, page_order := k\<rparr>, Some remainder)
             else slab_order_loop (Suc k) osize align off cachep)
      else Some (cachep, None))"
  by pat_completeness auto
termination
  by (relation "measure (\<lambda>(k, osize, align, off, cachep). Suc KMALLOC_MAX_ORDER - k)") auto

declare slab_order_loop.simps [simp del]

definition calculate_slab_order :: "kmem_cache \<Rightarrow> u32 \<Rightarrow> u32 \<Rightarrow> bool \<Rightarrow> (kmem_cache \<times> u32 option) option" where
  "calculate_slab_order cachep osize align off = slab_order_loop 0 osize align off cachep"

text \<open>\<open>getorder\<close>; \<open>return -1\<close> gives the largest \<open>size_t\<close>.\<close>

function slab_getorder_loop :: "nat \<Rightarrow> u32 \<Rightarrow> u32 \<Rightarrow> nat" where
  "slab_getorder_loop k order_size n =
     (if k \<le> MAX_SIZE_ORDER then
        (if n \<le> order_size then k else slab_getorder_loop (Suc k) (push_bit 1 order_size) n)
      else 4294967295)"
  by pat_completeness auto
termination
  by (relation "measure (\<lambda>(k, order_size, n). Suc MAX_SIZE_ORDER - k)") auto

declare slab_getorder_loop.simps [simp del]

definition slab_getorder :: "u32 \<Rightarrow> nat" where
  "slab_getorder n = slab_getorder_loop MIN_SIZE_ORDER (push_bit MIN_SIZE_ORDER 1) n"

text \<open>\<open>None\<close>: \<open>left_over\<close> is read although it was never written.\<close>

definition init_kmem_cache :: "nat \<Rightarrow> u32 \<Rightarrow> u32 \<Rightarrow> kmem \<Rightarrow> kmem option" where
  "init_kmem_cache c osize align s =
     (let s = s\<lparr>slinks := list_init (SlabsNotfull c) (list_init (SlabsFull c) (slinks s))\<rparr>;
          osize = ROUNDUP osize align;
          off = (drop_bit 3 PGSIZE \<le> osize);
          cachep = (slab_cache s c)\<lparr>objsize := osize, off_slab := off\<rparr>
      in do {
        (cachep, left) \<leftarrow> calculate_slab_order cachep osize align off;
        let mgmt_size = slab_mgmt_size (num cachep) align;
        cachep \<leftarrow> (if off then
                     (case left of None \<Rightarrow> None
                      | Some left_over \<Rightarrow>
                          Some (if mgmt_size \<le> left_over then cachep\<lparr>off_slab := False\<rparr> else cachep))
                   else Some cachep);
        let cachep = (if off_slab cachep
                      then cachep\<lparr>kc_offset := 0, slab_cachep := slab_getorder mgmt_size - MIN_SIZE_ORDER\<rparr>
                      else cachep\<lparr>kc_offset := mgmt_size\<rparr>);
        Some (s\<lparr>slab_cache := (slab_cache s)(c := cachep)\<rparr>) })"

definition slab_init :: "kmem \<Rightarrow> kmem option" where
  "slab_init s =
     fold (\<lambda>i r. Option.bind r (init_kmem_cache i (push_bit (i + MIN_SIZE_ORDER) 1) 16))
       [0..<SLAB_CACHE_NUM] (Some s)"

section \<open>Growing a cache and taking an object\<close>

definition SET_PAGE_CACHE :: "nat \<Rightarrow> nat \<Rightarrow> buddy \<Rightarrow> buddy" where
  "SET_PAGE_CACHE page c fr = fr\<lparr>links := set_next (PageLink page) (CacheRef c) (links fr)\<rparr>"

definition SET_PAGE_SLAB :: "nat \<Rightarrow> u32 \<Rightarrow> buddy \<Rightarrow> buddy" where
  "SET_PAGE_SLAB page slabp fr = fr\<lparr>links := set_prev (PageLink page) (SlabRef slabp) (links fr)\<rparr>"

definition set_flags :: "(u32 \<Rightarrow> u32) \<Rightarrow> nat \<Rightarrow> buddy \<Rightarrow> buddy" where
  "set_flags f page fr = fr\<lparr>pg := (pg fr)(page := (pg fr page)\<lparr>flags := f (flags (pg fr page))\<rparr>)\<rparr>"

text \<open>The \<open>do ... while (-- order_size)\<close> loops over the pages of a slab.\<close>

definition mark_slab_pages :: "nat \<Rightarrow> u32 \<Rightarrow> nat \<Rightarrow> nat \<Rightarrow> buddy \<Rightarrow> buddy" where
  "mark_slab_pages c slabp page n fr =
     fold (\<lambda>p fr. set_flags SetPageSlab p (SET_PAGE_SLAB p slabp (SET_PAGE_CACHE p c fr))) [page..<page + n] fr"

definition clear_slab_pages :: "nat \<Rightarrow> nat \<Rightarrow> buddy \<Rightarrow> buddy" where
  "clear_slab_pages page n fr = fold (set_flags ClearPageSlab) [page..<page + n] fr"

definition init_bufctl :: "u32 \<Rightarrow> (u32 \<Rightarrow> u32) \<Rightarrow> u32 \<Rightarrow> u32" where
  "init_bufctl n b = (fold (\<lambda>i b. b(of_nat i := of_nat i + 1)) [0..<unat n] b)(n - 1 := BUFCTL_END)"

text \<open>\<open>alloc\<close> stands for \<open>kmem_cache_alloc\<close>, which these functions call back for the control block
  of a slab of large objects. An object pointer is an address, \<open>None\<close> a null pointer.\<close>

type_synonym cache_alloc = "nat \<Rightarrow> kmem \<Rightarrow> (u32 option \<times> kmem) option"

definition kmem_cache_slabmgmt :: "cache_alloc \<Rightarrow> nat \<Rightarrow> nat \<Rightarrow> kmem \<Rightarrow> (u32 option \<times> kmem) option" where
  "kmem_cache_slabmgmt alloc c page s =
     do { (slabp, s) \<leftarrow> (if off_slab (slab_cache s c) then alloc (slab_cachep (slab_cache s c)) s
                        else Some (Some (page2kva page), s));
          case slabp of
            None \<Rightarrow> Some (None, s)
          | Some a \<Rightarrow>
              (let off = kc_offset (slab_cache s c);
                   sl = (slabs s a)\<lparr>inuse := 0, sl_offset := off, s_mem := page2kva page + off\<rparr>
               in Some (Some a, s\<lparr>slabs := (slabs s)(a := sl)\<rparr>)) }"

definition kmem_cache_grow :: "cache_alloc \<Rightarrow> nat \<Rightarrow> kmem \<Rightarrow> (bool \<times> kmem) option" where
  "kmem_cache_grow alloc c s =
     do { (r, fr) \<leftarrow> alloc_pages buddy_pmm_manager (2 ^ page_order (slab_cache s c)) (frames s);
          let s = s\<lparr>frames := fr\<rparr>;
          case r of
            None \<Rightarrow> Some (False, s)
          | Some page \<Rightarrow>
              do { (slabp, s) \<leftarrow> kmem_cache_slabmgmt alloc c page s;
                   let n = 2 ^ page_order (slab_cache s c);
                   case slabp of
                     None \<Rightarrow> do { fr \<leftarrow> free_pages buddy_pmm_manager page n (frames s);
                                 Some (False, s\<lparr>frames := fr\<rparr>) }
                   | Some a \<Rightarrow>
                       (let sl = slabs s a;
                            sl = sl\<lparr>bufctl := init_bufctl (num (slab_cache s c)) (bufctl sl), sl_free := 0\<rparr>
                        in Some (True, s\<lparr>frames := mark_slab_pages c a page n (frames s),
                             slabs := (slabs s)(a := sl),
                             slinks := list_add (SlabsNotfull c) (SlabLink a) (slinks s)\<rparr>)) } }"

definition kmem_cache_alloc_one :: "nat \<Rightarrow> u32 \<Rightarrow> kmem \<Rightarrow> u32 \<times> kmem" where
  "kmem_cache_alloc_one c slabp s =
     (let sl = slabs s slabp;
          objp = s_mem sl + sl_free sl * objsize (slab_cache s c);
          sl = sl\<lparr>inuse := inuse sl + 1, sl_free := bufctl sl (sl_free sl)\<rparr>;
          s = s\<lparr>slabs := (slabs s)(slabp := sl)\<rparr>
      in (objp,
          if sl_free sl = BUFCTL_END
          then s\<lparr>slinks := list_add (SlabsFull c) (SlabLink slabp) (list_del (SlabLink slabp) (slinks s))\<rparr>
          else s))"

lemma kmem_cache_grow_mono [partial_function_mono]:
  assumes "\<And>c s. mono_option (\<lambda>f. B f c s)"
  shows "mono_option (\<lambda>f. kmem_cache_grow (B f) c s)"
  unfolding kmem_cache_grow_def kmem_cache_slabmgmt_def Let_def
  by (intro callback_mono assms)

partial_function (option) kmem_cache_alloc :: cache_alloc where
  "kmem_cache_alloc c s =
     (if list_empty (SlabsNotfull c) (slinks s) then
        do { (grown, s) \<leftarrow> kmem_cache_grow kmem_cache_alloc c s;
             if grown then kmem_cache_alloc c s else Some (None, s) }
      else (case list_next (SlabsNotfull c) (slinks s) of
          SlabLink slabp \<Rightarrow> (case kmem_cache_alloc_one c slabp s of (objp, s) \<Rightarrow> Some (Some objp, s))
        | _ \<Rightarrow> None))"

definition kmalloc :: "u32 \<Rightarrow> kmem \<Rightarrow> (u32 option \<times> kmem) option" where
  "kmalloc sz s =
     (let k = slab_getorder sz
      in if MAX_SIZE_ORDER < k then Some (None, s) else kmem_cache_alloc (k - MIN_SIZE_ORDER) s)"

section \<open>Giving an object back\<close>

type_synonym cache_free = "nat \<Rightarrow> u32 \<Rightarrow> kmem \<Rightarrow> kmem option"

definition kmem_slab_destroy :: "cache_free \<Rightarrow> nat \<Rightarrow> u32 \<Rightarrow> kmem \<Rightarrow> kmem option" where
  "kmem_slab_destroy free c slabp s =
     (let page = kva2page (s_mem (slabs s slabp) - sl_offset (slabs s slabp));
          n = 2 ^ page_order (slab_cache s c)
      in do {
        fr \<leftarrow> free_pages buddy_pmm_manager page n (clear_slab_pages page n (frames s));
        let s = s\<lparr>frames := fr\<rparr>;
        if off_slab (slab_cache s c) then free (slab_cachep (slab_cache s c)) slabp s else Some s })"

definition kmem_cache_free_one :: "cache_free \<Rightarrow> nat \<Rightarrow> u32 \<Rightarrow> u32 \<Rightarrow> kmem \<Rightarrow> kmem option" where
  "kmem_cache_free_one free c slabp objp s =
     (if objsize (slab_cache s c) = 0 then None
      else let sl = slabs s slabp;
               objnr = (objp - s_mem sl) div objsize (slab_cache s c);
               sl = sl\<lparr>bufctl := (bufctl sl)(objnr := sl_free sl), sl_free := objnr, inuse := inuse sl - 1\<rparr>;
               s = s\<lparr>slabs := (slabs s)(slabp := sl)\<rparr>
           in if inuse sl = 0 then
                kmem_slab_destroy free c slabp (s\<lparr>slinks := list_del (SlabLink slabp) (slinks s)\<rparr>)
              else if inuse sl = num (slab_cache s c) - 1 then
                Some (s\<lparr>slinks := list_add (SlabsNotfull c) (SlabLink slabp)
                                    (list_del (SlabLink slabp) (slinks s))\<rparr>)
              else Some s)"

lemma kmem_cache_free_one_mono [partial_function_mono]:
  assumes "\<And>c a s. mono_option (\<lambda>f. B f c a s)"
  shows "mono_option (\<lambda>f. kmem_cache_free_one (B f) c slabp objp s)"
  unfolding kmem_cache_free_one_def kmem_slab_destroy_def Let_def
  by (intro callback_mono assms)

definition GET_PAGE_CACHE :: "nat \<Rightarrow> buddy \<Rightarrow> nat option" where
  "GET_PAGE_CACHE page fr = (case next (links fr (PageLink page)) of CacheRef c \<Rightarrow> Some c | _ \<Rightarrow> None)"

definition GET_PAGE_SLAB :: "nat \<Rightarrow> buddy \<Rightarrow> u32 option" where
  "GET_PAGE_SLAB page fr = (case prev (links fr (PageLink page)) of SlabRef a \<Rightarrow> Some a | _ \<Rightarrow> None)"

partial_function (option) kmem_cache_free :: cache_free where
  "kmem_cache_free c objp s =
     do { slabp \<leftarrow> GET_PAGE_SLAB (kva2page objp) (frames s);
          kmem_cache_free_one kmem_cache_free c slabp objp s }"

definition kfree :: "u32 \<Rightarrow> kmem \<Rightarrow> kmem option" where
  "kfree objp s = do { c \<leftarrow> GET_PAGE_CACHE (kva2page objp) (frames s); kmem_cache_free c objp s }"

section \<open>Accounting\<close>

definition slab_allocated_cache :: "nat \<Rightarrow> kmem \<Rightarrow> u32 \<Rightarrow> u32 option" where
  "slab_allocated_cache c s acc =
     (let k = slab_cache s c in
      do { acc \<leftarrow> list_walk (\<lambda>le t. Some (t + num k * objsize k)) (slinks s) (SlabsFull c) (SlabsFull c) acc;
           list_walk (\<lambda>le t. case le of SlabLink a \<Rightarrow> Some (t + inuse (slabs s a) * objsize k) | _ \<Rightarrow> None)
             (slinks s) (SlabsNotfull c) (SlabsNotfull c) acc })"

definition slab_allocated :: "kmem \<Rightarrow> u32 option" where
  "slab_allocated s = fold (\<lambda>c r. Option.bind r (slab_allocated_cache c s)) [0..<SLAB_CACHE_NUM] (Some 0)"

end
