(* ===== verification/SlabInv.thy ===== *)
theory SlabInv
  imports Slab
begin

text \<open>
  The invariant of the slab allocator. A layout maps the address of every \<open>slab_t\<close> in use to its
  cache, its first page and the indices of its free objects in the order of the chain. An object
  is a triple of a cache, the first page of a slab and an index.
\<close>

section \<open>Kernel virtual addresses\<close>

text \<open>Below \<open>KMEMSIZE\<close> physical addresses and their kernel virtual addresses do not wrap.\<close>

definition kaddr :: "nat \<Rightarrow> u32" where
  "kaddr x = KERNBASE + of_nat x"

lemma unat_kaddr: "x < 939524096 \<Longrightarrow> unat (kaddr x) = 3221225472 + x"
  by (simp add: kaddr_def KERNBASE_def unat_word_ariths unat_of_nat_u32 unat_of_nat take_bit_eq_mod)

lemma kaddr_inj: "x < 939524096 \<Longrightarrow> y < 939524096 \<Longrightarrow> kaddr x = kaddr y \<longleftrightarrow> x = y"
  using unat_kaddr by (metis add_left_cancel)

lemma page2kva_kaddr: "page2kva p = kaddr (4096 * p)"
  by (simp add: page2kva_def page2pa_of_nat kaddr_def)

lemma kva2page_kaddr: "x < 939524096 \<Longrightarrow> kva2page (kaddr x) = x div 4096"
  by (simp add: kva2page_def pa2page_def PADDR_def PAGE_NUM_def kaddr_def drop_bit_eq_div
      unat_div unat_of_nat_u32)

lemma kaddr_add: "kaddr x + of_nat y = kaddr (x + y)"
  by (simp add: kaddr_def)

lemma kaddr_diff: "kaddr (x + y) - of_nat y = kaddr x"
  by (simp add: kaddr_def)

section \<open>Layout of the caches\<close>

definition cache_ok :: "(nat \<Rightarrow> kmem_cache) \<Rightarrow> nat \<Rightarrow> bool" where
  "cache_ok kc c \<longleftrightarrow>
     (let k = kc c; mgmt = 24 + 4 * unat (num k) in
      0 < unat (objsize k) \<and> 0 < unat (num k) \<and> page_order k \<le> 10 \<and>
      unat (kc_offset k) + unat (num k) * unat (objsize k) \<le> 4096 * 2 ^ page_order k \<and>
      (if off_slab k
       then slab_cachep k < SLAB_CACHE_NUM \<and> \<not> off_slab (kc (slab_cachep k)) \<and>
         mgmt \<le> unat (objsize (kc (slab_cachep k)))
       else mgmt \<le> unat (kc_offset k)))"

definition caches_ok :: "(nat \<Rightarrow> kmem_cache) \<Rightarrow> bool" where
  "caches_ok kc \<longleftrightarrow> (\<forall>c < SLAB_CACHE_NUM. cache_ok kc c)"

type_synonym layout = "u32 \<Rightarrow> (nat \<times> nat \<times> nat list) option"
type_synonym object = "nat \<times> nat \<times> nat"

definition slab_pages :: "(nat \<Rightarrow> kmem_cache) \<Rightarrow> nat \<Rightarrow> nat \<Rightarrow> nat set" where
  "slab_pages kc c p = {p..<p + 2 ^ page_order (kc c)}"

definition all_pages :: "(nat \<Rightarrow> kmem_cache) \<Rightarrow> layout \<Rightarrow> nat set" where
  "all_pages kc Sl = {q. \<exists>a c p is. Sl a = Some (c, p, is) \<and> q \<in> slab_pages kc c p}"

text \<open>The physical address of an object, and the address the code hands out.\<close>

definition obj_pa :: "(nat \<Rightarrow> kmem_cache) \<Rightarrow> object \<Rightarrow> nat" where
  "obj_pa kc x = (case x of (c, p, i) \<Rightarrow>
     4096 * p + unat (kc_offset (kc c)) + i * unat (objsize (kc c)))"

definition obj_at :: "(nat \<Rightarrow> kmem_cache) \<Rightarrow> object \<Rightarrow> u32" where
  "obj_at kc x = kaddr (obj_pa kc x)"

definition live :: "(nat \<Rightarrow> kmem_cache) \<Rightarrow> layout \<Rightarrow> object set" where
  "live kc Sl = {(c, p, i). \<exists>a is. Sl a = Some (c, p, is) \<and> i < unat (num (kc c)) \<and> i \<notin> set is}"

text \<open>The objects that hold the control blocks of slabs of large objects, and those of the callers.\<close>

definition off_headers :: "(nat \<Rightarrow> kmem_cache) \<Rightarrow> layout \<Rightarrow> (nat \<times> u32) set" where
  "off_headers kc Sl = {(slab_cachep (kc c), a) |a c p is. Sl a = Some (c, p, is) \<and> off_slab (kc c)}"

definition headers :: "(nat \<Rightarrow> kmem_cache) \<Rightarrow> layout \<Rightarrow> object set" where
  "headers kc Sl = {x \<in> live kc Sl. (fst x, obj_at kc x) \<in> off_headers kc Sl}"

definition users :: "(nat \<Rightarrow> kmem_cache) \<Rightarrow> layout \<Rightarrow> object set" where
  "users kc Sl = live kc Sl - headers kc Sl"

section \<open>Free chains\<close>

fun free_chain :: "(u32 \<Rightarrow> u32) \<Rightarrow> u32 \<Rightarrow> nat list \<Rightarrow> bool" where
  "free_chain b w [] \<longleftrightarrow> w = BUFCTL_END"
| "free_chain b w (i # is) \<longleftrightarrow> w = of_nat i \<and> free_chain b (b w) is"

lemma unat_u32_lt: "unat (w :: u32) < 2 ^ 32"
  using unsigned_less [of w, where ?'a = nat] by simp

lemma of_nat_u32_inj: "i < 2 ^ 32 \<Longrightarrow> j < 2 ^ 32 \<Longrightarrow> (of_nat i :: u32) = of_nat j \<longleftrightarrow> i = j"
proof -
  assume "i < 2 ^ 32" "j < 2 ^ 32"
  then have "i < 4294967296" "j < 4294967296" by simp_all
  then show ?thesis using unat_of_nat_u32 [of i] unat_of_nat_u32 [of j] by metis
qed

lemma free_chain_other:
  "v \<notin> of_nat ` set is \<Longrightarrow> free_chain (b(v := w')) w is = free_chain b w is"
  by (induction "is" arbitrary: w) auto

lemma free_chain_push:
  assumes "free_chain b w is" "i \<notin> set is" "i < 2 ^ 32" "\<forall>j \<in> set is. j < 2 ^ 32"
  shows "free_chain (b(of_nat i := w)) (of_nat i) (i # is)"
proof -
  have "(of_nat i :: u32) \<notin> of_nat ` set is"
    using assms(2-4) of_nat_u32_inj by fastforce
  then show ?thesis using assms(1) by (simp add: free_chain_other)
qed

lemma fold_upds_apply:
  "distinct xs \<Longrightarrow> inj_on f (set xs) \<Longrightarrow> x \<in> set xs \<Longrightarrow> fold (\<lambda>i b. b(f i := g i)) xs b (f x) = g x"
proof (induction xs arbitrary: b rule: rev_induct)
  case (snoc y ys)
  then show ?case by (auto simp: inj_on_def)
qed simp

lemma init_bufctl_chain:
  fixes n :: u32 and b :: "u32 \<Rightarrow> u32"
  assumes "0 < unat n"
  shows "free_chain (init_bufctl n b) 0 [0..<unat n]"
proof -
  let ?B = "init_bufctl n b"
  have lt: "unat n < 2 ^ 32" by (rule unat_u32_lt)
  have n1: "n - 1 = of_nat (unat n - 1)" using assms by (simp add: of_nat_diff)
  have inj: "inj_on (of_nat :: nat \<Rightarrow> u32) (set [0..<unat n])"
    using lt by (auto simp: inj_on_def of_nat_u32_inj)
  have nx: "?B (of_nat i) = of_nat (Suc i)" if "Suc i < unat n" for i
  proof -
    have "(of_nat i :: u32) \<noteq> n - 1"
      using that lt unfolding n1 by (subst of_nat_u32_inj) auto
    moreover have "fold (\<lambda>i b. b(of_nat i := of_nat i + 1)) [0..<unat n] b (of_nat i) = (of_nat i + 1 :: u32)"
      using that by (intro fold_upds_apply [OF distinct_upt inj]) simp
    ultimately show ?thesis by (simp add: init_bufctl_def)
  qed
  have ch: "free_chain ?B (of_nat (unat n - Suc k)) [unat n - Suc k..<unat n]" if "k < unat n" for k
    using that
  proof (induction k)
    case 0
    have "?B (of_nat (unat n - 1)) = BUFCTL_END" by (simp add: init_bufctl_def n1)
    then show ?case using assms by (simp add: upt_rec)
  next
    case (Suc k)
    have "?B (of_nat (unat n - Suc (Suc k))) = of_nat (unat n - Suc k)"
      using nx [of "unat n - Suc (Suc k)"] Suc.prems by (simp add: Suc_diff_Suc)
    then show ?case using Suc by (subst upt_conv_Cons) (auto simp: Suc_diff_Suc)
  qed
  show ?thesis using ch [of "unat n - 1"] assms by simp
qed

section \<open>The invariant\<close>

definition slab_ok :: "kmem \<Rightarrow> u32 \<Rightarrow> nat \<Rightarrow> nat \<Rightarrow> nat list \<Rightarrow> bool" where
  "slab_ok s a c p is \<longleftrightarrow>
     (let kc = slab_cache s; k = kc c; sl = slabs s a in
      c < SLAB_CACHE_NUM \<and> slab_pages kc c p \<subseteq> {..<229376} \<and>
      s_mem sl = page2kva p + kc_offset k \<and> sl_offset sl = kc_offset k \<and>
      free_chain (bufctl sl) (sl_free sl) is \<and> distinct is \<and> set is \<subseteq> {..<unat (num k)} \<and>
      inuse sl = of_nat (unat (num k) - length is) \<and>
      (\<not> off_slab k \<longrightarrow> a = page2kva p) \<and>
      (\<forall>q \<in> slab_pages kc c p. next (links (frames s) (PageLink q)) = CacheRef c \<and>
         prev (links (frames s) (PageLink q)) = SlabRef a \<and> PageSlab (flags (pg (frames s) q))))"

definition slab_heads :: "slab_ptr set" where
  "slab_heads = (\<Union>c \<in> {..<SLAB_CACHE_NUM}. {SlabsFull c, SlabsNotfull c})"

definition lists_match :: "layout \<Rightarrow> (slab_ptr \<Rightarrow> slab_ptr list) \<Rightarrow> bool" where
  "lists_match Sl R \<longleftrightarrow> (\<forall>c < SLAB_CACHE_NUM.
     set (R (SlabsFull c)) = SlabLink ` {a. \<exists>p. Sl a = Some (c, p, [])} \<and>
     set (R (SlabsNotfull c)) = SlabLink ` {a. \<exists>p is. is \<noteq> [] \<and> Sl a = Some (c, p, is)})"

text \<open>\<open>P\<close> are the pages the slab allocator and the page allocator share, \<open>F\<close> those free in the
  page allocator; \<open>t\<close> is the end of its last list.\<close>

definition slab_inv :: "page_ptr \<Rightarrow> nat set \<Rightarrow> nat set \<Rightarrow> layout \<Rightarrow> (slab_ptr \<Rightarrow> slab_ptr list) \<Rightarrow> kmem \<Rightarrow> bool" where
  "slab_inv t P F Sl R s \<longleftrightarrow>
     (let kc = slab_cache s in
      caches_ok kc \<and> buddy_rel t (frames s) F \<and> P \<subseteq> {..<229376} \<and>
      F \<union> all_pages kc Sl = P \<and> F \<inter> all_pages kc Sl = {} \<and>
      (\<forall>a c p is. Sl a = Some (c, p, is) \<longrightarrow> slab_ok s a c p is) \<and>
      (\<forall>a c p is b c' p' is'. Sl a = Some (c, p, is) \<longrightarrow> Sl b = Some (c', p', is') \<longrightarrow> a \<noteq> b \<longrightarrow>
         slab_pages kc c p \<inter> slab_pages kc c' p' = {}) \<and>
      rings (slinks s) slab_heads R \<and> lists_match Sl R \<and>
      (\<forall>a c p is. Sl a = Some (c, p, is) \<longrightarrow> off_slab (kc c) \<longrightarrow>
         (\<exists>x \<in> live kc Sl. fst x = slab_cachep (kc c) \<and> obj_at kc x = a)))"

lemma slab_invD:
  assumes "slab_inv t P F Sl R s"
  shows "caches_ok (slab_cache s)" "buddy_rel t (frames s) F" "P \<subseteq> {..<229376}"
    "F \<union> all_pages (slab_cache s) Sl = P" "F \<inter> all_pages (slab_cache s) Sl = {}"
    "rings (slinks s) slab_heads R" "lists_match Sl R"
  using assms by (simp_all add: slab_inv_def Let_def)

lemma slab_inv_ok: "slab_inv t P F Sl R s \<Longrightarrow> Sl a = Some (c, p, is) \<Longrightarrow> slab_ok s a c p is"
  by (simp add: slab_inv_def Let_def)

lemma slab_inv_apart:
  "slab_inv t P F Sl R s \<Longrightarrow> Sl a = Some (c, p, is) \<Longrightarrow> Sl b = Some (c', p', is') \<Longrightarrow> a \<noteq> b \<Longrightarrow>
   slab_pages (slab_cache s) c p \<inter> slab_pages (slab_cache s) c' p' = {}"
  unfolding slab_inv_def Let_def by blast

lemma slab_inv_header:
  "slab_inv t P F Sl R s \<Longrightarrow> Sl a = Some (c, p, is) \<Longrightarrow> off_slab (slab_cache s c) \<Longrightarrow>
   \<exists>x \<in> live (slab_cache s) Sl. fst x = slab_cachep (slab_cache s c) \<and> obj_at (slab_cache s) x = a"
  unfolding slab_inv_def Let_def by blast

section \<open>Where objects lie\<close>

text \<open>An object of a cache lies inside the pages of its slab, after the control block if that is there.\<close>

definition obj_ok :: "(nat \<Rightarrow> kmem_cache) \<Rightarrow> object \<Rightarrow> bool" where
  "obj_ok kc x = (case x of (c, p, i) \<Rightarrow> c < SLAB_CACHE_NUM \<and> i < unat (num (kc c)) \<and>
     slab_pages kc c p \<subseteq> {..<229376})"

lemma slab_pages_first [simp]: "p \<in> slab_pages kc c p"
  by (simp add: slab_pages_def)

lemma slab_pages_bound: "slab_pages kc c p \<subseteq> {..<N} \<Longrightarrow> p + 2 ^ page_order (kc c) \<le> N"
proof -
  assume sub: "slab_pages kc c p \<subseteq> {..<N}"
  have "(0::nat) < 2 ^ page_order (kc c)" by simp
  then obtain m where m: "(2::nat) ^ page_order (kc c) = Suc m" using gr0_conv_Suc by blast
  then have "p + m \<in> slab_pages kc c p" by (simp add: slab_pages_def)
  with sub have "p + m < N" by blast
  with m show ?thesis by simp
qed

lemma caches_okD: "caches_ok kc \<Longrightarrow> c < SLAB_CACHE_NUM \<Longrightarrow> cache_ok kc c"
  by (simp add: caches_ok_def)

lemma obj_pa_range:
  assumes "caches_ok kc" "obj_ok kc (c, p, i)"
  shows "4096 * p + unat (kc_offset (kc c)) \<le> obj_pa kc (c, p, i)"
    "obj_pa kc (c, p, i) + unat (objsize (kc c)) \<le> 4096 * (p + 2 ^ page_order (kc c))"
    "obj_pa kc (c, p, i) + unat (objsize (kc c)) \<le> 939524096"
    "0 < unat (objsize (kc c))"
proof -
  have c: "cache_ok kc c" and i: "Suc i \<le> unat (num (kc c))"
    and pg: "p + 2 ^ page_order (kc c) \<le> 229376"
    using assms slab_pages_bound by (auto simp: obj_ok_def caches_okD)
  have "Suc i * unat (objsize (kc c)) \<le> unat (num (kc c)) * unat (objsize (kc c))"
    by (rule mult_le_mono1 [OF i])
  moreover have "unat (kc_offset (kc c)) + unat (num (kc c)) * unat (objsize (kc c)) \<le> 4096 * 2 ^ page_order (kc c)"
    using c by (simp add: cache_ok_def Let_def)
  ultimately show top: "obj_pa kc (c, p, i) + unat (objsize (kc c)) \<le> 4096 * (p + 2 ^ page_order (kc c))"
    by (simp add: obj_pa_def)
  then show "obj_pa kc (c, p, i) + unat (objsize (kc c)) \<le> 939524096" using pg by simp
  show "0 < unat (objsize (kc c))" using c by (simp add: cache_ok_def Let_def)
  show "4096 * p + unat (kc_offset (kc c)) \<le> obj_pa kc (c, p, i)" by (simp add: obj_pa_def)
qed

lemma obj_pa_page:
  assumes "caches_ok kc" "obj_ok kc (c, p, i)"
  shows "obj_pa kc (c, p, i) div 4096 \<in> slab_pages kc c p"
proof -
  note r = obj_pa_range [OF assms]
  have "p \<le> obj_pa kc (c, p, i) div 4096"
    using r(1) by (intro less_eq_div_iff_mult_less_eq [THEN iffD2]) auto
  moreover have "obj_pa kc (c, p, i) < (p + 2 ^ page_order (kc c)) * 4096" using r(2,4) by simp
  then have "obj_pa kc (c, p, i) div 4096 < p + 2 ^ page_order (kc c)"
    by (rule less_mult_imp_div_less)
  ultimately show ?thesis by (simp add: slab_pages_def)
qed

lemma kva2page_obj:
  assumes "caches_ok kc" "obj_ok kc (c, p, i)"
  shows "kva2page (obj_at kc (c, p, i)) \<in> slab_pages kc c p"
  using obj_pa_page [OF assms] obj_pa_range(3,4) [OF assms] by (simp add: obj_at_def kva2page_kaddr)

lemma live_obj_ok:
  assumes "slab_inv t P F Sl R s" "x \<in> live (slab_cache s) Sl"
  shows "obj_ok (slab_cache s) x"
  using assms(2) slab_inv_ok [OF assms(1)] by (fastforce simp: live_def obj_ok_def slab_ok_def Let_def)

lemma layout_pages:
  "Sl a = Some (c, p, is) \<Longrightarrow> slab_pages kc c p \<subseteq> all_pages kc Sl"
  by (auto simp: all_pages_def)

text \<open>A live object determines its slab, and so does a page of the slab.\<close>

lemma page_slab_unique:
  assumes "slab_inv t P F Sl R s" "Sl a = Some (c, p, is)" "Sl b = Some (c', p', is')"
    and "q \<in> slab_pages (slab_cache s) c p" "q \<in> slab_pages (slab_cache s) c' p'"
  shows "a = b"
  using slab_inv_apart [OF assms(1-3)] assms(4,5) by blast

lemma live_slab:
  assumes "slab_inv t P F Sl R s" "(c, p, i) \<in> live (slab_cache s) Sl" "Sl a = Some (c, p, is)"
  shows "i < unat (num (slab_cache s c))" "i \<notin> set is"
proof -
  obtain b js where b: "Sl b = Some (c, p, js)" "i < unat (num (slab_cache s c))" "i \<notin> set js"
    using assms(2) by (auto simp: live_def)
  have "a = b" by (rule page_slab_unique [OF assms(1,3) b(1), of p]) simp_all
  then show "i < unat (num (slab_cache s c))" "i \<notin> set is" using b assms(3) by auto
qed

text \<open>Two live objects do not overlap.\<close>

definition obj_bytes :: "(nat \<Rightarrow> kmem_cache) \<Rightarrow> object \<Rightarrow> nat set" where
  "obj_bytes kc x = {obj_pa kc x..<obj_pa kc x + unat (objsize (kc (fst x)))}"

lemma bytes_in_pages:
  assumes "caches_ok kc" "obj_ok kc (c, p, i)" "b \<in> obj_bytes kc (c, p, i)"
  shows "b div 4096 \<in> slab_pages kc c p"
proof -
  note r = obj_pa_range [OF assms(1,2)]
  have "p * 4096 \<le> b" "b < (p + 2 ^ page_order (kc c)) * 4096"
    using r(1,2) assms(3) by (auto simp: obj_bytes_def)
  then have "p \<le> b div 4096" "b div 4096 < p + 2 ^ page_order (kc c)"
    by (auto simp: less_eq_div_iff_mult_less_eq intro: less_mult_imp_div_less)
  then show ?thesis by (simp add: slab_pages_def)
qed

lemma same_slab_bytes:
  assumes "i \<noteq> j"
  shows "obj_bytes kc (c, p, i) \<inter> obj_bytes kc (c, p, j) = {}"
proof -
  have "obj_pa kc (c, p, i) + unat (objsize (kc c)) \<le> obj_pa kc (c, p, j)" if "i < j" for i j
  proof -
    have "Suc i * unat (objsize (kc c)) \<le> j * unat (objsize (kc c))"
      using that by (intro mult_le_mono1) simp
    then show ?thesis by (simp add: obj_pa_def)
  qed
  from this [of i j] this [of j i] assms show ?thesis
    by (cases "i < j") (auto simp: obj_bytes_def)
qed

lemma live_bytes_apart:
  assumes "slab_inv t P F Sl R s" "x \<in> live (slab_cache s) Sl" "y \<in> live (slab_cache s) Sl" "x \<noteq> y"
  shows "obj_bytes (slab_cache s) x \<inter> obj_bytes (slab_cache s) y = {}"
proof -
  let ?kc = "slab_cache s"
  obtain c p i where x: "x = (c, p, i)" by (cases x)
  obtain c' p' j where y: "y = (c', p', j)" by (cases y)
  obtain a "is" where a: "Sl a = Some (c, p, is)" using assms(2) x by (auto simp: live_def)
  obtain b js where b: "Sl b = Some (c', p', js)" using assms(3) y by (auto simp: live_def)
  note ck = slab_invD(1) [OF assms(1)]
  note ok = live_obj_ok [OF assms(1,2), unfolded x] live_obj_ok [OF assms(1,3), unfolded y]
  show ?thesis
  proof (cases "a = b")
    case True
    with a b have "c' = c" "p' = p" by simp_all
    with assms(4) x y show ?thesis using same_slab_bytes [of i j] by simp
  next
    case False
    then have "slab_pages ?kc c p \<inter> slab_pages ?kc c' p' = {}"
      by (rule slab_inv_apart [OF assms(1) a b])
    then show ?thesis
      using bytes_in_pages [OF ck ok(1)] bytes_in_pages [OF ck ok(2)] x y by blast
  qed
qed

lemma obj_at_inj:
  assumes "slab_inv t P F Sl R s" "x \<in> live (slab_cache s) Sl" "y \<in> live (slab_cache s) Sl"
    and "obj_at (slab_cache s) x = obj_at (slab_cache s) y"
  shows "x = y"
proof (rule ccontr)
  assume ne: "x \<noteq> y"
  let ?kc = "slab_cache s"
  note ck = slab_invD(1) [OF assms(1)]
  have r: "obj_pa ?kc z < 939524096" "obj_pa ?kc z \<in> obj_bytes ?kc z" if "z \<in> live ?kc Sl" for z
    using obj_pa_range(3,4) [OF ck] live_obj_ok [OF assms(1) that]
    by (cases z; fastforce simp: obj_bytes_def)+
  have "obj_pa ?kc x = obj_pa ?kc y"
    using assms(4) r(1) [OF assms(2)] r(1) [OF assms(3)] by (simp add: obj_at_def kaddr_inj)
  then show False
    using live_bytes_apart [OF assms(1-3) ne] r(2) [OF assms(2)] r(2) [OF assms(3)] by auto
qed

end
