(* ===== verification/SlabOps.thy ===== *)
theory SlabOps
  imports SlabInv
begin

text \<open>
  The operations of the slab allocator keep its invariant: taking an object from a slab, growing a
  cache by a slab, giving an object back and destroying an empty slab.
\<close>

section \<open>Changing one entry of the layout\<close>

lemma slab_ok_cong:
  assumes "slab_cache s' = slab_cache s" "slabs s' a = slabs s a"
    and "\<And>q. q \<in> slab_pages (slab_cache s) c p \<Longrightarrow>
      links (frames s') (PageLink q) = links (frames s) (PageLink q) \<and>
      flags (pg (frames s') q) = flags (pg (frames s) q)"
  shows "slab_ok s' a c p is = slab_ok s a c p is"
  using assms by (simp add: slab_ok_def Let_def)

lemma all_pages_upd:
  "Sl a = Some (c, p, is) \<Longrightarrow> all_pages kc (Sl(a \<mapsto> (c, p, is'))) = all_pages kc Sl"
  unfolding all_pages_def by (intro set_eqI) (auto split: if_splits, metis fst_conv option.inject snd_conv)

lemma all_pages_new:
  "Sl a = None \<Longrightarrow> all_pages kc (Sl(a \<mapsto> (c, p, is))) = slab_pages kc c p \<union> all_pages kc Sl"
  unfolding all_pages_def by (auto split: if_splits) (metis option.distinct(1))

lemma chain_length:
  assumes "distinct is" "set is \<subseteq> {..<n}"
  shows "length is \<le> n"
  using card_mono [of "{..<n}" "set is"] assms by (simp add: distinct_card)

lemma slab_head_mem [simp]:
  "SlabLink a \<notin> slab_heads"
  "c < SLAB_CACHE_NUM \<Longrightarrow> SlabsFull c \<in> slab_heads"
  "c < SLAB_CACHE_NUM \<Longrightarrow> SlabsNotfull c \<in> slab_heads"
  by (auto simp: slab_heads_def)

lemma lists_match_fill:
  assumes "lists_match Sl R" "Sl a = Some (c, p, i # is)" "R (SlabsNotfull c) = ys @ SlabLink a # zs"
    and "c < SLAB_CACHE_NUM" "SlabLink a \<notin> set (ys @ zs)"
  shows "lists_match (Sl(a \<mapsto> (c, p, [])))
    (R(SlabsNotfull c := ys @ zs, SlabsFull c := SlabLink a # R (SlabsFull c)))"
proof -
  have "set (ys @ zs) = set (R (SlabsNotfull c)) - {SlabLink a}" using assms(3,5) by auto
  also have "\<dots> = SlabLink ` {b. \<exists>q js. js \<noteq> [] \<and> (Sl(a \<mapsto> (c, p, []))) b = Some (c, q, js)}"
    using assms(1,4) by (auto simp: lists_match_def)
  finally show ?thesis using assms(1,2,4) unfolding lists_match_def by auto
qed

lemma lists_match_keep:
  assumes "lists_match Sl R" "Sl a = Some (c, p, is)" "is \<noteq> []" "is' \<noteq> []"
  shows "lists_match (Sl(a \<mapsto> (c, p, is'))) R"
  using assms unfolding lists_match_def by (auto simp: image_iff)

lemma lists_match_open:
  assumes "lists_match Sl R" "Sl a = Some (c, p, [])" "R (SlabsFull c) = ys @ SlabLink a # zs"
    and "c < SLAB_CACHE_NUM" "SlabLink a \<notin> set (ys @ zs)" "is \<noteq> []"
  shows "lists_match (Sl(a \<mapsto> (c, p, is)))
    (R(SlabsFull c := ys @ zs, SlabsNotfull c := SlabLink a # R (SlabsNotfull c)))"
proof -
  have "set (ys @ zs) = set (R (SlabsFull c)) - {SlabLink a}" using assms(3,5) by auto
  also have "\<dots> = SlabLink ` {b. \<exists>q. (Sl(a \<mapsto> (c, p, is))) b = Some (c, q, [])}"
    using assms(1,4,6) by (auto simp: lists_match_def)
  finally show ?thesis using assms(1,2,4,6) unfolding lists_match_def by auto
qed

lemma lists_match_new:
  assumes "lists_match Sl R" "Sl a = None" "c < SLAB_CACHE_NUM" "is \<noteq> []"
  shows "lists_match (Sl(a \<mapsto> (c, p, is))) (R(SlabsNotfull c := SlabLink a # R (SlabsNotfull c)))"
  using assms unfolding lists_match_def by auto

lemma lists_match_remove:
  assumes "lists_match Sl R" "Sl a = Some (c, p, is)" "c < SLAB_CACHE_NUM"
    and "h = (if is = [] then SlabsFull c else SlabsNotfull c)"
    and "R h = ys @ SlabLink a # zs" "SlabLink a \<notin> set (ys @ zs)"
  shows "lists_match (Sl(a := None)) (R(h := ys @ zs))"
proof -
  have "set (ys @ zs) = set (R h) - {SlabLink a}" using assms(5,6) by auto
  then show ?thesis using assms(1-4) unfolding lists_match_def by (auto split: if_splits)
qed

section \<open>Which objects are live\<close>

text \<open>The objects of one slab, given by its free indices, and the rest.\<close>

lemma live_upd:
  assumes "\<And>b js. Sl b = Some (c, p, js) \<Longrightarrow> b = a" "(c', p', j) \<noteq> (c, p, j)"
  shows "(c', p', j) \<in> live kc (Sl(a \<mapsto> (c, p, is))) \<longleftrightarrow> (c', p', j) \<in> live kc (Sl(a := None))"
  using assms by (auto simp: live_def)

lemma live_in:
  assumes "\<And>b js. Sl b = Some (c, p, js) \<Longrightarrow> b = a" "Sl a = Some (c, p, is)"
  shows "(c, p, j) \<in> live kc Sl \<longleftrightarrow> j < unat (num (kc c)) \<and> j \<notin> set is"
  using assms by (auto simp: live_def)

lemma live_cases:
  assumes "\<And>b js. Sl b = Some (c, p, js) \<Longrightarrow> b = a"
  shows "live kc (Sl(a \<mapsto> (c, p, is))) =
    {(c, p, j) |j. j < unat (num (kc c)) \<and> j \<notin> set is} \<union> live kc (Sl(a := None))"
proof (intro set_eqI)
  fix x :: object
  obtain c' p' j where x: "x = (c', p', j)" by (cases x)
  have u: "\<And>b js. (Sl(a \<mapsto> (c, p, is))) b = Some (c, p, js) \<Longrightarrow> b = a" using assms by (auto split: if_splits)
  show "x \<in> live kc (Sl(a \<mapsto> (c, p, is))) \<longleftrightarrow>
    x \<in> {(c, p, j) |j. j < unat (num (kc c)) \<and> j \<notin> set is} \<union> live kc (Sl(a := None))"
  proof (cases "c' = c \<and> p' = p")
    case True
    have "(c, p, j) \<notin> live kc (Sl(a := None))" using assms by (auto simp: live_def split: if_splits)
    moreover have "(c, p, j) \<in> live kc (Sl(a \<mapsto> (c, p, is))) \<longleftrightarrow> j < unat (num (kc c)) \<and> j \<notin> set is"
      by (rule live_in [where a = a], erule u) simp
    ultimately show ?thesis using True x by simp
  next
    case False
    then have "(c', p', j) \<in> live kc (Sl(a \<mapsto> (c, p, is))) \<longleftrightarrow> (c', p', j) \<in> live kc (Sl(a := None))"
      by (intro live_upd) (use assms in auto)
    with False x show ?thesis by auto
  qed
qed

lemma layout_unique:
  assumes "slab_inv t P F Sl R s" "Sl a = Some (c, p, is)" "Sl b = Some (c, p, js)"
  shows "b = a"
  by (rule page_slab_unique [OF assms(1,3,2), of p]) simp_all

lemma live_old:
  assumes "slab_inv t P F Sl R s" "Sl a = Some (c, p, is)"
  shows "live (slab_cache s) Sl =
    {(c, p, j) |j. j < unat (num (slab_cache s c)) \<and> j \<notin> set is} \<union> live (slab_cache s) (Sl(a := None))"
  using live_cases [of Sl c p a "slab_cache s" "is", OF layout_unique [OF assms]] assms(2)
  by (simp add: fun_upd_idem)

lemma live_rest:
  assumes "slab_inv t P F Sl R s" "Sl a = Some (c, p, is)"
  shows "(c, p, j) \<notin> live (slab_cache s) (Sl(a := None))"
  using layout_unique [OF assms] by (auto simp: live_def split: if_splits)

lemma live_take:
  assumes inv: "slab_inv t P F Sl R s" and a: "Sl a = Some (c, p, i # is)"
  shows "live (slab_cache s) (Sl(a \<mapsto> (c, p, is))) = insert (c, p, i) (live (slab_cache s) Sl)"
    and "(c, p, i) \<notin> live (slab_cache s) Sl"
proof -
  have ok: "i < unat (num (slab_cache s c))" "i \<notin> set is"
    using slab_inv_ok [OF inv a] by (auto simp: slab_ok_def Let_def)
  show "live (slab_cache s) (Sl(a \<mapsto> (c, p, is))) = insert (c, p, i) (live (slab_cache s) Sl)"
    using ok by (subst live_cases [OF layout_unique [OF inv a]]) (auto simp: live_old [OF inv a])
  show "(c, p, i) \<notin> live (slab_cache s) Sl"
    using live_rest [OF inv a] by (auto simp: live_old [OF inv a])
qed

lemma live_put:
  assumes inv: "slab_inv t P F Sl R s" and a: "Sl a = Some (c, p, is)"
  shows "live (slab_cache s) (Sl(a \<mapsto> (c, p, i # is))) = live (slab_cache s) Sl - {(c, p, i)}"
  using live_rest [OF inv a]
  by (subst live_cases [OF layout_unique [OF inv a]]) (auto simp: live_old [OF inv a])

section \<open>Taking an object\<close>

lemma slab_inv_upd:
  assumes inv: "slab_inv t P F Sl R s" and a: "Sl a = Some (c, p, is)"
    and same: "slab_cache s' = slab_cache s" "frames s' = frames s" "\<And>b. b \<noteq> a \<Longrightarrow> slabs s' b = slabs s b"
    and ok: "slab_ok s' a c p is'"
    and lists: "rings (slinks s') slab_heads R'" "lists_match (Sl(a \<mapsto> (c, p, is'))) R'"
    and hdr: "\<And>b c' p' js. Sl b = Some (c', p', js) \<Longrightarrow> off_slab (slab_cache s c') \<Longrightarrow>
      \<exists>x \<in> live (slab_cache s) (Sl(a \<mapsto> (c, p, is'))). fst x = slab_cachep (slab_cache s c') \<and>
        obj_at (slab_cache s) x = b"
  shows "slab_inv t P F (Sl(a \<mapsto> (c, p, is'))) R' s'"
proof -
  have oks: "slab_ok s' b c' p' js" if "(Sl(a \<mapsto> (c, p, is'))) b = Some (c', p', js)" for b c' p' js
    using that ok slab_inv_ok [OF inv] slab_ok_cong [OF same(1), of b c' p' js] same(2,3)
    by (cases "b = a") auto
  have apart: "slab_pages (slab_cache s) c1 p1 \<inter> slab_pages (slab_cache s) c2 p2 = {}"
    if "(Sl(a \<mapsto> (c, p, is'))) b1 = Some (c1, p1, is1)" "(Sl(a \<mapsto> (c, p, is'))) b2 = Some (c2, p2, is2)"
      "b1 \<noteq> b2" for b1 b2 c1 c2 p1 p2 is1 is2
    using that slab_inv_apart [OF inv] a by (auto split: if_splits)
  have hdr': "\<exists>x \<in> live (slab_cache s) (Sl(a \<mapsto> (c, p, is'))). fst x = slab_cachep (slab_cache s c') \<and>
      obj_at (slab_cache s) x = b"
    if "(Sl(a \<mapsto> (c, p, is'))) b = Some (c', p', js)" "off_slab (slab_cache s c')" for b c' p' js
    using that hdr a by (cases "b = a") auto
  show ?thesis
    unfolding slab_inv_def Let_def same
    using slab_invD(1-5) [OF inv] lists all_pages_upd [of Sl a c p "is" "slab_cache s" "is'", OF a]
    by (intro conjI allI impI oks apart hdr') simp_all
qed

lemma of_nat_not_end:
  assumes "i < unat (n :: u32)"
  shows "of_nat i \<noteq> BUFCTL_END"
proof
  assume "of_nat i = BUFCTL_END"
  then have "unat (of_nat i :: u32) = 4294967295" by (simp add: BUFCTL_END_def)
  moreover have "i < 4294967295" using assms unat_u32_lt [of n] by simp
  ultimately show False by (simp add: unat_of_nat_u32)
qed

lemma obj_at_code:
  assumes "slab_ok s a c p is"
  shows "s_mem (slabs s a) + of_nat i * objsize (slab_cache s c) = obj_at (slab_cache s) (c, p, i)"
  using assms by (simp add: slab_ok_def Let_def obj_at_def obj_pa_def page2kva_kaddr kaddr_def algebra_simps)

lemma alloc_one_correct:
  assumes inv: "slab_inv t P F Sl R s" and a: "Sl a = Some (c, p, i # is)"
  shows "\<exists>s' R'. kmem_cache_alloc_one c a s = (obj_at (slab_cache s) (c, p, i), s') \<and>
    slab_inv t P F (Sl(a \<mapsto> (c, p, is))) R' s' \<and> slab_cache s' = slab_cache s"
proof -
  let ?kc = "slab_cache s" and ?sl = "slabs s a"
  note ok = slab_inv_ok [OF inv a]
  have c: "c < SLAB_CACHE_NUM" and ch: "free_chain (bufctl ?sl) (sl_free ?sl) (i # is)"
    and ds: "distinct (i # is)" "set (i # is) \<subseteq> {..<unat (num (?kc c))}"
    using ok by (auto simp: slab_ok_def Let_def)
  have len: "Suc (length is) \<le> unat (num (?kc c))" using chain_length [OF ds] by simp
  define sl where "sl = ?sl\<lparr>inuse := inuse ?sl + 1, sl_free := bufctl ?sl (sl_free ?sl)\<rparr>"
  define s1 where "s1 = s\<lparr>slabs := (slabs s)(a := sl)\<rparr>"
  define h where "h = (if is = [] then list_add (SlabsFull c) (SlabLink a) (list_del (SlabLink a) (slinks s))
    else slinks s)"
  have fin: "sl_free sl = BUFCTL_END \<longleftrightarrow> is = []"
    using ch ds(2) of_nat_not_end [of _ "num (?kc c)"] by (cases "is") (auto simp: sl_def dest!: sym [of BUFCTL_END])
  have inuse: "inuse sl = of_nat (unat (num (?kc c)) - length is)"
  proof -
    have "inuse ?sl = of_nat (unat (num (?kc c)) - Suc (length is))" using ok by (simp add: slab_ok_def Let_def)
    then have "inuse sl = of_nat (Suc (unat (num (?kc c)) - Suc (length is)))" by (simp add: sl_def)
    then show ?thesis using len by (simp add: Suc_diff_Suc)
  qed
  have res: "kmem_cache_alloc_one c a s = (obj_at ?kc (c, p, i), s1\<lparr>slinks := h\<rparr>)"
    using obj_at_code [OF ok, of i] fin ch
    by (auto simp: kmem_cache_alloc_one_def Let_def s1_def sl_def h_def)
  have ok': "slab_ok (s1\<lparr>slinks := h\<rparr>) a c p is"
    using ok ds inuse ch by (auto simp: slab_ok_def Let_def s1_def sl_def)
  have hdr: "\<exists>x \<in> live ?kc (Sl(a \<mapsto> (c, p, is))). fst x = slab_cachep (?kc c') \<and> obj_at ?kc x = b"
    if "Sl b = Some (c', p', js)" "off_slab (?kc c')" for b c' p' js
    using slab_inv_header [OF inv that] by (auto simp: live_take(1) [OF inv a])
  note lm = slab_invD(7) [OF inv] and rs = slab_invD(6) [OF inv]
  have lists: "\<exists>R'. rings h slab_heads R' \<and> lists_match (Sl(a \<mapsto> (c, p, is))) R'"
  proof (cases "is = []")
    case False
    then show ?thesis using rs lists_match_keep [OF lm a] by (auto simp: h_def)
  next
    case True
    have "SlabLink a \<in> set (R (SlabsNotfull c))" using lm a c by (auto simp: lists_match_def)
    then obtain ys zs where R: "R (SlabsNotfull c) = ys @ SlabLink a # zs" by (auto simp: in_set_conv_decomp)
    note un = rings_member_unique(1) [OF rs slab_head_mem(3) [OF c] R]
    have "rings h slab_heads (R(SlabsNotfull c := ys @ zs, SlabsFull c := SlabLink a # R (SlabsFull c)))"
      using rings_move [OF rs slab_head_mem(3) [OF c] R slab_head_mem(2) [OF c]] True by (simp add: h_def)
    moreover note lists_match_fill [OF lm a R c un]
    ultimately show ?thesis using True by blast
  qed
  then obtain R' where R': "rings h slab_heads R'" "lists_match (Sl(a \<mapsto> (c, p, is))) R'" by blast
  have "slab_inv t P F (Sl(a \<mapsto> (c, p, is))) R' (s1\<lparr>slinks := h\<rparr>)"
    by (rule slab_inv_upd [OF inv a _ _ _ ok' _ R'(2) hdr]) (simp_all add: s1_def R'(1))
  then show ?thesis using res by (auto simp: s1_def)
qed

section \<open>Which objects belong to the callers\<close>

lemma off_headers_upd:
  "Sl a = Some (c, p, is) \<Longrightarrow> off_headers kc (Sl(a \<mapsto> (c, p, is'))) = off_headers kc Sl"
  unfolding off_headers_def
  by (intro set_eqI) (auto split: if_splits, metis fst_conv option.inject snd_conv)

lemma header_exists:
  assumes "slab_inv t P F Sl R s" "(d, b) \<in> off_headers (slab_cache s) Sl"
  shows "\<exists>y \<in> headers (slab_cache s) Sl. fst y = d \<and> obj_at (slab_cache s) y = b"
  using assms slab_inv_header [OF assms(1)] unfolding headers_def off_headers_def by fastforce

lemma users_take:
  assumes inv: "slab_inv t P F Sl R s" and a: "Sl a = Some (c, p, i # is)"
    and inv': "slab_inv t P' F' (Sl(a \<mapsto> (c, p, is))) R' s'" and kc: "slab_cache s' = slab_cache s"
  shows "users (slab_cache s) (Sl(a \<mapsto> (c, p, is))) = insert (c, p, i) (users (slab_cache s) Sl)"
    and "(c, p, i) \<notin> users (slab_cache s) Sl"
proof -
  let ?kc = "slab_cache s" and ?Sl = "Sl(a \<mapsto> (c, p, is))"
  note L = live_take [OF inv a]
  show "(c, p, i) \<notin> users ?kc Sl" using L(2) by (simp add: users_def)
  have new: "(fst (c, p, i), obj_at ?kc (c, p, i)) \<notin> off_headers ?kc Sl"
  proof
    assume "(fst (c, p, i), obj_at ?kc (c, p, i)) \<in> off_headers ?kc Sl"
    then obtain y where y: "y \<in> headers ?kc Sl" "obj_at ?kc y = obj_at ?kc (c, p, i)"
      using header_exists [OF inv] by blast
    have "y \<in> live ?kc ?Sl" "(c, p, i) \<in> live ?kc ?Sl" using y(1) L(1) by (auto simp: headers_def)
    then have "y = (c, p, i)" using obj_at_inj [OF inv'] y(2) unfolding kc by blast
    then show False using y(1) L(2) by (simp add: headers_def)
  qed
  have "headers ?kc ?Sl = headers ?kc Sl"
    unfolding headers_def L(1) off_headers_upd [of Sl a c p "i # is" ?kc "is", OF a] using new by auto
  then show "users ?kc ?Sl = insert (c, p, i) (users ?kc Sl)"
    using L by (auto simp: users_def headers_def)
qed

lemma users_put:
  assumes inv: "slab_inv t P F Sl R s" and a: "Sl a = Some (c, p, is)"
    and x: "(c, p, i) \<in> users (slab_cache s) Sl"
  shows "users (slab_cache s) (Sl(a \<mapsto> (c, p, i # is))) = users (slab_cache s) Sl - {(c, p, i)}"
proof -
  let ?kc = "slab_cache s"
  have "headers ?kc (Sl(a \<mapsto> (c, p, i # is))) = headers ?kc Sl - {(c, p, i)}"
    unfolding headers_def live_put [OF inv a] off_headers_upd [of Sl a c p "is" ?kc "i # is", OF a] by blast
  then show ?thesis using x unfolding users_def live_put [OF inv a] by blast
qed

section \<open>Marking the pages of a slab\<close>

lemma buddy_rel_frame:
  assumes "buddy_rel t fr F" "nr_free fr' = nr_free fr"
    and "\<And>i. links fr' (FreeList i) = links fr (FreeList i)"
    and "\<And>q. q \<in> F \<Longrightarrow> links fr' (PageLink q) = links fr (PageLink q) \<and> order (pg fr' q) = order (pg fr q)"
  shows "buddy_rel t fr' F"
proof -
  obtain L where L: "buddy_inv t fr L" "cover L = F" using assms(1) by (auto simp: buddy_rel_def)
  have "buddy_inv t fr' L"
    unfolding buddy_inv_def
  proof (intro conjI allI impI)
    show "t \<in> {Null, FreeList MAX_ORDER}" "disjoint_blocks L" using L(1) by (simp_all add: buddy_inv_def)
    fix i assume i: "i \<le> MAX_ORDER"
    note D = buddy_invD [OF L(1) i]
    have mem: "q \<in> F" if "q \<in> set (L i)" for q using head_in_cover [of i q L, OF i that] L(2) by simp
    show "lseg (links fr') (FreeList i) (map PageLink (L i)) (list_end t i)"
      using D(1) lseg_frame [of "FreeList i" "map PageLink (L i)" "links fr'" "links fr"] assms(3,4) mem
      by auto
    show "distinct (L i)" "nr_free fr' i = of_nat (length (L i))"
      using D(2,3) assms(2) by simp_all
    show "\<forall>q \<in> set (L i). order (pg fr' q) = i" using D(4) assms(4) mem by simp
  qed
  with L(2) show ?thesis by (auto simp: buddy_rel_def)
qed

lemma mark_slab_pages_fields:
  "nr_free (mark_slab_pages c a p n fr) = nr_free fr \<and>
   links (mark_slab_pages c a p n fr) (FreeList i) = links fr (FreeList i) \<and>
   links (mark_slab_pages c a p n fr) (PageLink q) =
     (if q \<in> {p..<p + n} then \<lparr>prev = SlabRef a, next = CacheRef c\<rparr> else links fr (PageLink q)) \<and>
   order (pg (mark_slab_pages c a p n fr) q) = order (pg fr q) \<and>
   flags (pg (mark_slab_pages c a p n fr) q) =
     (if q \<in> {p..<p + n} then SetPageSlab (flags (pg fr q)) else flags (pg fr q))"
  by (induction n)
    (auto simp: mark_slab_pages_def set_flags_def SET_PAGE_SLAB_def SET_PAGE_CACHE_def link_defs)

lemma clear_slab_pages_fields:
  "nr_free (clear_slab_pages p n fr) = nr_free fr \<and> links (clear_slab_pages p n fr) = links fr \<and>
   order (pg (clear_slab_pages p n fr) q) = order (pg fr q) \<and>
   flags (pg (clear_slab_pages p n fr) q) =
     (if q \<in> {p..<p + n} then ClearPageSlab (flags (pg fr q)) else flags (pg fr q))"
  by (induction n) (auto simp: clear_slab_pages_def set_flags_def)

section \<open>Growing a cache\<close>

text \<open>Adding the entry of a new slab, given that its pages are outside the allocator's and its
  control block is at an address that no other slab uses.\<close>

lemma slab_inv_new:
  assumes inv: "slab_inv t P F Sl R s" and a: "Sl a = None" and c: "c < SLAB_CACHE_NUM"
    and pages: "slab_pages (slab_cache s) c p \<inter> P = {}" "slab_pages (slab_cache s) c p \<subseteq> {..<229376}"
    and same: "slab_cache s' = slab_cache s" "\<And>b. b \<noteq> a \<Longrightarrow> slabs s' b = slabs s b"
    and fr: "frames s' = mark_slab_pages c a p (2 ^ page_order (slab_cache s c)) (frames s)"
    and slinks: "slinks s' = list_add (SlabsNotfull c) (SlabLink a) (slinks s)"
    and ok: "slab_ok s' a c p is" and ne: "is \<noteq> []"
    and hdr: "off_slab (slab_cache s c) \<Longrightarrow>
      \<exists>x \<in> live (slab_cache s) Sl. fst x = slab_cachep (slab_cache s c) \<and> obj_at (slab_cache s) x = a"
  shows "slab_inv t (slab_pages (slab_cache s) c p \<union> P) F (Sl(a \<mapsto> (c, p, is)))
    (R(SlabsNotfull c := SlabLink a # R (SlabsNotfull c))) s'"
proof -
  let ?kc = "slab_cache s" and ?Sl = "Sl(a \<mapsto> (c, p, is))"
  note D = slab_invD [OF inv]
  have out: "q \<notin> slab_pages ?kc c p" if "q \<in> P" for q using pages(1) that by blast
  have sub: "slab_pages ?kc c' p' \<subseteq> P" if "Sl b = Some (c', p', js)" for b c' p' js
    using layout_pages [of Sl b c' p' js ?kc, OF that] D(4) by blast
  have keep: "links (frames s') (PageLink q) = links (frames s) (PageLink q) \<and>
      flags (pg (frames s') q) = flags (pg (frames s) q) \<and> order (pg (frames s') q) = order (pg (frames s) q)"
    if "q \<notin> slab_pages ?kc c p" for q
    using that mark_slab_pages_fields [of c a p "2 ^ page_order (?kc c)" "frames s" 0 q]
    by (auto simp: fr slab_pages_def)
  have oks: "slab_ok s' b c' p' js" if "?Sl b = Some (c', p', js)" for b c' p' js
  proof (cases "b = a")
    case True
    then show ?thesis using that ok by auto
  next
    case False
    then have b: "Sl b = Some (c', p', js)" using that by simp
    have "slab_ok s' b c' p' js = slab_ok s b c' p' js"
      by (rule slab_ok_cong [OF same(1) same(2) [OF False]]) (use keep out sub [OF b] in blast)
    then show ?thesis using slab_inv_ok [OF inv b] by simp
  qed
  have apart: "slab_pages ?kc c1 p1 \<inter> slab_pages ?kc c2 p2 = {}"
    if "?Sl b1 = Some (c1, p1, is1)" "?Sl b2 = Some (c2, p2, is2)" "b1 \<noteq> b2" for b1 b2 c1 c2 p1 p2 is1 is2
    using that slab_inv_apart [OF inv] sub pages(1) by (fastforce split: if_splits)
  have uniq: "\<And>b js. Sl b = Some (c, p, js) \<Longrightarrow> b = a"
    using sub out slab_pages_first by blast
  have "live ?kc Sl = live ?kc (Sl(a := None))" using a by (simp add: fun_upd_idem)
  then have live: "live ?kc Sl \<subseteq> live ?kc ?Sl" by (subst live_cases [OF uniq]) auto
  have hdr': "\<exists>x \<in> live ?kc ?Sl. fst x = slab_cachep (?kc c') \<and> obj_at ?kc x = b"
    if "?Sl b = Some (c', p', js)" "off_slab (?kc c')" for b c' p' js
    using that slab_inv_header [OF inv] hdr live by (cases "b = a") (auto, blast+)
  have buddy: "buddy_rel t (frames s') F"
  proof (rule buddy_rel_frame [OF D(2)])
    show "nr_free (frames s') = nr_free (frames s)" "links (frames s') (FreeList i) = links (frames s) (FreeList i)" for i
      unfolding fr using mark_slab_pages_fields by blast+
    show "links (frames s') (PageLink q) = links (frames s) (PageLink q) \<and>
        order (pg (frames s') q) = order (pg (frames s) q)" if "q \<in> F" for q
      using keep [OF out] that D(4) by blast
  qed
  have fresh: "SlabLink a \<notin> set (y # R y)" if "y \<in> slab_heads" for y
    using that D(7) a by (auto simp: slab_heads_def lists_match_def)
  have lists: "rings (slinks s') slab_heads (R(SlabsNotfull c := SlabLink a # R (SlabsNotfull c)))"
    unfolding slinks by (rule rings_add [OF D(6) slab_head_mem(3) [OF c] fresh])
  have un: "F \<union> (slab_pages ?kc c p \<union> all_pages ?kc Sl) = slab_pages ?kc c p \<union> P" using D(4) by blast
  have ds: "F \<inter> (slab_pages ?kc c p \<union> all_pages ?kc Sl) = {}" using D(4,5) pages(1) by blast
  have bd: "slab_pages ?kc c p \<union> P \<subseteq> {..<229376}" using D(3) pages(2) by blast
  show ?thesis
    unfolding slab_inv_def Let_def same all_pages_new [of Sl a ?kc c p "is", OF a]
    using D(1) buddy un ds bd lists lists_match_new [OF D(7) a c ne]
    by (intro conjI allI impI oks apart hdr') simp_all
qed

lemma slab_inv_frames:
  assumes inv: "slab_inv t P F Sl R s" and b: "buddy_rel t fr F'"
    and F': "F' \<inter> all_pages (slab_cache s) Sl = {}" "F' \<union> all_pages (slab_cache s) Sl = P'" "P' \<subseteq> {..<229376}"
    and keep: "\<And>q. q \<in> all_pages (slab_cache s) Sl \<Longrightarrow>
      links fr (PageLink q) = links (frames s) (PageLink q) \<and> flags (pg fr q) = flags (pg (frames s) q)"
  shows "slab_inv t P' F' Sl R (s\<lparr>frames := fr\<rparr>)"
proof -
  have "slab_ok (s\<lparr>frames := fr\<rparr>) a c p is" if a: "Sl a = Some (c, p, is)" for a c p "is"
  proof -
    have "slab_ok (s\<lparr>frames := fr\<rparr>) a c p is = slab_ok s a c p is"
      by (rule slab_ok_cong)
        (use keep layout_pages [of Sl a c p "is" "slab_cache s", OF a] in auto)
    then show ?thesis using slab_inv_ok [OF inv a] by simp
  qed
  then show ?thesis
    using slab_invD [OF inv] b F' slab_inv_apart [OF inv] slab_inv_header [OF inv]
    unfolding slab_inv_def Let_def by simp
qed

lemma slab_inv_alloc_pages:
  assumes inv: "slab_inv t P F Sl R s" and n: "0 < n"
    and al: "alloc_pages buddy_pmm_manager n (frames s) = Some (r, fr)"
  shows "case r of None \<Rightarrow> fr = frames s
    | Some p \<Rightarrow> {p..<p + n} \<subseteq> F \<and>
        slab_inv t (P - {p..<p + n}) (F - {p..<p + n}) Sl R (s\<lparr>frames := fr\<rparr>)"
proof -
  note D = slab_invD [OF inv]
  have al': "buddy_alloc_pages n (frames s) = Some (r, fr)"
    using al by (simp add: alloc_pages_def buddy_pmm_manager_def)
  from buddy_alloc_pages_cases [OF D(2) n] show ?thesis
  proof (elim disjE exE conjE)
    fix p fr' assume A: "buddy_alloc_pages n (frames s) = Some (Some p, fr')" "{p..<p + n} \<subseteq> F"
      "buddy_rel t fr' (F - {p..<p + n})" "keeps_pages F (frames s) fr'" "n \<le> 1024"
    have "slab_inv t (P - {p..<p + n}) (F - {p..<p + n}) Sl R (s\<lparr>frames := fr'\<rparr>)"
      by (rule slab_inv_frames [OF inv A(3)]) (use D(3-5) A(2,4) in \<open>auto simp: keeps_pages_def\<close>)
    then show ?thesis using A(1,2) al' by auto
  next
    assume "buddy_alloc_pages n (frames s) = (if t = Null \<and> n \<le> 1024 then None else Some (None, frames s))"
    then show ?thesis using al' by (auto split: if_splits)
  qed
qed

lemma slab_inv_free_pages:
  assumes inv: "slab_inv t P F Sl R s" and n: "n < 2048"
    and b: "{p..<p + n} \<inter> P = {}" "{p..<p + n} \<subseteq> {..<229376}"
  shows "\<exists>fr. free_pages buddy_pmm_manager p n (frames s) = Some fr \<and>
    slab_inv t ({p..<p + n} \<union> P) (F \<union> {p..<p + n}) Sl R (s\<lparr>frames := fr\<rparr>)"
proof -
  note D = slab_invD [OF inv]
  have F: "{p..<p + n} \<inter> F = {}" using b(1) D(4) by blast
  obtain fr where fr: "buddy_free_pages p n (frames s) = Some fr" "buddy_rel t fr (F \<union> {p..<p + n})"
    "keeps_pages (F \<union> {p..<p + n}) (frames s) fr"
    using buddy_free_pages_correct [OF D(2) F n] by blast
  have "slab_inv t ({p..<p + n} \<union> P) (F \<union> {p..<p + n}) Sl R (s\<lparr>frames := fr\<rparr>)"
  proof (rule slab_inv_frames [OF inv fr(2)])
    show "(F \<union> {p..<p + n}) \<inter> all_pages (slab_cache s) Sl = {}"
      "F \<union> {p..<p + n} \<union> all_pages (slab_cache s) Sl = {p..<p + n} \<union> P"
      "{p..<p + n} \<union> P \<subseteq> {..<229376}"
      using D(3-5) b by blast+
    fix q assume "q \<in> all_pages (slab_cache s) Sl"
    then have "q \<notin> F \<union> {p..<p + n}" using D(4,5) b(1) by blast
    then show "links fr (PageLink q) = links (frames s) (PageLink q) \<and>
        flags (pg fr q) = flags (pg (frames s) q)"
      using fr(3) unfolding keeps_pages_def by blast
  qed
  then show ?thesis using fr(1) by (simp add: free_pages_def buddy_pmm_manager_def)
qed

lemma page2kva_page: "p < 229376 \<Longrightarrow> kva2page (page2kva p) = p"
  by (simp add: page2kva_kaddr kva2page_kaddr)

lemma slab_ok_first:
  assumes "slab_ok s a c p is"
  shows "p < 229376" "c < SLAB_CACHE_NUM" "\<not> off_slab (slab_cache s c) \<Longrightarrow> a = page2kva p"
proof -
  have "slab_pages (slab_cache s) c p \<subseteq> {..<229376}" using assms by (simp add: slab_ok_def Let_def)
  then show "p < 229376" using slab_pages_first [of p "slab_cache s" c] by blast
qed (use assms in \<open>auto simp: slab_ok_def Let_def\<close>)

lemma slab_addr_page:
  assumes inv: "slab_inv t P F Sl R s" and a: "Sl a = Some (c, p, is)"
  shows "kva2page a \<in> all_pages (slab_cache s) Sl"
proof (cases "off_slab (slab_cache s c)")
  case False
  have "a = page2kva p" "p < 229376"
    using slab_ok_first [OF slab_inv_ok [OF inv a]] False by auto
  then show ?thesis
    using layout_pages [of Sl a c p "is" "slab_cache s", OF a] by (simp add: page2kva_page subsetD)
next
  case True
  then obtain x where x: "x \<in> live (slab_cache s) Sl" "obj_at (slab_cache s) x = a"
    using slab_inv_header [OF inv a] by blast
  obtain d q i where xe: "x = (d, q, i)" by (cases x)
  obtain b js where "Sl b = Some (d, q, js)" using x(1) xe by (auto simp: live_def)
  then have "slab_pages (slab_cache s) d q \<subseteq> all_pages (slab_cache s) Sl" by (rule layout_pages)
  then show ?thesis
    using kva2page_obj [OF slab_invD(1) [OF inv]] live_obj_ok [OF inv x(1)] x(2) xe by blast
qed

lemma user_not_slab:
  assumes inv: "slab_inv t P F Sl R s" and x: "x \<in> users (slab_cache s) Sl"
    and on: "\<not> off_slab (slab_cache s (fst x))"
  shows "Sl (obj_at (slab_cache s) x) = None"
proof (rule ccontr)
  let ?kc = "slab_cache s"
  assume "Sl (obj_at ?kc x) \<noteq> None"
  then obtain c p js where a: "Sl (obj_at ?kc x) = Some (c, p, js)" by auto
  have xl: "x \<in> live ?kc Sl" "x \<notin> headers ?kc Sl" using x by (auto simp: users_def)
  show False
  proof (cases "off_slab (?kc c)")
    case True
    then obtain y where y: "y \<in> live ?kc Sl" "fst y = slab_cachep (?kc c)" "obj_at ?kc y = obj_at ?kc x"
      using slab_inv_header [OF inv a] by blast
    then have "y = x" using obj_at_inj [OF inv y(1) xl(1)] by simp
    then have "x \<in> headers ?kc Sl"
      using y(1,2) a True by (auto simp: headers_def off_headers_def)
    with xl(2) show False by simp
  next
    case False
    obtain d q i where xe: "x = (d, q, i)" by (cases x)
    obtain b is' where b: "Sl b = Some (d, q, is')" using xl(1) xe by (auto simp: live_def)
    note ck = slab_invD(1) [OF inv] and okx = live_obj_ok [OF inv xl(1), unfolded xe]
    have p: "obj_at ?kc x = page2kva p" "p < 229376" "c < SLAB_CACHE_NUM"
      using slab_ok_first [OF slab_inv_ok [OF inv a]] False by auto
    have "p \<in> slab_pages ?kc d q"
      using kva2page_obj [OF ck okx] p(1,2) xe page2kva_page by metis
    then have "obj_at ?kc x = b" by (intro page_slab_unique [OF inv a b]) simp_all
    then have pq: "p = q" "c = d" using a b by auto
    have "obj_pa ?kc x = 4096 * p"
      using p(1,2) obj_pa_range(3,4) [OF ck okx] by (simp add: xe obj_at_def page2kva_kaddr kaddr_inj)
    moreover have "24 \<le> unat (kc_offset (?kc d))"
      using caches_okD [OF ck p(3)] False pq by (simp add: cache_ok_def Let_def)
    ultimately show False using obj_pa_range(1) [OF ck okx] xe pq by simp
  qed
qed

lemma free_all_live:
  assumes inv: "slab_inv t P F Sl R s" and a: "Sl a = None"
    and pages: "slab_pages (slab_cache s) c p \<inter> P = {}"
  shows "live (slab_cache s) (Sl(a \<mapsto> (c, p, [0..<unat (num (slab_cache s c))]))) = live (slab_cache s) Sl"
proof -
  have uniq: "\<And>b js. Sl b = Some (c, p, js) \<Longrightarrow> b = a"
    using pages slab_invD(4) [OF inv] slab_pages_first [of p "slab_cache s" c]
    by (fastforce simp: all_pages_def)
  have "Sl(a := None) = Sl" using a by (simp add: fun_upd_idem)
  then show ?thesis by (subst live_cases [OF uniq]) auto
qed

lemma new_slab_correct:
  assumes inv: "slab_inv t P F Sl R s" and a: "Sl a = None" and c: "c < SLAB_CACHE_NUM"
    and pages: "slab_pages (slab_cache s) c p \<inter> P = {}" "slab_pages (slab_cache s) c p \<subseteq> {..<229376}"
    and on: "\<not> off_slab (slab_cache s c) \<Longrightarrow> a = page2kva p"
    and hdr: "off_slab (slab_cache s c) \<Longrightarrow>
      x \<in> users (slab_cache s) Sl \<and> fst x = slab_cachep (slab_cache s c) \<and> obj_at (slab_cache s) x = a"
    and sl: "s_mem sl = page2kva p + kc_offset (slab_cache s c)" "sl_offset sl = kc_offset (slab_cache s c)"
      "inuse sl = 0" "bufctl sl = init_bufctl (num (slab_cache s c)) b" "sl_free sl = 0"
    and s': "s' = s\<lparr>frames := mark_slab_pages c a p (2 ^ page_order (slab_cache s c)) (frames s),
      slabs := (slabs s)(a := sl), slinks := list_add (SlabsNotfull c) (SlabLink a) (slinks s)\<rparr>"
  shows "slab_inv t (slab_pages (slab_cache s) c p \<union> P) F
      (Sl(a \<mapsto> (c, p, [0..<unat (num (slab_cache s c))])))
      (R(SlabsNotfull c := SlabLink a # R (SlabsNotfull c))) s'"
    and "users (slab_cache s) (Sl(a \<mapsto> (c, p, [0..<unat (num (slab_cache s c))]))) =
      users (slab_cache s) Sl - (if off_slab (slab_cache s c) then {x} else {})"
proof -
  let ?kc = "slab_cache s" and ?is = "[0..<unat (num (slab_cache s c))]"
  have n: "0 < unat (num (?kc c))"
    using caches_okD [OF slab_invD(1) [OF inv] c] by (simp add: cache_ok_def Let_def)
  have ch: "free_chain (bufctl sl) (sl_free sl) ?is"
    using init_bufctl_chain [OF n, of b] sl(4,5) by simp
  have mk: "next (links (frames s') (PageLink q)) = CacheRef c \<and>
      prev (links (frames s') (PageLink q)) = SlabRef a \<and> PageSlab (flags (pg (frames s') q))"
    if "q \<in> slab_pages ?kc c p" for q
    using that mark_slab_pages_fields [of c a p "2 ^ page_order (?kc c)" "frames s" 0 q]
    by (simp add: s' slab_pages_def PageSlab_def SetPageSlab_def test_set_bit PG_slab_def)
  have ok: "slab_ok s' a c p ?is"
    using c pages(2) sl(1-3) ch on mk unfolding slab_ok_def Let_def
    by (simp add: s' lessThan_atLeast0)
  show "slab_inv t (slab_pages ?kc c p \<union> P) F (Sl(a \<mapsto> (c, p, ?is)))
      (R(SlabsNotfull c := SlabLink a # R (SlabsNotfull c))) s'"
    by (rule slab_inv_new [OF inv a c pages _ _ _ _ ok]) (use n hdr in \<open>auto simp: s' users_def\<close>)
  note live = free_all_live [OF inv a pages(1)]
  have oh: "off_headers ?kc (Sl(a \<mapsto> (c, p, ?is))) =
      off_headers ?kc Sl \<union> (if off_slab (?kc c) then {(slab_cachep (?kc c), a)} else {})"
    using a by (auto simp: off_headers_def split: if_splits) (metis option.distinct(1))+
  show "users ?kc (Sl(a \<mapsto> (c, p, ?is))) = users ?kc Sl - (if off_slab (?kc c) then {x} else {})"
  proof (cases "off_slab (?kc c)")
    case False
    then show ?thesis by (simp add: users_def headers_def live oh)
  next
    case True
    have x: "x \<in> live ?kc Sl" "fst x = slab_cachep (?kc c)" "obj_at ?kc x = a"
      using hdr [OF True] by (auto simp: users_def)
    have same: "y = x" if "y \<in> live ?kc Sl" "obj_at ?kc y = a" for y
      by (rule obj_at_inj [OF inv that(1) x(1)]) (simp add: that x)
    have eq: "(fst y, obj_at ?kc y) = (slab_cachep (?kc c), a) \<longleftrightarrow> y = x" if "y \<in> live ?kc Sl" for y
    proof
      assume "(fst y, obj_at ?kc y) = (slab_cachep (?kc c), a)"
      then show "y = x" by (intro same [OF that]) simp
    qed (simp add: x)
    have oh': "off_headers ?kc (Sl(a \<mapsto> (c, p, ?is))) = insert (slab_cachep (?kc c), a) (off_headers ?kc Sl)"
      using oh True by simp
    have "headers ?kc (Sl(a \<mapsto> (c, p, ?is))) = insert x (headers ?kc Sl)"
      unfolding headers_def live oh' using eq x(1) by blast
    then show ?thesis using True unfolding users_def live by auto
  qed
qed

end
