(* ===== verification/SlabAlloc.thy ===== *)
theory SlabAlloc
  imports SlabOps
begin

text \<open>
  \<open>kmem_cache_alloc\<close> and \<open>kmem_cache_free\<close> as a whole. Both call themselves once, for the control
  block of a slab of large objects, whose cache keeps its own control blocks inside its slabs.
\<close>

section \<open>What the callers may rely on\<close>

definition alloc_post :: "page_ptr \<Rightarrow> nat set \<Rightarrow> layout \<Rightarrow> (nat \<Rightarrow> kmem_cache) \<Rightarrow> nat \<Rightarrow>
    (u32 option \<times> kmem) option \<Rightarrow> bool" where
  "alloc_post t P Sl kc c res \<longleftrightarrow> (case res of
     None \<Rightarrow> t = Null
   | Some (r, s') \<Rightarrow> slab_cache s' = kc \<and> (\<exists>F' Sl' R'. slab_inv t P F' Sl' R' s' \<and>
       (case r of
          None \<Rightarrow> users kc Sl' = users kc Sl
        | Some v \<Rightarrow> \<exists>x. fst x = c \<and> v = obj_at kc x \<and> x \<notin> users kc Sl \<and>
            users kc Sl' = insert x (users kc Sl))))"

definition grow_post :: "page_ptr \<Rightarrow> nat set \<Rightarrow> layout \<Rightarrow> (nat \<Rightarrow> kmem_cache) \<Rightarrow> nat \<Rightarrow>
    (bool \<times> kmem) option \<Rightarrow> bool" where
  "grow_post t P Sl kc c res \<longleftrightarrow> (case res of
     None \<Rightarrow> t = Null
   | Some (grown, s') \<Rightarrow> slab_cache s' = kc \<and> (\<exists>F' Sl' R'. slab_inv t P F' Sl' R' s' \<and>
       users kc Sl' = users kc Sl \<and>
       (grown \<longrightarrow> R' (SlabsNotfull c) \<noteq> [] \<and> (\<exists>a p. Sl' a = Some (c, p, [0..<unat (num (kc c))])))))"

text \<open>What an operation on a cache may assume of the operations it calls back.\<close>

definition alloc_works :: "page_ptr \<Rightarrow> (nat \<Rightarrow> kmem_cache) \<Rightarrow> cache_alloc \<Rightarrow> nat \<Rightarrow> bool" where
  "alloc_works t kc alloc c \<longleftrightarrow>
     (\<forall>P F Sl R s. slab_inv t P F Sl R s \<longrightarrow> slab_cache s = kc \<longrightarrow> alloc_post t P Sl kc c (alloc c s))"

lemma alloc_worksD:
  "alloc_works t kc alloc c \<Longrightarrow> slab_inv t P F Sl R s \<Longrightarrow> slab_cache s = kc \<Longrightarrow> alloc_post t P Sl kc c (alloc c s)"
  by (simp add: alloc_works_def)

section \<open>Growing\<close>

text \<open>The control block of a new slab with first page \<open>p\<close>: inside the slab, or an object of another
  cache, which then stops being an object of the callers.\<close>

definition control_block :: "cache_alloc \<Rightarrow> nat \<Rightarrow> nat \<Rightarrow> kmem \<Rightarrow> (u32 option \<times> kmem) option" where
  "control_block alloc c p s =
     (if off_slab (slab_cache s c) then alloc (slab_cachep (slab_cache s c)) s
      else Some (Some (page2kva p), s))"

definition block_post :: "(nat \<Rightarrow> kmem_cache) \<Rightarrow> nat \<Rightarrow> nat \<Rightarrow> layout \<Rightarrow> layout \<Rightarrow> u32 \<Rightarrow> object \<Rightarrow> bool" where
  "block_post kc c p Sl Sl2 a x \<longleftrightarrow> Sl2 a = None \<and>
     (if off_slab (kc c)
      then x \<in> users kc Sl2 \<and> fst x = slab_cachep (kc c) \<and> obj_at kc x = a \<and> users kc Sl2 - {x} = users kc Sl
      else a = page2kva p \<and> users kc Sl2 = users kc Sl)"

lemma fresh_page_not_slab:
  assumes inv: "slab_inv t P F Sl R s" and p: "p \<notin> P" "p < 229376"
  shows "Sl (page2kva p) = None"
proof (rule ccontr)
  assume "Sl (page2kva p) \<noteq> None"
  then obtain c' p' js where "Sl (page2kva p) = Some (c', p', js)" by auto
  from slab_addr_page [OF inv this] have "p \<in> all_pages (slab_cache s) Sl"
    by (simp add: page2kva_page p(2))
  then show False using slab_invD(4) [OF inv] p(1) by blast
qed

lemma control_block_correct:
  assumes inv: "slab_inv t P F Sl R s" and kc: "slab_cache s = kc" and c: "c < SLAB_CACHE_NUM"
    and cb: "off_slab (kc c) \<Longrightarrow> alloc_works t kc alloc (slab_cachep (kc c))"
    and p: "p \<notin> P" "p < 229376"
  shows "case control_block alloc c p s of None \<Rightarrow> t = Null
    | Some (r, s2) \<Rightarrow> slab_cache s2 = kc \<and> (\<exists>F2 Sl2 R2. slab_inv t P F2 Sl2 R2 s2 \<and>
        (case r of None \<Rightarrow> users kc Sl2 = users kc Sl | Some a \<Rightarrow> \<exists>x. block_post kc c p Sl Sl2 a x))"
proof (cases "off_slab (kc c)")
  case False
  then show ?thesis
    using inv kc fresh_page_not_slab [OF inv p] by (auto simp: control_block_def block_post_def)
next
  case True
  have on: "\<not> off_slab (kc (slab_cachep (kc c)))"
    using caches_okD [OF slab_invD(1) [OF inv] c] True kc by (simp add: cache_ok_def Let_def)
  have post: "alloc_post t P Sl kc (slab_cachep (kc c)) (control_block alloc c p s)"
    using alloc_worksD [OF cb [OF True] inv kc] True kc by (simp add: control_block_def)
  show ?thesis
  proof (cases "control_block alloc c p s")
    case None
    then show ?thesis using post by (simp add: alloc_post_def)
  next
    case (Some rs)
    obtain r s2 where rs: "control_block alloc c p s = Some (r, s2)" using Some by (cases rs) simp
    then obtain F2 Sl2 R2 where A2: "slab_cache s2 = kc" "slab_inv t P F2 Sl2 R2 s2"
      "case r of None \<Rightarrow> users kc Sl2 = users kc Sl
       | Some v \<Rightarrow> \<exists>x. fst x = slab_cachep (kc c) \<and> v = obj_at kc x \<and> x \<notin> users kc Sl \<and>
          users kc Sl2 = insert x (users kc Sl)"
      using post by (auto simp: alloc_post_def)
    show ?thesis
    proof (cases r)
      case None
      then show ?thesis using rs A2 by auto
    next
      case (Some v)
      then obtain x where x: "fst x = slab_cachep (kc c)" "v = obj_at kc x" "x \<notin> users kc Sl"
        "users kc Sl2 = insert x (users kc Sl)" using A2(3) by (auto simp del: split_paired_Ex)
      have "Sl2 v = None" using user_not_slab [OF A2(2), of x] x on A2(1) by simp
      then have "block_post kc c p Sl Sl2 v x" using x True by (auto simp: block_post_def)
      then show ?thesis using A2(1,2) unfolding rs Some by (simp del: split_paired_Ex) blast
    qed
  qed
qed

lemma grow_unfold:
  assumes "alloc_pages buddy_pmm_manager (2 ^ page_order (slab_cache s c)) (frames s) = Some (Some p, fr)"
    and "slab_cache s = kc"
  shows "kmem_cache_grow alloc c s =
    (case control_block alloc c p (s\<lparr>frames := fr\<rparr>) of
       None \<Rightarrow> None
     | Some (None, s) \<Rightarrow> do { fr \<leftarrow> free_pages buddy_pmm_manager p (2 ^ page_order (slab_cache s c)) (frames s);
                            Some (False, s\<lparr>frames := fr\<rparr>) }
     | Some (Some a, s) \<Rightarrow> Some (True,
         s\<lparr>frames := mark_slab_pages c a p (2 ^ page_order (slab_cache s c)) (frames s),
           slabs := (slabs s)(a := (slabs s a)\<lparr>inuse := 0, sl_offset := kc_offset (slab_cache s c),
             s_mem := page2kva p + kc_offset (slab_cache s c),
             bufctl := init_bufctl (num (slab_cache s c)) (bufctl (slabs s a)), sl_free := 0\<rparr>),
           slinks := list_add (SlabsNotfull c) (SlabLink a) (slinks s)\<rparr>))"
  using assms by (simp add: kmem_cache_grow_def kmem_cache_slabmgmt_def control_block_def Let_def split: option.split)

lemma order_bound: "cache_ok kc c \<Longrightarrow> (2::nat) ^ page_order (kc c) < 2048"
proof -
  assume "cache_ok kc c"
  then have "page_order (kc c) \<le> 10" by (simp add: cache_ok_def Let_def)
  then have "(2::nat) ^ page_order (kc c) \<le> 2 ^ 10" by (rule power_increasing) simp
  then show ?thesis by simp
qed

text \<open>With the pages and the control block at hand.\<close>

lemma grow_with_pages:
  assumes inv: "slab_inv t (P - slab_pages kc c p) F Sl R s" and kc: "slab_cache s = kc"
    and c: "c < SLAB_CACHE_NUM" and S: "slab_pages kc c p \<subseteq> P" "P \<subseteq> {..<229376}"
    and cb: "off_slab (kc c) \<Longrightarrow> alloc_works t kc alloc (slab_cachep (kc c))"
    and al: "alloc_pages buddy_pmm_manager (2 ^ page_order (slab_cache s0 c)) (frames s0) = Some (Some p, fr)"
    and s: "s = s0\<lparr>frames := fr\<rparr>"
  shows "grow_post t P Sl kc c (kmem_cache_grow alloc c s0)"
proof -
  let ?S = "slab_pages kc c p" and ?n = "2 ^ page_order (kc c) :: nat"
  have ck: "cache_ok kc c" using caches_okD [OF slab_invD(1) [OF inv] c] kc by simp
  have SP: "?S \<inter> (P - ?S) = {}" "?S \<union> (P - ?S) = P" "?S \<subseteq> {..<229376}" using S by auto
  have p: "p \<notin> P - ?S" "p < 229376" using SP(3) slab_pages_first [of p kc c] by blast+
  have kc0: "slab_cache s0 = kc" using kc s by simp
  note U = grow_unfold [OF al kc0, of alloc, folded s]
  from control_block_correct [OF inv kc c cb p]
  show ?thesis
  proof (cases "control_block alloc c p s")
    case None
    then show ?thesis using control_block_correct [OF inv kc c cb p] U by (simp add: grow_post_def)
  next
    case (Some rs)
    obtain r s2 where rs: "control_block alloc c p s = Some (r, s2)" using Some by (cases rs) simp
    with control_block_correct [OF inv kc c cb p] obtain F2 Sl2 R2 where A: "slab_cache s2 = kc"
      "slab_inv t (P - ?S) F2 Sl2 R2 s2"
      "case r of None \<Rightarrow> users kc Sl2 = users kc Sl | Some a \<Rightarrow> \<exists>x. block_post kc c p Sl Sl2 a x" by auto
    show ?thesis
    proof (cases r)
      case None
      obtain fr2 where "free_pages buddy_pmm_manager p ?n (frames s2) = Some fr2"
        "slab_inv t P (F2 \<union> ?S) Sl2 R2 (s2\<lparr>frames := fr2\<rparr>)"
        using slab_inv_free_pages [OF A(2) order_bound [OF ck], of p] SP by (auto simp: slab_pages_def)
      then show ?thesis using U rs None A unfolding grow_post_def by auto
    next
      case a: (Some a)
      then obtain x where x: "block_post kc c p Sl Sl2 a x" using A(3) by (auto simp del: split_paired_Ex)
      define sl where "sl = (slabs s2 a)\<lparr>inuse := 0, sl_offset := kc_offset (kc c),
        s_mem := page2kva p + kc_offset (kc c), bufctl := init_bufctl (num (kc c)) (bufctl (slabs s2 a)), sl_free := 0\<rparr>"
      define s3 where "s3 = s2\<lparr>frames := mark_slab_pages c a p ?n (frames s2),
        slabs := (slabs s2)(a := sl), slinks := list_add (SlabsNotfull c) (SlabLink a) (slinks s2)\<rparr>"
      have a0: "Sl2 a = None" using x by (simp add: block_post_def)
      note N = new_slab_correct [of t "P - ?S" F2 Sl2 R2 s2 a c p x sl "bufctl (slabs s2 a)" s3,
        OF A(2) a0 c, unfolded A(1), OF SP(1,3)]
      have N1: "slab_inv t P F2 (Sl2(a \<mapsto> (c, p, [0..<unat (num (kc c))])))
          (R2(SlabsNotfull c := SlabLink a # R2 (SlabsNotfull c))) s3"
        using N(1) x SP(2) by (simp add: block_post_def s3_def sl_def)
      have N2: "users kc (Sl2(a \<mapsto> (c, p, [0..<unat (num (kc c))]))) = users kc Sl"
        using N(2) x by (auto simp: block_post_def s3_def sl_def split: if_splits)
      have "kmem_cache_grow alloc c s0 = Some (True, s3)" using U rs a A(1) by (simp add: s3_def sl_def)
      moreover have "slab_cache s3 = kc" using A(1) by (simp add: s3_def)
      moreover have "\<exists>F' Sl' R'. slab_inv t P F' Sl' R' s3 \<and> users kc Sl' = users kc Sl \<and>
          (True \<longrightarrow> R' (SlabsNotfull c) \<noteq> [] \<and> (\<exists>a p. Sl' a = Some (c, p, [0..<unat (num (kc c))])))"
        by (intro exI [of _ F2] exI [of _ "Sl2(a \<mapsto> (c, p, [0..<unat (num (kc c))]))"]
            exI [of _ "R2(SlabsNotfull c := SlabLink a # R2 (SlabsNotfull c))"] conjI impI N1 N2) auto
      ultimately show ?thesis unfolding grow_post_def by simp
    qed
  qed
qed

lemma grow_correct:
  assumes inv: "slab_inv t P F Sl R s" and kc: "slab_cache s = kc" and c: "c < SLAB_CACHE_NUM"
    and cb: "off_slab (kc c) \<Longrightarrow> alloc_works t kc alloc (slab_cachep (kc c))"
  shows "grow_post t P Sl kc c (kmem_cache_grow alloc c s)"
proof (cases "alloc_pages buddy_pmm_manager (2 ^ page_order (kc c)) (frames s)")
  case None
  then have "t = Null"
    using buddy_alloc_pages_cases [OF slab_invD(2) [OF inv], of "2 ^ page_order (kc c)"]
    by (auto simp: alloc_pages_def buddy_pmm_manager_def split: if_splits)
  then show ?thesis using None by (simp add: grow_post_def kmem_cache_grow_def kc)
next
  case (Some rf)
  obtain r fr where rf: "alloc_pages buddy_pmm_manager (2 ^ page_order (kc c)) (frames s) = Some (r, fr)"
    using Some by (cases rf) simp
  have n0: "0 < (2::nat) ^ page_order (kc c)" by simp
  note A = slab_inv_alloc_pages [OF inv n0 rf]
  show ?thesis
  proof (cases r)
    case None
    then show ?thesis using A rf inv kc by (auto simp: grow_post_def kmem_cache_grow_def)
  next
    case (Some p)
    have "slab_inv t (P - slab_pages kc c p) (F - slab_pages kc c p) Sl R (s\<lparr>frames := fr\<rparr>)"
      and "slab_pages kc c p \<subseteq> F" using A Some by (auto simp: slab_pages_def)
    then show ?thesis
      using slab_invD(3,4) [OF inv] rf Some kc cb
      by (intro grow_with_pages [where s = "s\<lparr>frames := fr\<rparr>" and p = p and fr = fr, OF _ _ c]) auto
  qed
qed

section \<open>Allocating\<close>

lemma notfull_first:
  assumes inv: "slab_inv t P F Sl R s" and c: "c < SLAB_CACHE_NUM"
  shows "list_empty (SlabsNotfull c) (slinks s) \<longleftrightarrow> R (SlabsNotfull c) = []"
    and "R (SlabsNotfull c) \<noteq> [] \<Longrightarrow>
      \<exists>a p i is. list_next (SlabsNotfull c) (slinks s) = SlabLink a \<and> Sl a = Some (c, p, i # is)"
proof -
  note rg = ringsD [OF slab_invD(6) [OF inv] slab_head_mem(3) [OF c]]
  show "list_empty (SlabsNotfull c) (slinks s) \<longleftrightarrow> R (SlabsNotfull c) = []" by (rule ring_empty [OF rg])
  assume "R (SlabsNotfull c) \<noteq> []"
  then obtain y ys where R: "R (SlabsNotfull c) = y # ys" by (cases "R (SlabsNotfull c)") auto
  then have "list_next (SlabsNotfull c) (slinks s) = y" using ring_next [OF rg] by simp
  moreover have "y \<in> set (R (SlabsNotfull c))" using R by simp
  then obtain a p js where "y = SlabLink a" "js \<noteq> []" "Sl a = Some (c, p, js)"
    using slab_invD(7) [OF inv] c by (auto simp: lists_match_def)
  ultimately show "\<exists>a p i is. list_next (SlabsNotfull c) (slinks s) = SlabLink a \<and> Sl a = Some (c, p, i # is)"
    by (cases js) auto
qed

lemma alloc_from_notfull:
  assumes inv: "slab_inv t P F Sl R s" and kc: "slab_cache s = kc" and c: "c < SLAB_CACHE_NUM"
    and ne: "R (SlabsNotfull c) \<noteq> []"
  shows "alloc_post t P Sl kc c (kmem_cache_alloc c s)" and "\<exists>v s'. kmem_cache_alloc c s = Some (Some v, s')"
proof -
  obtain a p i "is" where a: "list_next (SlabsNotfull c) (slinks s) = SlabLink a" "Sl a = Some (c, p, i # is)"
    using notfull_first(2) [OF inv c ne] by blast
  obtain s' R' where s': "kmem_cache_alloc_one c a s = (obj_at (slab_cache s) (c, p, i), s')"
    "slab_inv t P F (Sl(a \<mapsto> (c, p, is))) R' s'" "slab_cache s' = slab_cache s"
    using alloc_one_correct [OF inv a(2)] by blast
  have res: "kmem_cache_alloc c s = Some (Some (obj_at kc (c, p, i)), s')"
    using notfull_first(1) [OF inv c] ne a(1) s'(1) kc by (subst kmem_cache_alloc.simps) simp
  then show "\<exists>v s'. kmem_cache_alloc c s = Some (Some v, s')" by blast
  note U = users_take [OF inv a(2) s'(2,3), unfolded kc]
  show "alloc_post t P Sl kc c (kmem_cache_alloc c s)"
  proof -
    have X: "\<exists>x. fst x = c \<and> obj_at kc (c, p, i) = obj_at kc x \<and> x \<notin> users kc Sl \<and>
        users kc (Sl(a \<mapsto> (c, p, is))) = insert x (users kc Sl)"
      by (rule exI [of _ "(c, p, i)"]) (simp add: U)
    have "\<exists>F' Sl' R'. slab_inv t P F' Sl' R' s' \<and> (\<exists>x. fst x = c \<and> obj_at kc (c, p, i) = obj_at kc x \<and>
        x \<notin> users kc Sl \<and> users kc Sl' = insert x (users kc Sl))"
      by ((rule exI)+, rule conjI, rule s'(2), rule X)
    then show ?thesis unfolding res alloc_post_def using s'(3) kc by simp
  qed
qed

lemma alloc_post_mono:
  assumes "alloc_post t P Sl kc c res" and "users kc Sl = users kc Sl0"
  shows "alloc_post t P Sl0 kc c res"
  using assms(1) unfolding alloc_post_def assms(2) .

lemma alloc_correct_step:
  assumes c: "c < SLAB_CACHE_NUM"
    and cb: "off_slab (kc c) \<Longrightarrow> alloc_works t kc kmem_cache_alloc (slab_cachep (kc c))"
  shows "alloc_works t kc kmem_cache_alloc c"
  unfolding alloc_works_def
proof (intro allI impI)
  fix P F Sl R s assume inv: "slab_inv t P F Sl R s" and kc: "slab_cache s = kc"
  show "alloc_post t P Sl kc c (kmem_cache_alloc c s)"
  proof (cases "R (SlabsNotfull c) = []")
    case False
    then show ?thesis by (rule alloc_from_notfull(1) [OF inv kc c])
  next
    case True
    then have U: "kmem_cache_alloc c s = do { (grown, s) \<leftarrow> kmem_cache_grow kmem_cache_alloc c s;
         if grown then kmem_cache_alloc c s else Some (None, s) }"
      using notfull_first(1) [OF inv c] by (subst kmem_cache_alloc.simps) simp
    have G: "grow_post t P Sl kc c (kmem_cache_grow kmem_cache_alloc c s)"
      by (rule grow_correct [OF inv kc c cb])
    show ?thesis
    proof (cases "kmem_cache_grow kmem_cache_alloc c s")
      case None
      then show ?thesis using U G by (simp add: grow_post_def alloc_post_def)
    next
      case (Some gs)
      obtain g s' where gs: "kmem_cache_grow kmem_cache_alloc c s = Some (g, s')" using Some by (cases gs) simp
      then obtain F' Sl' R' where S: "slab_cache s' = kc" "slab_inv t P F' Sl' R' s'"
        "users kc Sl' = users kc Sl" "g \<longrightarrow> R' (SlabsNotfull c) \<noteq> []"
        using G by (auto simp: grow_post_def)
      show ?thesis
      proof (cases g)
        case True
        then have "alloc_post t P Sl' kc c (kmem_cache_alloc c s')"
          using alloc_from_notfull(1) [OF S(2,1) c] S(4) by simp
        then show ?thesis using U gs True S(3) alloc_post_mono by simp
      next
        case False
        then show ?thesis using U gs S by (auto simp: alloc_post_def)
      qed
    qed
  qed
qed

text \<open>The recursion is at most one deep, because the cache of the control blocks is on-slab.\<close>

lemma alloc_correct:
  assumes ck: "caches_ok kc" and c: "c < SLAB_CACHE_NUM"
  shows "alloc_works t kc kmem_cache_alloc c"
proof (rule alloc_correct_step [OF c])
  assume "off_slab (kc c)"
  then have d: "slab_cachep (kc c) < SLAB_CACHE_NUM" "\<not> off_slab (kc (slab_cachep (kc c)))"
    using caches_okD [OF ck c] by (simp_all add: cache_ok_def Let_def)
  show "alloc_works t kc kmem_cache_alloc (slab_cachep (kc c))" by (rule alloc_correct_step [OF d(1)]) (simp add: d(2))
qed

end
