(* ===== verification/SlabFree.thy ===== *)
theory SlabFree
  imports SlabAlloc
begin

text \<open>
  \<open>kmem_cache_free\<close>: putting an object back on the chain of its slab, and giving the pages of an
  empty slab back to the page allocator.
\<close>

section \<open>The slab and the index of an object\<close>

lemma objnr_correct:
  assumes ck: "caches_ok kc" and ok: "obj_ok kc (c, p, i)"
  shows "(m + of_nat i * objsize (kc c) - m) div objsize (kc c) = (of_nat i :: u32)"
proof -
  note r = obj_pa_range [OF ck ok]
  have le: "i * unat (objsize (kc c)) < 939524096" using r(3,4) by (simp add: obj_pa_def)
  have "i \<le> i * unat (objsize (kc c))" using r(4) by (cases "unat (objsize (kc c))") auto
  then have i: "i < 4294967296" using le by linarith
  have "unat (of_nat i * objsize (kc c) :: u32) = i * unat (objsize (kc c))"
    using le i by (simp add: unat_word_ariths unat_of_nat_u32)
  then have "unat (of_nat i * objsize (kc c) div objsize (kc c) :: u32) = i"
    using r(4) by (simp add: unat_div)
  then have "of_nat i * objsize (kc c) div objsize (kc c) = (of_nat i :: u32)"
    by (metis word_of_nat_eq_iff of_nat_unat ucast_id unsigned_of_nat)
  then show ?thesis by simp
qed

lemma find_slab:
  assumes inv: "slab_inv t P F Sl R s" and x: "(c, p, i) \<in> live (slab_cache s) Sl"
  shows "\<exists>a is. Sl a = Some (c, p, is) \<and> i < unat (num (slab_cache s c)) \<and> i \<notin> set is \<and>
    GET_PAGE_SLAB (kva2page (obj_at (slab_cache s) (c, p, i))) (frames s) = Some a \<and>
    GET_PAGE_CACHE (kva2page (obj_at (slab_cache s) (c, p, i))) (frames s) = Some c"
proof -
  obtain a "is" where a: "Sl a = Some (c, p, is)" "i < unat (num (slab_cache s c))" "i \<notin> set is"
    using x by (auto simp: live_def)
  have "kva2page (obj_at (slab_cache s) (c, p, i)) \<in> slab_pages (slab_cache s) c p"
    by (rule kva2page_obj [OF slab_invD(1) [OF inv] live_obj_ok [OF inv x]])
  then show ?thesis
    using a slab_inv_ok [OF inv a(1)] by (auto simp: slab_ok_def Let_def GET_PAGE_SLAB_def GET_PAGE_CACHE_def)
qed

section \<open>Removing an empty slab\<close>

lemma all_pages_remove:
  assumes inv: "slab_inv t P F Sl R s" and a: "Sl a = Some (c, p, is)"
  shows "all_pages (slab_cache s) (Sl(a := None)) = all_pages (slab_cache s) Sl - slab_pages (slab_cache s) c p"
proof (intro set_eqI iffI)
  fix q assume "q \<in> all_pages (slab_cache s) (Sl(a := None))"
  then obtain b d r js where b: "b \<noteq> a" "Sl b = Some (d, r, js)" "q \<in> slab_pages (slab_cache s) d r"
    by (auto simp: all_pages_def split: if_splits)
  then have "q \<notin> slab_pages (slab_cache s) c p" using slab_inv_apart [OF inv b(2) a] by blast
  with b show "q \<in> all_pages (slab_cache s) Sl - slab_pages (slab_cache s) c p"
    by (auto simp: all_pages_def)
next
  fix q assume q: "q \<in> all_pages (slab_cache s) Sl - slab_pages (slab_cache s) c p"
  then obtain b d r js where b: "Sl b = Some (d, r, js)" "q \<in> slab_pages (slab_cache s) d r"
    by (auto simp: all_pages_def)
  then have "b \<noteq> a" using q a by auto
  with b show "q \<in> all_pages (slab_cache s) (Sl(a := None))" by (auto simp: all_pages_def)
qed

lemma slab_inv_remove:
  assumes inv: "slab_inv t P F Sl R s" and a: "Sl a = Some (c, p, is)" and c: "c < SLAB_CACHE_NUM"
    and last: "live (slab_cache s) Sl = insert x (live (slab_cache s) (Sl(a := None)))"
    and x: "x \<notin> headers (slab_cache s) Sl"
    and s': "slab_cache s' = slab_cache s" "frames s' = frames s" "\<And>b. b \<noteq> a \<Longrightarrow> slabs s' b = slabs s b"
      "slinks s' = list_del (SlabLink a) (slinks s)"
  shows "\<exists>R'. slab_inv t (P - slab_pages (slab_cache s) c p) F (Sl(a := None)) R' s'"
proof -
  let ?kc = "slab_cache s"
  note D = slab_invD [OF inv]
  define h where "h = (if is = [] then SlabsFull c else SlabsNotfull c)"
  have h: "h \<in> slab_heads" using c by (simp add: h_def)
  have "SlabLink a \<in> set (R h)" using D(7) a c by (auto simp: lists_match_def h_def)
  then obtain ys zs where R: "R h = ys @ SlabLink a # zs" by (auto simp: in_set_conv_decomp)
  have lm: "lists_match (Sl(a := None)) (R(h := ys @ zs))"
    by (rule lists_match_remove [OF D(7) a c h_def R rings_member_unique(1) [OF D(6) h R]])
  have oks: "slab_ok s' b c' p' js" if "(Sl(a := None)) b = Some (c', p', js)" for b c' p' js
  proof -
    have b: "b \<noteq> a" "Sl b = Some (c', p', js)" using that by (auto split: if_splits)
    have "slab_ok s' b c' p' js = slab_ok s b c' p' js"
      by (rule slab_ok_cong [OF s'(1) s'(3) [OF b(1)]]) (simp add: s'(2))
    then show ?thesis using slab_inv_ok [OF inv b(2)] by simp
  qed
  have hdr: "\<exists>y \<in> live ?kc (Sl(a := None)). fst y = slab_cachep (?kc c') \<and> obj_at ?kc y = b"
    if "(Sl(a := None)) b = Some (c', p', js)" "off_slab (?kc c')" for b c' p' js
  proof -
    note off = that(2)
    have b: "Sl b = Some (c', p', js)" using that(1) by (auto split: if_splits)
    obtain y where y: "y \<in> live ?kc Sl" "fst y = slab_cachep (?kc c')" "obj_at ?kc y = b"
      using slab_inv_header [OF inv b off] by blast
    then have "y \<in> headers ?kc Sl" using b off by (auto simp: headers_def off_headers_def)
    then have "y \<noteq> x" using x by blast
    then show ?thesis using y last by blast
  qed
  have pages: "F \<union> all_pages ?kc (Sl(a := None)) = P - slab_pages ?kc c p"
    "F \<inter> all_pages ?kc (Sl(a := None)) = {}" "P - slab_pages ?kc c p \<subseteq> {..<229376}"
    using D(3-5) layout_pages [of Sl a c p "is" ?kc, OF a] unfolding all_pages_remove [OF inv a] by blast+
  have apart: "slab_pages ?kc c1 p1 \<inter> slab_pages ?kc c2 p2 = {}"
    if "(Sl(a := None)) b1 = Some (c1, p1, is1)" "(Sl(a := None)) b2 = Some (c2, p2, is2)" "b1 \<noteq> b2"
    for b1 b2 c1 c2 p1 p2 is1 is2
    using that slab_inv_apart [OF inv] by (auto split: if_splits)
  have "slab_inv t (P - slab_pages ?kc c p) F (Sl(a := None)) (R(h := ys @ zs)) s'"
    unfolding slab_inv_def Let_def s'(1,2,4)
    using D(1,2) pages rings_del [OF D(6) h R] lm
    by (intro conjI allI impI oks apart hdr) simp_all
  then show ?thesis by blast
qed

lemma off_headers_remove:
  assumes a: "Sl a = Some (c, p, is)"
  shows "off_headers kc Sl = off_headers kc (Sl(a := None)) \<union>
    (if off_slab (kc c) then {(slab_cachep (kc c), a)} else {})"
proof (intro set_eqI)
  fix x :: "nat \<times> u32"
  obtain d b where x: "x = (d, b)" by (cases x)
  show "x \<in> off_headers kc Sl \<longleftrightarrow> x \<in> off_headers kc (Sl(a := None)) \<union>
      (if off_slab (kc c) then {(slab_cachep (kc c), a)} else {})"
    using a unfolding x by (cases "b = a") (simp_all add: off_headers_def)
qed

text \<open>Whose objects are left when the slab at \<open>a\<close> goes away with its last object \<open>x\<close>: its control
  block, if it was an object, is one of the callers' again.\<close>

lemma users_remove:
  assumes inv: "slab_inv t P F Sl R s" and a: "Sl a = Some (c, p, is)"
    and last: "live (slab_cache s) Sl = insert x (live (slab_cache s) (Sl(a := None)))"
    and new: "x \<notin> live (slab_cache s) (Sl(a := None))" and x: "x \<in> users (slab_cache s) Sl"
  shows "if off_slab (slab_cache s c)
    then \<exists>y. y \<in> users (slab_cache s) (Sl(a := None)) \<and> fst y = slab_cachep (slab_cache s c) \<and>
      obj_at (slab_cache s) y = a \<and> users (slab_cache s) (Sl(a := None)) - {y} = users (slab_cache s) Sl - {x}
    else users (slab_cache s) (Sl(a := None)) = users (slab_cache s) Sl - {x}"
proof -
  let ?kc = "slab_cache s" and ?Sl = "Sl(a := None)"
  have xh: "x \<notin> headers ?kc Sl" using x by (simp add: users_def)
  have oh: "off_headers ?kc Sl = off_headers ?kc ?Sl \<union> (if off_slab (?kc c) then {(slab_cachep (?kc c), a)} else {})"
    by (rule off_headers_remove [of Sl a c p "is" ?kc, OF a])
  show ?thesis
  proof (cases "off_slab (?kc c)")
    case False
    then have "headers ?kc Sl \<inter> live ?kc ?Sl = headers ?kc ?Sl"
      using last by (auto simp: headers_def oh)
    moreover have "headers ?kc Sl \<subseteq> live ?kc ?Sl" using last xh by (auto simp: headers_def)
    ultimately show ?thesis using False last new by (auto simp: users_def)
  next
    case True
    obtain y where y: "y \<in> live ?kc Sl" "fst y = slab_cachep (?kc c)" "obj_at ?kc y = a"
      using slab_inv_header [OF inv a True] by blast
    have yh: "y \<in> headers ?kc Sl" using y a True by (auto simp: headers_def off_headers_def)
    then have yl: "y \<in> live ?kc ?Sl" using last xh y(1) by auto
    have ya: "(fst y, obj_at ?kc y) \<notin> off_headers ?kc ?Sl"
      using y(3) by (auto simp: off_headers_def split: if_splits)
    have eq: "(fst z, obj_at ?kc z) = (slab_cachep (?kc c), a) \<longleftrightarrow> z = y" if "z \<in> live ?kc Sl" for z
    proof
      assume "(fst z, obj_at ?kc z) = (slab_cachep (?kc c), a)"
      then show "z = y" by (intro obj_at_inj [OF inv that y(1)]) (simp add: y(3))
    qed (simp add: y)
    have "headers ?kc Sl = insert y (headers ?kc ?Sl)"
    proof (intro set_eqI iffI)
      fix z assume z: "z \<in> headers ?kc Sl"
      then have "z \<in> live ?kc ?Sl" "z \<in> live ?kc Sl" using last xh by (auto simp: headers_def)
      then show "z \<in> insert y (headers ?kc ?Sl)"
        using z eq [of z] True by (auto simp: headers_def oh)
    next
      fix z assume "z \<in> insert y (headers ?kc ?Sl)"
      then show "z \<in> headers ?kc Sl" using yh last by (auto simp: headers_def oh)
    qed
    moreover have "y \<notin> headers ?kc ?Sl" using ya by (simp add: headers_def)
    ultimately have "y \<in> users ?kc ?Sl" "users ?kc ?Sl - {y} = users ?kc Sl - {x}"
      using yl last new xh by (auto simp: users_def)
    then have "\<exists>y. y \<in> users ?kc ?Sl \<and> fst y = slab_cachep (?kc c) \<and> obj_at ?kc y = a \<and>
        users ?kc ?Sl - {y} = users ?kc Sl - {x}"
      using y by blast
    then show ?thesis using True by simp
  qed
qed

section \<open>Putting an object back\<close>

definition free_post :: "page_ptr \<Rightarrow> nat set \<Rightarrow> layout \<Rightarrow> (nat \<Rightarrow> kmem_cache) \<Rightarrow> object \<Rightarrow> kmem option \<Rightarrow> bool" where
  "free_post t P Sl kc x res \<longleftrightarrow> (\<exists>s'. res = Some s' \<and> slab_cache s' = kc \<and>
     (\<exists>F' Sl' R'. slab_inv t P F' Sl' R' s' \<and> users kc Sl' = users kc Sl - {x}))"

definition free_works :: "page_ptr \<Rightarrow> (nat \<Rightarrow> kmem_cache) \<Rightarrow> cache_free \<Rightarrow> nat \<Rightarrow> bool" where
  "free_works t kc fre c \<longleftrightarrow> (\<forall>P F Sl R s x. slab_inv t P F Sl R s \<longrightarrow> slab_cache s = kc \<longrightarrow>
     x \<in> users kc Sl \<longrightarrow> fst x = c \<longrightarrow> free_post t P Sl kc x (fre c (obj_at kc x) s))"

lemma free_worksD:
  "free_works t kc fre c \<Longrightarrow> slab_inv t P F Sl R s \<Longrightarrow> slab_cache s = kc \<Longrightarrow> x \<in> users kc Sl \<Longrightarrow>
   fst x = c \<Longrightarrow> free_post t P Sl kc x (fre c (obj_at kc x) s)"
  unfolding free_works_def by blast

text \<open>The control block after the link of the object is written and the object is counted out.\<close>

definition put_back :: "nat \<Rightarrow> slab \<Rightarrow> slab" where
  "put_back i sl = sl\<lparr>bufctl := (bufctl sl)(of_nat i := sl_free sl), sl_free := of_nat i, inuse := inuse sl - 1\<rparr>"

lemma put_back_inuse:
  fixes n :: u32
  assumes "inuse sl = of_nat (unat n - length is)" "length (i # is) \<le> unat n"
  shows "inuse (put_back i sl) = of_nat (unat n - length (i # is))"
    and "inuse (put_back i sl) = 0 \<longleftrightarrow> length (i # is) = unat n"
    and "inuse (put_back i sl) = n - 1 \<longleftrightarrow> is = []"
proof -
  have lt: "unat n < 2 ^ 32" by (rule unat_u32_lt)
  have "unat n - length is = Suc (unat n - length (i # is))" using assms(2) by simp
  then show *: "inuse (put_back i sl) = of_nat (unat n - length (i # is))"
    using assms(1) by (simp add: put_back_def)
  show "inuse (put_back i sl) = 0 \<longleftrightarrow> length (i # is) = unat n"
    using of_nat_u32_inj [of "unat n - length (i # is)" 0] lt assms(2) unfolding * by auto
  have "n - 1 = of_nat (unat n - 1)" using assms(2) by (simp add: of_nat_diff)
  moreover have "(of_nat (unat n - length (i # is)) :: u32) = of_nat (unat n - 1) \<longleftrightarrow>
      unat n - length (i # is) = unat n - 1"
    using lt by (intro of_nat_u32_inj) auto
  ultimately have "inuse (put_back i sl) = n - 1 \<longleftrightarrow> unat n - length (i # is) = unat n - 1"
    unfolding * by simp
  also have "\<dots> \<longleftrightarrow> is = []" using assms(2) by (cases "is") auto
  finally show "inuse (put_back i sl) = n - 1 \<longleftrightarrow> is = []" .
qed

lemma put_back_ok:
  assumes ok: "slab_ok s a c p is" and i: "i < unat (num (slab_cache s c))" "i \<notin> set is"
    and s': "slab_cache s' = slab_cache s" "frames s' = frames s" "slabs s' a = put_back i (slabs s a)"
  shows "slab_ok s' a c p (i # is)" and "length (i # is) \<le> unat (num (slab_cache s c))"
proof -
  have ds: "distinct (i # is)" "set (i # is) \<subseteq> {..<unat (num (slab_cache s c))}"
    using ok i by (auto simp: slab_ok_def Let_def)
  then show len: "length (i # is) \<le> unat (num (slab_cache s c))" by (rule chain_length)
  have lt: "\<forall>j \<in> set (i # is). j < 2 ^ 32"
    using ds(2) unat_u32_lt [of "num (slab_cache s c)"] by fastforce
  have ch: "free_chain ((bufctl (slabs s a))(of_nat i := sl_free (slabs s a))) (of_nat i) (i # is)"
    by (rule free_chain_push) (use ok i lt in \<open>auto simp: slab_ok_def Let_def\<close>)
  have "inuse (slabs s a) = of_nat (unat (num (slab_cache s c)) - length is)"
    using ok by (simp add: slab_ok_def Let_def)
  note iu = put_back_inuse(1) [OF this len]
  show "slab_ok s' a c p (i # is)"
    using ok ds ch iu unfolding slab_ok_def Let_def s' by (simp add: put_back_def)
qed

text \<open>The control flow of \<open>kmem_cache_free\<close> once the slab of the object is known.\<close>

definition slab_after :: "kmem \<Rightarrow> u32 \<Rightarrow> nat \<Rightarrow> slab_ptr heap \<Rightarrow> kmem" where
  "slab_after s a i h = s\<lparr>slabs := (slabs s)(a := put_back i (slabs s a)), slinks := h\<rparr>"

lemma slab_after_simps [simp]:
  "slab_cache (slab_after s a i h) = slab_cache s" "frames (slab_after s a i h) = frames s"
  "slabs (slab_after s a i h) b = (if b = a then put_back i (slabs s a) else slabs s b)"
  "slinks (slab_after s a i h) = h"
  by (simp_all add: slab_after_def)

lemma free_one_unfold:
  assumes ck: "caches_ok (slab_cache s)" and ok: "slab_ok s a c p is"
    and x: "obj_ok (slab_cache s) (c, p, i)" and len: "length (i # is) \<le> unat (num (slab_cache s c))"
  shows "kmem_cache_free_one fre c a (obj_at (slab_cache s) (c, p, i)) s =
    (if length (i # is) = unat (num (slab_cache s c))
     then kmem_slab_destroy fre c a (slab_after s a i (list_del (SlabLink a) (slinks s)))
     else if is = []
     then Some (slab_after s a i (list_add (SlabsNotfull c) (SlabLink a) (list_del (SlabLink a) (slinks s))))
     else Some (slab_after s a i (slinks s)))"
proof -
  have iu: "inuse (slabs s a) = of_nat (unat (num (slab_cache s c)) - length is)"
    using ok by (simp add: slab_ok_def Let_def)
  note e = put_back_inuse(2,3) [OF iu len]
  have nz: "objsize (slab_cache s c) \<noteq> 0" using obj_pa_range(4) [OF ck x] by auto
  have nr: "(obj_at (slab_cache s) (c, p, i) - s_mem (slabs s a)) div objsize (slab_cache s c) = of_nat i"
    using objnr_correct [OF ck x, of "s_mem (slabs s a)"] obj_at_code [OF ok, of i] by simp
  show ?thesis
    unfolding kmem_cache_free_one_def nr Let_def put_back_def [symmetric] if_not_P [OF nz]
    using e by (simp add: slab_after_def)
qed

lemma put_back_correct:
  assumes inv: "slab_inv t P F Sl R s" and a: "Sl a = Some (c, p, is)"
    and x: "(c, p, i) \<in> users (slab_cache s) Sl" and i: "i < unat (num (slab_cache s c))" "i \<notin> set is"
    and h: "h = (if is = [] then list_add (SlabsNotfull c) (SlabLink a) (list_del (SlabLink a) (slinks s))
      else slinks s)"
  shows "\<exists>R'. slab_inv t P F (Sl(a \<mapsto> (c, p, i # is))) R' (slab_after s a i h)"
proof -
  let ?kc = "slab_cache s"
  note ok = slab_inv_ok [OF inv a] and rs = slab_invD(6) [OF inv] and lm = slab_invD(7) [OF inv]
  have c: "c < SLAB_CACHE_NUM" using ok by (simp add: slab_ok_def Let_def)
  have ok': "slab_ok (slab_after s a i h) a c p (i # is)"
    by (rule put_back_ok(1) [OF ok i]) simp_all
  have hdr: "\<exists>y \<in> live ?kc (Sl(a \<mapsto> (c, p, i # is))). fst y = slab_cachep (?kc c') \<and> obj_at ?kc y = b"
    if b: "Sl b = Some (c', p', js)" and off: "off_slab (?kc c')" for b c' p' js
  proof -
    obtain y where y: "y \<in> live ?kc Sl" "fst y = slab_cachep (?kc c')" "obj_at ?kc y = b"
      using slab_inv_header [OF inv b off] by blast
    then have "y \<in> headers ?kc Sl" using b off by (auto simp: headers_def off_headers_def)
    then have "y \<noteq> (c, p, i)" using x by (auto simp: users_def)
    then show ?thesis using y by (auto simp: live_put [OF inv a])
  qed
  have "\<exists>R'. rings h slab_heads R' \<and> lists_match (Sl(a \<mapsto> (c, p, i # is))) R'"
  proof (cases "is = []")
    case False
    then show ?thesis using rs lists_match_keep [OF lm a] by (auto simp: h)
  next
    case True
    have "SlabLink a \<in> set (R (SlabsFull c))" using lm a c True by (auto simp: lists_match_def)
    then obtain ys zs where R: "R (SlabsFull c) = ys @ SlabLink a # zs" by (auto simp: in_set_conv_decomp)
    note un = rings_member_unique(1) [OF rs slab_head_mem(2) [OF c] R]
    have "rings h slab_heads (R(SlabsFull c := ys @ zs, SlabsNotfull c := SlabLink a # R (SlabsNotfull c)))"
      using rings_move [OF rs slab_head_mem(2) [OF c] R slab_head_mem(3) [OF c]] True by (simp add: h)
    moreover have "lists_match (Sl(a \<mapsto> (c, p, i # is)))
        (R(SlabsFull c := ys @ zs, SlabsNotfull c := SlabLink a # R (SlabsNotfull c)))"
      using lists_match_open [OF lm _ R c un] a True by simp
    ultimately show ?thesis by blast
  qed
  then obtain R' where R': "rings h slab_heads R'" "lists_match (Sl(a \<mapsto> (c, p, i # is))) R'" by blast
  have "slab_inv t P F (Sl(a \<mapsto> (c, p, i # is))) R' (slab_after s a i h)"
    by (rule slab_inv_upd [OF inv a _ _ _ ok' _ R'(2) hdr]) (simp_all add: R'(1))
  then show ?thesis by blast
qed

section \<open>Destroying an empty slab\<close>

lemma destroy_correct:
  assumes inv: "slab_inv t P F Sl R s" and kc: "slab_cache s = kc" and a: "Sl a = Some (c, p, is)"
    and x: "(c, p, i) \<in> users kc Sl" and i: "i < unat (num (kc c))" "i \<notin> set is"
    and last: "length (i # is) = unat (num (kc c))"
    and cb: "off_slab (kc c) \<Longrightarrow> free_works t kc fre (slab_cachep (kc c))"
  shows "free_post t P Sl kc (c, p, i)
    (kmem_slab_destroy fre c a (slab_after s a i (list_del (SlabLink a) (slinks s))))"
proof -
  let ?Sl = "Sl(a := None)" and ?S = "slab_pages kc c p" and ?n = "2 ^ page_order (kc c) :: nat"
  define s1 where "s1 = slab_after s a i (list_del (SlabLink a) (slinks s))"
  note ok = slab_inv_ok [OF inv a]
  have c: "c < SLAB_CACHE_NUM" and S: "?S \<subseteq> {..<229376}" using ok kc by (auto simp: slab_ok_def Let_def)
  have ck: "cache_ok kc c" using caches_okD [OF slab_invD(1) [OF inv] c] kc by simp
  have ds: "distinct (i # is)" "set (i # is) \<subseteq> {..<unat (num (kc c))}" using ok i kc by (auto simp: slab_ok_def Let_def)
  have "set (i # is) = {..<unat (num (kc c))}"
    by (rule card_subset_eq) (use ds last distinct_card [OF ds(1)] in auto)
  then have "{(c, p, j) |j. j < unat (num (kc c)) \<and> j \<notin> set is} = {(c, p, i)}" using i by auto
  then have lv: "live kc Sl = insert (c, p, i) (live kc ?Sl)" using live_old [OF inv a] kc by simp
  have new: "(c, p, i) \<notin> live kc ?Sl" using live_rest [OF inv a] kc by simp
  have xh: "(c, p, i) \<notin> headers kc Sl" using x by (simp add: users_def)
  obtain R1 where I1: "slab_inv t (P - ?S) F ?Sl R1 s1"
    using slab_inv_remove [OF inv a c _ _ _ _ _ _, of "(c, p, i)" s1] lv xh kc by (auto simp: s1_def)
  have k1: "slab_cache s1 = kc" by (simp add: s1_def kc)
  have page: "kva2page (s_mem (slabs s1 a) - sl_offset (slabs s1 a)) = p"
  proof -
    have "s_mem (slabs s1 a) - sl_offset (slabs s1 a) = page2kva p"
      using ok kc by (simp add: slab_ok_def Let_def s1_def put_back_def)
    then show ?thesis using S slab_pages_first [of p kc c] by (metis page2kva_page lessThan_iff subsetD)
  qed
  define fr1 where "fr1 = clear_slab_pages p ?n (frames s1)"
  note cl = clear_slab_pages_fields [of p ?n "frames s1", folded fr1_def]
  have out: "F \<inter> all_pages kc ?Sl = {}" "F \<union> all_pages kc ?Sl = P - ?S" "P - ?S \<subseteq> {..<229376}"
    using slab_invD(3-5) [OF I1] k1 by auto
  have "slab_inv t (P - ?S) F ?Sl R1 (s1\<lparr>frames := fr1\<rparr>)"
  proof (rule slab_inv_frames [OF I1])
    show "buddy_rel t fr1 F" by (rule buddy_rel_frame [OF slab_invD(2) [OF I1]]) (use cl in auto)
    show "F \<inter> all_pages (slab_cache s1) ?Sl = {}" "F \<union> all_pages (slab_cache s1) ?Sl = P - ?S"
      "P - ?S \<subseteq> {..<229376}" using out k1 by auto
    fix q assume "q \<in> all_pages (slab_cache s1) ?Sl"
    then have "q \<notin> {p..<p + ?n}" using out(2) k1 unfolding slab_pages_def by blast
    then show "links fr1 (PageLink q) = links (frames s1) (PageLink q) \<and> flags (pg fr1 q) = flags (pg (frames s1) q)"
      using cl [of q] by auto
  qed
  from slab_inv_free_pages [OF this order_bound [OF ck], of p] obtain fr2 where
    fr2: "free_pages buddy_pmm_manager p ?n fr1 = Some fr2"
      "slab_inv t (?S \<union> (P - ?S)) (F \<union> ?S) ?Sl R1 (s1\<lparr>frames := fr2\<rparr>)"
    using S by (auto simp: slab_pages_def)
  have "?S \<subseteq> P"
    using layout_pages [of Sl a c p "is" kc, OF a] slab_invD(4) [OF inv] kc by blast
  then have P: "?S \<union> (P - ?S) = P" by blast
  define s2 where "s2 = s1\<lparr>frames := fr2\<rparr>"
  have I2: "slab_inv t P (F \<union> ?S) ?Sl R1 s2" using fr2(2) P by (simp add: s2_def)
  have k2: "slab_cache s2 = kc" by (simp add: s2_def k1)
  have res: "kmem_slab_destroy fre c a s1 = (if off_slab (kc c) then fre (slab_cachep (kc c)) a s2 else Some s2)"
    unfolding kmem_slab_destroy_def Let_def page k1 fr1_def [symmetric] by (simp add: fr2(1) s2_def k1)
  note U = users_remove [OF inv a, unfolded kc, OF lv new x]
  show ?thesis
  proof (cases "off_slab (kc c)")
    case False
    then show ?thesis using U I2 k2 res unfolding free_post_def s1_def [symmetric] by auto
  next
    case True
    obtain y where y: "y \<in> users kc ?Sl" "fst y = slab_cachep (kc c)" "obj_at kc y = a"
      "users kc ?Sl - {y} = users kc Sl - {(c, p, i)}" using U True by auto
    have "free_post t P ?Sl kc y (fre (slab_cachep (kc c)) (obj_at kc y) s2)"
      by (rule free_worksD [OF cb [OF True] I2 k2 y(1,2)])
    then show ?thesis using res True y(3,4) unfolding free_post_def s1_def [symmetric] by auto
  qed
qed

section \<open>Freeing as a whole\<close>

lemma free_correct_step:
  assumes cb: "off_slab (kc c) \<Longrightarrow> free_works t kc kmem_cache_free (slab_cachep (kc c))"
  shows "free_works t kc kmem_cache_free c"
  unfolding free_works_def
proof (intro allI impI)
  fix P F Sl R s x
  assume inv: "slab_inv t P F Sl R s" and kc: "slab_cache s = kc" and x: "x \<in> users kc Sl" "fst x = c"
  obtain p i where xe: "x = (c, p, i)" using x(2) by (cases x) auto
  have xl: "(c, p, i) \<in> live (slab_cache s) Sl" using x xe kc by (simp add: users_def)
  obtain a "is" where a: "Sl a = Some (c, p, is)" "i < unat (num (kc c))" "i \<notin> set is"
    "GET_PAGE_SLAB (kva2page (obj_at kc (c, p, i))) (frames s) = Some a"
    using find_slab [OF inv xl] kc by blast
  note ok = slab_inv_ok [OF inv a(1)]
  have len: "length (i # is) \<le> unat (num (kc c))"
    using put_back_ok(2) [OF ok, of i "slab_after s a i (slinks s)"] a(2,3) kc by simp
  note U = free_one_unfold [OF slab_invD(1) [OF inv] ok live_obj_ok [OF inv xl], unfolded kc, OF len]
  have step: "kmem_cache_free c (obj_at kc x) s = kmem_cache_free_one kmem_cache_free c a (obj_at kc x) s"
    using a(4) xe by (subst kmem_cache_free.simps) simp
  show "free_post t P Sl kc x (kmem_cache_free c (obj_at kc x) s)"
  proof (cases "length (i # is) = unat (num (kc c))")
    case True
    then show ?thesis
      using destroy_correct [OF inv kc a(1) _ a(2,3) True cb] x(1) U [of kmem_cache_free] step unfolding xe by simp
  next
    case False
    define h where "h = (if is = [] then list_add (SlabsNotfull c) (SlabLink a) (list_del (SlabLink a) (slinks s))
      else slinks s)"
    obtain R' where R': "slab_inv t P F (Sl(a \<mapsto> (c, p, i # is))) R' (slab_after s a i h)"
      using put_back_correct [OF inv a(1) _ _ a(3) h_def] x(1) a(2) xe kc by blast
    have "kmem_cache_free c (obj_at kc x) s = Some (slab_after s a i h)"
      using U [of kmem_cache_free] False step unfolding xe h_def by simp
    moreover have "users kc (Sl(a \<mapsto> (c, p, i # is))) = users kc Sl - {x}"
      using users_put [OF inv a(1)] x(1) xe kc by simp
    ultimately show ?thesis using R' kc unfolding free_post_def by (simp del: split_paired_Ex) blast
  qed
qed

lemma free_correct:
  assumes ck: "caches_ok kc" and c: "c < SLAB_CACHE_NUM"
  shows "free_works t kc kmem_cache_free c"
proof (rule free_correct_step)
  assume "off_slab (kc c)"
  then have d: "slab_cachep (kc c) < SLAB_CACHE_NUM" "\<not> off_slab (kc (slab_cachep (kc c)))"
    using caches_okD [OF ck c] by (simp_all add: cache_ok_def Let_def)
  show "free_works t kc kmem_cache_free (slab_cachep (kc c))" by (rule free_correct_step) (simp add: d(2))
qed

end
