(* ===== verification/SlabInit.thy ===== *)
theory SlabInit
  imports SlabInv
begin

text \<open>
  \<open>slab_init\<close>: what the thirteen caches look like after it, by evaluation of the layout code, and
  that it establishes the invariant of the slab allocator.
\<close>

section \<open>The caches that \<open>slab_init\<close> lays out\<close>

text \<open>For each cache: objects per slab, offset of the first, whether the control blocks are kept
  outside the slabs, order of the slabs, and the cache of the control blocks.\<close>

definition std_caches :: "(u32 \<times> u32 \<times> bool \<times> nat \<times> nat) list" where
  "std_caches = [(113, 480, False, 0, 0), (59, 272, False, 0, 0), (30, 144, False, 0, 0), (15, 96, False, 0, 0),
     (8, 0, True, 0, 1), (4, 0, True, 0, 1), (2, 0, True, 0, 0), (1, 0, True, 0, 0), (1, 0, True, 1, 0),
     (1, 0, True, 2, 0), (1, 0, True, 3, 0), (1, 0, True, 4, 0), (1, 0, True, 5, 0)]"

definition std_size :: "nat \<Rightarrow> u32" where
  "std_size c = push_bit (c + MIN_SIZE_ORDER) 1"

definition std_cache :: "nat \<Rightarrow> kmem_cache \<Rightarrow> kmem_cache" where
  "std_cache c k = (case std_caches ! c of (n, off, big, ord, cp) \<Rightarrow>
     k\<lparr>objsize := std_size c, num := n, kc_offset := off, off_slab := big, page_order := ord,
       slab_cachep := (if big then cp else slab_cachep k)\<rparr>)"

definition accepts :: "u32 \<Rightarrow> bool \<Rightarrow> nat \<Rightarrow> bool option" where
  "accepts osize off k = map_option (\<lambda>(r, n). n \<noteq> 0 \<and> r * 8 \<le> push_bit k PGSIZE) (cache_estimate k osize 16 off)"

definition std_row :: "nat \<Rightarrow> bool" where
  "std_row c = (case std_caches ! c of (n, off, big, ord, cp) \<Rightarrow>
     (let o' = std_size c; big0 = (drop_bit 3 PGSIZE \<le> o'); mg = slab_mgmt_size n 16 in
      ROUNDUP o' 16 = o' \<and> ord \<le> KMALLOC_MAX_ORDER \<and>
      list_all (\<lambda>i. accepts o' big0 i = Some False) [0..<ord] \<and> accepts o' big0 ord = Some True \<and>
      (case cache_estimate ord o' 16 big0 of None \<Rightarrow> False | Some (r, m) \<Rightarrow>
         m = n \<and> big = (big0 \<and> \<not> mg \<le> r) \<and> off = (if big then 0 else mg) \<and>
         (if big then cp = slab_getorder mg - MIN_SIZE_ORDER else True))))"

lemma std_rows: "list_all std_row [0..<SLAB_CACHE_NUM]"
  by code_simp

lemma slab_order_skip:
  assumes "k \<le> j" "j \<le> KMALLOC_MAX_ORDER" "\<forall>i \<in> {k..<j}. accepts osize off i = Some False"
    and "accepts osize off j = Some True" "cache_estimate j osize 16 off = Some (r, n)"
  shows "slab_order_loop k osize 16 off cachep = Some (cachep\<lparr>num := n, page_order := j\<rparr>, Some r)"
  using assms(1,3)
proof (induction k rule: inc_induct)
  case base
  then show ?case using assms by (subst slab_order_loop.simps) (simp add: accepts_def)
next
  case (step k)
  then have "accepts osize off k = Some False" by simp
  then obtain r' m where "cache_estimate k osize 16 off = Some (r', m)" "\<not> (m \<noteq> 0 \<and> r' * 8 \<le> push_bit k PGSIZE)"
    by (auto simp: accepts_def)
  then show ?case using step assms(2) by (subst slab_order_loop.simps) auto
qed

lemma init_kmem_cache_std:
  assumes c: "c < SLAB_CACHE_NUM"
  shows "init_kmem_cache c (std_size c) 16 s = Some
    (s\<lparr>slinks := list_init (SlabsNotfull c) (list_init (SlabsFull c) (slinks s)),
       slab_cache := (slab_cache s)(c := std_cache c (slab_cache s c))\<rparr>)"
proof -
  obtain n off big ord cp where t: "std_caches ! c = (n, off, big, ord, cp)" by (cases "std_caches ! c") auto
  define big0 where "big0 = (drop_bit 3 PGSIZE \<le> std_size c)"
  have row: "std_row c" using std_rows c by (simp add: list_all_iff)
  then obtain r where r: "cache_estimate ord (std_size c) 16 big0 = Some (r, n)"
    by (auto simp: std_row_def t Let_def big0_def split: option.splits)
  have a: "ROUNDUP (std_size c) 16 = std_size c" "ord \<le> KMALLOC_MAX_ORDER"
    "\<forall>i \<in> {0..<ord}. accepts (std_size c) big0 i = Some False" "accepts (std_size c) big0 ord = Some True"
    "big \<longleftrightarrow> big0 \<and> \<not> slab_mgmt_size n 16 \<le> r" "off = (if big then 0 else slab_mgmt_size n 16)"
    "big \<Longrightarrow> cp = slab_getorder (slab_mgmt_size n 16) - MIN_SIZE_ORDER"
    using row r unfolding std_row_def t Let_def by (auto simp: big0_def list_all_iff)
  have loop: "calculate_slab_order k (std_size c) 16 big0 = Some (k\<lparr>num := n, page_order := ord\<rparr>, Some r)" for k
    unfolding calculate_slab_order_def by (rule slab_order_skip [OF _ a(2-4) r]) simp
  show ?thesis
    unfolding init_kmem_cache_def Let_def a(1) big0_def [symmetric]
    using a(5-7) by (cases "slab_cache s c") (auto simp: loop std_cache_def t)
qed

section \<open>The state after \<open>slab_init\<close>\<close>

definition kheap_init :: "kmem \<Rightarrow> nat \<Rightarrow> kmem" where
  "kheap_init s n = s\<lparr>slinks := fold (\<lambda>c h. list_init (SlabsNotfull c) (list_init (SlabsFull c) h)) [0..<n] (slinks s),
     slab_cache := (\<lambda>c. if c < n then std_cache c (slab_cache s c) else slab_cache s c)\<rparr>"

lemma slab_init_steps:
  "n \<le> SLAB_CACHE_NUM \<Longrightarrow>
   fold (\<lambda>i r. Option.bind r (init_kmem_cache i (push_bit (i + MIN_SIZE_ORDER) 1) 16)) [0..<n] (Some s)
     = Some (kheap_init s n)"
proof (induction n)
  case 0
  then show ?case by (simp add: kheap_init_def)
next
  case (Suc n)
  then have n: "n < SLAB_CACHE_NUM" by simp
  have "init_kmem_cache n (push_bit (n + MIN_SIZE_ORDER) 1) 16 (kheap_init s n) = Some (kheap_init s (Suc n))"
    unfolding init_kmem_cache_std [OF n, unfolded std_size_def]
    by (auto simp: kheap_init_def intro!: kmem.equality ext)
  with Suc show ?case by simp
qed

lemma slab_init_result: "slab_init s = Some (kheap_init s SLAB_CACHE_NUM)"
  unfolding slab_init_def by (rule slab_init_steps) simp

definition std_kheap :: "(nat \<Rightarrow> kmem_cache) \<Rightarrow> bool" where
  "std_kheap kc \<longleftrightarrow> caches_ok kc \<and> (\<forall>c < SLAB_CACHE_NUM. unat (objsize (kc c)) = 2 ^ (c + MIN_SIZE_ORDER))"

lemma cache_ok_cong:
  assumes "cache_ok kc c" "c < SLAB_CACHE_NUM" "\<And>d. d < SLAB_CACHE_NUM \<Longrightarrow> kc' d = kc d"
  shows "cache_ok kc' c"
  using assms by (auto simp: cache_ok_def Let_def split: if_splits)

lemma cache_numbers: "[0..<SLAB_CACHE_NUM] = [0, 1, 2, 3, 4, 5, 6, 7, 8, 9, 10, 11, 12]"
  by code_simp

lemma std_rows_ok:
  "list_all (\<lambda>c. case std_caches ! c of (n, off, big, ord, cp) \<Rightarrow>
     0 < unat (std_size c) \<and> 0 < unat n \<and> ord \<le> 10 \<and> unat off + unat n * unat (std_size c) \<le> 4096 * 2 ^ ord \<and>
     (if big then cp < SLAB_CACHE_NUM \<and> \<not> fst (snd (snd (std_caches ! cp))) \<and> 24 + 4 * unat n \<le> unat (std_size cp)
      else 24 + 4 * unat n \<le> unat off) \<and> unat (std_size c) = 2 ^ (c + MIN_SIZE_ORDER)) [0..<SLAB_CACHE_NUM]"
  unfolding cache_numbers
  by (simp add: std_caches_def std_size_def SLAB_CACHE_NUM_def MAX_SIZE_ORDER_def MIN_SIZE_ORDER_def)

lemma std_cache_fields:
  assumes "std_caches ! c = (n, off, big, ord, cp)"
  shows "objsize (std_cache c k) = std_size c" "num (std_cache c k) = n" "kc_offset (std_cache c k) = off"
    "off_slab (std_cache c k) = big" "page_order (std_cache c k) = ord"
    "big \<Longrightarrow> slab_cachep (std_cache c k) = cp"
  using assms by (simp_all add: std_cache_def)

lemma std_caches_ok:
  assumes c: "c < SLAB_CACHE_NUM"
  shows "cache_ok (\<lambda>c. std_cache c (k c)) c \<and> unat (objsize (std_cache c (k c))) = 2 ^ (c + MIN_SIZE_ORDER)"
proof -
  obtain n off big ord cp where t: "std_caches ! c = (n, off, big, ord, cp)" by (cases "std_caches ! c") auto
  obtain n2 off2 big2 ord2 cp2 where t2: "std_caches ! cp = (n2, off2, big2, ord2, cp2)"
    by (cases "std_caches ! cp") auto
  note row = std_rows_ok [unfolded list_all_iff, rule_format, of c, unfolded t, simplified]
  show ?thesis
    using row c t2 by (auto simp: cache_ok_def Let_def std_cache_fields [OF t] std_cache_fields [OF t2])
qed

lemma std_kheap_init: "std_kheap (slab_cache (kheap_init s SLAB_CACHE_NUM))"
proof -
  let ?kc = "slab_cache (kheap_init s SLAB_CACHE_NUM)"
  have eq: "?kc d = std_cache d (slab_cache s d)" if "d < SLAB_CACHE_NUM" for d
    using that by (simp add: kheap_init_def)
  have "cache_ok ?kc c \<and> unat (objsize (?kc c)) = 2 ^ (c + MIN_SIZE_ORDER)" if c: "c < SLAB_CACHE_NUM" for c
    using std_caches_ok [OF c, of "slab_cache s"] cache_ok_cong [OF _ c eq] eq [OF c] by simp
  then show ?thesis by (simp add: std_kheap_def caches_ok_def)
qed

lemma init_rings:
  "rings (fold (\<lambda>c h. list_init (SlabsNotfull c) (list_init (SlabsFull c) h)) [0..<n] h)
    (\<Union>c \<in> {..<n}. {SlabsFull c, SlabsNotfull c}) (\<lambda>_. [])"
proof (induction n)
  case 0
  then show ?case by (simp add: rings_def)
next
  case (Suc n)
  let ?A = "\<Union>c \<in> {..<n}. {SlabsFull c, SlabsNotfull c}"
  have "rings (list_init (SlabsFull n) (fold (\<lambda>c h. list_init (SlabsNotfull c) (list_init (SlabsFull c) h)) [0..<n] h))
      (insert (SlabsFull n) ?A) (\<lambda>_. [])"
    using rings_init [OF Suc, of "SlabsFull n"] by (auto simp: fun_upd_idem)
  from rings_init [OF this, of "SlabsNotfull n"]
  have "rings (list_init (SlabsNotfull n) (list_init (SlabsFull n)
      (fold (\<lambda>c h. list_init (SlabsNotfull c) (list_init (SlabsFull c) h)) [0..<n] h)))
      (insert (SlabsNotfull n) (insert (SlabsFull n) ?A)) (\<lambda>_. [])"
    by (auto simp: fun_upd_idem)
  moreover have "insert (SlabsNotfull n) (insert (SlabsFull n) ?A) =
      (\<Union>c \<in> {..<Suc n}. {SlabsFull c, SlabsNotfull c})" by (auto simp: lessThan_Suc)
  ultimately show ?case by simp
qed

lemma slab_init_inv:
  assumes "buddy_rel t (frames s) F" "F \<subseteq> {..<229376}"
  shows "slab_inv t F F (\<lambda>_. None) (\<lambda>_. []) (kheap_init s SLAB_CACHE_NUM)"
proof -
  have "rings (slinks (kheap_init s SLAB_CACHE_NUM)) slab_heads (\<lambda>_. [])"
    using init_rings [of SLAB_CACHE_NUM "slinks s"] by (simp add: kheap_init_def slab_heads_def)
  moreover have "frames (kheap_init s SLAB_CACHE_NUM) = frames s" by (simp add: kheap_init_def)
  ultimately show ?thesis
    using std_kheap_init [of s] assms
    by (simp add: slab_inv_def Let_def std_kheap_def all_pages_def lists_match_def)
qed

end
