(* ===== verification/Kmalloc.thy ===== *)
theory Kmalloc
  imports SlabFree SlabInit
begin

text \<open>
  \<open>kmalloc\<close> and \<open>kfree\<close> as their callers see them: an interface of object allocators over the set of
  blocks in use, its consequences for a caller, and the proof that kern/mm/slab.c provides it.
\<close>

section \<open>The interface\<close>

text \<open>A block is an address and a length.\<close>

type_synonym block = "u32 \<times> nat"

definition block_bytes :: "block \<Rightarrow> nat set" where
  "block_bytes b = {unat (fst b)..<unat (fst b) + snd b}"

definition blocks_apart :: "block set \<Rightarrow> bool" where
  "blocks_apart H \<longleftrightarrow> (\<forall>b \<in> H. 0 < snd b \<and> unat (fst b) + snd b \<le> 2 ^ 32) \<and>
     (\<forall>b \<in> H. \<forall>b' \<in> H. b \<noteq> b' \<longrightarrow> block_bytes b \<inter> block_bytes b' = {})"

lemma blocks_apart_addr:
  assumes "blocks_apart H" "b \<in> H" "b' \<in> H" "fst b = fst b'"
  shows "b = b'"
proof (rule ccontr)
  assume "b \<noteq> b'"
  then have "block_bytes b \<inter> block_bytes b' = {}" using assms(1-3) by (auto simp: blocks_apart_def)
  moreover have "0 < snd b" "0 < snd b'" using assms(1-3) by (auto simp: blocks_apart_def)
  ultimately show False using assms(4) by (auto simp: block_bytes_def)
qed

lemma blocks_apart_image:
  assumes "\<And>x. x \<in> U \<Longrightarrow> 0 < g x" "\<And>x. x \<in> U \<Longrightarrow> unat (f x) + g x \<le> 2 ^ 32"
    and "\<And>x y. x \<in> U \<Longrightarrow> y \<in> U \<Longrightarrow> x \<noteq> y \<Longrightarrow> block_bytes (f x, g x) \<inter> block_bytes (f y, g y) = {}"
  shows "blocks_apart ((\<lambda>x. (f x, g x)) ` U)"
  unfolding blocks_apart_def using assms by fastforce

text \<open>The requests of a caller that remembers the blocks it holds in the order it received them:
  \<open>Release i\<close> gives back the \<open>i\<close>-th.\<close>

datatype request = Request u32 | Release nat

fun serve ::
  "(u32 \<Rightarrow> 's \<Rightarrow> (u32 option \<times> 's) option) \<Rightarrow> (u32 \<Rightarrow> 's \<Rightarrow> 's option) \<Rightarrow> request list \<Rightarrow> u32 list \<Rightarrow> 's \<Rightarrow>
   (u32 list \<times> 's) option" where
  "serve alloc fre [] vs s = Some (vs, s)"
| "serve alloc fre (Request n # rs) vs s =
     do { (r, s) \<leftarrow> alloc n s;
          serve alloc fre rs (case r of None \<Rightarrow> vs | Some v \<Rightarrow> vs @ [v]) s }"
| "serve alloc fre (Release i # rs) vs s =
     (if i < length vs
      then do { s \<leftarrow> fre (vs ! i) s; serve alloc fre rs (take i vs @ drop (Suc i) vs) s }
      else serve alloc fre rs vs s)"

locale object_allocator =
  fixes rel :: "'s \<Rightarrow> block set \<Rightarrow> bool"
    and alloc :: "u32 \<Rightarrow> 's \<Rightarrow> (u32 option \<times> 's) option"
    and fre :: "u32 \<Rightarrow> 's \<Rightarrow> 's option"
  assumes alloc_some: "rel s H \<Longrightarrow> alloc n s = Some (Some v, s') \<Longrightarrow>
      \<exists>m \<ge> unat n. (v, m) \<notin> H \<and> rel s' (insert (v, m) H)"
    and alloc_null: "rel s H \<Longrightarrow> alloc n s = Some (None, s') \<Longrightarrow> rel s' H"
    and free_held: "rel s H \<Longrightarrow> (v, m) \<in> H \<Longrightarrow> \<exists>s'. fre v s = Some s' \<and> rel s' (H - {(v, m)})"
    and apart: "rel s H \<Longrightarrow> blocks_apart H"
begin

lemma alloc_free:
  assumes "rel s H" "alloc n s = Some (Some v, s')"
  shows "\<exists>s2. fre v s' = Some s2 \<and> rel s2 H"
proof -
  obtain m where m: "(v, m) \<notin> H" "rel s' (insert (v, m) H)" using alloc_some [OF assms] by blast
  from free_held [OF m(2), of v m] m(1) show ?thesis by auto
qed

definition holds :: "'s \<Rightarrow> u32 list \<Rightarrow> block set \<Rightarrow> bool" where
  "holds s vs H \<longleftrightarrow> rel s H \<and> distinct vs \<and> fst ` H = set vs"

lemma holds_request:
  assumes "holds s vs H" "alloc n s = Some (r, s')"
  shows "\<exists>H'. holds s' (case r of None \<Rightarrow> vs | Some v \<Rightarrow> vs @ [v]) H'"
proof (cases r)
  case None
  then have "rel s' H" using assms alloc_null by (auto simp: holds_def)
  then show ?thesis using None assms(1) by (auto simp: holds_def)
next
  case (Some v)
  then obtain m where m: "(v, m) \<notin> H" "rel s' (insert (v, m) H)"
    using assms alloc_some [of s H n v s'] by (auto simp: holds_def)
  have "v \<notin> fst ` H"
    using blocks_apart_addr [OF apart [OF m(2)], of "(v, m)"] m(1) by fastforce
  then have "holds s' (vs @ [v]) (insert (v, m) H)" using assms(1) m by (auto simp: holds_def)
  then show ?thesis using Some by auto
qed

lemma holds_release:
  assumes h: "holds s vs H" and i: "i < length vs"
  shows "\<exists>s' H'. fre (vs ! i) s = Some s' \<and> holds s' (take i vs @ drop (Suc i) vs) H'"
proof -
  have rl: "rel s H" and d: "distinct vs" and f: "fst ` H = set vs" using h by (auto simp: holds_def)
  obtain m where m: "(vs ! i, m) \<in> H" using f nth_mem [OF i] by force
  obtain s' where s': "fre (vs ! i) s = Some s'" "rel s' (H - {(vs ! i, m)})"
    using free_held [OF rl m] by blast
  have split: "vs = take i vs @ vs ! i # drop (Suc i) vs" by (rule id_take_nth_drop [OF i])
  have "distinct (take i vs @ vs ! i # drop (Suc i) vs)" using d split by simp
  then have d': "distinct (take i vs @ drop (Suc i) vs)" "vs ! i \<notin> set (take i vs @ drop (Suc i) vs)" by auto
  have "set vs = insert (vs ! i) (set (take i vs @ drop (Suc i) vs))" using arg_cong [OF split, of set] by auto
  then have "set (take i vs @ drop (Suc i) vs) = set vs - {vs ! i}" using d'(2) by blast
  moreover have "fst ` (H - {(vs ! i, m)}) = fst ` H - {vs ! i}"
    using blocks_apart_addr [OF apart [OF rl] m] by force
  ultimately have "holds s' (take i vs @ drop (Suc i) vs) (H - {(vs ! i, m)})"
    using s'(2) d'(1) f by (simp add: holds_def)
  then show ?thesis using s'(1) by blast
qed

lemma serve_holds:
  "holds s vs H \<Longrightarrow> serve alloc fre rs vs s = Some (vs', s') \<Longrightarrow> \<exists>H'. holds s' vs' H'"
proof (induction rs arbitrary: vs s H)
  case (Cons r rs)
  show ?case
  proof (cases r)
    case (Request n)
    then obtain x s1 where 1: "alloc n s = Some (x, s1)"
      "serve alloc fre rs (case x of None \<Rightarrow> vs | Some v \<Rightarrow> vs @ [v]) s1 = Some (vs', s')"
      using Cons.prems(2) by (auto split: Option.bind_splits)
    from holds_request [OF Cons.prems(1) 1(1)] Cons.IH 1(2) show ?thesis by blast
  next
    case (Release i)
    show ?thesis
    proof (cases "i < length vs")
      case True
      then obtain s1 H1 where 1: "fre (vs ! i) s = Some s1" "holds s1 (take i vs @ drop (Suc i) vs) H1"
        using holds_release [OF Cons.prems(1)] by blast
      then show ?thesis using Cons.IH [OF 1(2)] Cons.prems(2) True Release by simp
    next
      case False
      then show ?thesis using Cons.IH [OF Cons.prems(1)] Cons.prems(2) Release by simp
    qed
  qed
qed auto

lemma serve_apart:
  assumes "rel s {}" "serve alloc fre rs [] s = Some (vs, s')"
  shows "\<exists>H. rel s' H \<and> fst ` H = set vs \<and> distinct vs \<and> blocks_apart H"
proof -
  have "holds s [] {}" using assms(1) by (simp add: holds_def)
  from serve_holds [OF this assms(2)] show ?thesis using apart by (auto simp: holds_def)
qed

end

text \<open>An allocator that also answers every request, with a block or a null pointer.\<close>

locale answering_allocator = object_allocator +
  assumes alloc_answers: "rel s H \<Longrightarrow> \<exists>r s'. alloc n s = Some (r, s')"
begin

lemma serve_answers: "holds s vs H \<Longrightarrow> \<exists>vs' s'. serve alloc fre rs vs s = Some (vs', s')"
proof (induction rs arbitrary: vs s H)
  case (Cons r rs)
  show ?case
  proof (cases r)
    case (Request n)
    obtain x s1 where 1: "alloc n s = Some (x, s1)" using alloc_answers [of s H n] Cons.prems by (auto simp: holds_def)
    from holds_request [OF Cons.prems 1] Cons.IH 1 Request show ?thesis by auto
  next
    case (Release i)
    then show ?thesis
      using Cons.IH Cons.prems holds_release [OF Cons.prems, of i] by (cases "i < length vs") fastforce+
  qed
qed simp

end

section \<open>Sizes and caches\<close>

lemma getorder_step: "push_bit 1 (push_bit k 1) = (push_bit (Suc k) 1 :: u32)"
  by (simp add: push_bit_push_bit)

lemma unat_order_size: "k \<le> 17 \<Longrightarrow> unat (push_bit k 1 :: u32) = 2 ^ k"
proof -
  assume "k \<le> 17"
  then have "(2::nat) ^ k \<le> 2 ^ 17" by (rule power_increasing) simp
  then have "(2::nat) ^ k < 4294967296" by simp
  from unat_of_nat_u32 [OF this] show ?thesis by (simp add: push_bit_eq_mult)
qed

lemma slab_getorder_loop_least:
  assumes "k \<le> 18" "\<And>j. 5 \<le> j \<Longrightarrow> j < k \<Longrightarrow> 2 ^ j < unat n" "5 \<le> k"
  shows "slab_getorder_loop k (push_bit k 1) n =
    (if unat n \<le> 2 ^ 17 then LEAST j. 5 \<le> j \<and> unat n \<le> 2 ^ j else 4294967295)"
  using assms
proof (induction "18 - k" arbitrary: k)
  case 0
  then have "k = 18" by simp
  then show ?case using 0(3) [of 17] by (subst slab_getorder_loop.simps) (simp add: MAX_SIZE_ORDER_def)
next
  case (Suc d)
  then have k: "k \<le> 17" by simp
  show ?case
  proof (cases "n \<le> push_bit k 1")
    case True
    then have nk: "unat n \<le> 2 ^ k" using unat_order_size [OF k] by (metis word_le_nat_alt)
    have "(LEAST j. 5 \<le> j \<and> unat n \<le> 2 ^ j) = k"
    proof (rule Least_equality)
      fix j assume "5 \<le> j \<and> unat n \<le> 2 ^ j"
      then show "k \<le> j" using Suc.prems(2) [of j] by (metis not_le)
    qed (use Suc.prems(3) nk in simp)
    moreover have "(2::nat) ^ k \<le> 2 ^ 17" using k by (rule power_increasing) simp
    then have "unat n \<le> 2 ^ 17" using nk by linarith
    ultimately show ?thesis using True k by (subst slab_getorder_loop.simps) (simp add: MAX_SIZE_ORDER_def)
  next
    case False
    then have nk: "2 ^ k < unat n" using unat_order_size [OF k] by (metis not_le word_le_nat_alt)
    have "slab_getorder_loop k (push_bit k 1) n = slab_getorder_loop (Suc k) (push_bit 1 (push_bit k 1)) n"
      using False k by (subst slab_getorder_loop.simps) (simp add: MAX_SIZE_ORDER_def)
    also have "\<dots> = slab_getorder_loop (Suc k) (push_bit (Suc k) 1) n" unfolding getorder_step ..
    also have "\<dots> = (if unat n \<le> 2 ^ 17 then LEAST j. 5 \<le> j \<and> unat n \<le> 2 ^ j else 4294967295)"
    proof (rule Suc.hyps(1))
      show "2 ^ j < unat n" if "5 \<le> j" "j < Suc k" for j
        using Suc.prems(2) that nk by (cases "j = k") auto
    qed (use Suc k in auto)
    finally show ?thesis .
  qed
qed

lemma slab_getorder_least:
  "slab_getorder n = (if unat n \<le> 2 ^ 17 then LEAST j. 5 \<le> j \<and> unat n \<le> 2 ^ j else 4294967295)"
  unfolding slab_getorder_def MIN_SIZE_ORDER_def by (rule slab_getorder_loop_least) auto

lemma slab_getorder_bounds:
  assumes "unat n \<le> 2 ^ 17"
  shows "5 \<le> slab_getorder n" "slab_getorder n \<le> 17" "unat n \<le> 2 ^ slab_getorder n"
proof -
  let ?P = "\<lambda>j. 5 \<le> j \<and> unat n \<le> 2 ^ j"
  have "?P 17" using assms by simp
  from LeastI [of ?P, OF this] Least_le [of ?P, OF this]
  show "5 \<le> slab_getorder n" "slab_getorder n \<le> 17" "unat n \<le> 2 ^ slab_getorder n"
    using assms by (simp_all add: slab_getorder_least)
qed

section \<open>The slab allocator provides the interface\<close>

definition held_blocks :: "(nat \<Rightarrow> kmem_cache) \<Rightarrow> object set \<Rightarrow> block set" where
  "held_blocks kc U = (\<lambda>x. (obj_at kc x, unat (objsize (kc (fst x))))) ` U"

text \<open>\<open>P\<close> are the pages the two allocators share, \<open>t\<close> the end of the last list of the page
  allocator, \<open>H\<close> the blocks the callers hold.\<close>

definition kheap :: "page_ptr \<Rightarrow> nat set \<Rightarrow> kmem \<Rightarrow> block set \<Rightarrow> bool" where
  "kheap t P s H \<longleftrightarrow> (\<exists>F Sl R. slab_inv t P F Sl R s \<and> std_kheap (slab_cache s) \<and>
     H = held_blocks (slab_cache s) (users (slab_cache s) Sl))"

lemma kheap_intro:
  "slab_inv t P F Sl R s \<Longrightarrow> std_kheap (slab_cache s) \<Longrightarrow>
   kheap t P s (held_blocks (slab_cache s) (users (slab_cache s) Sl))"
  unfolding kheap_def by blast

lemma users_live: "x \<in> users kc Sl \<Longrightarrow> x \<in> live kc Sl"
  by (simp add: users_def)

lemma held_block_new:
  assumes inv: "slab_inv t P F Sl R s" and "insert x U \<subseteq> users (slab_cache s) Sl" "x \<notin> U"
  shows "(obj_at (slab_cache s) x, m) \<notin> held_blocks (slab_cache s) U"
proof
  assume "(obj_at (slab_cache s) x, m) \<in> held_blocks (slab_cache s) U"
  then obtain y where y: "y \<in> U" "obj_at (slab_cache s) y = obj_at (slab_cache s) x"
    by (auto simp: held_blocks_def)
  then have "y = x" using assms(2) by (intro obj_at_inj [OF inv]) (auto simp: users_live)
  then show False using y(1) assms(3) by simp
qed

lemma kheap_apart:
  assumes "kheap t P s H"
  shows "blocks_apart H"
proof -
  let ?kc = "slab_cache s"
  obtain F Sl R where inv: "slab_inv t P F Sl R s" and H: "H = held_blocks ?kc (users ?kc Sl)"
    using assms by (auto simp: kheap_def)
  note ck = slab_invD(1) [OF inv]
  have rng: "obj_pa ?kc x + unat (objsize (?kc (fst x))) \<le> 939524096" "0 < unat (objsize (?kc (fst x)))"
    if "x \<in> users ?kc Sl" for x
    using obj_pa_range(3,4) [OF ck] live_obj_ok [OF inv users_live [OF that]] by (cases x; auto)+
  have at: "unat (obj_at ?kc x) = 3221225472 + obj_pa ?kc x" if "x \<in> users ?kc Sl" for x
    using rng [OF that] by (simp add: obj_at_def unat_kaddr)
  have bytes: "block_bytes (obj_at ?kc x, unat (objsize (?kc (fst x)))) = (+) 3221225472 ` obj_bytes ?kc x"
    if "x \<in> users ?kc Sl" for x
    unfolding block_bytes_def obj_bytes_def image_add_atLeastLessThan
    using at [OF that] by (simp add: ac_simps)
  have "block_bytes (obj_at ?kc x, unat (objsize (?kc (fst x)))) \<inter>
      block_bytes (obj_at ?kc y, unat (objsize (?kc (fst y)))) = {}"
    if "x \<in> users ?kc Sl" "y \<in> users ?kc Sl" "x \<noteq> y" for x y
    using live_bytes_apart [OF inv users_live [OF that(1)] users_live [OF that(2)] that(3)]
    unfolding bytes [OF that(1)] bytes [OF that(2)] by (simp flip: image_Int)
  moreover have "unat (obj_at ?kc x) + unat (objsize (?kc (fst x))) \<le> 2 ^ 32" if "x \<in> users ?kc Sl" for x
    using rng(1) [OF that] at [OF that] by simp
  ultimately show ?thesis
    using rng(2) unfolding H held_blocks_def by (intro blocks_apart_image) blast+
qed

lemma kmalloc_cases:
  assumes h: "kheap t P s H"
  shows "case kmalloc n s of
     None \<Rightarrow> t = Null
   | Some (None, s') \<Rightarrow> kheap t P s' H
   | Some (Some v, s') \<Rightarrow> unat n \<le> 2 ^ slab_getorder n \<and> (v, 2 ^ slab_getorder n) \<notin> H \<and>
       kheap t P s' (insert (v, 2 ^ slab_getorder n) H)"
proof (cases "unat n \<le> 2 ^ 17")
  case False
  then show ?thesis using h by (simp add: kmalloc_def slab_getorder_least MAX_SIZE_ORDER_def)
next
  case True
  note k = slab_getorder_bounds [OF True]
  obtain F Sl R where inv: "slab_inv t P F Sl R s" and std: "std_kheap (slab_cache s)"
    and H: "H = held_blocks (slab_cache s) (users (slab_cache s) Sl)"
    using h by (auto simp: kheap_def)
  define kc where "kc = slab_cache s"
  define c where "c = slab_getorder n - MIN_SIZE_ORDER"
  have c: "c < SLAB_CACHE_NUM" using k by (simp add: c_def SLAB_CACHE_NUM_def MAX_SIZE_ORDER_def MIN_SIZE_ORDER_def)
  have sz: "unat (objsize (kc c)) = 2 ^ slab_getorder n"
    using std c k by (simp add: std_kheap_def kc_def c_def MIN_SIZE_ORDER_def)
  have res: "kmalloc n s = kmem_cache_alloc c s" using k by (simp add: kmalloc_def c_def MAX_SIZE_ORDER_def)
  have post: "alloc_post t P Sl kc c (kmem_cache_alloc c s)"
    using alloc_worksD [OF alloc_correct [OF slab_invD(1) [OF inv] c] inv refl] by (simp add: kc_def)
  show ?thesis
  proof (cases "kmem_cache_alloc c s")
    case None
    then show ?thesis using post res by (simp add: alloc_post_def)
  next
    case (Some rs)
    obtain r s' where rs: "kmem_cache_alloc c s = Some (r, s')" using Some by (cases rs) simp
    then obtain F' Sl' R' where S: "slab_cache s' = kc" "slab_inv t P F' Sl' R' s'"
      "case r of None \<Rightarrow> users kc Sl' = users kc Sl
       | Some v \<Rightarrow> \<exists>x. fst x = c \<and> v = obj_at kc x \<and> x \<notin> users kc Sl \<and> users kc Sl' = insert x (users kc Sl)"
      using post by (auto simp: alloc_post_def)
    have kh: "kheap t P s' (held_blocks kc (users kc Sl'))"
      using kheap_intro [OF S(2)] std S(1) by (simp add: kc_def)
    show ?thesis
    proof (cases r)
      case None
      then show ?thesis using kh S(3) rs res H by (simp add: kc_def)
    next
      case (Some v)
      then obtain x where x: "fst x = c" "v = obj_at kc x" "x \<notin> users kc Sl" "users kc Sl' = insert x (users kc Sl)"
        using S(3) by (auto simp del: split_paired_Ex)
      have "(v, 2 ^ slab_getorder n) \<notin> held_blocks kc (users kc Sl)"
        using held_block_new [OF S(2), of x "users kc Sl" "2 ^ slab_getorder n"] x S(1) by simp
      moreover have "held_blocks kc (users kc Sl') = insert (v, 2 ^ slab_getorder n) (held_blocks kc (users kc Sl))"
        using x sz by (simp add: held_blocks_def)
      ultimately show ?thesis using kh k(3) rs res H Some by (simp add: kc_def)
    qed
  qed
qed

lemma kfree_correct:
  assumes h: "kheap t P s H" and v: "(v, m) \<in> H"
  shows "\<exists>s'. kfree v s = Some s' \<and> kheap t P s' (H - {(v, m)})"
proof -
  define kc where "kc = slab_cache s"
  obtain F Sl R where inv: "slab_inv t P F Sl R s" and std: "std_kheap kc"
    and H: "H = held_blocks kc (users kc Sl)"
    using h by (auto simp: kheap_def kc_def)
  obtain x where x: "x \<in> users kc Sl" "v = obj_at kc x" "m = unat (objsize (kc (fst x)))"
    using v H by (auto simp: held_blocks_def)
  obtain c p i where xe: "x = (c, p, i)" by (cases x)
  have xl: "(c, p, i) \<in> live (slab_cache s) Sl" using x(1) xe by (simp add: users_def kc_def)
  have c: "c < SLAB_CACHE_NUM" using live_obj_ok [OF inv xl] by (simp add: obj_ok_def)
  have res: "kfree v s = kmem_cache_free c (obj_at kc x) s"
    using find_slab [OF inv xl] xe x(2) by (auto simp: kfree_def kc_def)
  have "free_post t P Sl kc x (kmem_cache_free c (obj_at kc x) s)"
    by (rule free_worksD [OF free_correct inv _ x(1)])
      (use slab_invD(1) [OF inv] c xe in \<open>simp_all add: kc_def\<close>)
  then obtain s' F' Sl' R' where S: "kfree v s = Some s'" "slab_cache s' = kc" "slab_inv t P F' Sl' R' s'"
    "users kc Sl' = users kc Sl - {x}" unfolding res free_post_def by blast
  have inj: "y = x" if "y \<in> users kc Sl" "obj_at kc y = obj_at kc x" for y
    using that x(1) by (intro obj_at_inj [OF inv]) (auto simp: kc_def users_live)
  have "held_blocks kc (users kc Sl - {x}) = H - {(v, m)}"
    unfolding H held_blocks_def using inj x by auto
  then show ?thesis using kheap_intro [OF S(3)] S std by auto
qed

interpretation slab: object_allocator "kheap t P" kmalloc kfree
proof unfold_locales
  fix s H n v s'
  assume "kheap t P s H" "kmalloc n s = Some (Some v, s')"
  then show "\<exists>m \<ge> unat n. (v, m) \<notin> H \<and> kheap t P s' (insert (v, m) H)"
    using kmalloc_cases [of t P s H n] by auto
next
  fix s H n s'
  assume "kheap t P s H" "kmalloc n s = Some (None, s')"
  then show "kheap t P s' H" using kmalloc_cases [of t P s H n] by simp
qed (use kfree_correct kheap_apart in blast)+

text \<open>When the last list of the page allocator is terminated, every request is answered.\<close>

interpretation slab_answers: answering_allocator "kheap (FreeList MAX_ORDER) P" kmalloc kfree
proof unfold_locales
  fix s H n assume "kheap (FreeList MAX_ORDER) P s H"
  then show "\<exists>r s'. kmalloc n s = Some (r, s')"
    using kmalloc_cases [of "FreeList MAX_ORDER" P s H n] by (cases "kmalloc n s") auto
qed

lemma kheap_slab_init:
  assumes "buddy_rel t (frames s) F" "F \<subseteq> {..<229376}"
  shows "\<exists>s'. slab_init s = Some s' \<and> kheap t F s' {}"
proof -
  have "users kc (\<lambda>_. None) = {}" for kc by (auto simp: users_def live_def)
  then show ?thesis
    using kheap_intro [OF slab_init_inv [OF assms] std_kheap_init]
    by (simp add: slab_init_result held_blocks_def)
qed

text \<open>A cache whose control blocks are inside its slabs answers as long as there are pages.\<close>

lemma alloc_succeeds:
  assumes inv: "slab_inv t P F Sl R s" and c: "c < SLAB_CACHE_NUM" and on: "\<not> off_slab (slab_cache s c)"
    and L: "buddy_inv t (frames s) L" "getorder (2 ^ page_order (slab_cache s c)) \<le> j" "j \<le> MAX_ORDER" "L j \<noteq> []"
  shows "\<exists>v s'. kmem_cache_alloc c s = Some (Some v, s')"
proof (cases "R (SlabsNotfull c) = []")
  case False
  then show ?thesis by (rule alloc_from_notfull(2) [OF inv refl c])
next
  case True
  define kc where "kc = slab_cache s"
  let ?n = "2 ^ page_order (kc c) :: nat"
  have "?n \<le> 2 ^ 10"
    using caches_okD [OF slab_invD(1) [OF inv] c] by (intro power_increasing) (simp_all add: cache_ok_def Let_def kc_def)
  then have n: "0 < ?n" "?n \<le> 1024" by simp_all
  obtain p fr where al: "alloc_pages buddy_pmm_manager ?n (frames s) = Some (Some p, fr)"
    using buddy_alloc_pages_succeeds [OF L(1) n L(2-4) [folded kc_def]] unfolding alloc_pages_def buddy_pmm_manager_def
    by auto
  have "\<exists>s1. kmem_cache_grow kmem_cache_alloc c s = Some (True, s1)"
    unfolding grow_unfold [OF al [unfolded kc_def] refl] control_block_def using on by simp
  then obtain s1 where g: "kmem_cache_grow kmem_cache_alloc c s = Some (True, s1)" ..
  have "grow_post t P Sl kc c (kmem_cache_grow kmem_cache_alloc c s)"
    by (rule grow_correct [OF inv _ c]) (use on in \<open>simp_all add: kc_def\<close>)
  then obtain F' Sl' R' where "slab_cache s1 = kc" "slab_inv t P F' Sl' R' s1" "R' (SlabsNotfull c) \<noteq> []"
    unfolding g grow_post_def by auto
  then have "\<exists>v s'. kmem_cache_alloc c s1 = Some (Some v, s')" using alloc_from_notfull(2) c by blast
  moreover have "kmem_cache_alloc c s = kmem_cache_alloc c s1"
    using g notfull_first(1) [OF inv c] True by (subst kmem_cache_alloc.simps) simp
  ultimately show ?thesis by simp
qed

text \<open>A cache with \<open>n\<close> free objects in one of its slabs answers the next \<open>n\<close> requests.\<close>

definition stocked :: "page_ptr \<Rightarrow> nat set \<Rightarrow> nat \<Rightarrow> nat \<Rightarrow> kmem \<Rightarrow> bool" where
  "stocked t P c n s \<longleftrightarrow> c < SLAB_CACHE_NUM \<and>
     (\<exists>F Sl R a p is. slab_inv t P F Sl R s \<and> Sl a = Some (c, p, is) \<and> n \<le> length is)"

lemma stocked_alloc:
  assumes "stocked t P c (Suc n) s"
  shows "\<exists>v s'. kmem_cache_alloc c s = Some (Some v, s') \<and> stocked t P c n s'"
proof -
  obtain F Sl R b q js where inv: "slab_inv t P F Sl R s" and b: "Sl b = Some (c, q, js)" "Suc n \<le> length js"
    and c: "c < SLAB_CACHE_NUM" using assms by (auto simp: stocked_def)
  have "js \<noteq> []" using b(2) by auto
  then have "SlabLink b \<in> set (R (SlabsNotfull c))" using slab_invD(7) [OF inv] b(1) c by (auto simp: lists_match_def)
  then have ne: "R (SlabsNotfull c) \<noteq> []" by auto
  obtain a p i "is" where a: "list_next (SlabsNotfull c) (slinks s) = SlabLink a" "Sl a = Some (c, p, i # is)"
    using notfull_first(2) [OF inv c ne] by blast
  obtain s' R' where s': "kmem_cache_alloc_one c a s = (obj_at (slab_cache s) (c, p, i), s')"
    "slab_inv t P F (Sl(a \<mapsto> (c, p, is))) R' s'" using alloc_one_correct [OF inv a(2)] by blast
  have "kmem_cache_alloc c s = Some (Some (obj_at (slab_cache s) (c, p, i)), s')"
    using notfull_first(1) [OF inv c] ne a(1) s'(1) by (subst kmem_cache_alloc.simps) simp
  moreover have "\<exists>d r ks. (Sl(a \<mapsto> (c, p, is))) d = Some (c, r, ks) \<and> n \<le> length ks"
    using a(2) b by (cases "b = a") auto
  ultimately show ?thesis using s'(2) c unfolding stocked_def by blast
qed

lemma alloc_stocks:
  assumes inv: "slab_inv t P F (\<lambda>_. None) R s" and c: "c < SLAB_CACHE_NUM" and on: "\<not> off_slab (slab_cache s c)"
    and L: "buddy_inv t (frames s) L" "getorder (2 ^ page_order (slab_cache s c)) \<le> j" "j \<le> MAX_ORDER" "L j \<noteq> []"
  shows "\<exists>v s'. kmem_cache_alloc c s = Some (Some v, s') \<and> stocked t P c (unat (num (slab_cache s c)) - 1) s'"
proof -
  define kc where "kc = slab_cache s"
  let ?n = "2 ^ page_order (kc c) :: nat"
  have "?n \<le> 2 ^ 10"
    using caches_okD [OF slab_invD(1) [OF inv] c] by (intro power_increasing) (simp_all add: cache_ok_def Let_def kc_def)
  then have n: "0 < ?n" "?n \<le> 1024" by simp_all
  obtain p fr where al: "alloc_pages buddy_pmm_manager ?n (frames s) = Some (Some p, fr)"
    using buddy_alloc_pages_succeeds [OF L(1) n L(2-4) [folded kc_def]] unfolding alloc_pages_def buddy_pmm_manager_def
    by auto
  have "\<exists>s1. kmem_cache_grow kmem_cache_alloc c s = Some (True, s1)"
    unfolding grow_unfold [OF al [unfolded kc_def] refl] control_block_def using on by simp
  then obtain s1 where g: "kmem_cache_grow kmem_cache_alloc c s = Some (True, s1)" ..
  have "grow_post t P (\<lambda>_. None) kc c (kmem_cache_grow kmem_cache_alloc c s)"
    by (rule grow_correct [OF inv _ c]) (use on in \<open>simp_all add: kc_def\<close>)
  then obtain F' Sl' R' a q where S: "slab_inv t P F' Sl' R' s1" "Sl' a = Some (c, q, [0..<unat (num (kc c))])"
    unfolding g grow_post_def by auto
  have "0 < unat (num (kc c))"
    using caches_okD [OF slab_invD(1) [OF inv] c] by (simp add: cache_ok_def Let_def kc_def)
  then have "stocked t P c (Suc (unat (num (kc c)) - 1)) s1" using S c unfolding stocked_def by fastforce
  from stocked_alloc [OF this] obtain v s' where v: "kmem_cache_alloc c s1 = Some (Some v, s')"
    "stocked t P c (unat (num (kc c)) - 1) s'" by blast
  have "R (SlabsNotfull c) = []"
    using slab_invD(7) [OF inv] c by (auto simp: lists_match_def)
  then have "kmem_cache_alloc c s = kmem_cache_alloc c s1"
    using g notfull_first(1) [OF inv c] by (subst kmem_cache_alloc.simps) simp
  then show ?thesis using v by (auto simp: kc_def)
qed

lemma kmalloc_succeeds:
  assumes "kheap t P s H" and "unat n \<le> 2 ^ 17" and "\<not> off_slab (slab_cache s (slab_getorder n - MIN_SIZE_ORDER))"
    and "buddy_inv t (frames s) L" and "j \<le> MAX_ORDER" and "L j \<noteq> []"
    and "getorder (2 ^ page_order (slab_cache s (slab_getorder n - MIN_SIZE_ORDER))) \<le> j"
  shows "\<exists>v s'. kmalloc n s = Some (Some v, s')"
proof -
  note k = slab_getorder_bounds [OF assms(2)]
  obtain F Sl R where inv: "slab_inv t P F Sl R s" using assms(1) by (auto simp: kheap_def)
  have c: "slab_getorder n - MIN_SIZE_ORDER < SLAB_CACHE_NUM"
    using k by (simp add: SLAB_CACHE_NUM_def MAX_SIZE_ORDER_def MIN_SIZE_ORDER_def)
  show ?thesis
    using alloc_succeeds [OF inv c assms(3,4,7,5,6)] k by (simp add: kmalloc_def MAX_SIZE_ORDER_def)
qed

section \<open>Properties\<close>

text \<open>The state of the witnesses: 64 free pages, with the last list of the page allocator either
  as \<open>buddy_init\<close> leaves it or terminated.\<close>

definition blank_frames :: buddy where
  "blank_frames = buddy_init (static_free_area (\<lambda>_. \<lparr>flags = 0, order = 0\<rparr>))"

definition ended_frames :: buddy where
  "ended_frames = blank_frames\<lparr>links := list_init (FreeList MAX_ORDER) (links blank_frames)\<rparr>"

definition small_kmem :: "buddy \<Rightarrow> kmem" where
  "small_kmem fr = \<lparr>slab_cache = (\<lambda>_. \<lparr>objsize = 0, num = 0, kc_offset = 0, off_slab = False, page_order = 0, slab_cachep = 0\<rparr>),
     slabs = (\<lambda>_. \<lparr>s_mem = 0, inuse = 0, sl_offset = 0, sl_free = 0, bufctl = (\<lambda>_. 0)\<rparr>),
     slinks = (\<lambda>_. \<lparr>prev = SlabsFull 0, next = SlabsFull 0\<rparr>), frames = buddy_init_memmap 0 64 fr\<rparr>"

lemma ended_frames_inv: "buddy_inv (FreeList MAX_ORDER) ended_frames (\<lambda>_. [])"
proof -
  have b: "links blank_frames (FreeList i) = (if i < MAX_ORDER then \<lparr>prev = FreeList i, next = FreeList i\<rparr>
      else \<lparr>prev = Null, next = Null\<rparr>)" "nr_free blank_frames i = 0" for i
    by (simp_all add: blank_frames_def buddy_init_def buddy_init_links static_free_area_def)
  then have "links ended_frames (FreeList i) = (if i \<le> MAX_ORDER then \<lparr>prev = FreeList i, next = FreeList i\<rparr>
      else \<lparr>prev = Null, next = Null\<rparr>)" "nr_free ended_frames i = 0" for i
    by (auto simp: ended_frames_def link_defs)
  then show ?thesis by (auto simp: buddy_inv_def disjoint_blocks_def blocks_def list_end_def)
qed

lemma small_kmem_rel:
  "buddy_rel Null (frames (small_kmem blank_frames)) {0..<64}"
  "buddy_rel (FreeList MAX_ORDER) (frames (small_kmem ended_frames)) {0..<64}"
proof -
  have 1: "buddy_rel Null blank_frames {}" unfolding blank_frames_def by (rule buddy_init_rel)
  have 2: "buddy_rel (FreeList MAX_ORDER) ended_frames {}"
    unfolding buddy_rel_def by (intro exI conjI) (rule ended_frames_inv, rule cover_empty)
  show "buddy_rel Null (frames (small_kmem blank_frames)) {0..<64}"
    "buddy_rel (FreeList MAX_ORDER) (frames (small_kmem ended_frames)) {0..<64}"
    using buddy_init_memmap_rel [OF 1, of 0 64] buddy_init_memmap_rel [OF 2, of 0 64] by (simp_all add: small_kmem_def)
qed

lemma small_kheap: "\<exists>s. slab_init (small_kmem ended_frames) = Some s \<and> kheap (FreeList MAX_ORDER) {0..<64} s {}"
  by (rule kheap_slab_init [OF small_kmem_rel(2)]) auto

lemma small_kmem_block:
  obtains L j where "buddy_inv (FreeList MAX_ORDER) (frames (small_kmem ended_frames)) L" "j \<le> MAX_ORDER" "L j \<noteq> []"
proof -
  obtain L where L: "buddy_inv (FreeList MAX_ORDER) (frames (small_kmem ended_frames)) L" "cover L = {0..<64}"
    using small_kmem_rel(2) by (auto simp: buddy_rel_def)
  have "0 \<in> cover L" using L(2) by simp
  then obtain i p where "(i, p) \<in> blocks L" by (auto simp: cover_def)
  then have "i \<le> MAX_ORDER" "L i \<noteq> []" by (auto simp: blocks_def)
  with that L(1) show ?thesis by blast
qed

lemma getorder_20: "slab_getorder 20 = 5"
  by code_simp

lemma small_kmem_ready:
  assumes "slab_init (small_kmem ended_frames) = Some s"
  obtains L j where "buddy_inv (FreeList MAX_ORDER) (frames s) L" "j \<le> MAX_ORDER" "L j \<noteq> []"
    "\<not> off_slab (slab_cache s (slab_getorder 20 - MIN_SIZE_ORDER))"
    "getorder (2 ^ page_order (slab_cache s (slab_getorder 20 - MIN_SIZE_ORDER))) \<le> j"
proof -
  have se: "s = kheap_init (small_kmem ended_frames) SLAB_CACHE_NUM" using assms by (simp add: slab_init_result)
  have c0: "off_slab (slab_cache s 0) = False" "page_order (slab_cache s 0) = 0" "frames s = frames (small_kmem ended_frames)"
    by (simp_all add: se kheap_init_def std_cache_def std_caches_def SLAB_CACHE_NUM_def)
  obtain L j where L: "buddy_inv (FreeList MAX_ORDER) (frames (small_kmem ended_frames)) L" "j \<le> MAX_ORDER" "L j \<noteq> []"
    by (rule small_kmem_block)
  have "getorder 1 = 0" by (simp add: getorder_def getorder_loop.simps MAX_ORDER_def)
  then show ?thesis using that [of L j] L c0 by (simp add: getorder_20 MIN_SIZE_ORDER_def)
qed

text \<open>The first 113 small requests to a fresh allocator are answered.\<close>

lemma kmalloc_small: "0 < unat n \<Longrightarrow> unat n \<le> 32 \<Longrightarrow> kmalloc n s = kmem_cache_alloc 0 s"
proof -
  assume n: "0 < unat n" "unat n \<le> 32"
  have "(LEAST j. 5 \<le> j \<and> unat n \<le> 2 ^ j) = (5 :: nat)" using n by (intro Least_equality) auto
  then show ?thesis using n by (simp add: kmalloc_def slab_getorder_least MAX_SIZE_ORDER_def MIN_SIZE_ORDER_def)
qed

lemma small_stocked:
  "\<exists>s v s'. slab_init (small_kmem ended_frames) = Some s \<and> kheap (FreeList MAX_ORDER) {0..<64} s {} \<and>
     kmalloc 20 s = Some (Some v, s') \<and> stocked (FreeList MAX_ORDER) {0..<64} 0 112 s'"
proof -
  obtain s where s: "slab_init (small_kmem ended_frames) = Some s" "kheap (FreeList MAX_ORDER) {0..<64} s {}"
    using small_kheap by blast
  have se: "s = kheap_init (small_kmem ended_frames) SLAB_CACHE_NUM" using s(1) by (simp add: slab_init_result)
  have inv: "slab_inv (FreeList MAX_ORDER) {0..<64} {0..<64} (\<lambda>_. None) (\<lambda>_. []) s"
    unfolding se by (rule slab_init_inv [OF small_kmem_rel(2)]) auto
  have c0: "off_slab (slab_cache s 0) = False" "num (slab_cache s 0) = 113"
    by (simp_all add: se kheap_init_def std_cache_def std_caches_def SLAB_CACHE_NUM_def)
  obtain L j where L: "buddy_inv (FreeList MAX_ORDER) (frames s) L" "j \<le> MAX_ORDER" "L j \<noteq> []"
    "getorder (2 ^ page_order (slab_cache s (slab_getorder 20 - MIN_SIZE_ORDER))) \<le> j"
    by (rule small_kmem_ready [OF s(1)])
  have "slab_getorder 20 - MIN_SIZE_ORDER = 0" by (simp add: getorder_20 MIN_SIZE_ORDER_def)
  then obtain v s' where "kmem_cache_alloc 0 s = Some (Some v, s')" "stocked (FreeList MAX_ORDER) {0..<64} 0 112 s'"
    using alloc_stocks [OF inv _ _ L(1) _ L(2,3), of 0] L(4) c0 by (auto simp: SLAB_CACHE_NUM_def)
  then show ?thesis using s kmalloc_small [of 20 s] by auto
qed

lemma stocked_small:
  assumes "stocked t P 0 (Suc n) s" "0 < unat sz" "unat sz \<le> 32"
  shows "\<exists>v s'. kmalloc sz s = Some (Some v, s') \<and> stocked t P 0 n s'"
  using stocked_alloc [OF assms(1)] kmalloc_small [OF assms(2,3), of s] by simp

text \<open>A block in use, for the witnesses.\<close>

lemma small_kmalloc:
  "\<exists>s v s'. slab_init (small_kmem ended_frames) = Some s \<and> kheap (FreeList MAX_ORDER) {0..<64} s {} \<and>
     kmalloc 20 s = Some (Some v, s') \<and> kheap (FreeList MAX_ORDER) {0..<64} s' {(v, 32)}"
proof -
  obtain s where s: "slab_init (small_kmem ended_frames) = Some s" "kheap (FreeList MAX_ORDER) {0..<64} s {}"
    using small_kheap by blast
  obtain L j where L: "buddy_inv (FreeList MAX_ORDER) (frames s) L" "j \<le> MAX_ORDER" "L j \<noteq> []"
    "\<not> off_slab (slab_cache s (slab_getorder 20 - MIN_SIZE_ORDER))"
    "getorder (2 ^ page_order (slab_cache s (slab_getorder 20 - MIN_SIZE_ORDER))) \<le> j"
    by (rule small_kmem_ready [OF s(1)])
  obtain v s' where r: "kmalloc 20 s = Some (Some v, s')"
    using kmalloc_succeeds [OF s(2) _ L(4,1,2,3,5)] by auto
  then have "kheap (FreeList MAX_ORDER) {0..<64} s' {(v, 32)}"
    using kmalloc_cases [OF s(2), of 20] by (simp add: getorder_20)
  then show ?thesis using s r by blast
qed

text \<open>C5. Whatever a caller asks of \<open>kmalloc\<close> and gives back with \<open>kfree\<close> after \<open>slab_init\<close>, the
  addresses it holds are distinct and the blocks at them never overlap nor wrap around.\<close>

theorem kmalloc_blocks_never_overlap:
  assumes "buddy_rel t (frames s0) F" and "F \<subseteq> {..<229376}" and "slab_init s0 = Some s"
    and "serve kmalloc kfree rs [] s = Some (vs, s')"
  shows "distinct vs \<and> (\<exists>H. kheap t F s' H \<and> fst ` H = set vs \<and> blocks_apart H)"
proof -
  have "kheap t F s {}" using kheap_slab_init [OF assms(1,2)] assms(3) by simp
  from slab.serve_apart [OF this assms(4)] show ?thesis by blast
qed

theorem kmalloc_blocks_never_overlap_witness:
  "\<exists>s vs s'. slab_init (small_kmem ended_frames) = Some s \<and>
     serve kmalloc kfree [Request 100, Request 5000, Release 0, Request 20] [] s = Some (vs, s') \<and> distinct vs"
proof -
  obtain s where s: "slab_init (small_kmem ended_frames) = Some s" "kheap (FreeList MAX_ORDER) {0..<64} s {}"
    using small_kheap by blast
  then have "slab.holds (FreeList MAX_ORDER) {0..<64} s [] {}" by (simp add: slab.holds_def)
  then obtain vs s' where r: "serve kmalloc kfree [Request 100, Request 5000, Release 0, Request 20] [] s = Some (vs, s')"
    using slab_answers.serve_answers by blast
  have "distinct vs" using kmalloc_blocks_never_overlap [OF small_kmem_rel(2) _ s(1) r]
    by (simp add: ivl_subset subset_iff)
  then show ?thesis using s r by blast
qed

text \<open>\<open>kmalloc\<close> returns a null pointer and leaves the callers' blocks alone, or returns a block
  that no caller holds, of the power of two that \<open>getorder\<close> finds for the size. It leaves its defined
  behaviour only when the last list of the page allocator ends in a null entry.\<close>

theorem kmalloc_returns_fresh_block:
  assumes "kheap t P s H"
  shows "case kmalloc n s of
     None \<Rightarrow> t = Null
   | Some (None, s') \<Rightarrow> kheap t P s' H
   | Some (Some v, s') \<Rightarrow> unat n \<le> 2 ^ slab_getorder n \<and> (v, 2 ^ slab_getorder n) \<notin> H \<and>
       kheap t P s' (insert (v, 2 ^ slab_getorder n) H)"
  by (rule kmalloc_cases [OF assms])

theorem kmalloc_returns_fresh_block_witness:
  "\<exists>s r s'. slab_init (small_kmem ended_frames) = Some s \<and> kmalloc 100 s = Some (r, s') \<and>
     (case r of None \<Rightarrow> kheap (FreeList MAX_ORDER) {0..<64} s' {}
      | Some v \<Rightarrow> kheap (FreeList MAX_ORDER) {0..<64} s' {(v, 2 ^ slab_getorder 100)})"
proof -
  obtain s where s: "slab_init (small_kmem ended_frames) = Some s" "kheap (FreeList MAX_ORDER) {0..<64} s {}"
    using small_kheap by blast
  obtain r s' where r: "kmalloc 100 s = Some (r, s')" using slab_answers.alloc_answers [OF s(2), of 100] by blast
  have "case r of None \<Rightarrow> kheap (FreeList MAX_ORDER) {0..<64} s' {}
      | Some v \<Rightarrow> kheap (FreeList MAX_ORDER) {0..<64} s' {(v, 2 ^ slab_getorder 100)}"
    using kmalloc_returns_fresh_block [OF s(2), of 100] r by (auto split: option.splits)
  then show ?thesis using s r by blast
qed



text \<open>A block that \<open>kmalloc\<close> returns can be given back at once, and then exactly the blocks in use
  before are in use again.\<close>

theorem kmalloc_kfree_restores:
  assumes "kheap t P s H" and "kmalloc n s = Some (Some v, s')"
  shows "\<exists>s2. kfree v s' = Some s2 \<and> kheap t P s2 H"
  by (rule slab.alloc_free [OF assms])

theorem kmalloc_kfree_restores_witness:
  "\<exists>s v s' s2. slab_init (small_kmem ended_frames) = Some s \<and> kmalloc 20 s = Some (Some v, s') \<and>
     kfree v s' = Some s2 \<and> kheap (FreeList MAX_ORDER) {0..<64} s2 {}"
proof -
  obtain s v s' where s: "slab_init (small_kmem ended_frames) = Some s" "kmalloc 20 s = Some (Some v, s')"
    "kheap (FreeList MAX_ORDER) {0..<64} s {}" using small_kmalloc by blast
  with kmalloc_kfree_restores [OF s(3,2)] show ?thesis by blast
qed

text \<open>C29. \<open>slab_init\<close> always ends, lays out thirteen caches whose objects fit their slabs, with an object
  size of \<open>2 ^ (5 + i)\<close> bytes for cache \<open>i\<close>, and establishes the allocator's invariant with no block in use.\<close>

theorem slab_init_lays_out_caches:
  assumes "buddy_rel t (frames s) F" and "F \<subseteq> {..<229376}"
  shows "\<exists>s'. slab_init s = Some s' \<and> kheap t F s' {} \<and>
    (\<forall>c \<in> {..<SLAB_CACHE_NUM}. cache_ok (slab_cache s') c \<and> unat (objsize (slab_cache s' c)) = 2 ^ (c + MIN_SIZE_ORDER))"
  using kheap_slab_init [OF assms] std_kheap_init [of s]
  by (auto simp: slab_init_result std_kheap_def caches_ok_def)

theorem slab_init_lays_out_caches_witness:
  "\<exists>s'. slab_init (small_kmem blank_frames) = Some s' \<and> kheap Null {0..<64} s' {}"
  using slab_init_lays_out_caches [OF small_kmem_rel(1)] by (auto simp: subset_iff)

text \<open>\<open>getorder\<close> of slab.c returns the least order from 5 on whose block holds the request, and
  \<open>-1\<close> as a \<open>size_t\<close> for requests of more than 128 KB.\<close>

theorem slab_getorder_is_least:
  "slab_getorder n = (if unat n \<le> 2 ^ 17 then LEAST j. 5 \<le> j \<and> unat n \<le> 2 ^ j else 4294967295)"
  by (rule slab_getorder_least)

text \<open>When the last list of the page allocator is terminated, every sequence of requests and
  releases runs to its end: neither \<open>kmalloc\<close> nor \<open>kfree\<close> diverges or faults.\<close>

theorem kmalloc_kfree_always_answer:
  assumes "buddy_rel (FreeList MAX_ORDER) (frames s0) F" and "F \<subseteq> {..<229376}" and "slab_init s0 = Some s"
  shows "\<exists>vs s'. serve kmalloc kfree rs [] s = Some (vs, s')"
proof -
  have "kheap (FreeList MAX_ORDER) F s {}" using kheap_slab_init [OF assms(1,2)] assms(3) by simp
  then have "slab.holds (FreeList MAX_ORDER) F s [] {}" by (simp add: slab.holds_def)
  then show ?thesis by (rule slab_answers.serve_answers)
qed

theorem kmalloc_kfree_always_answer_witness:
  "\<exists>s vs s'. slab_init (small_kmem ended_frames) = Some s \<and>
     serve kmalloc kfree [Request 0x20000, Request 600, Release 1, Request 0xFFFFFFFF] [] s = Some (vs, s')"
proof -
  obtain s where s: "slab_init (small_kmem ended_frames) = Some s" using small_kheap by blast
  from kmalloc_kfree_always_answer [OF small_kmem_rel(2) _ s] s show ?thesis by (fastforce simp: subset_iff)
qed

text \<open>A request for a size whose cache keeps its control blocks inside its slabs is served whenever
  the page allocator has a block large enough for one more slab.\<close>

theorem kmalloc_succeeds_with_pages:
  assumes "kheap t P s H" and "unat n \<le> 2 ^ 17" and "\<not> off_slab (slab_cache s (slab_getorder n - MIN_SIZE_ORDER))"
    and "buddy_inv t (frames s) L" and "j \<le> MAX_ORDER" and "L j \<noteq> []"
    and "getorder (2 ^ page_order (slab_cache s (slab_getorder n - MIN_SIZE_ORDER))) \<le> j"
  shows "\<exists>v s'. kmalloc n s = Some (Some v, s')"
  by (rule kmalloc_succeeds [OF assms])

theorem kmalloc_succeeds_with_pages_witness:
  "\<exists>s v s'. slab_init (small_kmem ended_frames) = Some s \<and> kmalloc 20 s = Some (Some v, s')"
proof -
  obtain s where s: "slab_init (small_kmem ended_frames) = Some s" "kheap (FreeList MAX_ORDER) {0..<64} s {}"
    using small_kheap by blast
  obtain L j where L: "buddy_inv (FreeList MAX_ORDER) (frames s) L" "j \<le> MAX_ORDER" "L j \<noteq> []"
    "\<not> off_slab (slab_cache s (slab_getorder 20 - MIN_SIZE_ORDER))"
    "getorder (2 ^ page_order (slab_cache s (slab_getorder 20 - MIN_SIZE_ORDER))) \<le> j"
    by (rule small_kmem_ready [OF s(1)])
  show ?thesis
    using kmalloc_succeeds_with_pages [OF s(2) _ L(4,1,2,3,5)] s(1) by auto
qed

end
