(* ===== verification/Client.thy ===== *)
theory Client
  imports Kmalloc
begin

text \<open>
  The kernel structures that live in memory from \<open>kmalloc\<close>: every component that allocates keeps a
  record that extends \<open>client\<close>, whose one field is the allocator's state, and calls it through
  \<open>k_malloc\<close> and \<open>k_free\<close>. The blocks in use are known by their addresses: \<open>owns t P s X\<close> says that
  exactly the addresses \<open>X\<close> are allocated. The laws of the interface are proved once, for every
  extension of the record, and each component rests on the three step lemmas below.
\<close>

record client =
  memory :: kmem

definition k_malloc :: "u32 \<Rightarrow> 'a client_scheme \<Rightarrow> (u32 option \<times> 'a client_scheme) option" where
  "k_malloc sz s = do { (p, k) \<leftarrow> kmalloc sz (memory s); Some (p, s\<lparr>memory := k\<rparr>) }"

definition k_free :: "u32 \<Rightarrow> 'a client_scheme \<Rightarrow> 'a client_scheme option" where
  "k_free p s = do { k \<leftarrow> kfree p (memory s); Some (s\<lparr>memory := k\<rparr>) }"

definition client_blocks :: "page_ptr \<Rightarrow> nat set \<Rightarrow> 'a client_scheme \<Rightarrow> block set \<Rightarrow> bool" where
  "client_blocks t P s H \<longleftrightarrow> kheap t P (memory s) H"

interpretation client: object_allocator "client_blocks t P" k_malloc k_free
proof unfold_locales
  fix s :: "'a client_scheme" and H n v s'
  assume "client_blocks t P s H" "k_malloc n s = Some (Some v, s')"
  then show "\<exists>m \<ge> unat n. (v, m) \<notin> H \<and> client_blocks t P s' (insert (v, m) H)"
    using slab.alloc_some [of t P "memory s" H n v]
    by (auto simp: client_blocks_def k_malloc_def split: Option.bind_splits)
next
  fix s :: "'a client_scheme" and H n s'
  assume "client_blocks t P s H" "k_malloc n s = Some (None, s')"
  then show "client_blocks t P s' H"
    using slab.alloc_null [of t P "memory s" H n]
    by (auto simp: client_blocks_def k_malloc_def split: Option.bind_splits)
next
  fix s :: "'a client_scheme" and H v m
  assume "client_blocks t P s H" "(v, m) \<in> H"
  then show "\<exists>s'. k_free v s = Some s' \<and> client_blocks t P s' (H - {(v, m)})"
    using slab.free_held [of t P "memory s" H v m] by (auto simp: client_blocks_def k_free_def)
next
  fix s :: "'a client_scheme" and H
  assume "client_blocks t P s H" then show "blocks_apart H"
    using slab.apart by (auto simp: client_blocks_def)
qed

section \<open>The addresses in use\<close>

definition owns :: "page_ptr \<Rightarrow> nat set \<Rightarrow> 'a client_scheme \<Rightarrow> u32 set \<Rightarrow> bool" where
  "owns t P s X \<longleftrightarrow> (\<exists>H. client_blocks t P s H \<and> fst ` H = X)"

lemma owns_memory: "memory s' = memory s \<Longrightarrow> owns t P s' X = owns t P s X"
  by (simp add: owns_def client_blocks_def)

lemma owns_start:
  "kheap t P k {} \<Longrightarrow> memory s = k \<Longrightarrow> owns t P s {}"
  by (auto simp: owns_def client_blocks_def)

lemma k_malloc_cases:
  fixes s :: "'a client_scheme"
  assumes "owns t P s X"
  obtains (fault) "k_malloc n s = None" "t = Null"
  | (null) k where "k_malloc n s = Some (None, s\<lparr>memory := k\<rparr>)" "owns t P (s\<lparr>memory := k\<rparr>) X"
  | (got) v k where "k_malloc n s = Some (Some v, s\<lparr>memory := k\<rparr>)" "v \<notin> X"
      "owns t P (s\<lparr>memory := k\<rparr>) (insert v X)"
proof -
  obtain H where H: "client_blocks t P s H" "fst ` H = X" using assms by (auto simp: owns_def)
  show ?thesis
  proof (cases "kmalloc n (memory s)")
    case None
    then show ?thesis
      using kmalloc_cases [of t P "memory s" H n] H(1) fault by (simp add: client_blocks_def k_malloc_def)
  next
    case (Some r)
    then obtain p k where r: "kmalloc n (memory s) = Some (p, k)" by (cases r) auto
    then have k: "k_malloc n s = Some (p, s\<lparr>memory := k\<rparr>)" by (simp add: k_malloc_def)
    show ?thesis
    proof (cases p)
      case None
      have "owns t P (s\<lparr>memory := k\<rparr>) X"
        using client.alloc_null [OF H(1)] k H(2) None by (auto simp: owns_def)
      then show ?thesis using null k None by blast
    next
      case v: (Some v)
      obtain m where m: "(v, m) \<notin> H" "client_blocks t P (s\<lparr>memory := k\<rparr>) (insert (v, m) H)"
        using client.alloc_some [OF H(1), of n v] k v by blast
      have "v \<notin> fst ` H"
        using blocks_apart_addr [OF client.apart [OF m(2)], of "(v, m)"] m(1) by fastforce
      moreover have "owns t P (s\<lparr>memory := k\<rparr>) (insert v X)"
        unfolding owns_def using m(2) H(2) by (intro exI [of _ "insert (v, m) H"]) simp
      ultimately show ?thesis using got k v H(2) by blast
    qed
  qed
qed

lemma k_free_owned:
  assumes "owns t P s X" "v \<in> X"
  shows "\<exists>k. k_free v s = Some (s\<lparr>memory := k\<rparr>) \<and> owns t P (s\<lparr>memory := k\<rparr>) (X - {v})"
proof -
  obtain H m where H: "client_blocks t P s H" "fst ` H = X" "(v, m) \<in> H"
    using assms by (auto simp: owns_def)
  obtain s' where s': "k_free v s = Some s'" "client_blocks t P s' (H - {(v, m)})"
    using client.free_held [OF H(1,3)] by blast
  then obtain k where k: "s' = s\<lparr>memory := k\<rparr>" by (auto simp: k_free_def split: Option.bind_splits)
  have "inj_on fst H"
    using blocks_apart_addr [OF client.apart [OF H(1)]] by (auto intro: inj_onI)
  then have "fst ` (H - {(v, m)}) = X - {v}"
    using inj_on_image_set_diff [of fst H H "{(v, m)}"] H(2,3) by auto
  then show ?thesis using s' k by (auto simp: owns_def)
qed

text \<open>With a terminated last page list (theory Kmalloc) the fault does not arise.\<close>

lemma k_malloc_answers:
  assumes "owns (FreeList MAX_ORDER) P s X"
  shows "k_malloc n s \<noteq> None"
  by (rule k_malloc_cases [OF assms, of n]) auto

text \<open>Requests that are answered, for the witnesses.\<close>

lemma k_malloc_stocked:
  assumes "owns t P s X" "stocked t P 0 (Suc n) (memory s)" "0 < unat sz" "unat sz \<le> 32"
  shows "\<exists>v k. k_malloc sz s = Some (Some v, s\<lparr>memory := k\<rparr>) \<and> v \<notin> X \<and>
     owns t P (s\<lparr>memory := k\<rparr>) (insert v X) \<and> stocked t P 0 n k"
proof -
  obtain v k where v: "kmalloc sz (memory s) = Some (Some v, k)" "stocked t P 0 n k"
    using stocked_small [OF assms(2-4)] by blast
  then have "k_malloc sz s = Some (Some v, s\<lparr>memory := k\<rparr>)" by (simp add: k_malloc_def)
  then show ?thesis using v(2) by (cases rule: k_malloc_cases [OF assms(1), of sz, case_names fault null got]) auto
qed

lemma stocked_mono: "stocked t P c n k \<Longrightarrow> m \<le> n \<Longrightarrow> stocked t P c m k"
  unfolding stocked_def by (meson le_trans)

lemma small_client:
  fixes f :: "kmem \<Rightarrow> 'a client_scheme"
  assumes "\<And>k. memory (f k) = k"
  shows "\<exists>k v k'. slab_init (small_kmem ended_frames) = Some k \<and> owns (FreeList MAX_ORDER) {0..<64} (f k) {} \<and>
     k_malloc 20 (f k) = Some (Some v, (f k)\<lparr>memory := k'\<rparr>) \<and>
     owns (FreeList MAX_ORDER) {0..<64} ((f k)\<lparr>memory := k'\<rparr>) {v} \<and> stocked (FreeList MAX_ORDER) {0..<64} 0 112 k'"
proof -
  obtain k v k' where k: "slab_init (small_kmem ended_frames) = Some k" "kheap (FreeList MAX_ORDER) {0..<64} k {}"
    "kmalloc 20 k = Some (Some v, k')" "stocked (FreeList MAX_ORDER) {0..<64} 0 112 k'"
    using small_stocked by blast
  have o: "owns (FreeList MAX_ORDER) {0..<64} (f k) {}" by (rule owns_start [OF k(2) assms])
  have r: "k_malloc 20 (f k) = Some (Some v, (f k)\<lparr>memory := k'\<rparr>)" using k(3) assms by (simp add: k_malloc_def)
  then have "owns (FreeList MAX_ORDER) {0..<64} ((f k)\<lparr>memory := k'\<rparr>) {v}"
    by (cases rule: k_malloc_cases [OF o, of 20, case_names fault null got]) auto
  then show ?thesis using k(1,4) o r by blast
qed

end
