(* ===== verification/Printf.thy ===== *)
theory Printf
  imports Cstring
begin

text \<open>
  libs/printfmt.c and the 64-by-32-bit division of libs/x86.h it uses. The output function and its
  data are the parameters \<open>putch\<close> and \<open>d\<close>. A string in memory or in the program text is read as a
  stream of bytes; the arguments of a call are the words on the stack, and taking one that is not
  there is undefined. \<open>vprintfmt\<close> is one \<open>partial_function\<close> with a state that says whether it is
  in the text of the format or inside a %-escape.
\<close>

type_synonym stream = "nat \<Rightarrow> u8"

definition bytes_at :: "bytes \<Rightarrow> u32 \<Rightarrow> stream" where
  "bytes_at \<mu> p = (\<lambda>i. \<mu> (p + of_nat i))"

definition literal :: "string \<Rightarrow> stream" where
  "literal s = (\<lambda>i. if i < length s then of_char (s ! i) else 0)"

section \<open>Division\<close>

text \<open>The quotient left in \<open>n\<close> and the value of the macro; \<open>divl\<close> traps on a zero divisor.\<close>

definition do_div :: "u64 \<Rightarrow> u32 \<Rightarrow> (u64 \<times> u32) option" where
  "do_div n base =
     (if base = 0 then None
      else let low = ucast n :: u32; high = ucast (drop_bit 32 n) :: u32; upper = high;
               (upper, high) = (if high \<noteq> 0 then (high mod base, high div base) else (upper, high));
               dividend = push_bit 32 (ucast upper) OR ucast low :: u64;
               low = ucast (dividend div ucast base) :: u32;
               md = ucast (dividend mod ucast base) :: u32
           in Some (push_bit 32 (ucast high) OR ucast low, md))"

section \<open>Numbers\<close>

definition digit_char :: "u32 \<Rightarrow> int" where
  "digit_char md = of_char (''0123456789abcdef'' ! unat md)"

fun put_times :: "(int \<Rightarrow> 'd \<Rightarrow> 'd) \<Rightarrow> nat \<Rightarrow> int \<Rightarrow> 'd \<Rightarrow> 'd" where
  "put_times putch 0 c d = d"
| "put_times putch (Suc n) c d = put_times putch n c (putch c d)"

partial_function (option) printnum ::
  "(int \<Rightarrow> 'd \<Rightarrow> 'd) \<Rightarrow> u64 \<Rightarrow> u32 \<Rightarrow> int \<Rightarrow> int \<Rightarrow> 'd \<Rightarrow> 'd option" where
  "printnum putch num base width padc d =
     do { (result, md) \<leftarrow> do_div num base;
          d \<leftarrow> (if ucast base \<le> num then printnum putch result base (width - 1) padc d
               else Some (put_times putch (nat (width - 1)) padc d));
          Some (putch (digit_char md) d) }"

section \<open>Arguments\<close>

fun va_word :: "u32 list \<Rightarrow> (u32 \<times> u32 list) option" where
  "va_word [] = None"
| "va_word (w # ap) = Some (w, ap)"

fun va_long_long :: "u32 list \<Rightarrow> (u64 \<times> u32 list) option" where
  "va_long_long (lo # hi # ap) = Some (push_bit 32 (ucast hi) OR ucast lo, ap)"
| "va_long_long ap = None"

definition getuint :: "u32 list \<Rightarrow> int \<Rightarrow> (u64 \<times> u32 list) option" where
  "getuint ap lflag =
     (if 2 \<le> lflag then va_long_long ap else map_option (\<lambda>(w, ap). (ucast w, ap)) (va_word ap))"

definition getint :: "u32 list \<Rightarrow> int \<Rightarrow> (u64 \<times> u32 list) option" where
  "getint ap lflag =
     (if 2 \<le> lflag then va_long_long ap else map_option (\<lambda>(w, ap). (scast w, ap)) (va_word ap))"

section \<open>Strings\<close>

fun stream_nlen :: "nat \<Rightarrow> stream \<Rightarrow> nat \<Rightarrow> nat" where
  "stream_nlen 0 p i = i"
| "stream_nlen (Suc n) p i = (if p i \<noteq> 0 then stream_nlen n p (Suc i) else i)"

text \<open>The loop that prints the characters; the width and the data it leaves.\<close>

partial_function (option) print_chars ::
  "(int \<Rightarrow> 'd \<Rightarrow> 'd) \<Rightarrow> bool \<Rightarrow> stream \<Rightarrow> nat \<Rightarrow> int \<Rightarrow> int \<Rightarrow> 'd \<Rightarrow> (int \<times> 'd) option" where
  "print_chars putch altflag p i precision width d =
     (let ch = sint (p i) in
      if ch \<noteq> 0 \<and> (precision < 0 \<or> 0 \<le> precision - 1) then
        print_chars putch altflag p (Suc i) (if precision < 0 then precision else precision - 1) (width - 1)
          (if altflag \<and> (ch < 0x20 \<or> 0x7E < ch) then putch 0x3F d else putch ch d)
      else Some (width, d))"

definition print_string ::
  "(int \<Rightarrow> 'd \<Rightarrow> 'd) \<Rightarrow> bool \<Rightarrow> stream \<Rightarrow> int \<Rightarrow> int \<Rightarrow> int \<Rightarrow> 'd \<Rightarrow> 'd option" where
  "print_string putch altflag p precision width padc d =
     (let (width, d) =
            (if 0 < width \<and> padc \<noteq> 0x2D then
               (let n = stream_nlen (unat (of_cint precision)) p 0; w = to_int (of_cint width - of_nat n)
                in (min w 0, put_times putch (nat w) padc d))
             else (width, d))
      in do { (width, d) \<leftarrow> print_chars putch altflag p 0 precision width d;
              Some (put_times putch (nat width) 0x20 d) })"

definition MAXERROR :: int where "MAXERROR = 6"

definition error_string :: "int \<Rightarrow> string option" where
  "error_string err =
     (if err = 1 then Some ''unspecified error'' else if err = 2 then Some ''bad process''
      else if err = 3 then Some ''invalid parameter'' else if err = 4 then Some ''out of memory''
      else if err = 5 then Some ''out of processes'' else if err = 6 then Some ''segmentation fault''
      else None)"

section \<open>Formats\<close>

record directive =
  fmt_padc :: int
  fmt_width :: int
  fmt_precision :: int
  fmt_lflag :: int
  fmt_altflag :: bool

datatype fmt_state = Text | Escape directive

definition new_escape :: directive where
  "new_escape = \<lparr>fmt_padc = 0x20, fmt_width = -1, fmt_precision = -1, fmt_lflag = 0, fmt_altflag = False\<rparr>"

text \<open>The digits of a fmt_width: the number and the position of the first byte after it.\<close>

partial_function (option) scan_width :: "stream \<Rightarrow> nat \<Rightarrow> int \<Rightarrow> int \<Rightarrow> (int \<times> nat) option" where
  "scan_width fmt i prec ch =
     (let prec = prec * 10 + ch - 0x30; ch = sint (fmt i) in
      if prec < 2 ^ 31 then
        (if ch < 0x30 \<or> 0x39 < ch then Some (prec, i) else scan_width fmt (Suc i) prec ch)
      else None)"

definition process_precision :: "int \<Rightarrow> directive \<Rightarrow> directive" where
  "process_precision prec f =
     (if fmt_width f < 0 then f\<lparr>fmt_width := prec, fmt_precision := -1\<rparr> else f\<lparr>fmt_precision := prec\<rparr>)"

text \<open>For an escape that is not recognised: back to the byte after its %.\<close>

fun back_to_percent :: "stream \<Rightarrow> nat \<Rightarrow> nat option" where
  "back_to_percent fmt 0 = None"
| "back_to_percent fmt (Suc i) = (if fmt i = 0x25 then Some (Suc i) else back_to_percent fmt i)"

text \<open>The cases of the switch that only change the flags of the escape.\<close>

definition flag :: "int \<Rightarrow> directive \<Rightarrow> directive option" where
  "flag ch f =
     (if ch = 0x2D then Some (f\<lparr>fmt_padc := 0x2D\<rparr>)
      else if ch = 0x30 then Some (f\<lparr>fmt_padc := 0x30\<rparr>)
      else if ch = 0x2E then Some (if fmt_width f < 0 then f\<lparr>fmt_width := 0\<rparr> else f)
      else if ch = 0x23 then Some (f\<lparr>fmt_altflag := True\<rparr>)
      else if ch = 0x6C then Some (f\<lparr>fmt_lflag := fmt_lflag f + 1\<rparr>)
      else None)"

text \<open>The cases that print an argument: the arguments left and the data after it.\<close>

definition is_conversion :: "int \<Rightarrow> bool" where
  "is_conversion ch \<longleftrightarrow> ch \<in> {0x63, 0x73, 0x64, 0x75, 0x6F, 0x70, 0x78}"

definition convert ::
  "(int \<Rightarrow> 'd \<Rightarrow> 'd) \<Rightarrow> bytes \<Rightarrow> directive \<Rightarrow> int \<Rightarrow> u32 list \<Rightarrow> 'd \<Rightarrow> (u32 list \<times> 'd) option" where
  "convert putch \<mu> f ch ap d =
     (if ch = 0x63 then do { (w, ap) \<leftarrow> va_word ap; Some (ap, putch (to_int w) d) }
      else if ch = 0x73 then
        do { (w, ap) \<leftarrow> va_word ap;
             d \<leftarrow> print_string putch (fmt_altflag f) (if w = 0 then literal ''(null)'' else bytes_at \<mu> w)
                    (fmt_precision f) (fmt_width f) (fmt_padc f) d;
             Some (ap, d) }
      else if ch = 0x64 then
        do { (num, ap) \<leftarrow> getint ap (fmt_lflag f);
             let (num, d) = (if sint num < 0 then (- num, putch 0x2D d) else (num, d));
             d \<leftarrow> printnum putch num 10 (fmt_width f) (fmt_padc f) d;
             Some (ap, d) }
      else if ch = 0x70 then
        do { (w, ap) \<leftarrow> va_word ap;
             d \<leftarrow> printnum putch (ucast w) 16 (fmt_width f) (fmt_padc f) (putch 0x78 (putch 0x30 d));
             Some (ap, d) }
      else
        do { (num, ap) \<leftarrow> getuint ap (fmt_lflag f);
             d \<leftarrow> printnum putch num (if ch = 0x75 then 10 else if ch = 0x6F then 8 else 16)
                    (fmt_width f) (fmt_padc f) d;
             Some (ap, d) })"

text \<open>%e; \<open>nested\<close> is the call of \<open>printfmt\<close> for an error code without a name.\<close>

definition print_error :: "(int \<Rightarrow> 'd \<Rightarrow> 'd option) \<Rightarrow> (int \<Rightarrow> 'd \<Rightarrow> 'd) \<Rightarrow> int \<Rightarrow> 'd \<Rightarrow> 'd option" where
  "print_error nested putch err d =
     (let err = (if err < 0 then - err else err) in
      if err = 2 ^ 31 then None
      else if MAXERROR < err \<or> error_string err = None then nested err d
      else print_string putch False (literal (the (error_string err))) (-1) (-1) 0x20 d)"

text \<open>One pass of the outer loop over a byte of the format: the data, and where to go on unless the
  format has ended.\<close>

definition fmt_step ::
  "(int \<Rightarrow> 'd \<Rightarrow> 'd option) \<Rightarrow> (int \<Rightarrow> 'd \<Rightarrow> 'd) \<Rightarrow> bytes \<Rightarrow> stream \<Rightarrow> fmt_state \<Rightarrow> nat \<Rightarrow> u32 list \<Rightarrow> 'd \<Rightarrow>
    ((fmt_state \<times> nat \<times> u32 list) option \<times> 'd) option" where
  "fmt_step nested putch \<mu> fmt st i ap d =
     (let ch = uint (fmt i); i = Suc i in
      case st of
        Text \<Rightarrow>
          if ch = 0x25 then Some (Some (Escape new_escape, i, ap), d)
          else if ch = 0 then Some (None, d)
          else Some (Some (Text, i, ap), putch ch d)
      | Escape f \<Rightarrow>
          if flag ch f \<noteq> None then Some (Some (Escape (the (flag ch f)), i, ap), d)
          else if 0x31 \<le> ch \<and> ch \<le> 0x39 then
            do { (prec, i) \<leftarrow> scan_width fmt i 0 ch;
                 Some (Some (Escape (process_precision prec f), i, ap), d) }
          else if ch = 0x2A then
            do { (w, ap) \<leftarrow> va_word ap;
                 Some (Some (Escape (process_precision (to_int w) f), i, ap), d) }
          else if is_conversion ch then
            do { (ap, d) \<leftarrow> convert putch \<mu> f ch ap d; Some (Some (Text, i, ap), d) }
          else if ch = 0x65 then
            do { (w, ap) \<leftarrow> va_word ap;
                 d \<leftarrow> print_error nested putch (to_int w) d;
                 Some (Some (Text, i, ap), d) }
          else if ch = 0x25 then Some (Some (Text, i, ap), putch ch d)
          else do { i \<leftarrow> back_to_percent fmt (i - 1); Some (Some (Text, i, ap), putch 0x25 d) })"

partial_function (option) fmt_loop ::
  "(int \<Rightarrow> 'd \<Rightarrow> 'd option) \<Rightarrow> (int \<Rightarrow> 'd \<Rightarrow> 'd) \<Rightarrow> bytes \<Rightarrow> stream \<Rightarrow> fmt_state \<Rightarrow> nat \<Rightarrow> u32 list \<Rightarrow> 'd \<Rightarrow>
    'd option" where
  "fmt_loop nested putch \<mu> fmt st i ap d =
     (case fmt_step nested putch \<mu> fmt st i ap d of
        None \<Rightarrow> None
      | Some (None, d) \<Rightarrow> Some d
      | Some (Some (st, i, ap), d) \<Rightarrow> fmt_loop nested putch \<mu> fmt st i ap d)"

text \<open>The format of the nested call holds no %e, so it never nests again.\<close>

definition printfmt_error :: "(int \<Rightarrow> 'd \<Rightarrow> 'd) \<Rightarrow> bytes \<Rightarrow> int \<Rightarrow> 'd \<Rightarrow> 'd option" where
  "printfmt_error putch \<mu> err d =
     fmt_loop (\<lambda>_ _. None) putch \<mu> (literal ''error %d'') Text 0 [of_cint err] d"

definition vprintfmt ::
  "(int \<Rightarrow> 'd \<Rightarrow> 'd) \<Rightarrow> bytes \<Rightarrow> stream \<Rightarrow> u32 list \<Rightarrow> 'd \<Rightarrow> 'd option" where
  "vprintfmt putch \<mu> fmt ap d = fmt_loop (printfmt_error putch \<mu>) putch \<mu> fmt Text 0 ap d"

declare fmt_loop.simps [simp del] printnum.simps [simp del] print_chars.simps [simp del] scan_width.simps [simp del]

section \<open>Printing into a buffer\<close>

record sprintbuf =
  sb_buf :: u32
  sb_ebuf :: u32
  sb_cnt :: int

definition sprintputch :: "int \<Rightarrow> sprintbuf \<times> bytes \<Rightarrow> sprintbuf \<times> bytes" where
  "sprintputch ch = (\<lambda>(b, \<mu>).
     let b = b\<lparr>sb_cnt := sb_cnt b + 1\<rparr> in
     if sb_buf b < sb_ebuf b then (b\<lparr>sb_buf := sb_buf b + 1\<rparr>, \<mu>(sb_buf b := word_of_int ch)) else (b, \<mu>))"

definition E_INVAL :: int where "E_INVAL = 3"

text \<open>Strings printed by %s are read from the memory as it was at the call, so the buffer must not
  overlap them.\<close>

definition vsnprintf :: "bytes \<Rightarrow> u32 \<Rightarrow> u32 \<Rightarrow> stream \<Rightarrow> u32 list \<Rightarrow> (int \<times> bytes) option" where
  "vsnprintf \<mu> str sz fmt ap =
     (let b = \<lparr>sb_buf = str, sb_ebuf = str + sz - 1, sb_cnt = 0\<rparr> in
      if str = 0 \<or> sb_ebuf b < sb_buf b then Some (- E_INVAL, \<mu>)
      else do { (b, \<mu>) \<leftarrow> vprintfmt sprintputch \<mu> fmt ap (b, \<mu>);
                Some (sb_cnt b, \<mu>(sb_buf b := 0)) })"

section \<open>Division\<close>

lemma unat_pair:
  "unat (push_bit 32 (ucast hi) OR ucast lo :: u64) = unat (hi :: u32) * 2 ^ 32 + unat (lo :: u32)"
proof -
  have disj: "push_bit 32 (ucast hi) AND ucast lo = (0 :: u64)"
    by (rule bit_word_eqI) (auto simp: bit_simps dest: bit_imp_le_length)
  have b: "unat hi < 4294967296" "unat lo < 4294967296"
    using unsigned_less [of hi, where ?'a = nat] unsigned_less [of lo, where ?'a = nat] by simp_all
  have u: "unat (ucast hi :: u64) = unat hi" "unat (ucast lo :: u64) = unat lo" by simp_all
  have "unat (push_bit 32 (ucast hi) :: u64) = unat hi * 2 ^ 32"
    using b u by (simp add: push_bit_eq_mult unat_word_ariths mult.commute)
  then show ?thesis
    using b u disj by (simp add: disjunctive_add_eq_or [symmetric] unat_word_ariths)
qed

lemma regroup: "(q * b + r) * w + l = q * w * b + (r * w + l)" for q b r w l :: nat
  by (simp add: algebra_simps)

lemma split_high: "h * w + l = h div b * w * b + (h mod b * w + l)" for h b w l :: nat
  using regroup [of "h div b" b "h mod b" w l] by simp

lemma high_part_lt:
  fixes h b w l :: nat
  assumes "l < w" "0 < b"
  shows "(h mod b * w + l) div b < w"
proof (rule less_mult_imp_div_less)
  have "h mod b * w + l < (h mod b + 1) * w" using assms(1) by simp
  also have "\<dots> \<le> b * w" using assms(2) by (intro mult_right_mono) (simp_all add: Suc_leI)
  finally show "h mod b * w + l < w * b" by (simp only: mult.commute)
qed

lemma do_div_correct:
  assumes "base \<noteq> 0"
  shows "do_div n base = Some (n div ucast base, ucast (n mod ucast base))"
proof -
  let ?b = "unat base" and ?lo = "ucast n :: u32" and ?hi = "ucast (drop_bit 32 n) :: u32"
  let ?u = "if ?hi \<noteq> 0 then ?hi mod base else ?hi" and ?q = "if ?hi \<noteq> 0 then ?hi div base else ?hi"
  have b: "0 < ?b" using assms unsigned_eq_0_iff [of base] by (simp add: neq0_conv [symmetric] del: neq0_conv)
  have un: "unat n < 18446744073709551616" using unsigned_less [of n, where ?'a = nat] by simp
  have lo: "unat ?lo = unat n mod 2 ^ 32" by (simp add: unsigned_ucast_eq take_bit_eq_mod)
  have "unat (drop_bit 32 n) = unat n div 2 ^ 32"
    by (simp only: unat_drop_bit_eq) (simp add: drop_bit_eq_div)
  then have hi: "unat ?hi = unat n div 2 ^ 32"
    using un by (simp add: unsigned_ucast_eq take_bit_eq_mod)
  have u: "unat ?u = unat ?hi mod ?b" "unat ?q = unat ?hi div ?b"
    by (simp_all add: unat_mod_distrib unat_div_distrib)
  have ub: "unat (ucast base :: u64) = ?b" by simp
  let ?d = "push_bit 32 (ucast ?u) OR ucast ?lo :: u64"
  have d: "unat ?d = (unat ?hi mod ?b) * 2 ^ 32 + unat ?lo" unfolding unat_pair u ..
  have split: "unat n = (unat ?hi div ?b) * 2 ^ 32 * ?b + unat ?d"
  proof -
    have "unat n = unat ?hi * 2 ^ 32 + unat ?lo" unfolding hi lo by simp
    also have "\<dots> = (unat ?hi div ?b) * 2 ^ 32 * ?b + unat ?d" unfolding d by (rule split_high)
    finally show ?thesis .
  qed
  have lt: "unat ?d div ?b < 2 ^ 32"
    unfolding d using unsigned_less [of ?lo, where ?'a = nat] b by (intro high_part_lt) simp_all
  let ?l = "ucast (?d div ucast base) :: u32"
  have l: "unat ?l = unat ?d div ?b"
    using lt by (simp add: unsigned_ucast_eq take_bit_eq_mod unat_div_distrib ub)
  have "push_bit 32 (ucast ?q) OR ucast ?l = n div ucast base"
  proof (rule unsigned_word_eqI)
    have "unat n div ?b = (unat ?hi div ?b) * 2 ^ 32 + unat ?d div ?b"
      unfolding split using b by simp
    then show "unat (push_bit 32 (ucast ?q) OR ucast ?l :: u64) = unat (n div ucast base)"
      unfolding unat_pair u l by (simp add: unat_div_distrib ub)
  qed
  moreover have "?d mod ucast base = n mod ucast base"
  proof (rule unsigned_word_eqI)
    have "unat n mod ?b = unat ?d mod ?b" unfolding split by simp
    then show "unat (?d mod ucast base) = unat (n mod ucast base)"
      by (simp add: unat_mod_distrib ub)
  qed
  moreover have "do_div n base = Some (push_bit 32 (ucast ?q) OR ucast ?l, ucast (?d mod ucast base))"
    using assms by (cases "?hi = 0") (simp_all add: do_div_def Let_def)
  ultimately show ?thesis by (simp only:)
qed

section \<open>Digits\<close>

text \<open>The digits of a number, most significant first, and the characters a number is printed as.\<close>

function digits_of :: "nat \<Rightarrow> nat \<Rightarrow> nat list" where
  "digits_of b n = (if n < b \<or> b < 2 then [n] else digits_of b (n div b) @ [n mod b])"
  by pat_completeness auto
termination
  by (relation "measure snd") (auto simp: div_less_dividend)

declare digits_of.simps [simp del]

definition num_chars :: "nat \<Rightarrow> nat \<Rightarrow> int \<Rightarrow> int \<Rightarrow> int list" where
  "num_chars b n width padc =
     replicate (nat (width - int (length (digits_of b n)))) padc @
     map (\<lambda>k. digit_char (of_nat k)) (digits_of b n)"

lemma put_times_fold: "put_times putch n c d = fold putch (replicate n c) d"
  by (induction n arbitrary: d) auto

lemma printnum_fold:
  assumes "2 \<le> unat base"
  shows "printnum putch num base width padc d =
    Some (fold putch (num_chars (unat base) (unat num) width padc) d)"
proof (induction "unat num" arbitrary: num width d rule: less_induct)
  case less
  let ?b = "unat base"
  have nz: "base \<noteq> 0" using assms by auto
  have w: "width - 1 - int k = width - (int k + 1)" for k by simp
  have le: "ucast base \<le> num \<longleftrightarrow> ?b \<le> unat num" by (simp add: word_le_nat_alt)
  have q: "unat (num div ucast base) = unat num div ?b" by (simp add: unat_div_distrib)
  have md: "ucast (num mod ucast base) = (of_nat (unat num mod ?b) :: u32)"
  proof (rule unsigned_word_eqI)
    have lt: "unat num mod ?b < 4294967296"
    proof -
      have "unat num mod ?b < ?b" using assms by (intro mod_less_divisor) linarith
      also have "\<dots> < 4294967296" using unsigned_less [of base, where ?'a = nat] by simp
      finally show ?thesis .
    qed
    have "unat (num mod ucast base) = unat num mod ?b" by (simp add: unat_mod_distrib)
    then show "unat (ucast (num mod ucast base) :: u32) = unat (of_nat (unat num mod ?b) :: u32)"
      using lt by (simp add: unsigned_ucast_eq take_bit_eq_mod unat_of_nat)
  qed
  show ?case
  proof (cases "?b \<le> unat num")
    case True
    have D: "digits_of ?b (unat num) = digits_of ?b (unat num div ?b) @ [unat num mod ?b]"
      using True assms by (subst digits_of.simps) simp
    have "unat num div ?b < unat num" using True assms by (intro div_less_dividend) auto
    then have "printnum putch (num div ucast base) base (width - 1) padc d =
        Some (fold putch (num_chars ?b (unat num div ?b) (width - 1) padc) d)"
      using less [of "num div ucast base"] q by simp
    moreover have "num_chars ?b (unat num) width padc =
        num_chars ?b (unat num div ?b) (width - 1) padc @ [digit_char (of_nat (unat num mod ?b))]"
      unfolding num_chars_def w D by simp
    ultimately show ?thesis
      using True by (subst printnum.simps) (simp add: do_div_correct [OF nz] le md)
  next
    case False
    have D: "digits_of ?b (unat num) = [unat num]" using False by (subst digits_of.simps) simp
    show ?thesis
      using False by (subst printnum.simps)
        (simp add: do_div_correct [OF nz] le md num_chars_def D put_times_fold)
  qed
qed

section \<open>What is printed\<close>

text \<open>A printing function is judged by its run with the output function that appends to a list.\<close>

abbreviation collect :: "int \<Rightarrow> int list \<Rightarrow> int list" where
  "collect ch out \<equiv> out @ [ch]"

lemma fold_collect [simp]: "fold collect xs out = out @ xs"
  by (induction xs arbitrary: out) auto

lemma print_chars_trace:
  assumes "print_chars pc alt p i prec w out = Some r" and "pc = collect"
  shows "\<exists>cs. snd r = out @ cs \<and> (\<forall>d. print_chars putch alt p i prec w d = Some (fst r, fold putch cs d))"
  using assms
proof (induction pc alt p i prec w out r rule: print_chars.raw_induct [rotated, consumes 1, case_names 1])
  case (1 pcf pc alt p i prec w out r)
  let ?ch = "sint (p i)"
  let ?c = "if alt \<and> (?ch < 0x20 \<or> 0x7E < ?ch) then 0x3F else ?ch"
  let ?prec = "if prec < 0 then prec else prec - 1"
  show ?case
  proof (cases "?ch \<noteq> 0 \<and> (prec < 0 \<or> 0 \<le> prec - 1)")
    case True
    have "pcf pc alt p (Suc i) ?prec (w - 1) (out @ [?c]) = Some r"
      using 1(2,3) True by (auto simp: Let_def split: if_splits)
    from 1(1) [OF this 1(3)] obtain cs where
      "snd r = (out @ [?c]) @ cs"
      "\<And>d. print_chars putch alt p (Suc i) ?prec (w - 1) d = Some (fst r, fold putch cs d)" by blast
    then show ?thesis
      using True by (intro exI [of _ "?c # cs"]) (auto simp: print_chars.simps [of _ _ _ i] Let_def)
  next
    case False
    then have "r = (w, out)" using 1(2) by (auto simp: Let_def)
    then show ?thesis using False by (intro exI [of _ "[]"]) (auto simp: print_chars.simps [of _ _ _ i] Let_def)
  qed
qed

text \<open>\<open>traces c g putch\<close>: what \<open>c\<close> appends is what \<open>g\<close> gives to \<open>putch\<close>.\<close>

definition traces :: "(int list \<Rightarrow> int list option) \<Rightarrow> ('d \<Rightarrow> 'd option) \<Rightarrow> (int \<Rightarrow> 'd \<Rightarrow> 'd) \<Rightarrow> bool" where
  "traces c g putch \<longleftrightarrow>
     (\<forall>out out'. c out = Some out' \<longrightarrow> (\<exists>cs. out' = out @ cs \<and> (\<forall>d. g d = Some (fold putch cs d))))"

lemma print_string_trace:
  "traces (print_string collect alt p prec w pc) (print_string putch alt p prec w pc) putch"
  unfolding traces_def
proof (intro allI impI)
  fix out out' assume A: "print_string collect alt p prec w pc out = Some out'"
  let ?n = "to_int (of_cint w - of_nat (stream_nlen (unat (of_cint prec)) p 0))"
  let ?pad = "if 0 < w \<and> pc \<noteq> 0x2D then replicate (nat ?n) pc else []"
  let ?w = "if 0 < w \<and> pc \<noteq> 0x2D then min ?n 0 else w"
  from A obtain w1 o1 where
    B: "print_chars collect alt p 0 prec ?w (out @ ?pad) = Some (w1, o1)" "out' = o1 @ replicate (nat w1) 0x20"
    by (auto simp: print_string_def Let_def put_times_fold bind_eq_Some_conv simp del: fold_replicate split: if_splits)
  from print_chars_trace [OF B(1) refl, of putch] obtain cs where
    C: "o1 = (out @ ?pad) @ cs" "\<And>d. print_chars putch alt p 0 prec ?w d = Some (w1, fold putch cs d)" by auto
  have "print_string putch alt p prec w pc d = Some (fold putch (?pad @ cs @ replicate (nat w1) 0x20) d)" for d
    using C(2) by (auto simp: print_string_def Let_def put_times_fold simp del: fold_replicate)
  moreover have "out' = out @ ?pad @ cs @ replicate (nat w1) 0x20" using B(2) C(1) by simp
  ultimately show "\<exists>cs. out' = out @ cs \<and> (\<forall>d. print_string putch alt p prec w pc d = Some (fold putch cs d))"
    by blast
qed

lemma print_string_traceD:
  assumes "print_string collect alt p prec w pc out = Some out'"
  shows "\<exists>cs. out' = out @ cs \<and> (\<forall>d. print_string putch alt p prec w pc d = Some (fold putch cs d))"
  using print_string_trace assms unfolding traces_def by blast

lemma printnum_traceD:
  assumes "printnum collect num base width padc out = Some out'" and "2 \<le> unat base"
  shows "\<exists>cs. out' = out @ cs \<and> (\<forall>d. printnum putch num base width padc d = Some (fold putch cs d))"
  using assms(1) unfolding printnum_fold [OF assms(2)] by auto

lemma convert_traceD:
  assumes "convert collect \<mu> f ch ap out = Some (ap', out')"
  shows "\<exists>cs. out' = out @ cs \<and> (\<forall>d. convert putch \<mu> f ch ap d = Some (ap', fold putch cs d))"
proof -
  have base: "(2 :: nat) \<le> unat (10 :: u32)" "(2 :: nat) \<le> unat (16 :: u32)"
    "(2 :: nat) \<le> unat (if ch = 0x75 then 10 else if ch = 0x6F then 8 else 16 :: u32)" by auto
  consider "ch = 0x63" | "ch = 0x73" | "ch = 0x64" | "ch = 0x70" | "ch \<notin> {0x63, 0x73, 0x64, 0x70}" by auto
  then show ?thesis
  proof cases
    case 1
    then show ?thesis using assms by (auto simp: convert_def bind_eq_Some_conv)
  next
    case 2
    then obtain w where w: "va_word ap = Some (w, ap')" and p:
      "print_string collect (fmt_altflag f) (if w = 0 then literal ''(null)'' else bytes_at \<mu> w)
         (fmt_precision f) (fmt_width f) (fmt_padc f) out = Some out'"
      using assms by (auto simp: convert_def bind_eq_Some_conv)
    from print_string_traceD [OF p, of putch] show ?thesis using 2 w by (auto simp: convert_def)
  next
    case 3
    then obtain num where w: "getint ap (fmt_lflag f) = Some (num, ap')"
      using assms by (auto simp: convert_def bind_eq_Some_conv Let_def split: if_splits)
    let ?chars = "\<lambda>n. num_chars 10 (unat n) (fmt_width f) (fmt_padc f)"
    show ?thesis
    proof (cases "sint num < 0")
      case True
      then show ?thesis using assms w 3
        by (intro exI [of _ "0x2D # ?chars (- num)"]) (simp add: convert_def Let_def printnum_fold [OF base(1)])
    next
      case False
      then show ?thesis using assms w 3
        by (intro exI [of _ "?chars num"]) (simp add: convert_def Let_def printnum_fold [OF base(1)])
    qed
  next
    case 4
    then show ?thesis
      using assms by (auto simp: convert_def bind_eq_Some_conv printnum_fold [OF base(2)])
  next
    case 5
    then show ?thesis
      using assms by (auto simp: convert_def bind_eq_Some_conv printnum_fold [OF base(3)] simp del: printnum_fold)
  qed
qed

lemma print_error_traceD:
  assumes "print_error nest collect err out = Some out'" and "\<And>e. traces (nest e) (nest' e) putch"
  shows "\<exists>cs. out' = out @ cs \<and> (\<forall>d. print_error nest' putch err d = Some (fold putch cs d))"
proof -
  let ?e = "if err < 0 then - err else err"
  show ?thesis
  proof (cases "MAXERROR < ?e \<or> error_string ?e = None")
    case True
    then have "nest ?e out = Some out'" "?e \<noteq> 2 ^ 31"
      using assms(1) by (auto simp: print_error_def Let_def split: if_splits)
    then show ?thesis
      using assms(2) [of ?e] True unfolding traces_def print_error_def Let_def by (simp only: if_False if_True)
  next
    case False
    then have p: "print_string collect False (literal (the (error_string ?e))) (-1) (-1) 0x20 out = Some out'"
      and ne: "?e \<noteq> 2 ^ 31"
      using assms(1) by (auto simp: print_error_def Let_def split: if_splits)
    from print_string_traceD [OF p, of putch] show ?thesis
      using False ne unfolding print_error_def Let_def by (simp only: if_False if_True)
  qed
qed

lemma fmt_step_traceD:
  assumes "fmt_step nest collect \<mu> fmt st i ap out = Some (k, out')" and "\<And>e. traces (nest e) (nest' e) putch"
  shows "\<exists>cs. out' = out @ cs \<and> (\<forall>d. fmt_step nest' putch \<mu> fmt st i ap d = Some (k, fold putch cs d))"
proof (cases st)
  case Text
  then show ?thesis using assms(1) by (auto simp: fmt_step_def Let_def split: if_splits)
next
  case (Escape f)
  let ?ch = "uint (fmt i)"
  consider "flag ?ch f \<noteq> None \<or> 0x31 \<le> ?ch \<and> ?ch \<le> 0x39 \<or> ?ch = 0x2A"
    | "flag ?ch f = None" "\<not> (0x31 \<le> ?ch \<and> ?ch \<le> 0x39)" "?ch \<noteq> 0x2A" "is_conversion ?ch"
    | "flag ?ch f = None" "\<not> (0x31 \<le> ?ch \<and> ?ch \<le> 0x39)" "?ch \<noteq> 0x2A" "\<not> is_conversion ?ch" "?ch = 0x65"
    | "flag ?ch f = None" "\<not> (0x31 \<le> ?ch \<and> ?ch \<le> 0x39)" "?ch \<noteq> 0x2A" "\<not> is_conversion ?ch" "?ch \<noteq> 0x65"
    by blast
  then show ?thesis
  proof cases
    case 1
    then show ?thesis
      using assms(1) Escape by (auto simp: fmt_step_def Let_def bind_eq_Some_conv split: if_splits)
  next
    case 2
    then obtain ap' where c: "convert collect \<mu> f ?ch ap out = Some (ap', out')" "k = Some (Text, Suc i, ap')"
      using assms(1) Escape by (auto simp: fmt_step_def Let_def bind_eq_Some_conv)
    from convert_traceD [OF c(1), of putch] show ?thesis
      using 2 Escape c(2) by (auto simp: fmt_step_def Let_def)
  next
    case 3
    then obtain w ap' where e: "va_word ap = Some (w, ap')" "k = Some (Text, Suc i, ap')"
      "print_error nest collect (to_int w) out = Some out'"
      using assms(1) Escape by (auto simp: fmt_step_def Let_def bind_eq_Some_conv)
    from print_error_traceD [OF e(3) assms(2)] show ?thesis
      using 3 Escape e(1,2) by (auto simp: fmt_step_def Let_def)
  next
    case 4
    then show ?thesis
      using assms(1) Escape by (auto simp: fmt_step_def Let_def bind_eq_Some_conv split: if_splits)
  qed
qed

lemma fmt_loop_trace:
  assumes "fmt_loop nest pc \<mu> fmt st i ap out = Some out'" and "pc = collect" and "\<And>e. traces (nest e) (nest' e) putch"
  shows "\<exists>cs. out' = out @ cs \<and> (\<forall>d. fmt_loop nest' putch \<mu> fmt st i ap d = Some (fold putch cs d))"
  using assms
proof (induction nest pc \<mu> fmt st i ap out out' rule: fmt_loop.raw_induct [rotated, consumes 1, case_names 1])
  case (1 loop nest pc \<mu> fmt st i ap out out')
  obtain k o1 where s1: "fmt_step nest collect \<mu> fmt st i ap out = Some (k, o1)"
    using 1(2,3) by (cases "fmt_step nest collect \<mu> fmt st i ap out") auto
  from fmt_step_traceD [OF s1 1(4)] obtain cs1 where
    c1: "o1 = out @ cs1" "\<And>d. fmt_step nest' putch \<mu> fmt st i ap d = Some (k, fold putch cs1 d)" by blast
  show ?case
  proof (cases k)
    case None
    then show ?thesis
      using 1(2,3) s1 c1 by (intro exI [of _ cs1]) (simp add: fmt_loop.simps [of _ _ _ _ st i ap])
  next
    case (Some nx)
    obtain st' i' ap' where n: "nx = (st', i', ap')" by (cases nx)
    then have "loop nest pc \<mu> fmt st' i' ap' o1 = Some out'" using 1(2,3) s1 Some by simp
    from 1(1) [OF this 1(3,4)] obtain cs where
      "out' = o1 @ cs" "\<And>d. fmt_loop nest' putch \<mu> fmt st' i' ap' d = Some (fold putch cs d)" by blast
    then show ?thesis
      using c1 Some n by (intro exI [of _ "cs1 @ cs"]) (simp add: fmt_loop.simps [of _ _ _ _ st i ap])
  qed
qed

lemma vprintfmt_trace:
  assumes "vprintfmt collect \<mu> fmt ap [] = Some cs"
  shows "vprintfmt putch \<mu> fmt ap d = Some (fold putch cs d)"
proof -
  have "traces (\<lambda>_. None) (\<lambda>_. None) putch" by (simp add: traces_def)
  then have "traces (printfmt_error collect \<mu> e) (printfmt_error putch \<mu> e) putch" for e
    using fmt_loop_trace [OF _ refl, of "\<lambda>_ _. None"] unfolding traces_def printfmt_error_def by blast
  from fmt_loop_trace [OF assms [unfolded vprintfmt_def] refl this]
  show ?thesis by (auto simp: vprintfmt_def)
qed

section \<open>The buffer\<close>

text \<open>Memory after the first \<open>n\<close> of \<open>cs\<close> were written from \<open>a0\<close> on.\<close>

definition written :: "bytes \<Rightarrow> u32 \<Rightarrow> int list \<Rightarrow> nat \<Rightarrow> bytes" where
  "written \<mu> a0 cs n = (\<lambda>a. if unat (a - a0) < n then word_of_int (cs ! unat (a - a0)) else \<mu> a)"

lemma offset_eq: "n < 2 ^ 32 \<Longrightarrow> unat (a - a0) = n \<longleftrightarrow> a = a0 + of_nat n" for a a0 :: u32
proof
  assume "unat (a - a0) = n"
  moreover have "a = a0 + of_nat (unat (a - a0))" by simp
  ultimately show "a = a0 + of_nat n" by simp
qed (simp add: unat_of_nat_u32)

lemma written_snoc:
  "n \<le> length cs \<Longrightarrow> written \<mu> a0 (cs @ [c]) n = written \<mu> a0 cs n"
  by (auto simp: written_def nth_append)

lemma written_Suc:
  assumes "Suc n \<le> 2 ^ 32" and "cs ! n = c"
  shows "(written \<mu> a0 cs n)(a0 + of_nat n := word_of_int c) = written \<mu> a0 cs (Suc n)"
proof
  fix a
  have n: "n < 2 ^ 32" using assms(1) by simp
  show "((written \<mu> a0 cs n)(a0 + of_nat n := word_of_int c)) a = written \<mu> a0 cs (Suc n) a"
    using offset_eq [OF n, of a a0] assms(2) by (auto simp: written_def less_Suc_eq)
qed

lemma sprintputch_fold:
  assumes "unat str + m < 2 ^ 32"
  shows "fold sprintputch cs (\<lparr>sb_buf = str, sb_ebuf = str + of_nat m, sb_cnt = 0\<rparr>, \<mu>) =
    (\<lparr>sb_buf = str + of_nat (min (length cs) m), sb_ebuf = str + of_nat m, sb_cnt = int (length cs)\<rparr>,
     written \<mu> str cs (min (length cs) m))"
proof (induction cs rule: rev_induct)
  case Nil
  then show ?case by (simp add: written_def)
next
  case (snoc c cs)
  let ?n = "min (length cs) m"
  have "unat (str + of_nat k) = unat str + k" if "k \<le> m" for k
    using that assms by (simp add: unat_word_ariths unat_of_nat)
  then have lt: "str + of_nat ?n < str + of_nat m \<longleftrightarrow> length cs < m"
    by (auto simp: word_less_nat_alt)
  show ?case
  proof (cases "length cs < m")
    case True
    then have "written \<mu> str (cs @ [c]) (Suc (length cs)) =
        (written \<mu> str cs (length cs))(str + of_nat (length cs) := word_of_int c)"
      using assms by (subst written_Suc [symmetric, where c = c]) (simp_all add: written_snoc)
    then show ?thesis using snoc True lt by (simp add: sprintputch_def Let_def algebra_simps fun_eq_iff)
  next
    case False
    then show ?thesis using snoc lt by (simp add: sprintputch_def Let_def written_snoc)
  qed
qed

lemma vsnprintf_correct:
  assumes "vprintfmt collect \<mu> fmt ap [] = Some cs"
    and "str \<noteq> 0" and "0 < sz" and "unat str + unat sz \<le> 2 ^ 32"
  defines "n \<equiv> min (length cs) (unat sz - 1)"
  shows "vsnprintf \<mu> str sz fmt ap = Some (int (length cs), (written \<mu> str cs n)(str + of_nat n := 0))"
proof -
  let ?m = "unat sz - 1"
  have sz: "0 < unat sz" using assms(3) by (simp add: word_less_nat_alt)
  have m: "unat str + ?m < 2 ^ 32" using assms(4) sz by linarith
  have "of_nat ?m = sz - 1" using sz by (simp add: of_nat_diff)
  then have e: "str + sz - 1 = str + of_nat ?m" by simp
  have "unat (str + of_nat ?m) = unat str + ?m" using m by (simp add: unat_word_ariths unat_of_nat)
  then have "\<not> str + of_nat ?m < str" by (simp add: word_less_nat_alt)
  then show ?thesis
    using vprintfmt_trace [OF assms(1), of sprintputch "(\<lparr>sb_buf = str, sb_ebuf = str + of_nat ?m, sb_cnt = 0\<rparr>, \<mu>)"]
      sprintputch_fold [OF m, of cs \<mu>] assms(2)
    unfolding vsnprintf_def Let_def e n_def by simp
qed

section \<open>Printed numbers can be read back\<close>

lemma digits_of_less: "2 \<le> b \<Longrightarrow> k \<in> set (digits_of b n) \<Longrightarrow> k < b"
proof (induction b n rule: digits_of.induct)
  case (1 b n)
  then show ?case by (cases "n < b") (auto simp: digits_of.simps [of b n])
qed

lemma digits_of_nonempty: "digits_of b n \<noteq> []"
  by (subst digits_of.simps) simp

lemma digits_of_value: "2 \<le> b \<Longrightarrow> fold (\<lambda>k v. v * int b + int k) (digits_of b n) 0 = int n"
proof (induction b n rule: digits_of.induct)
  case (1 b n)
  show ?case
  proof (cases "n < b")
    case False
    then have "digits_of b n = digits_of b (n div b) @ [n mod b]"
      using 1(2) by (subst digits_of.simps) simp
    moreover have "int (n div b) * int b + int (n mod b) = int n"
      by (metis div_mult_mod_eq of_nat_add of_nat_mult)
    ultimately show ?thesis using 1 False by simp
  qed (simp add: digits_of.simps [of b n])
qed

lemma digit_char_value:
  assumes "k < 10"
  shows "digit_value (word_of_int (digit_char (of_nat k))) = Some (int k)"
proof -
  have "k \<in> {0, 1, 2, 3, 4, 5, 6, 7, 8, 9}" using assms by auto
  then show ?thesis by (auto simp: digit_char_def digit_value_def)
qed

lemma decimal_value:
  "digits_value 10 (map (\<lambda>k. word_of_int (digit_char (of_nat k))) (digits_of 10 n)) = int n"
proof -
  have "fold (\<lambda>c v. v * 10 + the (digit_value c)) (map (\<lambda>k. word_of_int (digit_char (of_nat k))) ks) v =
      fold (\<lambda>k v. v * int 10 + int k) ks v" if "\<forall>k \<in> set ks. k < 10" for ks v
    using that by (induction ks arbitrary: v) (simp_all add: digit_char_value)
  then show ?thesis
    using digits_of_less [of 10 _ n] digits_of_value [of 10 n] by (simp add: digits_value_def)
qed

text \<open>The characters of a decimal conversion of a word on the stack.\<close>

definition decimal_chars :: "u32 \<Rightarrow> int list" where
  "decimal_chars w =
     (if sint w < 0 then 0x2D # num_chars 10 (nat (- sint w)) (-1) 0x20 else num_chars 10 (nat (sint w)) (-1) 0x20)"

lemma sint_bounds: "- 2147483648 \<le> sint w" "sint w < 2147483648" for w :: u32
  using sint_ge [of w] sint_less [of w] by simp_all

lemma scast_u64: "(scast (w :: u32) :: u64) = word_of_int (sint w)"
  by (rule scast_eq)

lemma unat_of_int_u64: "0 \<le> i \<Longrightarrow> i < 2 ^ 64 \<Longrightarrow> unat (word_of_int i :: u64) = nat i"
  by (simp add: unsigned_of_int take_bit_eq_mod)

lemma sint_scast: "sint (scast (w :: u32) :: u64) = sint w"
  by (rule sint_up_scast) (simp add: is_up)

lemma convert_decimal:
  "convert collect \<mu> new_escape 0x64 (w # ap) out = Some (ap, out @ decimal_chars w)"
proof -
  have b: "(2 :: nat) \<le> unat (10 :: u32)" by simp
  have "unat (scast w :: u64) = nat (sint w)" if "0 \<le> sint w"
    unfolding scast_u64 using that sint_bounds [of w] by (intro unat_of_int_u64) simp_all
  moreover have "unat (- (scast w :: u64)) = nat (- sint w)" if "sint w < 0"
    unfolding scast_u64 wi_hom_neg using that sint_bounds [of w] by (intro unat_of_int_u64) simp_all
  ultimately show ?thesis
    by (simp add: convert_def getint_def new_escape_def Let_def sint_scast printnum_fold [OF b]
        decimal_chars_def)
qed

lemma vprintfmt_decimal:
  "vprintfmt collect \<mu> (literal ''%d'') (w # ap) [] = Some (decimal_chars w)"
proof -
  have lit: "literal ''%d'' 0 = 0x25" "literal ''%d'' (Suc 0) = 0x64" "literal ''%d'' (Suc (Suc 0)) = 0"
    by (simp_all add: literal_def)
  have s1: "fmt_step ne collect \<mu> (literal ''%d'') Text 0 (w # ap) [] =
      Some (Some (Escape new_escape, Suc 0, w # ap), [])" for ne
    by (simp add: fmt_step_def lit)
  have s2: "fmt_step ne collect \<mu> (literal ''%d'') (Escape new_escape) (Suc 0) (w # ap) [] =
      Some (Some (Text, Suc (Suc 0), ap), decimal_chars w)" for ne
    using convert_decimal [of \<mu> w ap "[]"] by (simp add: fmt_step_def lit flag_def is_conversion_def)
  have s3: "fmt_step ne collect \<mu> (literal ''%d'') Text (Suc (Suc 0)) ap out = Some (None, out)" for ne out
    by (simp add: fmt_step_def lit)
  show ?thesis
    unfolding vprintfmt_def
    by (subst fmt_loop.simps, simp only: s1 option.case prod.case, subst fmt_loop.simps,
        simp only: s2 option.case prod.case, subst fmt_loop.simps, simp only: s3 option.case prod.case)
qed

text \<open>The bytes of a decimal conversion are read back by \<open>strtol\<close>.\<close>

lemma decimal_bytes:
  "map word_of_int (decimal_chars w) =
     (if sint w < 0 then [0x2D] else []) @
     map (\<lambda>k. word_of_int (digit_char (of_nat k)) :: u8) (digits_of 10 (nat \<bar>sint w\<bar>))"
proof -
  have "nat (- 1 - int (length ks)) = 0" for ks :: "nat list" by simp
  then show ?thesis by (auto simp: decimal_chars_def num_chars_def)
qed

lemma strtol_decimal:
  assumes "at \<mu> s (map word_of_int (decimal_chars w) @ [0])"
  shows "strtol \<mu> s 10 = Some (w, s + of_nat (length (decimal_chars w)))"
proof -
  let ?sg = "if sint w < 0 then [0x2D] else [] :: u8 list"
  let ?ds = "map (\<lambda>k. word_of_int (digit_char (of_nat k)) :: u8) (digits_of 10 (nat \<bar>sint w\<bar>))"
  have len: "length (decimal_chars w) = length ([] @ ?sg @ ?ds)"
    using decimal_bytes [of w] by (metis append_Nil length_map)
  have "\<mu> (s + of_nat (length (decimal_chars w))) = 0" using assms by (simp add: at_append)
  then have z: "\<mu> (s + of_nat (length ([] @ ?sg @ ?ds))) = 0" by (simp only: len)
  have "at \<mu> s (map word_of_int (decimal_chars w))" using assms by (simp add: at_append)
  then have A: "at \<mu> s ([] @ ?sg @ ?ds)" by (simp only: decimal_bytes append_Nil)
  have dig: "\<forall>c \<in> set ?ds. digit_in 10 c"
  proof
    fix c assume "c \<in> set ?ds"
    then obtain k where k: "k \<in> set (digits_of 10 (nat \<bar>sint w\<bar>))" "c = word_of_int (digit_char (of_nat k))"
      by auto
    have "k < 10" using digits_of_less [OF _ k(1)] by simp
    then show "digit_in 10 c" using digit_char_value [of k] k(2) by (simp add: digit_in_def)
  qed
  have "strtol \<mu> s 10 = Some (of_int ((if ?sg = [0x2D] then -1 else 1) * digits_value 10 ?ds),
      s + of_nat (length ([] @ ?sg @ ?ds)))"
    by (rule strtol_correct [OF A])
      (use dig z digits_of_nonempty in \<open>auto simp: digit_in_def digit_value_def\<close>)
  also have "(if ?sg = [0x2D] then -1 else 1) * digits_value 10 ?ds = sint w"
    unfolding decimal_value by auto
  also have "of_int (sint w) = w" by simp
  finally show ?thesis unfolding len .
qed

lemma at_written:
  assumes "length cs < 2 ^ 32"
  shows "at ((written \<mu> s cs (length cs))(s + of_nat (length cs) := 0)) s (map word_of_int cs @ [0])"
proof -
  have "s + of_nat i \<noteq> s + of_nat (length cs)" if "i < length cs" for i
  proof
    assume "s + of_nat i = s + of_nat (length cs)"
    then have "unat (of_nat i :: u32) = unat (of_nat (length cs) :: u32)" by simp
    then show False using that assms by (simp add: unat_of_nat_u32)
  qed
  then show ?thesis
    using assms by (auto simp: at_nth written_def nth_append less_Suc_eq unat_of_nat_u32)
qed

section \<open>Properties\<close>

text \<open>The 64-by-32-bit division done with two 32-bit divisions gives the true quotient and
  remainder, for every dividend and non-zero divisor.\<close>

theorem do_div_divides:
  assumes "base \<noteq> 0"
  shows "do_div n base = Some (n div ucast base, ucast (n mod ucast base))"
  by (rule do_div_correct [OF assms])

theorem do_div_divides_witness:
  "do_div 0x123456789A 10 = Some (0x123456789A div ucast (10 :: u32), ucast ((0x123456789A :: u64) mod ucast (10 :: u32)))"
  by (rule do_div_divides) simp



text \<open>C32. Printing a number with %d and reading it with \<open>strtol\<close> gives the number back, for every
  value of \<open>int\<close>.\<close>

theorem decimal_round_trip:
  assumes "length (decimal_chars w) < unat sz" and "str \<noteq> 0" and "unat str + unat sz \<le> 2 ^ 32"
  shows "\<exists>cnt \<mu>'. vsnprintf \<mu> str sz (literal ''%d'') [w] = Some (cnt, \<mu>') \<and>
    strtol \<mu>' str 10 = Some (w, str + of_int cnt)"
proof -
  have sz: "0 < sz" using assms(1) by (simp add: word_less_nat_alt)
  have n: "min (length (decimal_chars w)) (unat sz - 1) = length (decimal_chars w)" using assms(1) by simp
  have lt: "length (decimal_chars w) < 2 ^ 32"
    using assms(1) unsigned_less [of sz, where ?'a = nat] by simp
  note P = vsnprintf_correct [OF vprintfmt_decimal [of _ w] assms(2) sz assms(3), unfolded n]
  show ?thesis using P strtol_decimal [OF at_written [OF lt]] by simp
qed

theorem decimal_round_trip_witness:
  "\<exists>cnt \<mu>'. vsnprintf (\<lambda>_. 0) 0x1000 0x20 (literal ''%d'') [- 42] = Some (cnt, \<mu>') \<and>
    strtol \<mu>' 0x1000 10 = Some (- 42, 0x1000 + of_int cnt)"
proof (rule decimal_round_trip)
  have "digits_of 10 42 = [4, 2]" by (simp add: digits_of.simps)
  then show "length (decimal_chars (- 42)) < unat (0x20 :: u32)"
    by (simp add: decimal_chars_def num_chars_def)
qed simp_all

end
