(* ===== verification/Ring.thy ===== *)
theory Ring
  imports Prelude
begin

text \<open>
  The queue contract shared by the keyboard buffer of libs/stringbuffer.c and the console input
  buffer of kern/driver/console.c, and the arithmetic of an array used as a ring. A queue is seen
  through \<open>view\<close>, the list of the items waiting, oldest first.
\<close>

section \<open>An array as a ring\<close>

definition ring_items :: "nat \<Rightarrow> 'a list \<Rightarrow> nat \<Rightarrow> nat \<Rightarrow> 'a list" where
  "ring_items n buf f r = map (\<lambda>i. buf ! ((f + i) mod n)) [0..<(r + n - f) mod n]"

abbreviation next_slot :: "nat \<Rightarrow> nat \<Rightarrow> nat" where
  "next_slot n i \<equiv> if Suc i = n then 0 else Suc i"

lemma ring_items_empty [simp]: "f < n \<Longrightarrow> ring_items n buf f f = []"
  by (simp add: ring_items_def)

lemma length_ring_items: "length (ring_items n buf f r) = (r + n - f) mod n"
  by (simp add: ring_items_def)

lemma ring_distance:
  fixes f r n :: nat
  assumes "f < n" "r < n"
  shows "(r + n - f) mod n = (if f \<le> r then r - f else r + n - f)"
proof (cases "f \<le> r")
  case True
  then have "r + n - f = (r - f) + n" by linarith
  then have "(r + n - f) mod n = (r - f) mod n" by (metis mod_add_self2)
  then show ?thesis using True assms by simp
qed (use assms in simp)

lemma ring_index:
  fixes f i n :: nat
  shows "f < n \<Longrightarrow> i < n \<Longrightarrow> (f + i) mod n = (if f + i < n then f + i else f + i - n)"
proof (cases "f + i < n")
  case False
  assume "f < n" "i < n"
  then have "(f + i) mod n = (f + i - n) mod n" using False by (intro le_mod_geq) simp
  then show ?thesis using \<open>f < n\<close> \<open>i < n\<close> False by simp
qed simp

lemma ring_full_iff:
  assumes "f < n" "r < n"
  shows "length (ring_items n buf f r) = n - 1 \<longleftrightarrow> next_slot n r = f"
  using assms by (auto simp: length_ring_items ring_distance)

lemma ring_empty_iff: "f < n \<Longrightarrow> r < n \<Longrightarrow> ring_items n buf f r = [] \<longleftrightarrow> f = r"
  using length_ring_items [of n buf f r] ring_distance [of f n r] by (auto simp: ring_items_def)

lemma ring_items_push:
  assumes "f < n" "r < n" "length buf = n" "next_slot n r \<noteq> f"
  shows "ring_items n (buf[r := x]) f (next_slot n r) = ring_items n buf f r @ [x]"
proof -
  let ?k = "(r + n - f) mod n"
  have k: "?k = (if f \<le> r then r - f else r + n - f)" by (rule ring_distance [OF assms(1,2)])
  have "(next_slot n r + n - f) mod n = Suc ?k"
    using assms ring_distance [of f n "next_slot n r"] k by (auto split: if_splits)
  then have "ring_items n (buf[r := x]) f (next_slot n r) =
      map (\<lambda>i. buf[r := x] ! ((f + i) mod n)) [0..<?k] @ [buf[r := x] ! ((f + ?k) mod n)]"
    by (simp add: ring_items_def)
  moreover have kn: "?k < n" using assms(1) by simp
  moreover have "(f + ?k) mod n = r"
    using ring_index [OF assms(1) kn] k assms(1,2) by (simp split: if_splits)
  moreover have "(f + i) mod n \<noteq> r" if "i < ?k" for i
    using that ring_index [OF assms(1), of i] kn k assms(1,2) by (simp split: if_splits)
  ultimately show ?thesis using assms(2,3)
    by (simp add: ring_items_def) (metis atLeastLessThan_iff nth_list_update_neq)
qed

lemma ring_items_pop:
  assumes "f < n" "r < n" "f \<noteq> r"
  shows "ring_items n buf f r = buf ! f # ring_items n buf (next_slot n f) r"
proof -
  let ?k = "(r + n - next_slot n f) mod n"
  have d: "(r + n - f) mod n = Suc ?k"
    using assms ring_distance [of f n r] ring_distance [of "next_slot n f" n r] by (auto split: if_splits)
  have "(f + Suc i) mod n = (next_slot n f + i) mod n" for i
  proof (cases "Suc f = n")
    case True
    then have "f + Suc i = i + n" by linarith
    then have "(f + Suc i) mod n = i mod n" by (metis mod_add_self2)
    then show ?thesis using True by simp
  qed simp
  then have "map (\<lambda>i. buf ! ((f + i) mod n)) [Suc 0..<Suc ?k] = map (\<lambda>i. buf ! ((next_slot n f + i) mod n)) [0..<?k]"
    unfolding map_Suc_upt [symmetric] map_map comp_def by (simp only:)
  moreover have "[0..<Suc ?k] = 0 # [Suc 0..<Suc ?k]" by (simp only: upt_conv_Cons zero_less_Suc)
  ultimately show ?thesis
    using assms(1) unfolding ring_items_def d by simp
qed

section \<open>The contract\<close>

text \<open>\<open>push\<close> has a meaning while fewer than \<open>capacity\<close> items wait; \<open>pop\<close> gives the oldest item,
  or \<open>none\<close> and the same state.\<close>

locale fifo =
  fixes ok :: "'s \<Rightarrow> bool" and view :: "'s \<Rightarrow> 'a list" and capacity :: nat
    and push :: "'a \<Rightarrow> 's \<Rightarrow> 's option" and pop :: "'s \<Rightarrow> ('a \<times> 's) option" and none :: 'a
  assumes push_law: "\<lbrakk>ok s; length (view s) < capacity\<rbrakk> \<Longrightarrow>
      \<exists>s'. push x s = Some s' \<and> ok s' \<and> view s' = view s @ [x]"
    and pop_law: "ok s \<Longrightarrow>
      (case view s of [] \<Rightarrow> pop s = Some (none, s)
       | x # xs \<Rightarrow> (\<exists>s'. pop s = Some (x, s') \<and> ok s' \<and> view s' = xs))"

datatype 'a queue_op = Push 'a | Pop

text \<open>The operations on the queue's state, and the same on a plain list; \<open>None\<close> on the list means
  that the capacity was exceeded.\<close>

fun run_queue :: "('a \<Rightarrow> 's \<Rightarrow> 's option) \<Rightarrow> ('s \<Rightarrow> ('a \<times> 's) option) \<Rightarrow> 'a queue_op list \<Rightarrow> 's \<Rightarrow>
    ('a list \<times> 's) option" where
  "run_queue push pop [] s = Some ([], s)"
| "run_queue push pop (Push x # ops) s =
     (case push x s of None \<Rightarrow> None | Some s \<Rightarrow> run_queue push pop ops s)"
| "run_queue push pop (Pop # ops) s =
     (case pop s of None \<Rightarrow> None
      | Some (x, s) \<Rightarrow> map_option (\<lambda>(xs, s). (x # xs, s)) (run_queue push pop ops s))"

fun run_list :: "'a \<Rightarrow> nat \<Rightarrow> 'a queue_op list \<Rightarrow> 'a list \<Rightarrow> ('a list \<times> 'a list) option" where
  "run_list none cap [] q = Some ([], q)"
| "run_list none cap (Push x # ops) q =
     (if length q < cap then run_list none cap ops (q @ [x]) else None)"
| "run_list none cap (Pop # ops) q =
     (case q of [] \<Rightarrow> map_option (\<lambda>(xs, q). (none # xs, q)) (run_list none cap ops [])
      | x # q \<Rightarrow> map_option (\<lambda>(xs, q). (x # xs, q)) (run_list none cap ops q))"

context fifo begin

text \<open>Every run that stays within the capacity gives what the list gives.\<close>

lemma run_refines:
  "ok s \<Longrightarrow> run_list none capacity ops (view s) = Some (xs, q) \<Longrightarrow>
     \<exists>s'. run_queue push pop ops s = Some (xs, s') \<and> ok s' \<and> view s' = q"
proof (induction ops arbitrary: s xs)
  case Nil
  then show ?case by simp
next
  case (Cons op ops)
  show ?case
  proof (cases op)
    case (Push x)
    with Cons.prems have l: "length (view s) < capacity" "run_list none capacity ops (view s @ [x]) = Some (xs, q)"
      by (auto split: if_splits)
    from push_law [OF Cons.prems(1) l(1), of x] obtain s1 where
      "push x s = Some s1" "ok s1" "view s1 = view s @ [x]" by blast
    then show ?thesis using Cons.IH [of s1 xs] l(2) Push by simp
  next
    case Pop
    show ?thesis
    proof (cases "view s")
      case Nil
      then obtain ys where "run_list none capacity ops [] = Some (ys, q)" "xs = none # ys"
        using Cons.prems Pop by auto
      then show ?thesis
        using Cons.IH [of s ys] Cons.prems(1) Nil Pop pop_law [OF Cons.prems(1)] by auto
    next
      case (Cons x v)
      then obtain ys where ys: "run_list none capacity ops v = Some (ys, q)" "xs = x # ys"
        using Cons.prems Pop by auto
      from pop_law [OF Cons.prems(1)] obtain s1 where "pop s = Some (x, s1)" "ok s1" "view s1 = v"
        by (auto simp: Cons)
      then show ?thesis using Cons.IH [of s1 ys] ys Pop by auto
    qed
  qed
qed

text \<open>Filling an empty queue and emptying it returns the items in order.\<close>

lemma fill_and_drain:
  assumes "ok s" "view s = []" "length xs \<le> capacity"
  shows "\<exists>s'. run_queue push pop (map Push xs @ replicate (length xs) Pop) s = Some (xs, s') \<and>
    ok s' \<and> view s' = []"
proof -
  have drain: "run_list none capacity (replicate (length q) Pop) q = Some (q, [])" for q
    by (induction q) auto
  have "run_list none capacity (map Push ys @ ops) q = run_list none capacity ops (q @ ys)"
    if "length q + length ys \<le> capacity" for ys q ops
    using that by (induction ys arbitrary: q) auto
  from this [of "[]" xs] drain have
    "run_list none capacity (map Push xs @ replicate (length xs) Pop) [] = Some (xs, [])"
    using assms(3) by simp
  then show ?thesis using run_refines [OF assms(1)] assms(2) by simp
qed

end

end
