(* ===== verification/Console.thy ===== *)
theory Console
  imports Printf Ring
begin

text \<open>
  kern/driver/console.c with the key codes of kbdreg.h, kern/libs/stdio.c and
  kern/libs/readline.c: the scan-code decoder, the circular input buffer, output to the parallel
  port, \<open>getchar\<close> and the line reader. The keyboard controller is the list of bytes that wait in it;
  the status bit read from its port says whether the list is empty. Port writes are logged. The
  polling loops of the parallel port have no effect on the state and are left out.
\<close>

section \<open>Key codes and tables\<close>

definition SHIFT :: u32 where "SHIFT = 1"
definition CTL :: u32 where "CTL = 2"
definition ALT :: u32 where "ALT = 4"
definition CAPSLOCK :: u32 where "CAPSLOCK = 8"
definition NUMLOCK :: u32 where "NUMLOCK = 16"
definition SCROLLLOCK :: u32 where "SCROLLLOCK = 32"
definition E0ESC :: u32 where "E0ESC = 64"

definition KEY_HOME :: u8 where "KEY_HOME = 0xE0"
definition KEY_END :: u8 where "KEY_END = 0xE1"
definition KEY_UP :: u8 where "KEY_UP = 0xE2"
definition KEY_DN :: u8 where "KEY_DN = 0xE3"
definition KEY_LF :: u8 where "KEY_LF = 0xE4"
definition KEY_RT :: u8 where "KEY_RT = 0xE5"
definition KEY_PGUP :: u8 where "KEY_PGUP = 0xE6"
definition KEY_PGDN :: u8 where "KEY_PGDN = 0xE7"
definition KEY_INS :: u8 where "KEY_INS = 0xE8"
definition KEY_DEL :: u8 where "KEY_DEL = 0xE9"

definition shiftcode :: "u8 \<Rightarrow> u8" where
  "shiftcode data =
     (if data = 0x1D then ucast CTL else if data = 0x2A then ucast SHIFT else if data = 0x36 then ucast SHIFT
      else if data = 0x38 then ucast ALT else if data = 0x9D then ucast CTL else if data = 0xB8 then ucast ALT
      else 0)"

definition togglecode :: "u8 \<Rightarrow> u8" where
  "togglecode data =
     (if data = 0x3A then ucast CAPSLOCK else if data = 0x45 then ucast NUMLOCK
      else if data = 0x46 then ucast SCROLLLOCK else 0)"

text \<open>A table given by its first entries and by designated ones; the others are 0.\<close>

definition table :: "u8 list \<Rightarrow> (u8 \<times> u8) list \<Rightarrow> u8 \<Rightarrow> u8" where
  "table xs ds i =
     (if unat i < length xs then xs ! unat i
      else case map_of ds i of Some v \<Rightarrow> v | None \<Rightarrow> 0)"

definition special_keys :: "(u8 \<times> u8) list" where
  "special_keys =
     [(0xC8, KEY_UP), (0xC9, KEY_PGUP), (0xCB, KEY_LF), (0xCD, KEY_RT), (0xCF, KEY_END),
      (0xD0, KEY_DN), (0xD1, KEY_PGDN), (0xD2, KEY_INS), (0xD3, KEY_DEL)]"

abbreviation chars :: "string \<Rightarrow> u8 list" where
  "chars s \<equiv> map of_char s"

definition normalmap :: "u8 \<Rightarrow> u8" where
  "normalmap = table
     ([0, 0x1B] @ chars ''1234567890-='' @ [8, 9] @ chars ''qwertyuiop[]'' @ [10, 0] @
      chars ''asdfghjkl;'' @ [0x27, 0x60, 0, 0x5C] @ chars ''zxcvbnm,./'' @ [0, 0x2A, 0, 0x20] @
      replicate 13 0 @ chars ''789-456+1230.'' @ [0, 0, 0, 0])
     ([(0xC7, KEY_HOME), (0x9C, 10), (0xB5, 0x2F)] @ special_keys)"

definition shiftmap :: "u8 \<Rightarrow> u8" where
  "shiftmap = table
     ([0, 0x1B] @ chars ''!@#$%^&*()_+'' @ [8, 9] @ chars ''QWERTYUIOP{}'' @ [10, 0] @
      chars ''ASDFGHJKL:'' @ [0x22, 0x7E, 0, 0x7C] @ chars ''ZXCVBNM<>?'' @ [0, 0x2A, 0, 0x20] @
      replicate 13 0 @ chars ''789-456+1230.'' @ [0, 0, 0, 0])
     ([(0xC7, KEY_HOME), (0x9C, 10), (0xB5, 0x2F)] @ special_keys)"

definition C :: "char \<Rightarrow> u8" where
  "C x = of_char x - 0x40"

definition ctlmap :: "u8 \<Rightarrow> u8" where
  "ctlmap = table
     (replicate 16 0 @ map C ''QWERTYUIOP'' @ [0, 0, 13, 0] @ map C ''ASDFGHJKL'' @
      [0, 0, 0, 0, 0x1C] @ map C ''ZXCVBNM'' @ [0, 0, C CHR ''/'', 0, 0])
     ([(0x97, KEY_HOME), (0xB5, C CHR ''/'')] @ special_keys)"

definition charcode :: "u32 \<Rightarrow> u8 \<Rightarrow> u8" where
  "charcode i = (if i = 0 then normalmap else if i = 1 then shiftmap else ctlmap)"

section \<open>State\<close>

definition CONSBUFSIZE :: nat where "CONSBUFSIZE = 512"

record console =
  cbuf :: "u8 list"
  rpos :: nat
  wpos :: nat
  kshift :: u32
  kin :: "u8 list"
  ports :: "(u16 \<times> u8) list"

section \<open>Output\<close>

definition outb :: "u16 \<Rightarrow> u8 \<Rightarrow> console \<Rightarrow> console" where
  "outb port data con = con\<lparr>ports := ports con @ [(port, data)]\<rparr>"

definition LPTPORT :: u16 where "LPTPORT = 0x378"

definition lpt_putc :: "int \<Rightarrow> console \<Rightarrow> console" where
  "lpt_putc c con =
     outb (LPTPORT + 2) 0x08 (outb (LPTPORT + 2) (0x08 OR 0x04 OR 0x01) (outb (LPTPORT + 0) (word_of_int c) con))"

definition cons_putc :: "int \<Rightarrow> console \<Rightarrow> console" where
  "cons_putc c con = lpt_putc c con"

definition cputch :: "int \<Rightarrow> console \<times> int \<Rightarrow> console \<times> int" where
  "cputch c = (\<lambda>(con, cnt). (cons_putc c con, cnt + 1))"

definition vcprintf :: "bytes \<Rightarrow> stream \<Rightarrow> u32 list \<Rightarrow> console \<Rightarrow> (int \<times> console) option" where
  "vcprintf \<mu> fmt ap con =
     do { (con, cnt) \<leftarrow> vprintfmt cputch \<mu> fmt ap (con, 0); Some (cnt, con) }"

definition cprintf :: "bytes \<Rightarrow> stream \<Rightarrow> u32 list \<Rightarrow> console \<Rightarrow> (int \<times> console) option" where
  "cprintf \<mu> fmt ap con = vcprintf \<mu> fmt ap con"

definition cputchar :: "int \<Rightarrow> console \<Rightarrow> console" where
  "cputchar c con = cons_putc c con"

partial_function (option) cputs_loop :: "stream \<Rightarrow> nat \<Rightarrow> console \<times> int \<Rightarrow> (console \<times> int) option" where
  "cputs_loop str i d =
     (let c = str i in if c \<noteq> 0 then cputs_loop str (Suc i) (cputch (sint c) d) else Some d)"

definition cputs :: "stream \<Rightarrow> console \<Rightarrow> (int \<times> console) option" where
  "cputs str con =
     do { d \<leftarrow> cputs_loop str 0 (con, 0);
          let (con, cnt) = cputch 10 d;
          Some (cnt, con) }"

section \<open>Keyboard\<close>

text \<open>What \<open>kbd_proc_data\<close> does with one byte: the character, 0 for none, and the new shift state.\<close>

definition kbd_decode :: "u32 \<Rightarrow> u8 \<Rightarrow> int \<times> u32" where
  "kbd_decode shift data =
     (if data = 0xE0 then (0, shift OR E0ESC)
      else if data AND 0x80 \<noteq> 0 then
        (let data = (if shift AND E0ESC \<noteq> 0 then data else data AND 0x7F)
         in (0, shift AND NOT (ucast (shiftcode data) OR E0ESC)))
      else
        (let (data, shift) = (if shift AND E0ESC \<noteq> 0 then (data OR 0x80, shift AND NOT E0ESC) else (data, shift));
             shift = shift OR ucast (shiftcode data);
             shift = shift XOR ucast (togglecode data);
             c = uint (charcode (shift AND (CTL OR SHIFT)) data);
             c = (if shift AND CAPSLOCK \<noteq> 0 then
                    (if 0x61 \<le> c \<and> c \<le> 0x7A then c + (0x41 - 0x61)
                     else if 0x41 \<le> c \<and> c \<le> 0x5A then c + (0x61 - 0x41) else c)
                  else c)
         in (c, shift)))"

definition kbd_proc_data :: "bytes \<Rightarrow> console \<Rightarrow> (int \<times> console) option" where
  "kbd_proc_data \<mu> con =
     (case kin con of
        [] \<Rightarrow> Some (- 1, con)
      | data # rest \<Rightarrow>
          let (c, sh) = kbd_decode (kshift con) data; con = con\<lparr>kin := rest, kshift := sh\<rparr> in
          if NOT sh AND (CTL OR ALT) = 0 \<and> c = uint KEY_DEL then
            do { (n, con) \<leftarrow> cprintf \<mu> (literal (''Rebooting!'' @ [CHR 0x0A])) [] con;
                 Some (c, outb 0x92 0x3 con) }
          else Some (c, con))"

section \<open>The input buffer\<close>

definition cons_push :: "u8 \<Rightarrow> console \<Rightarrow> console option" where
  "cons_push c con =
     (if wpos con < length (cbuf con) then
        (let con = con\<lparr>cbuf := (cbuf con)[wpos con := c], wpos := wpos con + 1\<rparr>
         in Some (if wpos con = CONSBUFSIZE then con\<lparr>wpos := 0\<rparr> else con))
      else None)"

partial_function (option) cons_intr :: "bytes \<Rightarrow> console \<Rightarrow> console option" where
  "cons_intr \<mu> con =
     do { (c, con) \<leftarrow> kbd_proc_data \<mu> con;
          if c \<noteq> - 1 then
            (if c \<noteq> 0 then cons_push (word_of_int c) con \<bind> cons_intr \<mu> else cons_intr \<mu> con)
          else Some con }"

definition kbd_intr :: "bytes \<Rightarrow> console \<Rightarrow> console option" where
  "kbd_intr \<mu> con = cons_intr \<mu> con"

text \<open>\<open>cons_getc\<close> after its poll of the keyboard.\<close>

definition cons_take :: "console \<Rightarrow> (u8 \<times> console) option" where
  "cons_take con =
     (if rpos con \<noteq> wpos con then
        (if rpos con < length (cbuf con) then
           (let c = cbuf con ! rpos con; con = con\<lparr>rpos := rpos con + 1\<rparr>
            in Some (c, if rpos con = CONSBUFSIZE then con\<lparr>rpos := 0\<rparr> else con))
         else None)
      else Some (0, con))"

definition cons_getc :: "bytes \<Rightarrow> console \<Rightarrow> (u8 \<times> console) option" where
  "cons_getc \<mu> con = do { con \<leftarrow> kbd_intr \<mu> con; cons_take con }"

partial_function (option) getchar :: "bytes \<Rightarrow> console \<Rightarrow> (u8 \<times> console) option" where
  "getchar \<mu> con = do { (c, con) \<leftarrow> cons_getc \<mu> con; if c = 0 then getchar \<mu> con else Some (c, con) }"

section \<open>The line reader\<close>

text \<open>The buffer and the line counter that readline.c keeps, and the characters it asked the font
  routine to draw, with their positions.\<close>

record line_reader =
  rl_buf :: "u8 list"
  rl_lines :: int
  rl_drawn :: "(u8 \<times> int \<times> int) list"

definition BUFSIZE :: nat where "BUFSIZE = 1024"

partial_function (option) readline_loop ::
  "bytes \<Rightarrow> nat \<Rightarrow> line_reader \<Rightarrow> console \<Rightarrow> (line_reader \<times> console) option" where
  "readline_loop \<mu> i rl con =
     do { (c, con) \<leftarrow> getchar \<mu> con;
          if 0x20 \<le> c \<and> i < BUFSIZE - 1 then
            readline_loop \<mu> (Suc i)
              (rl\<lparr>rl_buf := (rl_buf rl)[i := c],
                 rl_drawn := rl_drawn rl @ [(c, 20 + 8 * int (Suc i), 20 + 16 * rl_lines rl)]\<rparr>)
              (cputchar (uint c) con)
          else if c = 8 \<and> 0 < i then readline_loop \<mu> (i - 1) rl (cputchar (uint c) con)
          else if c = 0x0A \<or> c = 0x0D then
            Some (rl\<lparr>rl_buf := (rl_buf rl)[i := 0], rl_lines := rl_lines rl + 1\<rparr>, cputchar (uint c) con)
          else readline_loop \<mu> i rl con }"

text \<open>\<open>prompt\<close> is \<open>None\<close> for a null pointer; it is printed by %s from memory.\<close>

definition readline :: "bytes \<Rightarrow> u32 \<Rightarrow> line_reader \<Rightarrow> console \<Rightarrow> (line_reader \<times> console) option" where
  "readline \<mu> prompt rl con =
     do { con \<leftarrow> (if prompt \<noteq> 0 then map_option snd (cprintf \<mu> (literal ''%s'') [prompt] con) else Some con);
          readline_loop \<mu> 0 rl con }"

section \<open>Decoding\<close>

lemma charcode_range: "0 \<le> uint (charcode i data)" "uint (charcode i data) \<le> 255"
  using uint_bounded [of "charcode i data"] by auto

lemma kbd_decode_range: "0 \<le> fst (kbd_decode sh data) \<and> fst (kbd_decode sh data) \<le> 255"
  using charcode_range by (simp add: kbd_decode_def Let_def split: prod.split)

text \<open>The characters a sequence of scan codes stands for, and the shift state after it.\<close>

fun decode :: "u32 \<Rightarrow> u8 list \<Rightarrow> u8 list \<times> u32" where
  "decode sh [] = ([], sh)"
| "decode sh (data # rest) =
     (let (c, sh) = kbd_decode sh data; (cs, sh) = decode sh rest
      in (if c = 0 then cs else word_of_int c # cs, sh))"

lemma of_char_range: "0 \<le> (of_char c :: int)" "(of_char c :: int) < 256"
proof -
  have "(of_char c :: int) = of_char c mod 256"
    using of_char_of [of "of_char c :: int"] by simp
  then show "0 \<le> (of_char c :: int)" "(of_char c :: int) < 256"
    by (metis pos_mod_sign zero_less_numeral, metis pos_mod_bound zero_less_numeral)
qed

lemma uint_of_char: "uint (of_char c :: u8) = of_char c"
proof -
  have "(of_char c :: u8) = of_int (of_char c)" by (simp only: of_int_of_char)
  moreover have "take_bit 8 (of_char c :: int) = of_char c"
    using of_char_range by (simp add: take_bit_eq_mod)
  moreover have "uint (of_int (of_char c) :: u8) = take_bit 8 (of_char c)"
    by (simp only: uint_word_of_int_eq) simp
  ultimately show ?thesis by metis
qed

lemma of_char_int_eq: "(of_char c :: int) = 0x25 \<longleftrightarrow> c = CHR 0x25" "(of_char c :: int) = 0 \<longleftrightarrow> c = CHR 0x00"
proof -
  have "(0x25 :: int) = of_char (CHR 0x25)" "(0 :: int) = of_char (CHR 0x00)" by simp_all
  then show "(of_char c :: int) = 0x25 \<longleftrightarrow> c = CHR 0x25" "(of_char c :: int) = 0 \<longleftrightarrow> c = CHR 0x00"
    by (metis of_char_eq_iff)+
qed

lemma printf_text:
  assumes "\<forall>c \<in> set s. c \<noteq> CHR 0x25 \<and> c \<noteq> CHR 0x00"
  shows "vprintfmt putch \<mu> (literal s) ap d = Some (fold putch (map of_char s) d)"
proof -
  have "fmt_loop nest putch \<mu> (literal s) Text i ap d = Some (fold putch (map of_char (drop i s)) d)"
    if "i \<le> length s" for nest i d
    using that
  proof (induction "length s - i" arbitrary: i d)
    case 0
    then have "length s \<le> i" by linarith
    then have "literal s i = 0" "drop i s = []" by (simp_all add: literal_def)
    then have st: "fmt_step nest putch \<mu> (literal s) Text i ap d = Some (None, d)"
      by (simp add: fmt_step_def)
    show ?case unfolding \<open>drop i s = []\<close> by (subst fmt_loop.simps) (simp only: st option.case prod.case list.map fold.simps id_apply)
  next
    case (Suc n)
    then have i: "i < length s" by linarith
    have ne: "s ! i \<noteq> CHR 0x25" "s ! i \<noteq> CHR 0x00" using bspec [OF assms nth_mem [OF i]] by auto
    have "uint (literal s i) = of_char (s ! i)" using i by (simp add: literal_def uint_of_char)
    then have st: "fmt_step nest putch \<mu> (literal s) Text i ap d =
        Some (Some (Text, Suc i, ap), putch (of_char (s ! i)) d)"
      using ne by (simp add: fmt_step_def of_char_int_eq)
    have "drop i s = s ! i # drop (Suc i) s" using i by (simp add: Cons_nth_drop_Suc)
    then show ?case
      using Suc.hyps(1) [of "Suc i" "putch (of_char (s ! i)) d"] Suc.hyps(2) i
      by (subst fmt_loop.simps) (simp only: st option.case prod.case, simp)
  qed
  from this [of 0] show ?thesis by (simp add: vprintfmt_def)
qed

text \<open>Walking through a format: plain text, a conversion without flags, the end.\<close>

lemma fmt_plain:
  "i \<le> j \<Longrightarrow> \<forall>k \<in> {i..<j}. fmt k \<noteq> 0 \<and> fmt k \<noteq> 0x25 \<Longrightarrow>
     fmt_loop nest putch \<mu> fmt Text i ap d =
     fmt_loop nest putch \<mu> fmt Text j ap (fold putch (map (\<lambda>k. uint (fmt k)) [i..<j]) d)"
proof (induction "j - i" arbitrary: i d)
  case (Suc n)
  then have i: "i < j" by linarith
  have "fmt i \<noteq> 0" "fmt i \<noteq> 0x25" using bspec [OF Suc.prems(2), of i] i by auto
  then have "uint (fmt i) \<noteq> 0" "uint (fmt i) \<noteq> 0x25"
    using uint_inject [of "fmt i" 0] uint_inject [of "fmt i" "0x25"] by auto
  then have st: "fmt_step nest putch \<mu> fmt Text i ap d = Some (Some (Text, Suc i, ap), putch (uint (fmt i)) d)"
    by (simp add: fmt_step_def)
  have "fmt_loop nest putch \<mu> fmt Text i ap d = fmt_loop nest putch \<mu> fmt Text (Suc i) ap (putch (uint (fmt i)) d)"
    by (subst fmt_loop.simps) (simp only: st option.case prod.case)
  also have "\<dots> = fmt_loop nest putch \<mu> fmt Text j ap
      (fold putch (map (\<lambda>k. uint (fmt k)) [Suc i..<j]) (putch (uint (fmt i)) d))"
    using Suc.hyps(2) Suc.prems by (intro Suc.hyps(1)) auto
  finally show ?case using i by (simp add: upt_conv_Cons)
qed simp

lemma fmt_conversion:
  assumes "fmt i = 0x25" and "uint (fmt (Suc i)) = ch" and "is_conversion ch"
    and "convert putch \<mu> new_escape ch ap d = Some (ap', d')"
  shows "fmt_loop nest putch \<mu> fmt Text i ap d = fmt_loop nest putch \<mu> fmt Text (Suc (Suc i)) ap' d'"
proof -
  have s1: "fmt_step nest putch \<mu> fmt Text i ap d = Some (Some (Escape new_escape, Suc i, ap), d)"
    using assms(1) by (simp add: fmt_step_def)
  have "flag ch new_escape = None" "\<not> (0x31 \<le> ch \<and> ch \<le> 0x39)" "ch \<noteq> 0x2A"
    using assms(3) by (auto simp: is_conversion_def flag_def)
  then have s2: "fmt_step nest putch \<mu> fmt (Escape new_escape) (Suc i) ap d = Some (Some (Text, Suc (Suc i), ap'), d')"
    using assms(2-4) by (auto simp: fmt_step_def Let_def)
  show ?thesis
    by (subst fmt_loop.simps, simp only: s1 option.case prod.case, subst fmt_loop.simps)
      (simp only: s2 option.case prod.case)
qed

lemma fmt_end: "fmt i = 0 \<Longrightarrow> fmt_loop nest putch \<mu> fmt Text i ap d = Some d"
proof -
  assume "fmt i = 0"
  then have st: "fmt_step nest putch \<mu> fmt Text i ap d = Some (None, d)" by (simp add: fmt_step_def)
  show ?thesis by (subst fmt_loop.simps) (simp only: st option.case prod.case)
qed

lemma convert_hex:
  "convert putch \<mu> new_escape 0x78 (w # ap) d = Some (ap, fold putch (num_chars 16 (unat w) (-1) 0x20) d)"
proof -
  have b: "(2 :: nat) \<le> unat (16 :: u32)" by simp
  show ?thesis by (simp add: convert_def getuint_def new_escape_def printnum_fold [OF b])
qed

lemma convert_char: "convert putch \<mu> new_escape 0x63 (w # ap) d = Some (ap, putch (to_int w) d)"
  by (simp add: convert_def)

lemma cputch_fold: "\<exists>p n'. fold cputch cs (con, n) = (con\<lparr>ports := p\<rparr>, n')"
proof (induction cs arbitrary: con n)
  case Nil
  then show ?case by (intro exI [of _ "ports con"]) simp
next
  case (Cons c cs)
  then show ?case
    using Cons.IH [of "cons_putc c con" "n + 1"]
    by (auto simp: cputch_def cons_putc_def lpt_putc_def outb_def)
qed

lemma cprintf_text:
  assumes "\<forall>c \<in> set s. c \<noteq> CHR 0x25 \<and> c \<noteq> CHR 0x00"
  shows "\<exists>n p. cprintf \<mu> (literal s) ap con = Some (n, con\<lparr>ports := p\<rparr>)"
proof -
  obtain p n where "fold cputch (map of_char s) (con, 0) = (con\<lparr>ports := p\<rparr>, n)"
    using cputch_fold by blast
  then have "cprintf \<mu> (literal s) ap con = Some (n, con\<lparr>ports := p\<rparr>)"
    by (simp add: cprintf_def vcprintf_def printf_text [OF assms])
  then show ?thesis by blast
qed

section \<open>The input buffer is a queue\<close>

definition con_ok :: "console \<Rightarrow> bool" where
  "con_ok con \<longleftrightarrow> length (cbuf con) = CONSBUFSIZE \<and> rpos con < CONSBUFSIZE \<and> wpos con < CONSBUFSIZE"

definition waiting :: "console \<Rightarrow> u8 list" where
  "waiting con = ring_items CONSBUFSIZE (cbuf con) (rpos con) (wpos con)"

lemma cons_push_eq:
  assumes "con_ok con"
  shows "cons_push c con =
    Some (con\<lparr>cbuf := (cbuf con)[wpos con := c], wpos := next_slot CONSBUFSIZE (wpos con)\<rparr>)"
  using assms by (simp add: cons_push_def con_ok_def Let_def)

lemma cons_push_correct:
  assumes "con_ok con" and "length (waiting con) < CONSBUFSIZE - 1"
  shows "\<exists>con'. cons_push c con = Some con' \<and> con_ok con' \<and> waiting con' = waiting con @ [c] \<and>
    kin con' = kin con \<and> kshift con' = kshift con"
proof -
  have ne: "next_slot CONSBUFSIZE (wpos con) \<noteq> rpos con"
    using ring_full_iff [of "rpos con" CONSBUFSIZE "wpos con" "cbuf con"] assms
    unfolding con_ok_def waiting_def by linarith
  show ?thesis
    using ring_items_push [OF _ _ _ ne, of "cbuf con" c] assms(1)
    by (auto simp: cons_push_eq waiting_def con_ok_def CONSBUFSIZE_def)
qed

lemma cons_take_correct:
  assumes "con_ok con"
  shows "case waiting con of
      [] \<Rightarrow> cons_take con = Some (0, con)
    | c # cs \<Rightarrow> (\<exists>con'. cons_take con = Some (c, con') \<and> con_ok con' \<and> waiting con' = cs \<and>
        kin con' = kin con \<and> kshift con' = kshift con)"
proof (cases "rpos con = wpos con")
  case True
  then show ?thesis using assms by (simp add: waiting_def con_ok_def cons_take_def)
next
  case False
  have w: "waiting con = cbuf con ! rpos con #
      ring_items CONSBUFSIZE (cbuf con) (next_slot CONSBUFSIZE (rpos con)) (wpos con)"
    unfolding waiting_def by (rule ring_items_pop) (use assms False in \<open>auto simp: con_ok_def\<close>)
  show ?thesis
    using False assms unfolding w list.case
    by (auto simp: cons_take_def Let_def con_ok_def waiting_def CONSBUFSIZE_def)
qed

interpretation cons_queue: fifo con_ok waiting "CONSBUFSIZE - 1" cons_push cons_take 0
proof unfold_locales
  fix con and c :: u8
  assume "con_ok con" "length (waiting con) < CONSBUFSIZE - 1"
  then show "\<exists>s'. cons_push c con = Some s' \<and> con_ok s' \<and> waiting s' = waiting con @ [c]"
    using cons_push_correct by blast
next
  fix con assume "con_ok con"
  then show "case waiting con of [] \<Rightarrow> cons_take con = Some (0, con)
    | c # cs \<Rightarrow> \<exists>s'. cons_take con = Some (c, s') \<and> con_ok s' \<and> waiting s' = cs"
    using cons_take_correct [of con] by (auto split: list.splits)
qed

section \<open>Polling the keyboard\<close>

lemma kbd_proc_data_correct:
  assumes "kin con = data # rest"
  shows "\<exists>p. kbd_proc_data \<mu> con = Some (fst (kbd_decode (kshift con) data),
    con\<lparr>kin := rest, kshift := snd (kbd_decode (kshift con) data), ports := p\<rparr>)"
proof -
  obtain c sh where d: "kbd_decode (kshift con) data = (c, sh)" by fastforce
  let ?con = "con\<lparr>kin := rest, kshift := sh\<rparr>"
  have "\<forall>c \<in> set (''Rebooting!'' @ [CHR 0x0A]). c \<noteq> CHR 0x25 \<and> c \<noteq> CHR 0x00" by simp
  from cprintf_text [OF this] obtain n p where
    p: "cprintf \<mu> (literal (''Rebooting!'' @ [CHR 0x0A])) [] ?con = Some (n, ?con\<lparr>ports := p\<rparr>)" by blast
  show ?thesis
  proof (cases "NOT sh AND (CTL OR ALT) = 0 \<and> c = uint KEY_DEL")
    case True
    then show ?thesis
      using assms d p by (intro exI [of _ "p @ [(0x92, 0x3)]"])
        (simp add: kbd_proc_data_def Let_def outb_def del: append_Cons append_Nil)
  next
    case False
    then show ?thesis
      using assms d by (intro exI [of _ "ports con"]) (auto simp: kbd_proc_data_def Let_def)
  qed
qed

definition pending :: "console \<Rightarrow> u8 list" where
  "pending con = waiting con @ fst (decode (kshift con) (kin con))"

lemma waiting_ports [simp]: "waiting (con\<lparr>ports := p\<rparr>) = waiting con" "con_ok (con\<lparr>ports := p\<rparr>) = con_ok con"
  "waiting (con\<lparr>kin := k\<rparr>) = waiting con" "con_ok (con\<lparr>kin := k\<rparr>) = con_ok con"
  "waiting (con\<lparr>kshift := sh\<rparr>) = waiting con" "con_ok (con\<lparr>kshift := sh\<rparr>) = con_ok con"
  by (simp_all add: waiting_def con_ok_def)

lemma cons_intr_correct:
  "con_ok con \<Longrightarrow> length (pending con) \<le> CONSBUFSIZE - 1 \<Longrightarrow>
     \<exists>con'. cons_intr \<mu> con = Some con' \<and> con_ok con' \<and> waiting con' = pending con \<and> kin con' = [] \<and>
       kshift con' = snd (decode (kshift con) (kin con))"
proof (induction "kin con" arbitrary: con)
  case Nil
  then show ?case
    by (subst cons_intr.simps) (auto simp: kbd_proc_data_def pending_def split: list.splits)
next
  case (Cons data rest)
  obtain c sh where d: "kbd_decode (kshift con) data = (c, sh)" by fastforce
  obtain p where p: "kbd_proc_data \<mu> con = Some (c, con\<lparr>kin := rest, kshift := sh, ports := p\<rparr>)"
    using kbd_proc_data_correct [of con data rest \<mu>] Cons.hyps(2) d by auto
  let ?con = "con\<lparr>kin := rest, kshift := sh, ports := p\<rparr>"
  have kin: "kin con = data # rest" using Cons.hyps(2) by simp
  obtain cs sh' where r: "decode sh rest = (cs, sh')" by fastforce
  have dec: "decode (kshift con) (kin con) = (if c = 0 then cs else word_of_int c # cs, sh')"
    unfolding kin using d r by simp
  have ok: "con_ok ?con" "waiting ?con = waiting con" using Cons.prems(1) by simp_all
  have cpos: "c \<noteq> - 1" using kbd_decode_range [of "kshift con" data] d by auto
  show ?case
  proof (cases "c = 0")
    case True
    then have "pending ?con = pending con" "snd (decode (kshift ?con) (kin ?con)) = sh'"
      using ok r dec by (simp_all add: pending_def)
    then show ?thesis
      using Cons.hyps(1) [of ?con] Cons.prems ok dec p True cpos
      by (subst cons_intr.simps) simp
  next
    case False
    have "length (waiting ?con) < CONSBUFSIZE - 1"
      using Cons.prems(2) ok dec False unfolding pending_def by simp
    from cons_push_correct [OF ok(1) this, of "word_of_int c"] obtain con1 where
      c1: "cons_push (word_of_int c) ?con = Some con1" "con_ok con1" "waiting con1 = waiting con @ [word_of_int c]"
        "kin con1 = rest" "kshift con1 = sh" using ok by auto
    then have "pending con1 = pending con" "snd (decode (kshift con1) (kin con1)) = sh'"
      using r dec False by (simp_all add: pending_def)
    then show ?thesis
      using Cons.hyps(1) [of con1] Cons.prems(2) c1 dec p False cpos
      by (subst cons_intr.simps) simp
  qed
qed

lemma decode_nonzero: "0 \<notin> set (fst (decode sh ks))"
proof (induction ks arbitrary: sh)
  case (Cons data rest)
  obtain c sh1 where d: "kbd_decode sh data = (c, sh1)" by fastforce
  have "0 \<le> c" "c \<le> 255" using kbd_decode_range [of sh data] d by auto
  then have "uint (word_of_int c :: u8) = c" by (simp add: uint_word_of_int_eq take_bit_eq_mod)
  then have "c \<noteq> 0 \<Longrightarrow> (word_of_int c :: u8) \<noteq> 0" by auto
  then show ?case using Cons [of sh1] d by (auto split: prod.splits)
qed simp

lemma getchar_correct:
  assumes "con_ok con" and "pending con = c # cs" and "c \<noteq> 0" and "length (pending con) \<le> CONSBUFSIZE - 1"
  shows "\<exists>con'. getchar \<mu> con = Some (c, con') \<and> con_ok con' \<and> pending con' = cs"
proof -
  from cons_intr_correct [OF assms(1,4), of \<mu>] obtain con1 where
    c1: "cons_intr \<mu> con = Some con1" "con_ok con1" "waiting con1 = c # cs" "kin con1 = []"
    using assms(2) by auto
  from cons_take_correct [OF c1(2)] c1(3,4) obtain con2 where
    "cons_take con1 = Some (c, con2)" "con_ok con2" "waiting con2 = cs" "kin con2 = []" by auto
  then show ?thesis
    using c1 assms(3) by (subst getchar.simps) (simp add: cons_getc_def kbd_intr_def pending_def)
qed

section \<open>Reading a line\<close>

text \<open>What one character does to the line typed so far.\<close>

definition line_edit :: "u8 \<Rightarrow> u8 list \<Rightarrow> u8 list" where
  "line_edit c line =
     (if 0x20 \<le> c \<and> length line < BUFSIZE - 1 then line @ [c] else if c = 8 then butlast line else line)"

abbreviation newline :: "u8 \<Rightarrow> bool" where
  "newline c \<equiv> c = 0x0A \<or> c = 0x0D"

lemma pending_cputchar [simp]: "pending (cputchar c con) = pending con" "con_ok (cputchar c con) = con_ok con"
  by (simp_all add: pending_def cputchar_def cons_putc_def lpt_putc_def outb_def)

lemma line_edit_length: "length line < BUFSIZE \<Longrightarrow> length (line_edit c line) < BUFSIZE"
  by (auto simp: line_edit_def)

lemma readline_loop_correct:
  assumes "con_ok con" and "pending con = cs @ nl # rest" and "newline nl" and "\<forall>c \<in> set cs. \<not> newline c \<and> c \<noteq> 0"
    and "length (pending con) \<le> CONSBUFSIZE - 1" and "length (rl_buf rl) = BUFSIZE"
    and "take i (rl_buf rl) = line" and "length line = i" and "i < BUFSIZE"
  shows "\<exists>rl' con'. readline_loop \<mu> i rl con = Some (rl', con') \<and> con_ok con' \<and> pending con' = rest \<and>
    length (rl_buf rl') = BUFSIZE \<and> rl_lines rl' = rl_lines rl + 1 \<and>
    (let line' = fold line_edit cs line
     in length line' < BUFSIZE \<and> take (Suc (length line')) (rl_buf rl') = line' @ [0])"
  using assms
proof (induction cs arbitrary: con i rl line)
  case Nil
  have "nl \<noteq> 0" using Nil.prems(3) by auto
  then obtain con' where g: "getchar \<mu> con = Some (nl, con')" "con_ok con'" "pending con' = rest"
    using getchar_correct [of con nl rest \<mu>] Nil.prems by auto
  have "\<not> 0x20 \<le> nl" "nl \<noteq> 8" using Nil.prems(3) by auto
  then have "readline_loop \<mu> i rl con =
      Some (rl\<lparr>rl_buf := (rl_buf rl)[i := 0], rl_lines := rl_lines rl + 1\<rparr>, cputchar (uint nl) con')"
    using g Nil.prems(3) by (subst readline_loop.simps) auto
  moreover have "take (Suc i) ((rl_buf rl)[i := 0]) = line @ [0]"
    using Nil.prems(6-9) by (simp add: take_Suc_conv_app_nth)
  ultimately show ?case using g Nil.prems(6,8,9) by simp
next
  case (Cons c cs)
  have nz: "c \<noteq> 0" "\<not> newline c" using Cons.prems(4) by auto
  then obtain con' where g: "getchar \<mu> con = Some (c, con')" "con_ok con'" "pending con' = cs @ nl # rest"
    using getchar_correct [of con c "cs @ nl # rest" \<mu>] Cons.prems by auto
  have len: "length (pending con') \<le> CONSBUFSIZE - 1" using Cons.prems(2,5) g(3) by simp
  consider "0x20 \<le> c \<and> i < BUFSIZE - 1" | "\<not> (0x20 \<le> c \<and> i < BUFSIZE - 1)" "c = 8 \<and> 0 < i"
    | "\<not> (0x20 \<le> c \<and> i < BUFSIZE - 1)" "\<not> (c = 8 \<and> 0 < i)" by blast
  then show ?case
  proof cases
    case 1
    let ?rl = "rl\<lparr>rl_buf := (rl_buf rl)[i := c],
      rl_drawn := rl_drawn rl @ [(c, 20 + 8 * int (Suc i), 20 + 16 * rl_lines rl)]\<rparr>"
    have st: "readline_loop \<mu> i rl con = readline_loop \<mu> (Suc i) ?rl (cputchar (uint c) con')"
      using g 1 by (subst readline_loop.simps) simp
    have i: "Suc i < BUFSIZE" using 1 by linarith
    have "line_edit c line = line @ [c]" using 1 Cons.prems(8) by (simp add: line_edit_def)
    moreover have "take (Suc i) (rl_buf ?rl) = line @ [c]"
      using Cons.prems(6-9) by (simp add: take_Suc_conv_app_nth)
    ultimately show ?thesis
      using Cons.IH [of "cputchar (uint c) con'" ?rl "Suc i" "line @ [c]"] g len Cons.prems st i by simp
  next
    case 2
    have st: "readline_loop \<mu> i rl con = readline_loop \<mu> (i - 1) rl (cputchar (uint c) con')"
      using g 2 by (subst readline_loop.simps) simp
    have "line_edit c line = butlast line" using 2 by (simp add: line_edit_def)
    moreover have "take (i - 1) (rl_buf rl) = butlast line"
      using Cons.prems(7,8) by (metis butlast_take diff_le_self length_take min_def nat_le_linear take_all)
    ultimately show ?thesis
      using Cons.IH [of "cputchar (uint c) con'" rl "i - 1" "butlast line"] g len Cons.prems st 2 by simp
  next
    case 3
    have st: "readline_loop \<mu> i rl con = readline_loop \<mu> i rl con'"
      using g 3 nz by (subst readline_loop.simps) auto
    have "line_edit c line = line" using 3 Cons.prems(8) by (auto simp: line_edit_def)
    then show ?thesis
      using Cons.IH [of con' rl i line] g len Cons.prems st by simp
  qed
qed

section \<open>Modifier keys\<close>

lemma ucast_or: "ucast (a OR b :: u8) = (ucast a OR ucast b :: u32)"
  by (rule bit_word_eqI) (auto simp: bit_simps)

text \<open>Pressing a key that is not a toggle and releasing it again.\<close>

lemma kbd_press_release:
  assumes "data AND 0x80 = 0" and "data \<noteq> 0x60" and "togglecode data = 0"
    and "sh AND (ucast (shiftcode data) OR E0ESC) = 0"
  shows "kbd_decode (snd (kbd_decode sh data)) (data OR 0x80) = (0, sh)"
proof -
  have E: "sh AND E0ESC = 0" and S: "sh AND ucast (shiftcode data) = 0"
  proof -
    have "sh AND E0ESC = (sh AND (ucast (shiftcode data) OR E0ESC)) AND E0ESC"
      "sh AND ucast (shiftcode data) = (sh AND (ucast (shiftcode data) OR E0ESC)) AND ucast (shiftcode data)"
      by (auto intro!: bit_word_eqI simp: bit_simps)
    then show "sh AND E0ESC = 0" "sh AND ucast (shiftcode data) = 0" using assms(4) by simp_all
  qed
  have ne: "data \<noteq> 0xE0" using assms(1) by auto
  have d7: "data AND 0x7F = data"
  proof (rule bit_word_eqI)
    fix n assume n: "n < LENGTH(8)"
    have "\<not> bit data 7" using arg_cong [OF assms(1), of "\<lambda>w. bit w 7"] by (simp add: bit_and_iff)
    moreover have "(0x7F :: u8) = mask 7" by (simp add: mask_eq_exp_minus_1)
    ultimately show "bit (data AND 0x7F) n = bit data n"
      using n by (auto simp: bit_and_iff bit_mask_iff less_Suc_eq eval_nat_numeral)
  qed
  have "snd (kbd_decode sh data) = sh OR ucast (shiftcode data)"
    using assms(1,3) ne E by (simp add: kbd_decode_def Let_def)
  moreover have "data OR 0x80 \<noteq> 0xE0"
  proof
    assume "data OR 0x80 = 0xE0"
    then have "(data OR 0x80) AND 0x7F = 0xE0 AND 0x7F" by simp
    moreover have "(data OR 0x80) AND 0x7F = data" using d7 by (simp add: bit.conj_disj_distrib2)
    ultimately show False using assms(2) by simp
  qed
  moreover have "(data OR 0x80) AND 0x80 \<noteq> 0" by (simp add: bit.conj_disj_distrib2)
  moreover have "(data OR 0x80) AND 0x7F = data" using d7 by (simp add: bit.conj_disj_distrib2)
  moreover have "(sh OR ucast (shiftcode data)) AND E0ESC = 0"
    using E by (simp add: bit.conj_disj_distrib2 E0ESC_def shiftcode_def CTL_def SHIFT_def ALT_def)
  moreover have "(sh OR ucast (shiftcode data)) AND NOT (ucast (shiftcode data) OR E0ESC) = sh"
  proof (rule bit_word_eqI)
    fix n assume n: "n < LENGTH(32)"
    have "\<not> (bit sh n \<and> bit (ucast (shiftcode data) :: u32) n)" "\<not> (bit sh n \<and> bit E0ESC n)"
      using arg_cong [OF S, of "\<lambda>w. bit w n"] arg_cong [OF E, of "\<lambda>w. bit w n"] by (simp_all add: bit_and_iff)
    then show "bit ((sh OR ucast (shiftcode data)) AND NOT (ucast (shiftcode data) OR E0ESC)) n = bit sh n"
      using n by (auto simp: bit_and_iff bit_or_iff bit_not_iff)
  qed
  ultimately show ?thesis by (simp add: kbd_decode_def Let_def)
qed

section \<open>Losing input\<close>

lemma cons_push_all:
  assumes "con_ok con"
  shows "\<exists>con'. fold (\<lambda>c s. s \<bind> cons_push c) cs (Some con) = Some con' \<and> con_ok con' \<and>
    rpos con' = rpos con \<and> kin con' = kin con \<and> kshift con' = kshift con \<and>
    wpos con' = (wpos con + length cs) mod CONSBUFSIZE"
  using assms
proof (induction cs arbitrary: con)
  case Nil
  then show ?case by (auto simp: con_ok_def)
next
  case (Cons c cs)
  let ?con = "con\<lparr>cbuf := (cbuf con)[wpos con := c], wpos := next_slot CONSBUFSIZE (wpos con)\<rparr>"
  have "con_ok ?con" using Cons.prems by (auto simp: con_ok_def)
  from Cons.IH [OF this] obtain con' where c:
    "fold (\<lambda>c s. s \<bind> cons_push c) cs (Some ?con) = Some con'" "con_ok con'"
    "rpos con' = rpos con" "kin con' = kin con" "kshift con' = kshift con"
    "wpos con' = (next_slot CONSBUFSIZE (wpos con) + length cs) mod CONSBUFSIZE" by auto
  have "(next_slot CONSBUFSIZE (wpos con) + length cs) mod CONSBUFSIZE = (wpos con + length (c # cs)) mod CONSBUFSIZE"
  proof (cases "Suc (wpos con) = CONSBUFSIZE")
    case True
    then have "wpos con + length (c # cs) = length cs + CONSBUFSIZE" by simp
    then have "(wpos con + length (c # cs)) mod CONSBUFSIZE = length cs mod CONSBUFSIZE" by (metis mod_add_self2)
    then show ?thesis using True by simp
  qed simp
  then show ?case using c cons_push_eq [OF Cons.prems, of c] by simp
qed

section \<open>Properties\<close>

text \<open>The state after power-on with some scan codes waiting in the controller.\<close>

definition new_console :: "u8 list \<Rightarrow> console" where
  "new_console ks =
     \<lparr>cbuf = replicate CONSBUFSIZE 0, rpos = 0, wpos = 0, kshift = 0, kin = ks, ports = []\<rparr>"

lemma new_console_ok: "con_ok (new_console ks)" "waiting (new_console ks) = []"
  by (simp_all add: new_console_def con_ok_def waiting_def CONSBUFSIZE_def)



text \<open>As long as at most 511 characters wait, the console buffer behaves as a first-in
  first-out queue under every sequence of the two operations.\<close>

theorem console_buffer_is_queue:
  assumes "con_ok con" and "run_list 0 (CONSBUFSIZE - 1) ops (waiting con) = Some (xs, q)"
  shows "\<exists>con'. run_queue cons_push cons_take ops con = Some (xs, con') \<and> con_ok con' \<and> waiting con' = q"
  by (rule cons_queue.run_refines [OF assms])

theorem console_buffer_is_queue_witness:
  "\<exists>con'. run_queue cons_push cons_take [Push 7, Push 9, Pop, Pop, Pop] (new_console []) = Some ([7, 9, 0], con') \<and>
     con_ok con' \<and> waiting con' = []"
  by (rule console_buffer_is_queue [OF new_console_ok(1)]) (simp add: new_console_ok CONSBUFSIZE_def)

text \<open>The buffer has no test for being full: 512 characters that arrive before one is read
  make it look empty, so all of them are lost.\<close>

theorem console_overrun_loses_all:
  assumes "con_ok con" and "waiting con = []" and "length cs = CONSBUFSIZE"
  shows "\<exists>con'. fold (\<lambda>c s. s \<bind> cons_push c) cs (Some con) = Some con' \<and> waiting con' = [] \<and>
    cons_take con' = Some (0, con')"
proof -
  have "rpos con = wpos con"
    using assms(1,2) ring_empty_iff unfolding con_ok_def waiting_def by blast
  moreover obtain con' where c: "fold (\<lambda>c s. s \<bind> cons_push c) cs (Some con) = Some con'" "con_ok con'"
    "rpos con' = rpos con" "wpos con' = (wpos con + length cs) mod CONSBUFSIZE"
    using cons_push_all [OF assms(1)] by blast
  ultimately have "rpos con' = wpos con'" using assms(1,3) by (simp add: con_ok_def)
  then show ?thesis using c by (simp add: waiting_def con_ok_def cons_take_def)
qed

theorem console_overrun_loses_all_witness:
  "\<exists>con'. fold (\<lambda>c s. s \<bind> cons_push c) (replicate CONSBUFSIZE 0x61) (Some (new_console [])) = Some con' \<and>
     waiting con' = [] \<and> cons_take con' = Some (0, con')"
  by (rule console_overrun_loses_all [OF new_console_ok]) simp

text \<open>Pressing a key that is not a toggle key and releasing it leaves the shift state as it was,
  so no modifier sticks; scan code 0x60 is left out, its release code being the escape byte.\<close>

theorem key_press_release_restores_shift:
  assumes "data AND 0x80 = 0" and "data \<noteq> 0x60" and "togglecode data = 0"
    and "sh AND (ucast (shiftcode data) OR E0ESC) = 0"
  shows "kbd_decode (snd (kbd_decode sh data)) (data OR 0x80) = (0, sh)"
  by (rule kbd_press_release [OF assms])

theorem key_press_release_restores_shift_witness:
  "kbd_decode (snd (kbd_decode CTL 0x2A)) (0x2A OR 0x80) = (0, CTL)"
  by (rule key_press_release_restores_shift)
    (simp_all add: CTL_def togglecode_def shiftcode_def SHIFT_def E0ESC_def)

end
