(* ===== verification/Devices.thy ===== *)
theory Devices
  imports Console
begin

text \<open>
  The small library routines of libs/rand.c, libs/math.h and libs/atomic.h, and the two interrupt
  devices: the 8259A controllers (kern/driver/picirq.c) and the timer (kern/driver/clock.c). Port
  writes go to the log of the console state.
\<close>

section \<open>libs/rand.c\<close>

definition RAND_MAX :: u32 where "RAND_MAX = 2147483647"

text \<open>The state is the variable \<open>next\<close>.\<close>

definition rand :: "u64 \<Rightarrow> (int \<times> u64) option" where
  "rand nx =
     (let nx = (nx * 0x5DEECE66D + 0xB) AND (push_bit 48 1 - 1); result = drop_bit 12 nx in
      do { (q, md) \<leftarrow> do_div result (RAND_MAX + 1); Some (to_int md, nx) })"

definition srand :: "u32 \<Rightarrow> u64" where
  "srand seed = ucast seed"

section \<open>libs/math.h\<close>

fun pow_loop :: "nat \<Rightarrow> u32 \<Rightarrow> u32 \<Rightarrow> u32" where
  "pow_loop 0 x ret = ret"
| "pow_loop (Suc n) x ret = pow_loop n x (ret * x)"

definition pow :: "u32 \<Rightarrow> int \<Rightarrow> u32" where
  "pow x e = pow_loop (nat e) x 1"

text \<open>\<open>size_i\<close> is compared as an unsigned number and shifted as a word.\<close>

partial_function (option) log2n_loop :: "u32 \<Rightarrow> int \<Rightarrow> u32 \<Rightarrow> int option" where
  "log2n_loop n i size_i =
     (if size_i \<le> n then log2n_loop n (i + 1) (push_bit 1 size_i) else Some (i - 1))"

definition log2n :: "u32 \<Rightarrow> int option" where
  "log2n n = log2n_loop n 0 1"

section \<open>libs/atomic.h\<close>

section \<open>kern/driver/picirq.c\<close>

definition IO_PIC1 :: u16 where "IO_PIC1 = 0x20"
definition IO_PIC2 :: u16 where "IO_PIC2 = 0xA0"
definition IRQ_SLAVE :: nat where "IRQ_SLAVE = 2"
definition IRQ_OFFSET :: u8 where "IRQ_OFFSET = 32"
definition IRQ_TIMER :: nat where "IRQ_TIMER = 0"
definition IRQ_KBD :: nat where "IRQ_KBD = 1"

record pic =
  did_init :: bool
  irq_mask :: u16

definition pic_boot :: pic where
  "pic_boot = \<lparr>did_init = False, irq_mask = 0xFFFF AND NOT (push_bit IRQ_SLAVE 1)\<rparr>"

definition pic_setmask :: "u16 \<Rightarrow> pic \<times> console \<Rightarrow> pic \<times> console" where
  "pic_setmask m = (\<lambda>(p, con).
     let p = p\<lparr>irq_mask := m\<rparr> in
     (p, if did_init p then
           outb (IO_PIC2 + 1) (ucast (drop_bit 8 m)) (outb (IO_PIC1 + 1) (ucast m) con)
         else con))"

definition pic_init_writes :: "(u16 \<times> u8) list" where
  "pic_init_writes =
     [(IO_PIC1 + 1, 0xFF), (IO_PIC2 + 1, 0xFF),
      (IO_PIC1, 0x11), (IO_PIC1 + 1, IRQ_OFFSET), (IO_PIC1 + 1, push_bit IRQ_SLAVE 1), (IO_PIC1 + 1, 0x3),
      (IO_PIC2, 0x11), (IO_PIC2 + 1, IRQ_OFFSET + 8), (IO_PIC2 + 1, of_nat IRQ_SLAVE), (IO_PIC2 + 1, 0x3),
      (IO_PIC1, 0x68), (IO_PIC1, 0x0a), (IO_PIC2, 0x68), (IO_PIC2, 0x0a)]"

definition pic_init :: "bytes \<Rightarrow> pic \<times> console \<Rightarrow> (pic \<times> console) option" where
  "pic_init \<mu> = (\<lambda>(p, con).
     let p = p\<lparr>did_init := True\<rparr>;
         con = fold (\<lambda>(port, data). outb port data) pic_init_writes con;
         (p, con) = (if irq_mask p \<noteq> 0xFFFF then pic_setmask (irq_mask p) (p, con) else (p, con))
     in map_option (\<lambda>(n, con). (p, con)) (cprintf \<mu> (literal (''pic_init finished'' @ [CHR 0x0A])) [] con))"

definition pic_enable :: "nat \<Rightarrow> pic \<times> console \<Rightarrow> pic \<times> console" where
  "pic_enable irq s = pic_setmask (irq_mask (fst s) AND NOT (push_bit irq 1)) s"

section \<open>kern/driver/clock.c\<close>

definition IO_TIMER1 :: u16 where "IO_TIMER1 = 0x40"
definition TIMER_FREQ :: nat where "TIMER_FREQ = 1193182"

definition TIMER_DIV :: "nat \<Rightarrow> nat" where
  "TIMER_DIV x = (TIMER_FREQ + x div 2) div x"

text \<open>The new value of \<open>ticks\<close> is the first component.\<close>

definition clock_init :: "bytes \<Rightarrow> pic \<times> console \<Rightarrow> (u32 \<times> pic \<times> console) option" where
  "clock_init \<mu> = (\<lambda>(p, con).
     let con = outb (IO_TIMER1 + 3) (0x00 OR 0x04 OR 0x30) con;
         con = outb IO_TIMER1 (of_nat (TIMER_DIV 100 mod 256)) con;
         con = outb IO_TIMER1 (of_nat (TIMER_DIV 100 div 256)) con
     in do { (n, con) \<leftarrow> cprintf \<mu> (literal (''++ setup timer interrupts'' @ [CHR 0x0A])) [] con;
             Some (0, pic_enable IRQ_TIMER (p, con)) })"

text \<open>\<open>kbd_init\<close> and \<open>cons_init\<close> of console.c, which enable the keyboard's interrupt.\<close>

definition kbd_init :: "bytes \<Rightarrow> pic \<times> console \<Rightarrow> (pic \<times> console) option" where
  "kbd_init \<mu> = (\<lambda>(p, con). map_option (\<lambda>con. pic_enable IRQ_KBD (p, con)) (kbd_intr \<mu> con))"

definition cons_init :: "bytes \<Rightarrow> pic \<times> console \<Rightarrow> (pic \<times> console) option" where
  "cons_init \<mu> s = kbd_init \<mu> s"

section \<open>Lemmas\<close>

lemma rand_correct:
  "\<exists>r n. rand nx = Some (r, n) \<and> n = (nx * 0x5DEECE66D + 0xB) AND 0xFFFFFFFFFFFF \<and>
     0 \<le> r \<and> r \<le> uint RAND_MAX \<and> r = uint (drop_bit 12 n) mod 2 ^ 31"
proof -
  define n :: u64 where "n = (nx * 0x5DEECE66D + 0xB) AND 0xFFFFFFFFFFFF"
  let ?md = "ucast (drop_bit 12 n mod 0x80000000) :: u32" and ?r = "uint (drop_bit 12 n) mod 2147483648"
  have r: "0 \<le> ?r" "?r < 2147483648" by (rule pos_mod_sign, simp, rule pos_mod_bound, simp)
  have "uint (drop_bit 12 n mod 0x80000000) = ?r" by (simp add: uint_mod)
  then have u: "uint ?md = ?r" using r by (simp add: unsigned_ucast_eq take_bit_eq_mod)
  have "sint ?md = signed_take_bit 31 (uint ?md)" by (simp add: sint_uint)
  then have s: "sint ?md = ?r" unfolding u using r by (simp add: signed_take_bit_int_eq_self_iff)
  have "rand nx = (let result = drop_bit 12 n in
      do { (q, md) \<leftarrow> do_div result (RAND_MAX + 1); Some (to_int md, n) })"
    by (simp add: rand_def n_def)
  also have "\<dots> = Some (sint ?md, n)" by (simp add: RAND_MAX_def do_div_correct to_int_def)
  finally show ?thesis using s r n_def by (simp add: RAND_MAX_def)
qed

lemma pow_loop_correct: "pow_loop n x ret = ret * x ^ n"
  by (induction n arbitrary: ret) (auto simp: algebra_simps)

lemma log2n_loop_correct:
  assumes "unat n < 2 ^ 31" and "k \<le> 31" and "2 ^ k \<le> 2 * unat n + 1" and "i = int k"
  shows "\<exists>r. log2n_loop n i (of_nat (2 ^ k)) = Some (int r - 1) \<and> unat n < 2 ^ r \<and> 2 ^ r \<le> 2 * unat n + 1"
  using assms
proof (induction "31 - k" arbitrary: k i)
  case 0
  then have k: "k = 31" by simp
  have "\<not> of_nat (2 ^ 31) \<le> n" using 0(2) by (simp add: word_le_nat_alt)
  then show ?case using 0 k by (intro exI [of _ 31]) (simp add: log2n_loop.simps)
next
  case (Suc m)
  then have k: "k < 31" by simp
  have u: "unat (of_nat (2 ^ k) :: u32) = 2 ^ k"
    using k by (intro unat_of_nat_u32) (use power_strict_increasing [of k 32 "2 :: nat"] in simp)
  show ?case
  proof (cases "2 ^ k \<le> unat n")
    case True
    have le: "of_nat (2 ^ k) \<le> n" using True u by (simp only: word_le_nat_alt)
    have "push_bit 1 (of_nat (2 ^ k) :: u32) = of_nat (2 ^ Suc k)" by (simp add: push_bit_eq_mult mult.commute)
    then have "log2n_loop n i (of_nat (2 ^ k)) = log2n_loop n (i + 1) (of_nat (2 ^ Suc k))"
      by (subst log2n_loop.simps) (simp only: le if_True)
    then show ?thesis using Suc.hyps(1) [of "Suc k" "i + 1"] Suc.hyps(2) Suc.prems True k by simp
  next
    case False
    then have "\<not> of_nat (2 ^ k) \<le> n" using u unfolding word_le_nat_alt by linarith
    then have "log2n_loop n i (of_nat (2 ^ k)) = Some (i - 1)"
      by (subst log2n_loop.simps) (simp only: if_False)
    then show ?thesis using Suc.prems False by (intro exI [of _ k]) simp
  qed
qed

lemma log2n_bounds:
  assumes "0 < n" and "unat n < 2 ^ 31"
  shows "\<exists>r. log2n n = Some (int r) \<and> 2 ^ r \<le> unat n \<and> unat n < 2 ^ Suc r"
proof -
  have n: "0 < unat n" using assms(1) by (simp add: word_less_nat_alt)
  from log2n_loop_correct [OF assms(2), of 0 0] obtain r where
    r: "log2n n = Some (int r - 1)" "unat n < 2 ^ r" "2 ^ r \<le> 2 * unat n + 1" by (auto simp: log2n_def)
  from r(2) n obtain r' where r': "r = Suc r'" by (cases r) auto
  then have "2 ^ r' \<le> unat n" using r(3) by simp
  then show ?thesis using r r' by auto
qed

text \<open>From \<open>2 ^ 31\<close> on the loop never ends: \<open>size_i\<close> reaches 0 and stays there.\<close>

lemma log2n_loop_zero: "log2n_loop n i 0 = None"
proof -
  have "\<forall>r. log2n_loop n i s = Some r \<longrightarrow> s \<noteq> 0" for i s
  proof (intro allI impI)
    fix r assume "log2n_loop n i s = Some r"
    then show "s \<noteq> 0"
    proof (induction n i s r rule: log2n_loop.raw_induct [rotated, consumes 1, case_names 1])
      case (1 loop n i s r)
      then show ?case by (cases "s = 0") (auto split: if_splits)
    qed
  qed
  then show ?thesis by (cases "log2n_loop n i 0") auto
qed

lemma log2n_diverges:
  assumes "2 ^ 31 \<le> unat n"
  shows "log2n n = None"
proof -
  have "log2n_loop n (int k) (of_nat (2 ^ k)) = None" if "k \<le> 32" for k
    using that
  proof (induction "32 - k" arbitrary: k)
    case 0
    then have "k = 32" by simp
    moreover have "(of_nat (2 ^ 32) :: u32) = 0" by simp
    ultimately show ?case using log2n_loop_zero [of n "int k"] by (simp only:)
  next
    case (Suc m)
    then have k: "k < 32" by simp
    have u: "unat (of_nat (2 ^ k) :: u32) = 2 ^ k"
      using k by (intro unat_of_nat_u32) (use power_strict_increasing [of k 32 "2 :: nat"] in simp)
    have "(2 :: nat) ^ k \<le> 2 ^ 31" using k by (intro power_increasing) auto
    then have le: "of_nat (2 ^ k) \<le> n" using u assms unfolding word_le_nat_alt by linarith
    have "push_bit 1 (of_nat (2 ^ k) :: u32) = of_nat (2 ^ Suc k)" by (simp add: push_bit_eq_mult mult.commute)
    then have "log2n_loop n (int k) (of_nat (2 ^ k)) = log2n_loop n (int k + 1) (of_nat (2 ^ Suc k))"
      by (subst log2n_loop.simps) (simp only: le if_True)
    moreover have "int k + 1 = int (Suc k)" by simp
    ultimately show ?case using Suc.hyps(1) [of "Suc k"] Suc.hyps(2) k by simp
  qed
  from this [of 0] show ?thesis by (simp add: log2n_def)
qed

text \<open>The masks the controllers hold: the last bytes written to their data ports.\<close>

definition last_write :: "u16 \<Rightarrow> console \<Rightarrow> u8 option" where
  "last_write port con = map_of (rev (ports con)) port"

lemma last_write_outb: "last_write p (outb q data con) = (if p = q then Some data else last_write p con)"
  by (simp add: last_write_def outb_def)

definition pic_agrees :: "pic \<times> console \<Rightarrow> bool" where
  "pic_agrees s \<longleftrightarrow> did_init (fst s) \<longrightarrow>
     last_write (IO_PIC1 + 1) (snd s) = Some (ucast (irq_mask (fst s))) \<and>
     last_write (IO_PIC2 + 1) (snd s) = Some (ucast (drop_bit 8 (irq_mask (fst s))))"

lemma pic_setmask_agrees: "pic_agrees (pic_setmask m s)"
  by (cases s) (simp add: pic_agrees_def pic_setmask_def Let_def last_write_outb IO_PIC1_def IO_PIC2_def)

lemma pic_enable_mask:
  "irq_mask (fst (pic_enable irq s)) = irq_mask (fst s) AND NOT (push_bit irq 1)"
  by (cases s) (simp add: pic_enable_def pic_setmask_def)

section \<open>Properties\<close>

text \<open>\<open>log2n\<close> is the binary logarithm rounded down for every positive argument below
  \<open>2 ^ 31\<close>; from there on the shifted word reaches 0 and the function does not return.\<close>

theorem log2n_floor_or_diverges:
  assumes "0 < n"
  shows "(unat n < 2 ^ 31 \<longrightarrow> (\<exists>r. log2n n = Some (int r) \<and> 2 ^ r \<le> unat n \<and> unat n < 2 ^ Suc r)) \<and>
    (2 ^ 31 \<le> unat n \<longrightarrow> log2n n = None)"
  using log2n_bounds [OF assms] log2n_diverges by blast

theorem log2n_floor_or_diverges_witness:
  "(\<exists>r. log2n 1000 = Some (int r) \<and> 2 ^ r \<le> unat (1000 :: u32) \<and> unat (1000 :: u32) < 2 ^ Suc r) \<and>
    log2n 0x80000000 = None"
  using log2n_floor_or_diverges [where n = 1000] log2n_floor_or_diverges [where n = "0x80000000"] by simp

text \<open>\<open>rand\<close> always returns a value between 0 and \<open>RAND_MAX\<close>, taken from the upper bits of the
  next state of the 48-bit linear congruential generator.\<close>

theorem rand_in_range:
  "\<exists>r n. rand nx = Some (r, n) \<and> n = (nx * 0x5DEECE66D + 0xB) AND 0xFFFFFFFFFFFF \<and>
     0 \<le> r \<and> r \<le> uint RAND_MAX \<and> r = uint (drop_bit 12 n) mod 2 ^ 31"
  by (rule rand_correct)

text \<open>\<open>pic_enable\<close> clears exactly the mask bit of its interrupt, and once the controllers are
  initialised the masks they hold are the two halves of \<open>irq_mask\<close>.\<close>

theorem pic_enable_unmasks:
  "irq_mask (fst (pic_enable irq s)) = irq_mask (fst s) AND NOT (push_bit irq 1) \<and>
   did_init (fst (pic_enable irq s)) = did_init (fst s) \<and> pic_agrees (pic_enable irq s)"
proof (intro conjI)
  show "irq_mask (fst (pic_enable irq s)) = irq_mask (fst s) AND NOT (push_bit irq 1)"
    by (rule pic_enable_mask)
  show "did_init (fst (pic_enable irq s)) = did_init (fst s)"
    by (cases s) (simp add: pic_enable_def pic_setmask_def Let_def)
  show "pic_agrees (pic_enable irq s)"
    unfolding pic_enable_def by (rule pic_setmask_agrees)
qed

end
