(* ===== verification/Proc.thy ===== *)
theory Proc
  imports Mmu Client Devices
begin

text \<open>
  Processes, threads and the scheduler: kern/process/proc.c, thread.c, sched.c, kern/sync/sync.h and
  kern/driver/intr.c, with the trap frames of kern/trap/trap.h. All lists share one heap of entries; a
  pointer to an entry is the structure it is embedded in with the name of the field. The processor is
  its eflags register and the registers \<open>switch_to\<close> saves. What \<open>cprintf\<close> is given goes to a log
  of format strings and arguments (theory Printf models the formatting itself). Pointers are the
  addresses of theory Client, with \<open>None\<close> for the null pointer.
\<close>

section \<open>Structures\<close>

datatype proc_link = ProcList | TimerList | RunList u32 | RqLink u32 | ProcLink u32 | RunLink u32
  | ThreadList u32 | ThreadLink u32

datatype proc_state = PROC_UNINIT | PROC_SLEEPING | PROC_RUNNABLE | PROC_ZOMBIE

record reg_context =
  c_eip :: u32
  c_esp :: u32
  c_ebx :: u32
  c_ecx :: u32
  c_edx :: u32
  c_esi :: u32
  c_edi :: u32
  c_ebp :: u32

record pushregs =
  reg_edi :: u32
  reg_esi :: u32
  reg_ebp :: u32
  reg_oesp :: u32
  reg_ebx :: u32
  reg_edx :: u32
  reg_ecx :: u32
  reg_eax :: u32

record trapframe =
  tf_regs :: pushregs
  tf_es :: u16
  tf_ds :: u16
  tf_trapno :: u32
  tf_err :: u32
  tf_eip :: u32
  tf_cs :: u16
  tf_eflags :: u32
  tf_esp :: u32
  tf_ss :: u16

definition sizeof_trapframe :: u32 where "sizeof_trapframe = 68"

record proc_struct =
  p_state :: proc_state
  p_pid :: int
  p_need_resched :: int
  p_name :: string
  p_kstack :: u32
  p_mm :: "u32 option"
  p_tf :: "u32 option"
  p_cr3 :: u32
  p_time_slice :: int
  p_parent :: "u32 option"
  p_child :: "u32 option"
  p_main :: "u32 option"

record thread_t =
  t_name :: string
  t_tid :: int
  t_parent :: "u32 option"
  t_context :: reg_context
  t_kstack :: u32
  t_tf :: u32

record run_queue =
  proc_num :: u32
  max_time_slice :: int

definition sizeof_proc_struct :: u32 where "sizeof_proc_struct = 84"
definition sizeof_thread_t :: u32 where "sizeof_thread_t = 72"
definition sizeof_run_queue :: u32 where "sizeof_run_queue = 24"
definition KSTACKSIZE :: u32 where "KSTACKSIZE = 2 * PGSIZE"

text \<open>Addresses the linker chooses.\<close>

record symbols =
  sym_run_entry :: u32
  sym_thread_entry :: u32
  sym_kernel_thread_entry :: u32
  sym_bootstack :: u32

datatype print_arg = Num u32 | Str string

record kernel = client +
  procs :: "u32 \<Rightarrow> proc_struct"
  threads :: "u32 \<Rightarrow> thread_t"
  trapframes :: "u32 \<Rightarrow> trapframe"
  run_queues :: "u32 \<Rightarrow> run_queue"
  plinks :: "proc_link heap"
  current :: "u32 option"
  currentthread :: "u32 option"
  idleproc :: "u32 option"
  rq :: "u32 option"
  boot_cr3 :: u32
  cpu :: reg_context
  eflags :: u32
  rand_next :: u64
  klog :: "(string \<times> print_arg list) list"

fun proc_of_list :: "proc_link \<Rightarrow> u32 option" where
  "proc_of_list (ProcLink p) = Some p"
| "proc_of_list _ = None"

fun proc_of_run :: "proc_link \<Rightarrow> u32 option" where
  "proc_of_run (RunLink p) = Some p"
| "proc_of_run _ = None"

fun thread_of_link :: "proc_link \<Rightarrow> u32 option" where
  "thread_of_link (ThreadLink t) = Some t"
| "thread_of_link _ = None"

definition tab :: string where "tab = [CHR 0x09]"

definition kprintf :: "string \<Rightarrow> print_arg list \<Rightarrow> kernel \<Rightarrow> kernel" where
  "kprintf fmt args s = s\<lparr>klog := klog s @ [(fmt, args)]\<rparr>"

definition upd_proc :: "u32 \<Rightarrow> (proc_struct \<Rightarrow> proc_struct) \<Rightarrow> kernel \<Rightarrow> kernel" where
  "upd_proc p f s = s\<lparr>procs := (procs s)(p := f (procs s p))\<rparr>"

definition upd_thread :: "u32 \<Rightarrow> (thread_t \<Rightarrow> thread_t) \<Rightarrow> kernel \<Rightarrow> kernel" where
  "upd_thread t f s = s\<lparr>threads := (threads s)(t := f (threads s t))\<rparr>"

definition upd_links :: "(proc_link heap \<Rightarrow> proc_link heap) \<Rightarrow> kernel \<Rightarrow> kernel" where
  "upd_links f s = s\<lparr>plinks := f (plinks s)\<rparr>"

lemmas kernel_upd = kprintf_def upd_proc_def upd_thread_def upd_links_def

section \<open>Interrupts\<close>

definition FL_IF :: u32 where "FL_IF = 0x200"

definition intr_enable :: "kernel \<Rightarrow> kernel" where
  "intr_enable s = s\<lparr>eflags := eflags s OR FL_IF\<rparr>"

definition intr_disable :: "kernel \<Rightarrow> kernel" where
  "intr_disable s = s\<lparr>eflags := eflags s AND NOT FL_IF\<rparr>"

definition local_intr_save :: "kernel \<Rightarrow> bool \<times> kernel" where
  "local_intr_save s = (if eflags s AND FL_IF \<noteq> 0 then (True, intr_disable s) else (False, s))"

definition local_intr_restore :: "bool \<Rightarrow> kernel \<Rightarrow> kernel" where
  "local_intr_restore x s = (if x then intr_enable s else s)"

section \<open>Printing\<close>

definition print_regs :: "pushregs \<Rightarrow> kernel \<Rightarrow> kernel" where
  "print_regs r s = fold (\<lambda>(fmt, v). kprintf fmt [Num v])
     [(''  edi  0x%08x\<newline>'', reg_edi r), (''  esi  0x%08x\<newline>'', reg_esi r), (''  ebp  0x%08x\<newline>'', reg_ebp r),
      (''  oesp 0x%08x\<newline>'', reg_oesp r), (''  ebx  0x%08x\<newline>'', reg_ebx r), (''  edx  0x%08x\<newline>'', reg_edx r),
      (''  ecx  0x%08x\<newline>'', reg_ecx r), (''  eax  0x%08x\<newline>'', reg_eax r)] s"

definition print_trapframe :: "u32 \<Rightarrow> kernel \<Rightarrow> kernel" where
  "print_trapframe tf s =
     (let f = trapframes s tf;
          s = kprintf ''trapframe at %p\<newline>'' [Num tf] s;
          s = print_regs (tf_regs f) s
      in fold (\<lambda>(fmt, v). kprintf fmt [Num v])
        [(''  es   0x----%04x\<newline>'', ucast (tf_es f)), (''  ds   0x----%04x\<newline>'', ucast (tf_ds f)),
         (''  trap 0x%08x \<newline>'', tf_trapno f), (''  err  0x%08x\<newline>'', tf_err f), (''  eip  0x%08x\<newline>'', tf_eip f),
         (''  cs   0x----%04x\<newline>'', ucast (tf_cs f)), (''  flag 0x%08x '', tf_eflags f)] s)"

text \<open>The number the compiler gives to an enumerator.\<close>

fun state_code :: "proc_state \<Rightarrow> u32" where
  "state_code PROC_UNINIT = 0"
| "state_code PROC_SLEEPING = 1"
| "state_code PROC_RUNNABLE = 2"
| "state_code PROC_ZOMBIE = 3"

definition print_pstate :: "proc_state \<Rightarrow> kernel \<Rightarrow> kernel" where
  "print_pstate st s =
     (case st of PROC_UNINIT \<Rightarrow> kprintf ''state: uninitialized\<newline>'' [] s
      | PROC_SLEEPING \<Rightarrow> kprintf ''state: sleeping\<newline>'' [] s
      | PROC_RUNNABLE \<Rightarrow> kprintf ''state: runnable\<newline>'' [] s
      | PROC_ZOMBIE \<Rightarrow> kprintf ''state: ?=%d\<newline>'' [Num (state_code st)] (kprintf ''state: zombie\<newline>'' [] s))"

definition print_proc_fields :: "proc_struct \<Rightarrow> kernel \<Rightarrow> kernel" where
  "print_proc_fields q s =
     (let s = print_pstate (p_state q) s;
          s = kprintf (tab @ ''name:'' @ tab @ '' %s\<newline>'') [Str (p_name q)] s;
          s = kprintf (tab @ ''pid:'' @ tab @ '' %d\<newline>'') [Num (of_cint (p_pid q))] s;
          s = kprintf (tab @ ''kstack:'' @ tab @ '' %x\<newline>'') [Num (p_kstack q)] s;
          s = (case p_parent q of None \<Rightarrow> s
               | Some pp \<Rightarrow> kprintf (tab @ ''parent pid:'' @ tab @ '' %d\<newline>'') [Num (of_cint (p_pid (procs s pp)))] s);
          s = (case p_mm q of None \<Rightarrow> s | Some mm \<Rightarrow> kprintf (tab @ ''mm:'' @ tab @ '' %x\<newline>'') [Num mm] s);
          s = (case p_tf q of None \<Rightarrow> s | Some tf \<Rightarrow> print_trapframe tf s);
          s = kprintf (tab @ ''cr3:'' @ tab @ '' %x\<newline>'') [Num (p_cr3 q)] s;
          s = kprintf (tab @ ''need_resched:'' @ tab @ '' %d\<newline>'') [Num (of_cint (p_need_resched q))] s
      in kprintf (tab @ ''time_slice:'' @ tab @ '' %d\<newline>'') [Num (of_cint (p_time_slice q))] s)"

definition print_proc :: "u32 option \<Rightarrow> kernel \<Rightarrow> kernel option" where
  "print_proc proc s =
     (let s = kprintf (''\<newline>------------------- [info process] ---------------\<newline>'' @ tab) [] s
      in case proc of None \<Rightarrow> Some (kprintf (tab @ ''print proc null\<newline>'') [] s) | Some p \<Rightarrow>
        do { let s = print_proc_fields (procs s p) s;
             let s = kprintf ''--------- [thread list] ---------\<newline>'' [] s;
             s \<leftarrow> list_walk (\<lambda>le s. do { t \<leftarrow> thread_of_link le;
                                         Some (kprintf ''%s->'' [Str (t_name (threads s t))] s) })
                    (plinks s) (ThreadList p) (ThreadList p) s;
             Some (kprintf ''--------------------------------------------------\<newline>\<newline>'' [] (kprintf ''\<newline>'' [] s)) })"

section \<open>The run queue of sched.c\<close>

definition sched_init :: "kernel \<Rightarrow> kernel option" where
  "sched_init s =
     do { let s = upd_links (list_init TimerList) s;
          (r, s) \<leftarrow> k_malloc sizeof_run_queue s;
          q \<leftarrow> r;
          let s = upd_links (list_init (RunList q) \<circ> list_init (RqLink q)) (s\<lparr>rq := Some q\<rparr>);
          let s = s\<lparr>run_queues := (run_queues s)(q := \<lparr>proc_num = 0, max_time_slice = 8\<rparr>)\<rparr>;
          Some (kprintf ''sched_init over\<newline>'' [] s) }"

definition enqueue :: "u32 \<Rightarrow> kernel \<Rightarrow> kernel option" where
  "enqueue p s =
     do { q \<leftarrow> rq s;
          let s = upd_links (list_add_before (RunList q) (RunLink p)) s;
          let m = max_time_slice (run_queues s q);
          let s = (if p_time_slice (procs s p) = 0 \<or> p_time_slice (procs s p) > m
                   then upd_proc p (\<lambda>x. x\<lparr>p_time_slice := m\<rparr>) s else s);
          Some (s\<lparr>run_queues := (run_queues s)(q := (run_queues s q)\<lparr>proc_num := proc_num (run_queues s q) + 1\<rparr>)\<rparr>) }"

definition dequeue :: "u32 \<Rightarrow> kernel \<Rightarrow> kernel option" where
  "dequeue p s =
     do { let s = upd_links (list_del_init (RunLink p)) s;
          q \<leftarrow> rq s;
          Some (s\<lparr>run_queues := (run_queues s)(q := (run_queues s q)\<lparr>proc_num := proc_num (run_queues s q) - 1\<rparr>)\<rparr>) }"

definition pick_next :: "kernel \<Rightarrow> u32 option option" where
  "pick_next s =
     do { q \<leftarrow> rq s;
          let le = list_next (RunList q) (plinks s);
          if le \<noteq> RunList q then map_option Some (proc_of_run le) else Some None }"

definition proc_tick :: "u32 \<Rightarrow> kernel \<Rightarrow> kernel" where
  "proc_tick p s =
     (if Some p \<noteq> idleproc s then
        (let s = (if p_time_slice (procs s p) > 0
                  then upd_proc p (\<lambda>x. x\<lparr>p_time_slice := p_time_slice x - 1\<rparr>) s else s)
         in if p_time_slice (procs s p) = 0 then upd_proc p (\<lambda>x. x\<lparr>p_need_resched := 1\<rparr>) s else s)
      else upd_proc p (\<lambda>x. x\<lparr>p_need_resched := 1\<rparr>) s)"

definition wakeup_proc :: "u32 \<Rightarrow> kernel \<Rightarrow> kernel option" where
  "wakeup_proc p s =
     (let (intr_flag, s) = local_intr_save s
      in do { s \<leftarrow> (if p_state (procs s p) \<noteq> PROC_RUNNABLE then
                      (let s = upd_proc p (\<lambda>x. x\<lparr>p_state := PROC_RUNNABLE\<rparr>) s
                       in if Some p \<noteq> current s then enqueue p s else Some s)
                    else Some s);
              Some (local_intr_restore intr_flag s) })"

section \<open>Threads\<close>

text \<open>\<open>switch_to\<close> of kern/libs/asm_tool.S: the registers are saved first and loaded afterwards.\<close>

definition switch_to :: "u32 \<Rightarrow> u32 \<Rightarrow> kernel \<Rightarrow> kernel" where
  "switch_to from to s =
     (let s = upd_thread from (\<lambda>t. t\<lparr>t_context := cpu s\<rparr>) s
      in s\<lparr>cpu := t_context (threads s to)\<rparr>)"

text \<open>\<open>tf = (struct trapframe *)(kstack + KSTACKSIZE) - 1\<close>; the other fields of the frame and of the
  context keep what the allocated memory held.\<close>

definition thread_create :: "symbols \<Rightarrow> u32 \<Rightarrow> u32 \<Rightarrow> kernel \<Rightarrow> (u32 \<times> kernel) option" where
  "thread_create sy fn arg s =
     do { (r, s) \<leftarrow> k_malloc sizeof_thread_t s;
          t \<leftarrow> r;
          let s = upd_thread t (\<lambda>x. x\<lparr>t_parent := current s\<rparr>) s;
          (r, s) \<leftarrow> k_malloc KSTACKSIZE s;
          kstack \<leftarrow> r;
          let tf = kstack + KSTACKSIZE - sizeof_trapframe;
          let s = upd_thread t (\<lambda>x. x\<lparr>t_kstack := kstack, t_tf := tf\<rparr>) s;
          let f = trapframes s tf;
          let s = s\<lparr>trapframes := (trapframes s)(tf := f\<lparr>tf_cs := ucast KERNEL_CS, tf_ds := ucast KERNEL_DS,
                    tf_es := ucast KERNEL_DS, tf_ss := ucast KERNEL_DS,
                    tf_regs := (tf_regs f)\<lparr>reg_ebx := fn, reg_edx := arg\<rparr>,
                    tf_eip := sym_thread_entry sy\<rparr>)\<rparr>;
          let s = upd_thread t (\<lambda>x. x\<lparr>t_context := (t_context x)\<lparr>c_esp := tf, c_eip := sym_run_entry sy\<rparr>\<rparr>) s;
          Some (t, s) }"

definition thread_join :: "u32 \<Rightarrow> kernel \<Rightarrow> kernel option" where
  "thread_join t s =
     do { p \<leftarrow> current s; Some (upd_links (list_add (ThreadList p) (ThreadLink t)) s) }"

text \<open>The state in which the processor runs in the context of \<open>t\<close>. What follows the call,
  \<open>local_intr_restore\<close>, is executed when the saved context is resumed.\<close>

definition thread_run :: "u32 \<Rightarrow> kernel \<Rightarrow> kernel option" where
  "thread_run t s =
     do { prv \<leftarrow> current s;
          let s = snd (local_intr_save s);
          m \<leftarrow> p_main (procs s prv);
          Some (switch_to m t s) }"

text \<open>The loop of \<open>schedule\<close> over the threads of the current process.\<close>

definition pick_thread :: "u32 \<Rightarrow> kernel \<Rightarrow> (proc_link option \<times> u64) option" where
  "pick_thread p s =
     list_walk (\<lambda>le (run, nx).
         case run of None \<Rightarrow> Some (Some le, nx)
         | Some r \<Rightarrow> do { (x, nx) \<leftarrow> rand nx; Some (Some (if x mod 2 = 1 then le else r), nx) })
       (plinks s) (ThreadList p) (ThreadList p) (None, rand_next s)"

text \<open>\<open>schedule\<close> up to the point where it runs a thread, or to its end when there is none. The boolean
  tells the two apart.\<close>

definition schedule :: "kernel \<Rightarrow> (bool \<times> kernel) option" where
  "schedule s =
     do { let s = kprintf ''sched.c:schedule\<newline>'' [] s;
          s \<leftarrow> print_proc (current s) s;
          let (intr_flag, s) = local_intr_save s;
          p \<leftarrow> current s;
          (run, nx) \<leftarrow> pick_thread p s;
          let s = s\<lparr>rand_next := nx\<rparr>;
          case run of
            Some le \<Rightarrow>
              do { t \<leftarrow> thread_of_link le;
                   let s = kprintf ''schedule ready to run\<newline>'' [] s;
                   let s = kprintf ''name:%s\<newline>'' [Str (t_name (threads s t))] s;
                   let s = (if t_tid (threads s t) = 0 then upd_proc p (\<lambda>x. x\<lparr>p_need_resched := 0\<rparr>) s else s);
                   s \<leftarrow> thread_run t (s\<lparr>currentthread := Some t\<rparr>);
                   Some (True, s) }
          | None \<Rightarrow>
              (let s = upd_proc p (\<lambda>x. x\<lparr>p_need_resched := 0\<rparr>) s;
                   s = local_intr_restore intr_flag s
               in Some (False, kprintf ''schedule end----------------------------------\<newline>'' [] s)) }"

definition thread_exit :: "kernel \<Rightarrow> (bool \<times> kernel) option" where
  "thread_exit s =
     do { let s = kprintf ''thread thread_exit begin\<newline>'' [] s;
          t \<leftarrow> currentthread s;
          schedule (if t_tid (threads s t) \<noteq> 0 then upd_links (list_del (ThreadLink t)) s else s) }"

section \<open>Processes\<close>

definition alloc_proc :: "kernel \<Rightarrow> (u32 option \<times> kernel) option" where
  "alloc_proc s =
     do { (r, s) \<leftarrow> k_malloc sizeof_proc_struct s;
          case r of None \<Rightarrow> Some (None, s) | Some p \<Rightarrow>
            (let s = upd_proc p (\<lambda>x. x\<lparr>p_state := PROC_UNINIT, p_pid := -1, p_parent := None, p_mm := None,
                       p_tf := None, p_cr3 := boot_cr3 s, p_time_slice := 0\<rparr>) s;
                 s = upd_links (list_init (ThreadList p) \<circ> list_init (RunLink p)) s
             in Some (Some p, upd_proc p (\<lambda>x. x\<lparr>p_main := None\<rparr>) s)) }"

definition kernel_thread :: "symbols \<Rightarrow> u32 \<Rightarrow> u32 \<Rightarrow> kernel \<Rightarrow> (int \<times> kernel) option" where
  "kernel_thread sy fn arg s =
     (let tf = \<lparr>tf_regs = \<lparr>reg_edi = 0, reg_esi = 0, reg_ebp = 0, reg_oesp = 0, reg_ebx = fn, reg_edx = arg,
                            reg_ecx = 0, reg_eax = 0\<rparr>,
                tf_es = ucast KERNEL_DS, tf_ds = ucast KERNEL_DS, tf_trapno = 0, tf_err = 0,
                tf_eip = sym_kernel_thread_entry sy, tf_cs = ucast KERNEL_CS, tf_eflags = 0, tf_esp = 0,
                tf_ss = ucast KERNEL_DS\<rparr>
      in do { (r, s) \<leftarrow> alloc_proc s;
              case r of None \<Rightarrow> Some (-1, s) | Some p \<Rightarrow>
              do { let s = upd_proc p (\<lambda>x. x\<lparr>p_parent := current s\<rparr>) s;
                   (r, s) \<leftarrow> k_malloc PGSIZE s;
                   kstack \<leftarrow> r;
                   let s = upd_proc p (\<lambda>x. x\<lparr>p_kstack := kstack, p_pid := 1\<rparr>) s;
                   let s = upd_links (list_add ProcList (ProcLink p)) s;
                   let a = kstack + PGSIZE - sizeof_trapframe;
                   let s = upd_proc p (\<lambda>x. x\<lparr>p_time_slice := 0, p_tf := Some a\<rparr>) s;
                   Some (1, s\<lparr>trapframes := (trapframes s)(a := tf\<lparr>tf_regs := (tf_regs tf)\<lparr>reg_eax := 0\<rparr>,
                              tf_esp := 0, tf_eflags := tf_eflags tf OR FL_IF\<rparr>)\<rparr>) } })"

definition do_exit_thread :: "int \<Rightarrow> kernel \<Rightarrow> (bool \<times> kernel) option" where
  "do_exit_thread error_code s =
     do { cur \<leftarrow> current s;
          proc \<leftarrow> p_parent (procs s cur);
          s \<leftarrow> k_free (p_kstack (procs s cur)) s;
          let s = upd_links (list_del (ProcLink proc)) s;
          s \<leftarrow> k_free cur s;
          schedule (s\<lparr>current := Some proc\<rparr>) }"

definition do_exit :: "int \<Rightarrow> kernel \<Rightarrow> (bool \<times> kernel) option" where
  "do_exit error_code s =
     (let (intr_flag, s) = local_intr_save s
      in do_exit_thread error_code (local_intr_restore intr_flag s))"

definition proc_run :: "u32 \<Rightarrow> kernel \<Rightarrow> kernel option" where
  "proc_run proc s =
     (if Some proc \<noteq> current s then
        (let (intr_flag, s) = local_intr_save s
         in do { s \<leftarrow> print_proc (Some proc) (s\<lparr>current := Some proc\<rparr>);
                 Some (local_intr_restore intr_flag s) })
      else
        (let (intr_flag2, s) = local_intr_save s in Some (local_intr_restore intr_flag2 s)))"

partial_function (option) find_proc_loop :: "proc_link \<Rightarrow> int \<Rightarrow> kernel \<Rightarrow> u32 option option" where
  "find_proc_loop le pid s =
     (if le \<noteq> ProcList then
        do { p \<leftarrow> proc_of_list le;
             if p_pid (procs s p) = pid then Some (Some p) else find_proc_loop le pid s }
      else Some None)"

definition find_proc :: "int \<Rightarrow> kernel \<Rightarrow> u32 option option" where
  "find_proc pid s = find_proc_loop (list_next ProcList (plinks s)) pid s"

text \<open>\<open>cpu_idle\<close>, \<open>thread1\<close> and \<open>thread2\<close> are given as addresses.\<close>

definition proc_init :: "symbols \<Rightarrow> u32 \<Rightarrow> u32 \<Rightarrow> u32 \<Rightarrow> kernel \<Rightarrow> kernel option" where
  "proc_init sy cpu_idle thread1 thread2 s =
     do { let s = upd_links (list_init ProcList) s;
          (r, s) \<leftarrow> alloc_proc s;
          idle \<leftarrow> r;
          let s = s\<lparr>idleproc := Some idle\<rparr>;
          let s = upd_proc idle (\<lambda>x. x\<lparr>p_pid := 0, p_need_resched := 1, p_name := ''idleproc'',
                    p_state := PROC_RUNNABLE, p_kstack := sym_bootstack sy\<rparr>) s;
          (main, s) \<leftarrow> thread_create sy cpu_idle 0 s;
          let s = upd_thread main (\<lambda>t. t\<lparr>t_tid := 0, t_name := ''main''\<rparr>) s;
          let s = upd_links (list_add_after (ThreadList idle) (ThreadLink main)) s;
          let s = upd_proc idle (\<lambda>x. x\<lparr>p_main := Some main\<rparr>) s;
          (pthr1, s) \<leftarrow> thread_create sy thread1 0 s;
          let s = upd_thread pthr1 (\<lambda>t. t\<lparr>t_tid := 1, t_name := ''pthr1''\<rparr>) s;
          let s = upd_links (list_add_after (ThreadList idle) (ThreadLink pthr1)) s;
          (pthr2, s) \<leftarrow> thread_create sy thread2 0 s;
          let s = upd_thread pthr2 (\<lambda>t. t\<lparr>t_tid := 2, t_name := ''pthr2''\<rparr>) s;
          print_proc (Some idle) (s\<lparr>current := Some idle\<rparr>) }"

text \<open>One round of the loop of \<open>cpu_idle\<close>.\<close>

definition cpu_idle_round :: "kernel \<Rightarrow> (bool \<times> kernel) option" where
  "cpu_idle_round s =
     do { p \<leftarrow> current s;
          if p_need_resched (procs s p) \<noteq> 0 then schedule s else Some (False, s) }"

end
