(* ===== verification/Kdebug.thy ===== *)
theory Kdebug
  imports Stabs Proc
begin

text \<open>
  kern/debug/kdebug.c above its binary search: \<open>debuginfo_eip\<close>, which looks an address up in the debugging
  table, and the printing of a back trace. The string table lies in memory between two addresses; the string
  literal "<unknown>" lies at an address of its own. What is printed goes to the log of theory Proc; a
  string that is printed is read from memory up to its null byte.
\<close>

section \<open>Looking up an address\<close>

record eipdebuginfo =
  eip_file :: u32
  eip_line :: int
  eip_fn_name :: u32
  eip_fn_namelen :: int
  eip_fn_addr :: u32
  eip_fn_narg :: int

text \<open>The debugging data: the table, the bounds of its strings, the literal.\<close>

record debug_data =
  dd_stabs :: "stab list"
  dd_stabstr :: u32
  dd_stabstr_end :: u32
  dd_unknown :: u32

text \<open>The loop that goes back to the entry that names the file.\<close>

partial_function (option) file_back :: "stab list \<Rightarrow> int \<Rightarrow> int \<Rightarrow> int option" where
  "file_back xs lfile lline =
     (if lline \<ge> lfile then
        do { e \<leftarrow> stab_at xs lline;
             if uint (n_type e) \<noteq> N_SOL \<and> (uint (n_type e) \<noteq> N_SO \<or> n_value e = 0)
             then file_back xs lfile (lline - 1) else Some lline }
      else Some lline)"

text \<open>The loop that counts the arguments.\<close>

partial_function (option) count_args :: "stab list \<Rightarrow> int \<Rightarrow> int \<Rightarrow> int \<Rightarrow> int option" where
  "count_args xs rfun lline n =
     (if lline < rfun then
        do { e \<leftarrow> stab_at xs lline;
             if uint (n_type e) = N_PSYM then count_args xs rfun (lline + 1) (n + 1) else Some n }
      else Some n)"

text \<open>The part of \<open>debuginfo_eip\<close> that follows the search for the source file.\<close>

definition debuginfo_in_file ::
  "bytes \<Rightarrow> debug_data \<Rightarrow> int \<Rightarrow> int \<Rightarrow> u32 \<Rightarrow> eipdebuginfo \<Rightarrow> (int \<times> eipdebuginfo) option" where
  "debuginfo_in_file \<mu> d lfile rfile addr info =
     do { let xs = dd_stabs d; let size = dd_stabstr_end d - dd_stabstr d;
          (lfun, rfun) \<leftarrow> stab_binsearch xs lfile rfile N_FUN addr;
          (info, addr, lline, rline) \<leftarrow>
            (if lfun \<le> rfun then
               do { e \<leftarrow> stab_at xs lfun;
                    let info = (if n_strx e < size then info\<lparr>eip_fn_name := dd_stabstr d + n_strx e\<rparr> else info);
                    let info = info\<lparr>eip_fn_addr := n_value e\<rparr>;
                    Some (info, addr - eip_fn_addr info, lfun, rfun) }
             else Some (info\<lparr>eip_fn_addr := addr\<rparr>, addr, lfile, rfile));
          p \<leftarrow> strfind \<mu> (eip_fn_name info) 0x3A;
          let info = info\<lparr>eip_fn_namelen := to_int (p - eip_fn_name info)\<rparr>;
          (lline, rline) \<leftarrow> stab_binsearch xs lline rline N_SLINE addr;
          if \<not> lline \<le> rline then Some (-1, info)
          else
            do { e \<leftarrow> stab_at xs rline;
                 let info = info\<lparr>eip_line := uint (n_desc e)\<rparr>;
                 lline \<leftarrow> file_back xs lfile lline;
                 info \<leftarrow> (if lline \<ge> lfile then
                            do { e \<leftarrow> stab_at xs lline;
                                 Some (if n_strx e < size then info\<lparr>eip_file := dd_stabstr d + n_strx e\<rparr> else info) }
                          else Some info);
                 narg \<leftarrow> (if lfun < rfun then count_args xs rfun (lfun + 1) (eip_fn_narg info) else Some (eip_fn_narg info));
                 Some (0, info\<lparr>eip_fn_narg := narg\<rparr>) } }"

definition debuginfo_eip :: "bytes \<Rightarrow> debug_data \<Rightarrow> u32 \<Rightarrow> (int \<times> eipdebuginfo) option" where
  "debuginfo_eip \<mu> d addr =
     (let info = \<lparr>eip_file = dd_unknown d, eip_line = 0, eip_fn_name = dd_unknown d, eip_fn_namelen = 9,
                  eip_fn_addr = addr, eip_fn_narg = 0\<rparr>
      in if dd_stabstr_end d \<le> dd_stabstr d \<or> \<mu> (dd_stabstr_end d - 1) \<noteq> 0 then Some (-1, info)
         else do { (lfile, rfile) \<leftarrow> stab_binsearch (dd_stabs d) 0 (int (length (dd_stabs d)) - 1) N_SO addr;
                   if lfile = 0 then Some (-1, info)
                   else debuginfo_in_file \<mu> d lfile rfile addr info })"

section \<open>Printing\<close>

text \<open>The linker symbols \<open>print_kerninfo\<close> prints.\<close>

record kern_symbols =
  k_init :: u32
  k_etext :: u32
  k_edata :: u32
  k_end :: u32

definition print_kerninfo :: "kern_symbols \<Rightarrow> kernel \<Rightarrow> kernel" where
  "print_kerninfo k s =
     (let s = kprintf ''Special kernel symbols:\<newline>'' [] s;
          s = kprintf ''  entry  0x%08x (phys)\<newline>'' [Num (k_init k)] s;
          s = kprintf ''  etext  0x%08x (phys)\<newline>'' [Num (k_etext k)] s;
          s = kprintf ''  edata  0x%08x (phys)\<newline>'' [Num (k_edata k)] s;
          s = kprintf ''  end    0x%08x (phys)\<newline>'' [Num (k_end k)] s
      in kprintf ''Kernel executable memory footprint: %dKB\<newline>''
           [Num (of_cint ((to_int (k_end k - k_init k) + 1023) sdiv 1024))] s)"

text \<open>The bytes of a string that \<open>%s\<close> prints.\<close>

partial_function (option) read_str :: "bytes \<Rightarrow> u32 \<Rightarrow> string option" where
  "read_str \<mu> p = (if \<mu> p = 0 then Some [] else do { cs \<leftarrow> read_str \<mu> (p + 1); Some (char_of (unat (\<mu> p)) # cs) })"

text \<open>The copy of the function name into the array \<open>fnname\<close> of 256 bytes; \<open>None\<close> is a write past its end.\<close>

definition copy_fnname :: "bytes \<Rightarrow> u32 \<Rightarrow> int \<Rightarrow> u8 list option" where
  "copy_fnname \<mu> p len =
     (if len \<le> 255 then Some (map (\<lambda>j. \<mu> (p + of_nat j)) [0..<nat len] @ [0]) else None)"

definition print_debuginfo :: "bytes \<Rightarrow> debug_data \<Rightarrow> u32 \<Rightarrow> kernel \<Rightarrow> kernel option" where
  "print_debuginfo \<mu> d eip s =
     do { (r, info) \<leftarrow> debuginfo_eip \<mu> d eip;
          if r \<noteq> 0 then Some (kprintf ''    <unknow>: -- 0x%08x --\<newline>'' [Num eip] s)
          else do { fnname \<leftarrow> copy_fnname \<mu> (eip_fn_name info) (eip_fn_namelen info);
                    fl \<leftarrow> read_str \<mu> (eip_file info);
                    Some (kprintf ''    %s:%d: %s+%d\<newline>''
                      [Str fl, Num (of_cint (eip_line info)),
                       Str (map (\<lambda>c. char_of (unat c)) (takeWhile (\<lambda>c. c \<noteq> 0) fnname)), Num (eip - eip_fn_addr info)] s) } }"

definition STACKFRAME_DEPTH :: nat where "STACKFRAME_DEPTH = 20"

text \<open>The loop of \<open>print_stackframe\<close> with the rounds it has left; \<open>ebp\<close> and \<open>eip\<close> are the registers
  \<open>read_ebp\<close> and \<open>read_eip\<close> return.\<close>

primrec stackframe_loop :: "nat \<Rightarrow> bytes \<Rightarrow> debug_data \<Rightarrow> u32 \<Rightarrow> u32 \<Rightarrow> kernel \<Rightarrow> kernel option" where
  "stackframe_loop 0 \<mu> d ebp eip s = Some s"
| "stackframe_loop (Suc n) \<mu> d ebp eip s =
     (if ebp = 0 then Some s
      else do { let s = kprintf ''ebp:0x%08x eip:0x%08x args:'' [Num ebp, Num eip] s;
                let args = ebp + 8;
                let s = fold (\<lambda>j. kprintf ''0x%08x '' [Num (load32 \<mu> (args + 4 * of_nat j))]) [0..<4] s;
                let s = kprintf ''\<newline>'' [] s;
                s \<leftarrow> print_debuginfo \<mu> d (eip - 1) s;
                stackframe_loop n \<mu> d (load32 \<mu> ebp) (load32 \<mu> (ebp + 4)) s })"

definition print_stackframe :: "bytes \<Rightarrow> debug_data \<Rightarrow> u32 \<Rightarrow> u32 \<Rightarrow> kernel \<Rightarrow> kernel option" where
  "print_stackframe \<mu> d ebp eip s = stackframe_loop STACKFRAME_DEPTH \<mu> d ebp eip s"

section \<open>The lookup stays in the table\<close>

lemma file_back_total:
  assumes "0 \<le> lfile" and "lline < int (length xs)" and "lfile - 1 \<le> lline"
  shows "\<exists>k. file_back xs lfile lline = Some k \<and> lfile - 1 \<le> k \<and> k \<le> lline"
  using assms
proof (induction "nat (lline + 1 - lfile)" arbitrary: lline)
  case 0
  then show ?case by (simp add: file_back.simps)
next
  case (Suc n)
  have rd: "stab_at xs lline = Some (xs ! nat lline)" using Suc.hyps(2) Suc.prems by (intro stab_at_in) auto
  have "n = nat (lline - 1 + 1 - lfile)" "lline - 1 < int (length xs)" "lfile - 1 \<le> lline - 1"
    using Suc.hyps(2) Suc.prems by auto
  from Suc.hyps(1) [OF this(1) Suc.prems(1) this(2,3)] show ?case
    using rd Suc.hyps(2) by (subst file_back.simps) auto
qed

lemma count_args_total:
  assumes "0 \<le> lline" and "rfun < int (length xs)"
  shows "\<exists>k. count_args xs rfun lline n = Some k \<and> n \<le> k"
  using assms
proof (induction "nat (rfun - lline)" arbitrary: lline n)
  case 0
  then show ?case by (simp add: count_args.simps)
next
  case (Suc m)
  have rd: "stab_at xs lline = Some (xs ! nat lline)" using Suc.hyps(2) Suc.prems by (intro stab_at_in) auto
  have "m = nat (rfun - (lline + 1))" "0 \<le> lline + 1" using Suc.hyps(2) Suc.prems by auto
  then obtain k where "count_args xs rfun (lline + 1) (n + 1) = Some k" "n + 1 \<le> k"
    using Suc.hyps(1) [of "lline + 1" "n + 1"] Suc.prems(2) by blast
  then show ?case using rd by (subst count_args.simps) auto
qed

lemma cstr_before_null: "\<mu> (p + of_nat n) = 0 \<Longrightarrow> \<exists>cs. cstr \<mu> p cs \<and> length cs \<le> n"
proof (induction n arbitrary: p)
  case 0
  then show ?case by (intro exI [of _ "[]"]) (simp add: cstr_simps)
next
  case (Suc n)
  show ?case
  proof (cases "\<mu> p = 0")
    case True
    then show ?thesis by (intro exI [of _ "[]"]) (simp add: cstr_simps)
  next
    case False
    have "\<mu> (p + 1 + of_nat n) = 0" using Suc.prems by (simp add: algebra_simps)
    then obtain cs where "cstr \<mu> (p + 1) cs" "length cs \<le> n" using Suc.IH by blast
    then show ?thesis using False by (intro exI [of _ "\<mu> p # cs"]) (simp add: cstr_simps)
  qed
qed

text \<open>Every string that starts inside a string table that ends with a null byte ends inside it.\<close>

lemma table_string:
  assumes "start < stop" and "\<mu> (stop - 1) = 0" and "k < stop - start"
  shows "\<exists>cs. cstr \<mu> (start + k) cs"
proof -
  have "start + k + of_nat (unat (stop - 1 - (start + k))) = stop - 1" by simp
  then show ?thesis using assms(2) cstr_before_null [of \<mu> "start + k" "unat (stop - 1 - (start + k))"] by auto
qed

text \<open>A table \<open>debuginfo_eip\<close> copes with: it does not start with a source file, nothing lies at the last address,
  and the literal is a string.\<close>

definition debug_table_ok :: "bytes \<Rightarrow> debug_data \<Rightarrow> bool" where
  "debug_table_ok \<mu> d \<longleftrightarrow> length (dd_stabs d) \<le> 2 ^ 30 \<and>
     (dd_stabs d \<noteq> [] \<longrightarrow> uint (n_type (dd_stabs d ! 0)) \<noteq> N_SO) \<and>
     (\<forall>e \<in> set (dd_stabs d). n_value e \<noteq> - 1) \<and> (\<exists>cs. cstr \<mu> (dd_unknown d) cs)"

definition debug_string :: "debug_data \<Rightarrow> u32 \<Rightarrow> bool" where
  "debug_string d p \<longleftrightarrow> p = dd_unknown d \<or> (\<exists>k < dd_stabstr_end d - dd_stabstr d. p = dd_stabstr d + k)"

lemma debug_string_ends:
  assumes "debug_table_ok \<mu> d" and "dd_stabstr d < dd_stabstr_end d" and "\<mu> (dd_stabstr_end d - 1) = 0"
    and "debug_string d p"
  shows "\<exists>cs. cstr \<mu> p cs"
  using assms table_string [of "dd_stabstr d" "dd_stabstr_end d" \<mu>] unfolding debug_string_def debug_table_ok_def by blast

lemma hits_below_last:
  assumes "\<forall>e \<in> set xs. n_value e \<noteq> - 1" and "0 \<le> L" and "R < int (length xs)"
  shows "\<forall>i \<in> stab_hits xs ty L R. stab_addr xs i \<noteq> - 1"
  using assms by (auto simp: stab_hits_def stab_addr_def)

lemma debuginfo_in_file_total:
  assumes ok: "debug_table_ok \<mu> d" and str: "dd_stabstr d < dd_stabstr_end d" "\<mu> (dd_stabstr_end d - 1) = 0"
    and so: "1 \<le> lfile" "lfile \<le> rfile" "rfile < int (length (dd_stabs d))" "uint (n_type (dd_stabs d ! nat lfile)) = N_SO"
    and info: "eip_fn_name info = dd_unknown d" "eip_file info = dd_unknown d" "eip_fn_narg info = 0"
  shows "\<exists>r info'. debuginfo_in_file \<mu> d lfile rfile addr info = Some (r, info') \<and> r \<in> {0, - 1} \<and>
    debug_string d (eip_fn_name info') \<and> debug_string d (eip_file info') \<and> 0 \<le> eip_fn_narg info' \<and>
    (r = 0 \<longrightarrow> 0 \<le> eip_line info')"
proof -
  let ?xs = "dd_stabs d"
  have len: "length ?xs \<le> 2 ^ 30" and last: "\<forall>e \<in> set ?xs. n_value e \<noteq> - 1" using ok by (simp_all add: debug_table_ok_def)
  obtain lfun rfun where F: "stab_binsearch ?xs lfile rfile N_FUN addr = Some (lfun, rfun)" "lfile - 1 \<le> lfun"
    "lfile - 1 \<le> rfun" "rfun \<le> rfile"
    "\<forall>i \<in> stab_hits ?xs N_FUN lfile rfile. stab_addr ?xs i \<noteq> - 1 \<Longrightarrow> lfun = lfile \<or>
      lfun \<in> stab_hits ?xs N_FUN lfile rfile \<or> lfun = lfile - 1 \<and> lfile \<in> stab_hits ?xs N_FUN lfile rfile"
    by (rule stab_binsearch_total [of lfile rfile ?xs N_FUN addr]) (use so len in auto)
  have "lfile \<le> lfun" using F(5) [OF hits_below_last [OF last]] so by (auto simp: stab_hits_def N_FUN_def N_SO_def)
  define info1 where "info1 = (if lfun \<le> rfun \<and> n_strx (?xs ! nat lfun) < dd_stabstr_end d - dd_stabstr d
    then info\<lparr>eip_fn_name := dd_stabstr d + n_strx (?xs ! nat lfun)\<rparr> else info)"
  define info2 where "info2 = info1\<lparr>eip_fn_addr := (if lfun \<le> rfun then n_value (?xs ! nat lfun) else addr)\<rparr>"
  define addr' where "addr' = (if lfun \<le> rfun then addr - n_value (?xs ! nat lfun) else addr)"
  define l where "l = (if lfun \<le> rfun then lfun else lfile)"
  define r where "r = (if lfun \<le> rfun then rfun else rfile)"
  have rd: "stab_at ?xs i = Some (?xs ! nat i)" if "lfile \<le> i" "i \<le> rfile" for i using that so by (intro stab_at_in) auto
  have name: "debug_string d (eip_fn_name info2)" "eip_file info2 = dd_unknown d" "eip_fn_narg info2 = 0"
    using info by (auto simp: info2_def info1_def debug_string_def)
  have first: "(if lfun \<le> rfun then
        do { e \<leftarrow> stab_at ?xs lfun;
             let info = (if n_strx e < dd_stabstr_end d - dd_stabstr d then info\<lparr>eip_fn_name := dd_stabstr d + n_strx e\<rparr> else info);
             let info = info\<lparr>eip_fn_addr := n_value e\<rparr>;
             Some (info, addr - eip_fn_addr info, lfun, rfun) }
      else Some (info\<lparr>eip_fn_addr := addr\<rparr>, addr, lfile, rfile)) = Some (info2, addr', l, r)"
    using rd \<open>lfile \<le> lfun\<close> F(4) by (simp add: info2_def info1_def addr'_def l_def r_def Let_def)
  obtain cs where "cstr \<mu> (eip_fn_name info2) cs" using debug_string_ends [OF ok str name(1)] by blast
  then obtain p where p: "strfind \<mu> (eip_fn_name info2) 0x3A = Some p" using strfind_correct by blast
  define info3 where "info3 = info2\<lparr>eip_fn_namelen := to_int (p - eip_fn_name info2)\<rparr>"
  obtain lline rline where S: "stab_binsearch ?xs l r N_SLINE addr' = Some (lline, rline)" "l - 1 \<le> lline" "l - 1 \<le> rline" "rline \<le> r"
    by (rule stab_binsearch_total [of l r ?xs N_SLINE addr']) (use so len F(2,4) \<open>lfile \<le> lfun\<close> in \<open>auto simp: l_def r_def\<close>)
  note U = debuginfo_in_file_def [of \<mu> d lfile rfile addr info] F(1) first p S(1)
  show ?thesis
  proof (cases "lline \<le> rline")
    case False
    then have "debuginfo_in_file \<mu> d lfile rfile addr info = Some (- 1, info3)"
      using U by (simp add: info3_def Let_def)
    then show ?thesis using name by (auto simp: info3_def debug_string_def)
  next
    case True
    have r: "r \<le> rfile" "lfile \<le> l" using F(4) \<open>lfile \<le> lfun\<close> by (simp_all add: l_def r_def)
    have rline: "stab_at ?xs rline = Some (?xs ! nat rline)" using True S(2-4) r so by (intro stab_at_in) auto
    define info4 where "info4 = info3\<lparr>eip_line := uint (n_desc (?xs ! nat rline))\<rparr>"
    obtain k where k: "file_back ?xs lfile lline = Some k" "lfile - 1 \<le> k" "k \<le> lline"
      using file_back_total [of lfile lline ?xs] so(1,3) True S(2,4) r by auto
    define info5 where "info5 = (if lfile \<le> k \<and> n_strx (?xs ! nat k) < dd_stabstr_end d - dd_stabstr d
      then info4\<lparr>eip_file := dd_stabstr d + n_strx (?xs ! nat k)\<rparr> else info4)"
    have fifth: "(if k \<ge> lfile then do { e \<leftarrow> stab_at ?xs k;
        Some (if n_strx e < dd_stabstr_end d - dd_stabstr d then info4\<lparr>eip_file := dd_stabstr d + n_strx e\<rparr> else info4) }
      else Some info4) = Some info5"
      using rd k(3) True S(4) r(1) by (simp add: info5_def)
    obtain n where n: "(if lfun < rfun then count_args ?xs rfun (lfun + 1) (eip_fn_narg info5) else Some (eip_fn_narg info5)) = Some n"
      "eip_fn_narg info5 \<le> n"
      using count_args_total [of "lfun + 1" rfun ?xs "eip_fn_narg info5"] so F(4) \<open>lfile \<le> lfun\<close> by (cases "lfun < rfun") auto
    have "debuginfo_in_file \<mu> d lfile rfile addr info = Some (0, info5\<lparr>eip_fn_narg := n\<rparr>)"
      using U(2-5) True rline k(1) fifth n(1) unfolding U(1) Let_def info4_def info3_def
      by (simp del: if_split) 
    moreover have "debug_string d (eip_fn_name info5)" "debug_string d (eip_file info5)" "0 \<le> eip_fn_narg info5" "0 \<le> eip_line info5"
      using name by (auto simp: info5_def info4_def info3_def debug_string_def)
    ultimately show ?thesis using n(2) by auto
  qed
qed

section \<open>Properties\<close>

text \<open>C17. On every debugging table that does not start with a source file, whatever the order of its entries,
  \<open>debuginfo_eip\<close> returns 0 or -1 without reading outside the table; the names it returns are strings of
  the string table, or the literal.\<close>

theorem debuginfo_eip_stays_in_table:
  assumes "debug_table_ok \<mu> d"
  shows "\<exists>r info. debuginfo_eip \<mu> d addr = Some (r, info) \<and> r \<in> {0, - 1} \<and>
    debug_string d (eip_fn_name info) \<and> debug_string d (eip_file info) \<and> 0 \<le> eip_fn_narg info \<and>
    (r = 0 \<longrightarrow> 0 \<le> eip_line info)"
proof -
  let ?xs = "dd_stabs d" and ?R = "int (length (dd_stabs d)) - 1"
  have len: "length ?xs \<le> 2 ^ 30" and last: "\<forall>e \<in> set ?xs. n_value e \<noteq> - 1" using assms by (simp_all add: debug_table_ok_def)
  obtain lfile rfile where F: "stab_binsearch ?xs 0 ?R N_SO addr = Some (lfile, rfile)" "0 - 1 \<le> lfile" "rfile \<le> ?R"
    "stab_hits ?xs N_SO 0 ?R \<noteq> {} \<Longrightarrow> lfile \<le> rfile" "stab_hits ?xs N_SO 0 ?R = {} \<Longrightarrow> lfile = 0 \<and> rfile = 0 - 1"
    "\<forall>i \<in> stab_hits ?xs N_SO 0 ?R. stab_addr ?xs i \<noteq> - 1 \<Longrightarrow> lfile = 0 \<or>
      lfile \<in> stab_hits ?xs N_SO 0 ?R \<or> lfile = 0 - 1 \<and> 0 \<in> stab_hits ?xs N_SO 0 ?R"
    by (rule stab_binsearch_total [of 0 ?R ?xs N_SO addr]) (use len in auto)
  have "0 \<notin> stab_hits ?xs N_SO 0 ?R" using assms by (cases ?xs) (auto simp: debug_table_ok_def stab_hits_def)
  then have hit: "lfile = 0 \<or> lfile \<in> stab_hits ?xs N_SO 0 ?R" using F(6) [OF hits_below_last [OF last]] by simp
  show ?thesis
  proof (cases "dd_stabstr_end d \<le> dd_stabstr d \<or> \<mu> (dd_stabstr_end d - 1) \<noteq> 0 \<or> lfile = 0")
    case True
    then show ?thesis using F(1) by (auto simp: debuginfo_eip_def Let_def debug_string_def)
  next
    case False
    then have str: "dd_stabstr d < dd_stabstr_end d" "\<mu> (dd_stabstr_end d - 1) = 0" and "lfile \<noteq> 0" by auto
    then have lf: "1 \<le> lfile" "lfile \<le> rfile" "rfile < int (length ?xs)" "uint (n_type (?xs ! nat lfile)) = N_SO"
      using hit F(3,4) by (auto simp: stab_hits_def)
    let ?info = "\<lparr>eip_file = dd_unknown d, eip_line = 0, eip_fn_name = dd_unknown d, eip_fn_namelen = 9,
                  eip_fn_addr = addr, eip_fn_narg = 0\<rparr>"
    obtain r info where "debuginfo_in_file \<mu> d lfile rfile addr ?info = Some (r, info)" "r \<in> {0, - 1}"
      "debug_string d (eip_fn_name info)" "debug_string d (eip_file info)" "0 \<le> eip_fn_narg info"
      "r = 0 \<longrightarrow> 0 \<le> eip_line info"
      using debuginfo_in_file_total [OF assms str lf, of ?info addr] by auto
    then show ?thesis using F(1) str \<open>lfile \<noteq> 0\<close> by (auto simp: debuginfo_eip_def Let_def)
  qed
qed

definition some_debug_data :: "stab list \<Rightarrow> debug_data" where
  "some_debug_data xs = \<lparr>dd_stabs = xs, dd_stabstr = 0x100, dd_stabstr_end = 0x104, dd_unknown = 0x200\<rparr>"

theorem debuginfo_eip_stays_in_table_witness:
  "\<exists>r info. debuginfo_eip (\<lambda>_. 0) (some_debug_data [no_stab, file_stab 16]) 20 = Some (r, info) \<and> r \<in> {0, - 1}"
proof -
  have "debug_table_ok (\<lambda>_. 0) (some_debug_data [no_stab, file_stab 16])"
    by (auto simp: debug_table_ok_def some_debug_data_def no_stab_def file_stab_def N_SO_def cstr_simps
        intro: exI [of _ "[]"])
  from debuginfo_eip_stays_in_table [OF this, of 20] show ?thesis by blast
qed

text \<open>When the table starts with a source file and the address lies below it, \<open>debuginfo_eip\<close> goes on with
  the left end -1 that the search returns, which it takes for a match, and reads the entry before the table.\<close>

theorem debuginfo_eip_reads_before_table:
  assumes "dd_stabstr d < dd_stabstr_end d" and "\<mu> (dd_stabstr_end d - 1) = 0"
    and "dd_stabs d = e # es" and "uint (n_type e) = N_SO" and "addr < n_value e" and "length (dd_stabs d) \<le> 2 ^ 30"
    and "stabs_sorted (dd_stabs d) N_SO 0 (int (length (dd_stabs d)) - 1)"
  shows "debuginfo_eip \<mu> d addr = None"
proof -
  let ?xs = "dd_stabs d" and ?R = "int (length (dd_stabs d)) - 1"
  have H0: "0 \<in> stab_hits ?xs N_SO 0 ?R" and a0: "stab_addr ?xs 0 = n_value e" using assms(3,4) by (simp_all add: stab_hits_def stab_addr_def)
  have above: "addr < stab_addr ?xs i" if "i \<in> stab_hits ?xs N_SO 0 ?R" for i
  proof -
    have "stab_addr ?xs 0 \<le> stab_addr ?xs i" using assms(7) H0 that by (auto simp: stabs_sorted_def stab_hits_def)
    then show ?thesis using assms(5) a0 by simp
  qed
  have "addr \<noteq> - 1" using assms(5) by (metis max_word_max not_le)
  moreover have "\<not> (\<exists>i \<in> stab_hits ?xs N_SO 0 ?R. stab_addr ?xs i = addr)" using above by force
  ultimately have "stab_binsearch ?xs 0 ?R N_SO addr = Some (stab_span ?xs 0 ?R N_SO addr)"
    using assms(6,7) by (intro stab_binsearch_is_linear_scan) auto
  moreover have "stab_span ?xs 0 ?R N_SO addr = (- 1, - 1)"
  proof -
    let ?hs = "filter (\<lambda>i. uint (n_type (?xs ! nat i)) = N_SO) [0..?R]"
    have "filter (\<lambda>i. addr < stab_addr ?xs i) ?hs = ?hs" using above by (intro filter_True ballI) (simp only: set_hits)
    moreover have "filter (\<lambda>i. stab_addr ?xs i \<le> addr) ?hs = []" using above by (auto simp: filter_empty_conv stab_hits_def not_le)
    moreover have "?hs \<noteq> []" "hd ?hs = 0" using assms(3,4) by (simp_all add: upto_rec1)
    ultimately show ?thesis by (simp add: stab_span_def Let_def)
  qed
  moreover have "debuginfo_in_file \<mu> d (- 1) (- 1) addr info = None" for info
  proof -
    have "(- 2 :: int) sdiv 2 = - 1" by (simp add: signed_divide_int_def)
    then have "binsearch_loop ?xs N_FUN addr (- 1) (- 1) False (- 1) (- 1) = None"
      by (simp add: binsearch_loop.simps stab_back.simps stab_at_def)
    then show ?thesis by (simp add: debuginfo_in_file_def stab_binsearch_def)
  qed
  ultimately show ?thesis using assms(1,2) by (auto simp: debuginfo_eip_def Let_def)
qed

theorem debuginfo_eip_reads_before_table_witness:
  "debuginfo_eip (\<lambda>_. 0) (some_debug_data [file_stab 16]) 4 = None"
proof (rule debuginfo_eip_reads_before_table [where e = "file_stab 16"])
  show "stabs_sorted (dd_stabs (some_debug_data [file_stab 16])) N_SO 0 (int (length (dd_stabs (some_debug_data [file_stab 16]))) - 1)"
    by (simp add: stabs_sorted_def stab_hits_def some_debug_data_def stab_addr_def)
qed (simp_all add: some_debug_data_def file_stab_def N_SO_def)

text \<open>The name of a function is copied into an array of 256 bytes without a test of its length.\<close>

theorem print_debuginfo_overflows:
  assumes "debuginfo_eip \<mu> d eip = Some (0, info)" and "read_str \<mu> (eip_file info) = Some fl"
  shows "print_debuginfo \<mu> d eip s = None \<longleftrightarrow> 256 \<le> eip_fn_namelen info"
  using assms by (auto simp: print_debuginfo_def copy_fnname_def)

end
