(* ===== verification/Graphic.thy ===== *)
theory Graphic
  imports Cstring
begin

text \<open>
  kern/graphic/graphic.c, kern/font/font.c and kern/component/component.c: the drawing routines on a linear
  frame buffer. The frame buffer, the font and the bitmaps lie in memory, a map from addresses to bytes;
  the boot information gives the size of the screen and where the buffer is. An offset into the buffer is
  computed modulo \<open>2^32\<close>. The arithmetic of \<open>float\<close> values is a parameter (\<open>float_ops\<close>): none of the
  results depends on it. \<open>None\<close> is a loop or a recursion that does not end.
\<close>

section \<open>The screen\<close>

record boot_info =
  bi_cyls :: u8
  bi_leds :: u8
  bi_vmode :: u8
  bi_reserve :: u8
  scrnx :: u16
  scrny :: u16
  bitspixel :: u8
  bi_mem_model :: u8
  vram :: u32

record rgb =
  col_r :: u8
  col_g :: u8
  col_b :: u8

record point =
  pt_x :: int
  pt_y :: int

record rect =
  rect_p :: point
  rect_width :: u32
  rect_height :: u32

definition nBppixel :: "boot_info \<Rightarrow> int" where
  "nBppixel b = uint (drop_bit 3 (bitspixel b))"

definition is_pixel_valid :: "boot_info \<Rightarrow> int \<Rightarrow> int \<Rightarrow> bool" where
  "is_pixel_valid b x y = (\<not> (x < 0 \<or> y < 0 \<or> x \<ge> uint (scrnx b) \<or> y \<ge> uint (scrny b)))"

text \<open>\<open>*pvram = c.b; *(pvram+1) = c.g; *(pvram+2) = c.r;\<close>\<close>

definition put_rgb :: "u32 \<Rightarrow> rgb \<Rightarrow> bytes \<Rightarrow> bytes" where
  "put_rgb p c \<mu> = \<mu>(p := col_b c, p + 1 := col_g c, p + 2 := col_r c)"

definition set_pixel :: "boot_info \<Rightarrow> int \<Rightarrow> int \<Rightarrow> rgb \<Rightarrow> bytes \<Rightarrow> bytes" where
  "set_pixel b x y c \<mu> =
     (if \<not> is_pixel_valid b x y then \<mu>
      else put_rgb (vram b + word_of_int (nBppixel b * uint (scrnx b) * y + nBppixel b * x)) c \<mu>)"

definition get_pixel :: "boot_info \<Rightarrow> int \<Rightarrow> int \<Rightarrow> bytes \<Rightarrow> rgb" where
  "get_pixel b x y \<mu> =
     (if \<not> is_pixel_valid b x y then \<lparr>col_r = 0, col_g = 0, col_b = 0\<rparr>
      else (let p = vram b + word_of_int (y * uint (scrnx b) + x)
            in \<lparr>col_r = \<mu> p, col_g = \<mu> (p + 1), col_b = \<mu> (p + 2)\<rparr>))"

section \<open>Lines and frames\<close>

record 'f float_ops =
  fl_of_int :: "int \<Rightarrow> 'f"
  fl_to_int :: "'f \<Rightarrow> int"
  fl_add :: "'f \<Rightarrow> 'f \<Rightarrow> 'f"
  fl_div :: "'f \<Rightarrow> 'f \<Rightarrow> 'f"
  fl_le :: "'f \<Rightarrow> 'f \<Rightarrow> bool"

text \<open>The two \<open>for\<close> loops: along x with a fractional y, and along y with a fractional x.\<close>

function line_x :: "'f float_ops \<Rightarrow> boot_info \<Rightarrow> point \<Rightarrow> rgb \<Rightarrow> 'f \<Rightarrow> 'f \<Rightarrow> int \<Rightarrow> bytes \<Rightarrow> bytes" where
  "line_x fo b p2 c dy yt1 xt1 \<mu> =
     (if fl_le fo yt1 (fl_of_int fo (pt_y p2)) \<and> xt1 \<le> pt_x p2
      then line_x fo b p2 c dy (fl_add fo yt1 dy) (xt1 + 1) (set_pixel b xt1 (fl_to_int fo yt1) c \<mu>)
      else \<mu>)"
  by pat_completeness auto
termination
  by (relation "measure (\<lambda>(fo, b, p2, c, dy, yt1, xt1, \<mu>). nat (pt_x p2 + 1 - xt1))") auto

function line_y :: "'f float_ops \<Rightarrow> boot_info \<Rightarrow> point \<Rightarrow> rgb \<Rightarrow> 'f \<Rightarrow> 'f \<Rightarrow> int \<Rightarrow> bytes \<Rightarrow> bytes" where
  "line_y fo b p2 c dx xt2 yt2 \<mu> =
     (if fl_le fo xt2 (fl_of_int fo (pt_x p2)) \<and> yt2 \<le> pt_y p2
      then line_y fo b p2 c dx (fl_add fo xt2 dx) (yt2 + 1) (set_pixel b (fl_to_int fo xt2) yt2 c \<mu>)
      else \<mu>)"
  by pat_completeness auto
termination
  by (relation "measure (\<lambda>(fo, b, p2, c, dx, xt2, yt2, \<mu>). nat (pt_y p2 + 1 - yt2))") auto

declare line_x.simps [simp del] line_y.simps [simp del]

definition line_body :: "'f float_ops \<Rightarrow> boot_info \<Rightarrow> point \<Rightarrow> point \<Rightarrow> rgb \<Rightarrow> bytes \<Rightarrow> bytes" where
  "line_body fo b p1 p2 c \<mu> =
     (let w = pt_x p2 - pt_x p1; h = pt_y p2 - pt_y p1
      in if w > h then line_x fo b p2 c (fl_div fo (fl_of_int fo h) (fl_of_int fo w)) (fl_of_int fo (pt_y p1)) (pt_x p1) \<mu>
         else line_y fo b p2 c (fl_div fo (fl_of_int fo w) (fl_of_int fo h)) (fl_of_int fo (pt_x p1)) (pt_y p1) \<mu>)"

partial_function (option) draw_line ::
  "'f float_ops \<Rightarrow> boot_info \<Rightarrow> point \<Rightarrow> point \<Rightarrow> rgb \<Rightarrow> bytes \<Rightarrow> bytes option" where
  "draw_line fo b p1 p2 c \<mu> =
     (if pt_x p2 < pt_x p1 \<or> pt_y p2 < pt_y p1 then draw_line fo b p2 p1 c \<mu> else Some (line_body fo b p1 p2 c \<mu>))"

text \<open>\<open>p.x + rect.width - 1\<close> is unsigned and assigned to an \<open>int\<close>.\<close>

definition far_end :: "int \<Rightarrow> u32 \<Rightarrow> int" where
  "far_end x w = to_int (of_cint x + w - 1)"

definition draw_rect :: "'f float_ops \<Rightarrow> boot_info \<Rightarrow> rect \<Rightarrow> rgb \<Rightarrow> bytes \<Rightarrow> bytes option" where
  "draw_rect fo b rect c \<mu> =
     (let p1 = rect_p rect;
          p2 = \<lparr>pt_x = pt_x p1, pt_y = far_end (pt_y p1) (rect_height rect)\<rparr>;
          p3 = \<lparr>pt_x = far_end (pt_x p1) (rect_width rect), pt_y = pt_y p1\<rparr>;
          p4 = \<lparr>pt_x = far_end (pt_x p1) (rect_width rect), pt_y = far_end (pt_y p1) (rect_height rect)\<rparr>
      in do { \<mu> \<leftarrow> draw_line fo b p1 p2 c \<mu>;
              \<mu> \<leftarrow> draw_line fo b p2 p4 c \<mu>;
              \<mu> \<leftarrow> draw_line fo b p4 p3 c \<mu>;
              draw_line fo b p3 p1 c \<mu> })"

section \<open>Filling\<close>

text \<open>The counters are \<open>size_t\<close>, so the \<open>int\<close> bounds are compared as unsigned numbers.\<close>

partial_function (option) fill_cols :: "boot_info \<Rightarrow> rgb \<Rightarrow> u32 \<Rightarrow> u32 \<Rightarrow> u32 \<Rightarrow> bytes \<Rightarrow> bytes option" where
  "fill_cols b c right i j \<mu> =
     (if j \<le> right
      then fill_cols b c right i (j + 1)
             (put_rgb (vram b + word_of_int (nBppixel b) * (ucast (scrnx b) * i + j)) c \<mu>)
      else Some \<mu>)"

partial_function (option) fill_rows :: "boot_info \<Rightarrow> rgb \<Rightarrow> u32 \<Rightarrow> u32 \<Rightarrow> u32 \<Rightarrow> u32 \<Rightarrow> bytes \<Rightarrow> bytes option" where
  "fill_rows b c left right bottom i \<mu> =
     (if i \<le> bottom
      then do { \<mu> \<leftarrow> fill_cols b c right i left \<mu>; fill_rows b c left right bottom (i + 1) \<mu> }
      else Some \<mu>)"

definition fill_rect :: "boot_info \<Rightarrow> rect \<Rightarrow> rgb \<Rightarrow> bytes \<Rightarrow> bytes option" where
  "fill_rect b rect c \<mu> =
     (let sx = uint (scrnx b); sy = uint (scrny b);
          l = pt_x (rect_p rect); r = far_end (pt_x (rect_p rect)) (rect_width rect);
          t = pt_y (rect_p rect); bt = far_end (pt_y (rect_p rect)) (rect_height rect)
      in if l > r \<or> t > bt \<or> l > sx - 1 \<or> t > sy - 1 then Some \<mu>
         else (let l = (if l < 0 then 0 else l); t = (if t < 0 then 0 else t);
                   r = (if r > sx - 1 then sx - 1 else r); bt = (if bt > sy - 1 then sy - 1 else bt)
               in fill_rows b c (of_cint l) (of_cint r) (of_cint bt) (of_cint t) \<mu>))"

section \<open>Bitmaps\<close>

text \<open>The fields of the packed headers at a \<open>bitmap_t\<close>; \<open>abs\<close> is the macro of libs/math.h.\<close>

definition bf_offset_bits :: "bytes \<Rightarrow> u32 \<Rightarrow> u32" where "bf_offset_bits \<mu> p = load32 \<mu> (p + 10)"
definition bi_width :: "bytes \<Rightarrow> u32 \<Rightarrow> int" where "bi_width \<mu> p = to_int (load32 \<mu> (p + 18))"
definition bi_height :: "bytes \<Rightarrow> u32 \<Rightarrow> int" where "bi_height \<mu> p = to_int (load32 \<mu> (p + 22))"
definition bi_bit_count :: "bytes \<Rightarrow> u32 \<Rightarrow> u16" where "bi_bit_count \<mu> p = load16 \<mu> (p + 28)"

definition c_abs :: "int \<Rightarrow> u32" where
  "c_abs x = of_cint (if x > 0 then x else - x)"

definition copy_pixel :: "u32 \<Rightarrow> u32 \<Rightarrow> bytes \<Rightarrow> bytes" where
  "copy_pixel pvram pdata \<mu> =
     (let \<mu> = \<mu>(pvram := \<mu> pdata); \<mu> = \<mu>(pvram + 1 := \<mu> (pdata + 1)) in \<mu>(pvram + 2 := \<mu> (pdata + 2)))"

definition draw_bitmap :: "boot_info \<Rightarrow> rect \<Rightarrow> u32 \<Rightarrow> bytes \<Rightarrow> bytes" where
  "draw_bitmap b rect pbmp \<mu> =
     (let pbmp_addr = pbmp + bf_offset_bits \<mu> pbmp; nbit = ucast (bi_bit_count \<mu> pbmp) :: u32
      in if nbit \<noteq> 24 then \<mu>
         else
           (let width = c_abs (bi_width \<mu> pbmp); height = c_abs (bi_height \<mu> pbmp);
                nBpline = push_bit 2 (drop_bit 5 (width * nbit + 31));
                x0 = of_cint (pt_x (rect_p rect)); y0 = of_cint (pt_y (rect_p rect));
                width = (if width > rect_width rect then rect_width rect else width);
                height = (if height > rect_height rect then rect_height rect else height);
                sx = ucast (scrnx b); sy = ucast (scrny b);
                width = (if x0 + width > sx then sx - x0 - 1 else width);
                height = (if y0 + height > sy then sy - y0 - 1 else height)
            in fold (\<lambda>i \<mu>. fold (\<lambda>j. copy_pixel
                   (vram b + word_of_int (nBppixel b) * (sx * (y0 + of_nat j) + x0 + of_nat i))
                   (pbmp_addr + nBpline * of_nat j + of_nat i * 3)) [0..<unat height] \<mu>)
                 [0..<unat width] \<mu>))"

partial_function (option) fill_bitmap_col ::
  "boot_info \<Rightarrow> rect \<Rightarrow> u32 \<Rightarrow> u32 \<Rightarrow> u32 \<Rightarrow> u32 \<Rightarrow> u32 \<Rightarrow> bytes \<Rightarrow> bytes option" where
  "fill_bitmap_col b rect pbmp width height x y \<mu> =
     (if y < of_cint (pt_y (rect_p rect)) + rect_height rect
      then fill_bitmap_col b rect pbmp width height x (y + height)
             (draw_bitmap b \<lparr>rect_p = \<lparr>pt_x = to_int x, pt_y = to_int y\<rparr>, rect_width = width, rect_height = height\<rparr> pbmp \<mu>)
      else Some \<mu>)"

partial_function (option) fill_bitmap_rows ::
  "boot_info \<Rightarrow> rect \<Rightarrow> u32 \<Rightarrow> u32 \<Rightarrow> u32 \<Rightarrow> u32 \<Rightarrow> bytes \<Rightarrow> bytes option" where
  "fill_bitmap_rows b rect pbmp width height x \<mu> =
     (if x < of_cint (pt_x (rect_p rect)) + rect_width rect
      then do { \<mu> \<leftarrow> fill_bitmap_col b rect pbmp width height x (of_cint (pt_y (rect_p rect))) \<mu>;
                fill_bitmap_rows b rect pbmp width height (x + width) \<mu> }
      else Some \<mu>)"

definition fill_bitmap :: "boot_info \<Rightarrow> rect \<Rightarrow> u32 \<Rightarrow> bytes \<Rightarrow> bytes option" where
  "fill_bitmap b rect pbmp \<mu> =
     fill_bitmap_rows b rect pbmp (c_abs (bi_width \<mu> pbmp)) (c_abs (bi_height \<mu> pbmp)) (of_cint (pt_x (rect_p rect))) \<mu>"

definition get_scrn_rect :: "boot_info \<Rightarrow> rect" where
  "get_scrn_rect b = \<lparr>rect_p = \<lparr>pt_x = 0, pt_y = 0\<rparr>, rect_width = ucast (scrnx b), rect_height = ucast (scrny b)\<rparr>"

section \<open>Characters\<close>

text \<open>\<open>FONT_ASC16_ADDR + KERNBASE\<close>\<close>

definition p_font_asc16_b :: u32 where "p_font_asc16_b = 0xC0011000"
definition ASC16_WIDTH :: nat where "ASC16_WIDTH = 8"
definition ASC16_HEIGHT :: nat where "ASC16_HEIGHT = 16"

definition draw_asc16 :: "boot_info \<Rightarrow> u8 \<Rightarrow> point \<Rightarrow> rgb \<Rightarrow> bytes \<Rightarrow> bytes" where
  "draw_asc16 b ch p c \<mu> =
     fold (\<lambda>y. fold (\<lambda>x \<mu>.
         if \<mu> (p_font_asc16_b + ucast ch * 16 + of_nat y) AND drop_bit x 0x80 \<noteq> 0
         then set_pixel b (pt_x p + int x) (pt_y p + int y) c \<mu> else \<mu>) [0..<ASC16_WIDTH]) [0..<ASC16_HEIGHT] \<mu>"

partial_function (option) draw_str16 :: "boot_info \<Rightarrow> u32 \<Rightarrow> point \<Rightarrow> rgb \<Rightarrow> bytes \<Rightarrow> bytes option" where
  "draw_str16 b p pt c \<mu> =
     (if \<mu> p \<noteq> 0 then draw_str16 b (p + 1) (pt\<lparr>pt_x := pt_x pt + 8\<rparr>) c (draw_asc16 b (\<mu> p) pt c \<mu>) else Some \<mu>)"

section \<open>Components\<close>

record frame =
  fr_rect :: rect
  fr_bgc :: rgb
  fr_frc :: rgb

record button =
  bt_frame :: frame
  bt_btc :: rgb

record list_box =
  ls_frame :: frame
  ls_sepc :: rgb
  ls_n :: u32

record draw_context =
  cx_rect :: rect
  cx_bgc :: rgb

definition LIST_H :: int where "LIST_H = 30"

definition draw_frame :: "'f float_ops \<Rightarrow> boot_info \<Rightarrow> draw_context \<Rightarrow> frame \<Rightarrow> bytes \<Rightarrow> bytes option" where
  "draw_frame fo b cx fr \<mu> =
     (let p = rect_p (cx_rect cx); q = rect_p (fr_rect fr);
          realrect = (fr_rect fr)\<lparr>rect_p := \<lparr>pt_x = pt_x p + pt_x q, pt_y = pt_y p + pt_y q\<rparr>\<rparr>
      in do { \<mu> \<leftarrow> fill_rect b realrect (fr_bgc fr) \<mu>; draw_rect fo b realrect (fr_frc fr) \<mu> })"

definition draw_button :: "'f float_ops \<Rightarrow> boot_info \<Rightarrow> draw_context \<Rightarrow> button \<Rightarrow> bytes \<Rightarrow> bytes option" where
  "draw_button fo b cx bt \<mu> =
     do { \<mu> \<leftarrow> draw_frame fo b cx (bt_frame bt) \<mu>;
          let f = fr_rect (bt_frame bt);
          let x1 = pt_x (rect_p (cx_rect cx)) + pt_x (rect_p f);
          let y1 = pt_y (rect_p (cx_rect cx)) + pt_y (rect_p f);
          let x2 = far_end x1 (rect_width f);
          let y2 = far_end y1 (rect_height f);
          \<mu> \<leftarrow> draw_line fo b \<lparr>pt_x = x1, pt_y = y1\<rparr> \<lparr>pt_x = x2, pt_y = y2\<rparr> (bt_btc bt) \<mu>;
          draw_line fo b \<lparr>pt_x = x1, pt_y = y2\<rparr> \<lparr>pt_x = x2, pt_y = y1\<rparr> (bt_btc bt) \<mu> }"

primrec list_lines :: "nat \<Rightarrow> 'f float_ops \<Rightarrow> boot_info \<Rightarrow> int \<Rightarrow> int \<Rightarrow> u32 \<Rightarrow> rgb \<Rightarrow> bytes \<Rightarrow> bytes option" where
  "list_lines 0 fo b x1 y1 w c \<mu> = Some \<mu>"
| "list_lines (Suc n) fo b x1 y1 w c \<mu> =
     do { \<mu> \<leftarrow> draw_line fo b \<lparr>pt_x = x1, pt_y = y1\<rparr> \<lparr>pt_x = to_int (of_cint x1 + w), pt_y = y1\<rparr> c \<mu>;
          list_lines n fo b x1 (y1 + LIST_H) w c \<mu> }"

definition draw_list :: "'f float_ops \<Rightarrow> boot_info \<Rightarrow> draw_context \<Rightarrow> list_box \<Rightarrow> bytes \<Rightarrow> bytes option" where
  "draw_list fo b cx ls \<mu> =
     do { \<mu> \<leftarrow> draw_frame fo b cx (ls_frame ls) \<mu>;
          let f = fr_rect (ls_frame ls);
          list_lines (unat (ls_n ls)) fo b (pt_x (rect_p (cx_rect cx)) + pt_x (rect_p f))
            (pt_y (rect_p (cx_rect cx)) + pt_y (rect_p f)) (rect_width f) (ls_sepc ls) \<mu> }"

end
