(* ===== verification/Startup.thy ===== *)
theory Startup
  imports Paging Kdebug Graphic
begin

text \<open>
  The start of the memory system: \<open>pmm_init\<close> of kern/mm/pmm.c with everything it calls, and the printing of
  the page tables. The state holds the page tables and the page allocator, the registers that
  \<open>enable_paging\<close> writes, the descriptor table, the variables \<open>npage\<close>, \<open>pages\<close>, \<open>boot_pgdir\<close>, and the
  kernel with the object allocator, \<open>boot_cr3\<close> and the log of what is printed (the lines of \<open>page_init\<close>
  excepted). Addresses that go through the paging unit are translated by the walk of theory Paging.
\<close>

section \<open>Memory through the paging unit\<close>

text \<open>The address of the word the linear address \<open>la\<close> lies in; \<open>None\<close> is a page fault.\<close>

definition walk :: "(u32 \<Rightarrow> u32) \<Rightarrow> nat \<Rightarrow> u32 \<Rightarrow> u32 option" where
  "walk \<mu> d la = map_option (\<lambda>pte. VADDR (PTE_ADDR pte) + (la AND 0xFFC)) (translate \<mu> d la)"

text \<open>Storing a byte at a linear address.\<close>

definition store_byte :: "u32 \<Rightarrow> u8 \<Rightarrow> 's vm \<Rightarrow> 's vm option" where
  "store_byte la c s =
     do { a \<leftarrow> walk (mem s) (pa2page (cr3 s)) la;
          let k = 8 * unat (la AND 3);
          Some (store a ((mem s a AND NOT (push_bit k 0xFF)) OR push_bit k (ucast c)) s) }"

text \<open>\<open>strcpy\<close> of a literal to a linear address.\<close>

fun store_string :: "u32 \<Rightarrow> u8 list \<Rightarrow> 's vm \<Rightarrow> 's vm option" where
  "store_string la [] s = store_byte la 0 s"
| "store_string la (c # cs) s = do { s \<leftarrow> store_byte la c s; store_string (la + 1) cs s }"

section \<open>Printing the page tables\<close>

text \<open>The tables as the arrays \<open>vpd\<close> and \<open>vpt\<close> show them.\<close>

definition table_word :: "(u32 \<Rightarrow> u32) \<Rightarrow> nat \<Rightarrow> u32 \<Rightarrow> nat \<Rightarrow> u32" where
  "table_word \<mu> d base i = (case walk \<mu> d (base + 4 * of_nat i) of Some a \<Rightarrow> \<mu> a | None \<Rightarrow> 0)"

definition vpt :: "(u32 \<Rightarrow> u32) \<Rightarrow> nat \<Rightarrow> nat \<Rightarrow> u32" where
  "vpt \<mu> d = table_word \<mu> d VPT"

definition vpd :: "(u32 \<Rightarrow> u32) \<Rightarrow> nat \<Rightarrow> nat \<Rightarrow> u32" where
  "vpd \<mu> d = table_word \<mu> d (PGADDR (PDX VPT) (PDX VPT) 0)"

text \<open>The results of \<open>get_pgtable_items\<close> that the loops print, one after the other.\<close>

lemma get_pgtable_items_bounds:
  "get_pgtable_items right start tbl = (perm, Some (l, r)) \<Longrightarrow> start \<le> l \<and> l < r \<and> r \<le> right"
  using get_pgtable_items_correct [where right = right and start = start and table = tbl] by simp

function pt_runs :: "nat \<Rightarrow> nat \<Rightarrow> (nat \<Rightarrow> u32) \<Rightarrow> (u32 \<times> nat \<times> nat) list" where
  "pt_runs right start tbl =
     (case get_pgtable_items right start tbl of
        (perm, Some (l, r)) \<Rightarrow> if perm \<noteq> 0 then (perm, l, r) # pt_runs right r tbl else []
      | (perm, None) \<Rightarrow> [])"
  by pat_completeness auto
termination
  by (relation "measure (\<lambda>(right, start, tbl). right - start)") (auto dest!: sym [where t = "get_pgtable_items _ _ _"] get_pgtable_items_bounds)

declare pt_runs.simps [simp del]

definition print_pte :: "u32 \<times> nat \<times> nat \<Rightarrow> kernel \<Rightarrow> kernel" where
  "print_pte = (\<lambda>(perm, l, r). kprintf ''  |-- PTE(%05x) %08x-%08x %08x %s\<newline>''
     [Num (of_nat (r - l)), Num (of_nat l * PGSIZE), Num (of_nat r * PGSIZE), Num (of_nat (r - l) * PGSIZE), Str (perm2str perm)])"

definition print_pde :: "(u32 \<Rightarrow> u32) \<Rightarrow> nat \<Rightarrow> u32 \<times> nat \<times> nat \<Rightarrow> kernel \<Rightarrow> kernel" where
  "print_pde \<mu> d = (\<lambda>(perm, left, right) k.
     (let k = kprintf ''left:%d right:%d \<newline>'' [Num (of_nat left), Num (of_nat right)] k;
          k = kprintf ''PDE(%03x) %08x-%08x %08x %s\<newline>''
                [Num (of_nat (right - left)), Num (of_nat left * PGSIZE * 1024), Num (of_nat right * PGSIZE * 1024),
                 Num (of_nat (right - left) * PGSIZE * 1024), Str (perm2str perm)] k
      in fold print_pte (pt_runs (right * 1024) (left * 1024) (vpt \<mu> d)) k))"

definition print_pgdir :: "(u32 \<Rightarrow> u32) \<Rightarrow> nat \<Rightarrow> kernel \<Rightarrow> kernel" where
  "print_pgdir \<mu> d k =
     (let k = kprintf ''-------------------- BEGIN --------------------\<newline>'' [] k;
          k = fold (print_pde \<mu> d) (pt_runs 1024 0 (vpd \<mu> d)) k
      in kprintf ''--------------------- END ---------------------\<newline>'' [] k)"

section \<open>The start-up sequence\<close>

text \<open>What the start depends on: the symbol \<open>end\<close>, the memory map, the address of the task state segment,
  the boot information, and for the back trace the stack, the debugging data and the two registers.\<close>

record boot_env =
  be_end :: u32
  be_map :: "e820_entry list"
  be_ts :: u32
  be_binfo :: boot_info
  be_stack :: bytes
  be_debug :: debug_data
  be_ebp :: u32
  be_eip :: u32

record boot =
  bo_vm :: "buddy vm"
  bo_cr0 :: u32
  bo_gdt :: "segdesc list"
  bo_npage :: u32
  bo_pages :: u32
  bo_pgdir :: u32
  bo_kernel :: kernel

definition bprintf :: "string \<Rightarrow> print_arg list \<Rightarrow> boot \<Rightarrow> boot" where
  "bprintf fmt args s = s\<lparr>bo_kernel := kprintf fmt args (bo_kernel s)\<rparr>"

definition init_pmm_manager :: "boot \<Rightarrow> boot" where
  "init_pmm_manager s =
     (let s = bprintf ''init_pmm_manager\<newline>'' [] s;
          s = bprintf ''memory management: %s\<newline>'' [Str (pm_name buddy_pmm_manager)] s
      in s\<lparr>bo_vm := (bo_vm s)\<lparr>pmm := pm_init buddy_pmm_manager (pmm (bo_vm s))\<rparr>\<rparr>)"

definition CR0_PE :: u32 where "CR0_PE = 0x00000001"
definition CR0_MP :: u32 where "CR0_MP = 0x00000002"
definition CR0_EM :: u32 where "CR0_EM = 0x00000004"
definition CR0_TS :: u32 where "CR0_TS = 0x00000008"
definition CR0_NE :: u32 where "CR0_NE = 0x00000020"
definition CR0_WP :: u32 where "CR0_WP = 0x00010000"
definition CR0_AM :: u32 where "CR0_AM = 0x00040000"
definition CR0_PG :: u32 where "CR0_PG = 0x80000000"

text \<open>\<open>lcr3\<close> also empties the TLB.\<close>

definition lcr3 :: "u32 \<Rightarrow> 's vm \<Rightarrow> 's vm" where
  "lcr3 v s = s\<lparr>cr3 := v, tlb := Map.empty\<rparr>"

definition enable_paging :: "boot \<Rightarrow> boot" where
  "enable_paging s =
     (let s = s\<lparr>bo_vm := lcr3 (boot_cr3 (bo_kernel s)) (bo_vm s)\<rparr>;
          cr0 = bo_cr0 s OR (CR0_PE OR CR0_PG OR CR0_AM OR CR0_WP OR CR0_NE OR CR0_TS OR CR0_EM OR CR0_MP)
      in s\<lparr>bo_cr0 := cr0 AND NOT (CR0_TS OR CR0_EM)\<rparr>)"

text \<open>\<open>check_boot_pgdir\<close>; the reads of the string it wrote, whose results are not used, are left out.\<close>

definition check_boot_pgdir :: "u32 \<Rightarrow> u32 \<Rightarrow> buddy vm \<Rightarrow> buddy vm option" where
  "check_boot_pgdir npage boot_pgdir s =
     do { s \<leftarrow> fold (\<lambda>k r. do { s \<leftarrow> r; (pte_p, s) \<leftarrow> get_pte buddy_pmm_manager boot_pgdir (VADDR (of_nat k * PGSIZE)) s; Some s })
                 [0..<(unat npage + 4095) div 4096] (Some s);
          (p, s) \<leftarrow> alloc_page buddy_pmm_manager s;
          (r, s) \<leftarrow> page_insert buddy_pmm_manager boot_pgdir p (0x100 + PGSIZE) PTE_W s;
          (r, s) \<leftarrow> page_insert buddy_pmm_manager boot_pgdir p 0x100 PTE_W s;
          (r, s) \<leftarrow> page_insert buddy_pmm_manager boot_pgdir p (0x100 + 18) PTE_W s;
          s \<leftarrow> store_byte 0x100 (of_char (CHR ''c'')) s;
          s \<leftarrow> store_string 0x100 (map of_char ''hello world!'') s;
          s \<leftarrow> free_page buddy_pmm_manager p s;
          s \<leftarrow> free_page buddy_pmm_manager (pa2page (PDE_ADDR (mem s boot_pgdir))) s;
          Some (store boot_pgdir 0 s) }"

text \<open>The steps of \<open>pmm_init\<close> up to the first use of the new tables.\<close>

definition build_tables :: "boot_env \<Rightarrow> boot \<Rightarrow> boot option" where
  "build_tables e s =
     do { let s = init_pmm_manager s;
          let (npage, pages, q) = page_init buddy_pmm_manager (be_end e) (be_map e) (pmm (bo_vm s));
          q \<leftarrow> buddy_check q;
          (p, vm) \<leftarrow> alloc_page buddy_pmm_manager ((bo_vm s)\<lparr>pmm := q\<rparr>);
          let pgdir = page2va p;
          let vm = vm\<lparr>mem := clear_page pgdir (mem vm)\<rparr>;
          let k = (bo_kernel s)\<lparr>boot_cr3 := PADDR pgdir\<rparr>;
          vm \<leftarrow> check_pgdir buddy_pmm_manager pgdir vm;
          let k = kprintf ''check_pgdir succeeded\<newline>'' [] k;
          let vm = store (pgdir + 4 * PDX VPT) (PADDR pgdir OR PTE_P OR PTE_W) vm;
          vm \<leftarrow> map_physical_memory buddy_pmm_manager pgdir KERNBASE KMEMSIZE 0 PTE_W vm;
          let vm = store pgdir (mem vm (pgdir + 4 * PDX KERNBASE)) vm;
          Some (s\<lparr>bo_vm := vm, bo_npage := npage, bo_pages := pages, bo_pgdir := pgdir, bo_kernel := k\<rparr>) }"

definition pmm_init :: "boot_env \<Rightarrow> boot \<Rightarrow> boot option" where
  "pmm_init e s =
     do { s \<leftarrow> build_tables e s;
          let s = enable_paging s;
          let s = s\<lparr>bo_gdt := gdt_init (be_ts e) (bo_gdt s)\<rparr>;
          let pgdir = bo_pgdir s;
          vm \<leftarrow> check_boot_pgdir (bo_npage s) pgdir (store pgdir 0 (bo_vm s));
          let k = kprintf ''check_boot_pgdir() succeeded!\<newline>'' [] (bo_kernel s);
          let b = be_binfo e;
          vm \<leftarrow> map_physical_memory buddy_pmm_manager pgdir (vram b)
                  (word_of_int (uint (scrnx b) * uint (scrny b) * nBppixel b)) (vram b) PTE_W vm;
          let k = print_pgdir (mem vm) (pa2page (cr3 vm)) k;
          k \<leftarrow> print_stackframe (be_stack e) (be_debug e) (be_ebp e) (be_eip e) k;
          mo \<leftarrow> slab_init ((memory k)\<lparr>frames := pmm vm\<rparr>);
          Some (s\<lparr>bo_vm := vm, bo_kernel := k\<lparr>memory := mo\<rparr>\<rparr>) }"

section \<open>The runs that are printed\<close>

lemma pt_runs_correct:
  "(\<forall>(perm, l, r) \<in> set (pt_runs right start tbl). start \<le> l \<and> l < r \<and> r \<le> right \<and>
      (\<forall>i. l \<le> i \<and> i < r \<longrightarrow> present (tbl i) \<and> tbl i AND PTE_USER = perm)) \<and>
   (\<forall>i. start \<le> i \<and> i < right \<and> present (tbl i) \<longrightarrow> (\<exists>(perm, l, r) \<in> set (pt_runs right start tbl). l \<le> i \<and> i < r)) \<and>
   sorted_wrt (\<lambda>(_, _, r) (_, l', _). r \<le> l') (pt_runs right start tbl)"
proof (induction right start tbl rule: pt_runs.induct)
  case (1 right start tbl)
  note G = get_pgtable_items_correct [where right = right and start = start and table = tbl]
  obtain perm res where g: "get_pgtable_items right start tbl = (perm, res)" by fastforce
  show ?case
  proof (cases res)
    case None
    then show ?thesis using G by (auto simp: pt_runs.simps [of right start] g)
  next
    case (Some lr)
    then obtain l r where lr: "res = Some (l, r)" by (cases lr) auto
    note P = G [unfolded g lr, simplified]
    have eq: "pt_runs right start tbl = (perm, l, r) # pt_runs right r tbl"
      using P by (simp add: pt_runs.simps [of right start] g lr)
    have IH: "(\<forall>(perm, l', r') \<in> set (pt_runs right r tbl). r \<le> l' \<and> l' < r' \<and> r' \<le> right \<and>
          (\<forall>i. l' \<le> i \<and> i < r' \<longrightarrow> present (tbl i) \<and> tbl i AND PTE_USER = perm)) \<and>
       (\<forall>i. r \<le> i \<and> i < right \<and> present (tbl i) \<longrightarrow> (\<exists>(perm, l, r) \<in> set (pt_runs right r tbl). l \<le> i \<and> i < r)) \<and>
       sorted_wrt (\<lambda>(_, _, r) (_, l', _). r \<le> l') (pt_runs right r tbl)"
      by (rule 1 [OF g [symmetric] lr refl]) (use P in simp)
    have split: "l \<le> i \<and> i < r \<or> r \<le> i" if "start \<le> i \<and> i < right \<and> present (tbl i)" for i
      using P that by (metis not_le)
    show ?thesis
      unfolding eq
    proof (intro conjI)
      show "\<forall>(perm, l, r) \<in> set ((perm, l, r) # pt_runs right r tbl). start \<le> l \<and> l < r \<and> r \<le> right \<and>
          (\<forall>i. l \<le> i \<and> i < r \<longrightarrow> present (tbl i) \<and> tbl i AND PTE_USER = perm)"
        using P IH by fastforce
      show "\<forall>i. start \<le> i \<and> i < right \<and> present (tbl i) \<longrightarrow>
          (\<exists>(perm, l, r) \<in> set ((perm, l, r) # pt_runs right r tbl). l \<le> i \<and> i < r)"
        using split IH by (metis (no_types, lifting) case_prodI list.set_intros(1,2))
      show "sorted_wrt (\<lambda>(_, _, r) (_, l', _). r \<le> l') ((perm, l, r) # pt_runs right r tbl)"
        using IH by (simp add: case_prod_unfold)
    qed
  qed
qed

section \<open>The directory seen through itself\<close>

lemma address_split:
  fixes v :: nat assumes "v < 2 ^ 30"
  shows "unat (PDX (of_nat (4 * v))) = v div 2 ^ 20" "unat (PTX (of_nat (4 * v))) = v div 1024 mod 1024"
    "(of_nat (4 * v) :: u32) AND 0xFFC = of_nat (4 * (v mod 1024))"
proof -
  have u: "unat (of_nat (4 * v) :: u32) = 4 * v" using assms by (intro unat_of_nat_u32) simp
  have pn: "unat (PAGE_NUM (of_nat (4 * v))) = v div 1024" by (simp only: PAGE_NUM_unat u)
  show "unat (PDX (of_nat (4 * v))) = v div 2 ^ 20"
    by (simp only: PDX_PAGE_NUM pn) (simp flip: div_mult2_eq)
  have "PTX la = take_bit 10 (PAGE_NUM la)" for la
    unfolding PTX_def PAGE_NUM_def mask_numerals take_bit_eq_mask by simp
  then show "unat (PTX (of_nat (4 * v))) = v div 1024 mod 1024"
    by (simp only: unsigned_take_bit_eq pn) (simp add: take_bit_eq_mod)
  have q: "(of_nat (4 * v) :: u32) = push_bit 2 (of_nat v)" by (simp add: push_bit_eq_mult mult.commute)
  have m: "(0xFFC :: u32) = push_bit 2 (mask 10)" by (simp add: mask_eq_exp_minus_1 push_bit_eq_mult)
  have "(of_nat (4 * v) :: u32) AND 0xFFC = push_bit 2 (take_bit 10 (of_nat v))"
    unfolding q m take_bit_eq_mask by (rule bit_word_eqI) (auto simp: bit_simps)
  also have "take_bit 10 (of_nat v :: u32) = of_nat (v mod 1024)"
    by (simp only: take_bit_of_nat, simp only: take_bit_eq_mod power_numeral) simp
  also have "push_bit 2 (of_nat (v mod 1024) :: u32) = of_nat (4 * (v mod 1024))"
    by (simp add: push_bit_eq_mult mult.commute)
  finally show "(of_nat (4 * v) :: u32) AND 0xFFC = of_nat (4 * (v mod 1024))" .
qed

text \<open>What \<open>pmm_init\<close> stores in the slot of \<open>VPT\<close>.\<close>

definition self_mapped :: "(u32 \<Rightarrow> u32) \<Rightarrow> nat \<Rightarrow> bool" where
  "self_mapped \<mu> d \<longleftrightarrow> d < 2 ^ 18 \<and> \<mu> (cell d self_slot) = PADDR (page2va d) OR PTE_P OR PTE_W"

lemma self_slot_number: "self_slot = 1003"
  by (simp add: self_slot_def PDX_def VPT_def)

lemma PADDR_page2va [simp]: "PADDR (page2va p) = page2pa p"
  by (simp add: PADDR_def page2va_def VADDR_def)

lemma self_entry:
  assumes "self_mapped \<mu> d"
  shows "present (\<mu> (cell d self_slot))" "frame (\<mu> (cell d self_slot)) = d"
proof -
  have f: "(PTE_P OR PTE_W) AND NOT 0xFFF = 0" by (simp add: PTE_P_def PTE_W_def)
  have "d < 2 ^ 18" "\<mu> (cell d self_slot) = page2pa d OR (PTE_P OR PTE_W)"
    using assms by (simp_all add: self_mapped_def or.assoc)
  then show "present (\<mu> (cell d self_slot))" "frame (\<mu> (cell d self_slot)) = d"
    using frame_page2pa [OF _ f] present_or(2) [of "page2pa d" PTE_W] by (simp_all add: or.assoc)
qed

lemma vpt_entry:
  assumes "self_mapped \<mu> d" and "k < 2 ^ 20"
  shows "vpt \<mu> d k = (let e = \<mu> (cell d (k div 1024)) in if present e then \<mu> (cell (frame e) (k mod 1024)) else 0)"
proof -
  let ?v = "1003 * 2 ^ 20 + k"
  have la: "VPT + 4 * of_nat k = of_nat (4 * ?v)" by (simp add: VPT_def)
  have v: "?v < 2 ^ 30" using assms(2) by simp
  have e: "?v = (1003 * 1024) * 1024 + k" by simp
  have k: "k div 1024 < 1024" using assms(2) by (intro less_mult_imp_div_less) simp
  have "?v div 2 ^ 20 = 1003" using assms(2) by (subst div_mult_self3) simp_all
  moreover have "?v div 1024 mod 1024 = k div 1024"
    unfolding e using k by (subst div_mult_self3) (simp, simp only: mod_mult_self3 mod_less)
  moreover have "?v mod 1024 = k mod 1024" unfolding e by (rule mod_mult_self3)
  ultimately have S: "?v div 2 ^ 20 = 1003" "?v div 1024 mod 1024 = k div 1024" "?v mod 1024 = k mod 1024" by blast+
  note A = address_split [OF v, unfolded S, folded la]
  have "cell (frame e) (k mod 1024) = VADDR (PTE_ADDR e) + of_nat (4 * (k mod 1024))" for e
    by (simp add: cell_def VADDR_def PTE_ADDR_frame)
  then show ?thesis
    using self_entry [OF assms(1)]
    by (simp add: vpt_def table_word_def walk_def translate_def A self_slot_number Let_def)
qed

lemma vpd_entry:
  assumes "self_mapped \<mu> d" and "i < 1024"
  shows "vpd \<mu> d i = \<mu> (cell d i)"
proof -
  have "PGADDR (PDX VPT) (PDX VPT) 0 = VPT + 4 * of_nat (1003 * 1024)"
    by (simp add: PGADDR_def PDX_def VPT_def)
  then have "vpd \<mu> d i = vpt \<mu> d (1003 * 1024 + i)"
    by (simp add: vpd_def vpt_def table_word_def algebra_simps)
  also have "\<dots> = \<mu> (cell d i)"
  proof -
    have n: "(1003 * 1024 + i) div 1024 = 1003" using assms(2) by (subst div_mult_self3) simp_all
    have m: "(1003 * 1024 + i) mod 1024 = i" using assms(2) by (subst mod_mult_self3) simp
    have "1003 * 1024 + i < 2 ^ 20" using assms(2) by simp
    from vpt_entry [OF assms(1) this] self_entry [OF assms(1)] show ?thesis
      unfolding n m by (simp add: self_slot_number)
  qed
  finally show ?thesis .
qed

section \<open>What the printed lines say\<close>

definition listed :: "(u32 \<Rightarrow> u32) \<Rightarrow> nat \<Rightarrow> (u32 \<times> nat \<times> nat) list" where
  "listed \<mu> d = concat (map (\<lambda>(perm, l, r). pt_runs (r * 1024) (l * 1024) (vpt \<mu> d)) (pt_runs 1024 0 (vpd \<mu> d)))"

definition pte_line :: "u32 \<times> nat \<times> nat \<Rightarrow> string \<times> print_arg list" where
  "pte_line = (\<lambda>(perm, l, r). (''  |-- PTE(%05x) %08x-%08x %08x %s\<newline>'',
     [Num (of_nat (r - l)), Num (of_nat l * PGSIZE), Num (of_nat r * PGSIZE), Num (of_nat (r - l) * PGSIZE), Str (perm2str perm)]))"

abbreviation is_pte_line :: "string \<times> print_arg list \<Rightarrow> bool" where
  "is_pte_line x \<equiv> fst x = ''  |-- PTE(%05x) %08x-%08x %08x %s\<newline>''"

lemma print_ptes_log: "klog (fold print_pte rs k) = klog k @ map pte_line rs"
  by (induction rs arbitrary: k) (auto simp: print_pte_def pte_line_def kprintf_def)

lemma is_pte_line: "is_pte_line (pte_line x)"
  by (simp add: pte_line_def case_prod_unfold)

lemma print_pdes_log:
  "\<exists>ls. klog (fold (print_pde \<mu> d) rs k) = klog k @ ls \<and>
     filter is_pte_line ls = map pte_line (concat (map (\<lambda>(perm, l, r). pt_runs (r * 1024) (l * 1024) (vpt \<mu> d)) rs))"
proof (induction rs arbitrary: k)
  case (Cons x rs)
  obtain perm l r where x: "x = (perm, l, r)" by (cases x)
  obtain ls where ls: "klog (fold (print_pde \<mu> d) rs (print_pde \<mu> d x k)) = klog (print_pde \<mu> d x k) @ ls"
    "filter is_pte_line ls = map pte_line (concat (map (\<lambda>(perm, l, r). pt_runs (r * 1024) (l * 1024) (vpt \<mu> d)) rs))"
    using Cons.IH by blast
  obtain a b where "klog (print_pde \<mu> d x k) = klog k @ [a, b] @ map pte_line (pt_runs (r * 1024) (l * 1024) (vpt \<mu> d))"
    "\<not> is_pte_line a" "\<not> is_pte_line b"
    by (simp add: print_pde_def x print_ptes_log Let_def) (simp add: kprintf_def)
  then show ?case
    using ls by (intro exI [of _ "[a, b] @ map pte_line (pt_runs (r * 1024) (l * 1024) (vpt \<mu> d)) @ ls"])
      (simp add: x filter_map comp_def is_pte_line)
qed simp

lemma print_pgdir_log:
  "\<exists>ls. klog (print_pgdir \<mu> d k) = klog k @ ls \<and> filter is_pte_line ls = map pte_line (listed \<mu> d)"
proof -
  let ?k = "kprintf ''-------------------- BEGIN --------------------\<newline>'' [] k"
  obtain ls where "klog (fold (print_pde \<mu> d) (pt_runs 1024 0 (vpd \<mu> d)) ?k) = klog ?k @ ls"
    "filter is_pte_line ls = map pte_line (listed \<mu> d)"
    using print_pdes_log [of \<mu> d "pt_runs 1024 0 (vpd \<mu> d)" ?k] by (auto simp: listed_def)
  then show ?thesis by (simp add: print_pgdir_def Let_def) (simp add: kprintf_def)
qed

lemma translate_page:
  assumes "self_mapped \<mu> d" and "k < 2 ^ 20"
  shows "translate \<mu> d (of_nat (4096 * k)) = (if present (vpt \<mu> d k) then Some (vpt \<mu> d k) else None)"
    and "present (vpt \<mu> d k) \<Longrightarrow> present (vpd \<mu> d (k div 1024))"
proof -
  have "1024 * k < 2 ^ 30" using assms(2) by simp
  note A = address_split [OF this]
  have k: "1024 * k div 2 ^ 20 = k div 1024" "1024 * k div 1024 mod 1024 = k mod 1024" "k div 1024 < 1024"
    using assms(2) by (simp_all add: less_mult_imp_div_less)
  have "translate \<mu> d (of_nat (4 * (1024 * k))) = (if present (vpt \<mu> d k) then Some (vpt \<mu> d k) else None)"
    unfolding translate_def A k vpt_entry [OF assms] by (simp add: Let_def)
  then show "translate \<mu> d (of_nat (4096 * k)) = (if present (vpt \<mu> d k) then Some (vpt \<mu> d k) else None)" by simp
  show "present (vpt \<mu> d k) \<Longrightarrow> present (vpd \<mu> d (k div 1024))"
    unfolding vpd_entry [OF assms(1) k(3)] vpt_entry [OF assms] by (simp add: Let_def split: if_splits)
qed

lemma listed_pages:
  assumes "self_mapped \<mu> d" and "k < 2 ^ 20"
  shows "translate \<mu> d (of_nat (4096 * k)) \<noteq> None \<longleftrightarrow> (\<exists>(perm, l, r) \<in> set (listed \<mu> d). l \<le> k \<and> k < r)"
    and "(perm, l, r) \<in> set (listed \<mu> d) \<Longrightarrow> l \<le> k \<Longrightarrow> k < r \<Longrightarrow>
      \<exists>pte. translate \<mu> d (of_nat (4096 * k)) = Some pte \<and> pte AND PTE_USER = perm"
proof -
  note T = translate_page [OF assms]
  let ?D = "pt_runs 1024 0 (vpd \<mu> d)" and ?T = "\<lambda>r l. pt_runs (r * 1024) (l * 1024) (vpt \<mu> d)"
  show run: "\<exists>pte. translate \<mu> d (of_nat (4096 * k)) = Some pte \<and> pte AND PTE_USER = perm"
    if m: "(perm, l, r) \<in> set (listed \<mu> d)" "l \<le> k" "k < r" for perm l r
  proof -
    from m(1) obtain q L R where "(perm, l, r) \<in> set (?T R L)" by (auto simp: listed_def)
    then have "present (vpt \<mu> d k) \<and> vpt \<mu> d k AND PTE_USER = perm"
      using pt_runs_correct [of "R * 1024" "L * 1024" "vpt \<mu> d"] m(2,3) by blast
    then show ?thesis using T(1) by simp
  qed
  show "translate \<mu> d (of_nat (4096 * k)) \<noteq> None \<longleftrightarrow> (\<exists>(perm, l, r) \<in> set (listed \<mu> d). l \<le> k \<and> k < r)"
  proof
    assume "translate \<mu> d (of_nat (4096 * k)) \<noteq> None"
    then have p: "present (vpt \<mu> d k)" using T(1) by (auto split: if_splits)
    have i: "k div 1024 < 1024" using assms(2) by (intro less_mult_imp_div_less) simp
    have "0 \<le> k div 1024 \<and> k div 1024 < 1024 \<and> present (vpd \<mu> d (k div 1024))" using T(2) [OF p] i by simp
    then obtain q L R where D: "(q, L, R) \<in> set ?D" "L \<le> k div 1024" "k div 1024 < R"
      using pt_runs_correct [of 1024 0 "vpd \<mu> d"] by blast
    then have "L * 1024 \<le> k \<and> k < R * 1024 \<and> present (vpt \<mu> d k)"
      using p by (simp add: less_eq_div_iff_mult_less_eq div_less_iff_less_mult)
    then obtain perm l r where "(perm, l, r) \<in> set (?T R L)" "l \<le> k" "k < r"
      using pt_runs_correct [of "R * 1024" "L * 1024" "vpt \<mu> d"] by blast
    then show "\<exists>(perm, l, r) \<in> set (listed \<mu> d). l \<le> k \<and> k < r"
      using D(1) unfolding listed_def by fastforce
  next
    assume "\<exists>(perm, l, r) \<in> set (listed \<mu> d). l \<le> k \<and> k < r"
    then show "translate \<mu> d (of_nat (4096 * k)) \<noteq> None" using run by fastforce
  qed
qed

text \<open>The listed runs follow each other in the order of the addresses.\<close>

abbreviation before :: "u32 \<times> nat \<times> nat \<Rightarrow> u32 \<times> nat \<times> nat \<Rightarrow> bool" where
  "before \<equiv> \<lambda>(_, _, r) (_, l, _). r \<le> l"

lemma concat_runs_sorted:
  assumes "sorted_wrt before rs"
    and "\<And>q L R x y z. (q, L, R) \<in> set rs \<Longrightarrow> (x, y, z) \<in> set (f (q, L, R)) \<Longrightarrow> L * 1024 \<le> y \<and> z \<le> R * 1024"
    and "\<And>x. x \<in> set rs \<Longrightarrow> sorted_wrt before (f x)"
  shows "sorted_wrt before (concat (map f rs))"
  using assms
proof (induction rs)
  case (Cons x rs)
  obtain q L R where x: "x = (q, L, R)" by (cases x)
  have "z \<le> y'" if m: "(a, y, z) \<in> set (f x)" "(q', L', R') \<in> set rs" "(a', y', z') \<in> set (f (q', L', R'))"
    for a y z q' L' R' a' y' z'
  proof -
    have "R \<le> L'" using Cons.prems(1) m(2) by (fastforce simp: x)
    moreover have "z \<le> R * 1024" using Cons.prems(2) [of q L R a y z] m(1) by (simp add: x)
    moreover have "L' * 1024 \<le> y'" using Cons.prems(2) [of q' L' R' a' y' z'] m(2,3) by simp
    ultimately show ?thesis by linarith
  qed
  then have "\<forall>u \<in> set (f x). \<forall>v \<in> set (concat (map f rs)). before u v" by fastforce
  moreover have "sorted_wrt before (concat (map f rs))" 
  proof (rule Cons.IH)
    show "sorted_wrt before rs" using Cons.prems(1) by simp
    show "L * 1024 \<le> y \<and> z \<le> R * 1024" if "(q, L, R) \<in> set rs" "(a, y, z) \<in> set (f (q, L, R))" for q L R a y z
      using Cons.prems(2) [of q L R a y z] that by simp
    show "sorted_wrt before (f x)" if "x \<in> set rs" for x using Cons.prems(3) that by simp
  qed
  ultimately show ?case using Cons.prems(3) by (simp add: sorted_wrt_append)
qed simp

lemma listed_sorted: "sorted_wrt before (listed \<mu> d)"
  unfolding listed_def
proof (rule concat_runs_sorted)
  show "sorted_wrt before (pt_runs 1024 0 (vpd \<mu> d))" using pt_runs_correct by blast
qed (use pt_runs_correct [where tbl = "vpt \<mu> d"] in \<open>fastforce+\<close>)

text \<open>C25. The listing of the page tables is exact: among the lines \<open>print_pgdir\<close> prints, those for table entries
  are the runs of a list in which a page lies if and only if the processor translates it, with the
  permission bits of its entry, and the runs are printed in the order of the addresses, so none twice.
  The tables are read through the slot in which the directory maps itself.\<close>

theorem print_pgdir_lists_mappings:
  assumes self: "self_mapped \<mu> d"
  shows "\<exists>ls rs. klog (print_pgdir \<mu> d k) = klog k @ ls \<and> filter is_pte_line ls = map pte_line rs \<and>
    sorted_wrt (\<lambda>(_, _, r) (_, l, _). r \<le> l) rs \<and>
    (\<forall>n < 2 ^ 20. case translate \<mu> d (of_nat (4096 * n)) of
        None \<Rightarrow> \<not> (\<exists>(perm, l, r) \<in> set rs. l \<le> n \<and> n < r)
      | Some pte \<Rightarrow> \<exists>(perm, l, r) \<in> set rs. l \<le> n \<and> n < r \<and> perm = pte AND PTE_USER)"
proof -
  have "case translate \<mu> d (of_nat (4096 * n)) of
        None \<Rightarrow> \<not> (\<exists>(perm, l, r) \<in> set (listed \<mu> d). l \<le> n \<and> n < r)
      | Some pte \<Rightarrow> \<exists>(perm, l, r) \<in> set (listed \<mu> d). l \<le> n \<and> n < r \<and> perm = pte AND PTE_USER"
    if "n < 2 ^ 20" for n
    using listed_pages [OF self that] by (cases "translate \<mu> d (of_nat (4096 * n))") fastforce+
  then show ?thesis using print_pgdir_log [of \<mu> d k] listed_sorted [of \<mu> d] by blast
qed

theorem print_pgdir_lists_mappings_witness:
  "\<forall>k. \<exists>ls rs. klog (print_pgdir ((\<lambda>_. 0)(cell 1 self_slot := PADDR (page2va 1) OR PTE_P OR PTE_W)) 1 k) = klog k @ ls \<and>
     filter is_pte_line ls = map pte_line rs \<and> \<not> (\<exists>(perm, l, r) \<in> set rs. l \<le> 0 \<and> 0 < r)"
proof
  fix k
  let ?\<mu> = "(\<lambda>_. 0)(cell 1 self_slot := PADDR (page2va 1) OR PTE_P OR PTE_W)"
  have "self_mapped ?\<mu> 1" by (simp add: self_mapped_def)
  from print_pgdir_lists_mappings [OF this, of k] obtain ls rs where
    L: "klog (print_pgdir ?\<mu> 1 k) = klog k @ ls" "filter is_pte_line ls = map pte_line rs"
      "\<forall>n < 2 ^ 20. case translate ?\<mu> 1 (of_nat (4096 * n)) of
        None \<Rightarrow> \<not> (\<exists>(perm, l, r) \<in> set rs. l \<le> n \<and> n < r)
      | Some pte \<Rightarrow> \<exists>(perm, l, r) \<in> set rs. l \<le> n \<and> n < r \<and> perm = pte AND PTE_USER" by blast
  have n: "unat (PDX 0) < 1024" "self_slot < 1024" "unat (PDX 0) \<noteq> self_slot" "(1 :: nat) < 2 ^ 18"
    by (simp_all add: PDX_def self_slot_number)
  then have "cell 1 (unat (PDX 0)) \<noteq> cell 1 self_slot" using cell_inj by blast
  then have "translate ?\<mu> 1 (of_nat (4096 * 0)) = None" by (simp add: translate_def Let_def)
  then have "\<not> (\<exists>(perm, l, r) \<in> set rs. l \<le> 0 \<and> 0 < r)" using L(3) [rule_format, of 0] by simp
  with L(1,2) show "\<exists>ls rs. klog (print_pgdir ?\<mu> 1 k) = klog k @ ls \<and>
     filter is_pte_line ls = map pte_line rs \<and> \<not> (\<exists>(perm, l, r) \<in> set rs. l \<le> 0 \<and> 0 < r)" by blast
qed

section \<open>One entry at a time\<close>

text \<open>What finding or making the table of slot \<open>i\<close> does to the directory and to the free pages.\<close>

definition dir_grown :: "nat \<Rightarrow> nat \<Rightarrow> (u32 \<Rightarrow> u32) \<Rightarrow> (u32 \<Rightarrow> u32) \<Rightarrow> nat set \<Rightarrow> nat set \<Rightarrow> bool" where
  "dir_grown d i \<mu> \<mu>' F F' \<longleftrightarrow> present (\<mu>' (cell d i)) \<and>
     (\<forall>k < 1024. k \<noteq> i \<longrightarrow> \<mu>' (cell d k) = \<mu> (cell d k)) \<and>
     (if present (\<mu> (cell d i)) then F' = F \<and> \<mu>' (cell d i) = \<mu> (cell d i)
      else frame (\<mu>' (cell d i)) \<in> F \<and> F' = F - {frame (\<mu>' (cell d i))})"

lemma dir_grown_taken: "dir_grown d i \<mu> \<mu>' F F' \<Longrightarrow> i < 1024 \<Longrightarrow> table_taken d i \<mu> \<mu>' F F'"
  unfolding dir_grown_def table_taken_def by (metis (no_types, lifting))

context page_source begin

lemma get_pte_grown:
  assumes inv: "vm_inv rel d F s" and o: "ordinary la" and g: "get_pte m (page2va d) la s = Some (p, s')"
  shows "\<exists>F'. dir_grown d (unat (PDX la)) (mem s) (mem s') F F' \<and> vm_inv rel d F' s'"
proof -
  let ?i = "unat (PDX la)" and ?v = "\<lambda>t. page2pa t OR PTE_U OR PTE_W OR PTE_P"
  have rel: "rel (pmm s) F" and T: "tables_ok (mem s) d F" using inv by (auto simp: vm_inv_def)
  show ?thesis
  proof (cases "present (mem s (cell d ?i))")
    case True
    then have "s' = s" using g by (auto simp: get_pte_def dir_cell Let_def)
    then show ?thesis using inv True by (auto simp: dir_grown_def)
  next
    case False
    then obtain t s1 where al: "alloc_page m s = Some (t, s1)"
      and s': "s' = s1\<lparr>mem := (clear_page (VADDR (page2pa t)) (mem s1))(cell d ?i := ?v t)\<rparr>"
      using g by (auto simp: get_pte_def dir_cell table_cell Let_def bind_eq_Some_conv)
    note A = alloc_page_some [OF rel al]
    have "t < 2 ^ 18" using A(1) tables_okD(3) [OF T] by auto
    then have v: "frame (?v t) = t" "present (?v t)"
      using page_table_flags present_or by (auto simp: or.assoc [symmetric])
    note N = tables_ok_new_table [OF T A(1) PDX_lt o False v]
    have "vm_inv rel d (F - {t}) s'" using A N(1) by (simp add: vm_inv_def s')
    moreover have "mem s' (cell d k) = (if k = ?i then ?v t else mem s (cell d k))" if "k < 1024" for k
      using N(4) [OF that] A(3) by (simp add: s')
    moreover have "?i < 1024" by (rule PDX_lt)
    ultimately show ?thesis using v A(1) False by (intro exI [of _ "F - {t}"]) (simp add: dir_grown_def)
  qed
qed

lemma dir_grown_store:
  assumes T: "tables_ok \<mu>1 d F'" and o: "ordinary la" and G: "dir_grown d (unat (PDX la)) \<mu> \<mu>1 F F'"
    and p: "p = cell (frame (\<mu>1 (cell d (unat (PDX la))))) (unat (PTX la))"
  shows "dir_grown d (unat (PDX la)) \<mu> (\<mu>1(p := v)) F F'"
proof -
  have "(\<mu>1(p := v)) (cell d k) = \<mu>1 (cell d k)" if "k < 1024" for k
    unfolding p using G by (intro entry_keeps_directory [OF T PDX_lt o _ PTX_lt that]) (simp add: dir_grown_def)
  then show ?thesis using G PDX_lt unfolding dir_grown_def by simp
qed

text \<open>An entry written behind a lookup.\<close>

lemma entry_step:
  assumes inv: "vm_inv rel d F s" and o: "ordinary la" and g: "get_pte m (page2va d) la s = Some (p, s1)"
    and s': "mem s' = (mem s1)(p := v)" "pmm s' = pmm s1"
  shows "\<exists>F'. dir_grown d (unat (PDX la)) (mem s) (mem s') F F' \<and> vm_inv rel d F' s' \<and>
    (\<forall>la'. ordinary la' \<longrightarrow> translate (mem s') d la' =
      (if PAGE_NUM la' = PAGE_NUM la then (if present v then Some v else None) else translate (mem s) d la'))"
proof -
  obtain F' where G: "dir_grown d (unat (PDX la)) (mem s) (mem s1) F F'" "vm_inv rel d F' s1"
    using get_pte_grown [OF inv o g] by blast
  have C: "p = cell (frame (mem s1 (cell d (unat (PDX la))))) (unat (PTX la))"
    "\<And>la'. ordinary la' \<Longrightarrow> translate (mem s1) d la' = translate (mem s) d la'"
    using get_pte_correct [OF inv o g] by blast+
  have pres: "present (mem s1 (cell d (unat (PDX la))))" using G(1) by (simp add: dir_grown_def)
  have T: "tables_ok (mem s1) d F'" using G(2) by (simp add: vm_inv_def)
  note W = write_entry_correct [OF G(2) o C(1) pres, where v = v]
  have "vm_inv rel d F' s'" using W(1) s' by (simp add: vm_inv_def)
  moreover have "dir_grown d (unat (PDX la)) (mem s) (mem s') F F'"
    unfolding s'(1) by (rule dir_grown_store [OF T o G(1) C(1)])
  moreover have "translate (mem s') d la' =
      (if PAGE_NUM la' = PAGE_NUM la then (if present v then Some v else None) else translate (mem s) d la')"
    if "ordinary la'" for la'
    using W(2) [OF that] C(2) [OF that] s'(1) by simp
  ultimately show ?thesis by blast
qed

lemma page_insert_step:
  assumes inv: "vm_inv rel d F s" and o: "ordinary la"
    and g: "page_insert m (page2va d) q la perm s = Some (r, s')"
  shows "\<exists>F'. dir_grown d (unat (PDX la)) (mem s) (mem s') F F' \<and> vm_inv rel d F' s' \<and> cr3 s' = cr3 s \<and>
    (\<forall>la'. ordinary la' \<longrightarrow> translate (mem s') d la' =
      (if PAGE_NUM la' = PAGE_NUM la then Some (page2pa q OR PTE_P OR perm) else translate (mem s) d la'))"
proof -
  from g obtain p s1 where g1: "get_pte m (page2va d) la s = Some (p, s1)"
    by (auto simp: page_insert_def bind_eq_Some_conv)
  with g have s': "mem s' = (mem s1)(p := page2pa q OR PTE_P OR perm)" "pmm s' = pmm s1" "cr3 s' = cr3 s1"
    by (auto simp: page_insert_def page_remove_pte_def tlb_invalidate_def invlpg_def Let_def)
  have "cr3 s1 = cr3 s" using get_pte_correct [OF inv o g1] by blast
  then show ?thesis using entry_step [OF inv o g1 s'(1,2)] s'(3) unfolding if_P [OF present_or(2)] by auto
qed

lemma page_remove_step:
  assumes inv: "vm_inv rel d F s" and o: "ordinary la" and g: "page_remove m (page2va d) la s = Some s'"
  shows "\<exists>F'. dir_grown d (unat (PDX la)) (mem s) (mem s') F F' \<and> vm_inv rel d F' s' \<and> cr3 s' = cr3 s \<and>
    (\<forall>la'. ordinary la' \<longrightarrow> translate (mem s') d la' =
      (if PAGE_NUM la' = PAGE_NUM la then None else translate (mem s) d la'))"
proof -
  from g obtain p s1 where g1: "get_pte m (page2va d) la s = Some (p, s1)"
    and s1: "s' = (if p \<noteq> 0 then page_remove_pte (page2va d) la p s1 else s1)"
    by (auto simp: page_remove_def bind_eq_Some_conv)
  have R: "cr3 s' = cr3 s" "\<And>la'. ordinary la' \<Longrightarrow> translate (mem s') d la' =
        (if PAGE_NUM la' = PAGE_NUM la then None else translate (mem s) d la')"
    using page_remove_correct [OF assms] by blast+
  show ?thesis
  proof (cases "p \<noteq> 0 \<and> present (mem s1 p)")
    case True
    then have "mem s' = (mem s1)(p := 0)" "pmm s' = pmm s1"
      by (auto simp: s1 page_remove_pte_def tlb_invalidate_def invlpg_def)
    with entry_step [OF inv o g1] R show ?thesis by blast
  next
    case False
    then have "s' = s1" by (auto simp: s1 page_remove_pte_def)
    with get_pte_grown [OF inv o g1] R show ?thesis by blast
  qed
qed

text \<open>Mapping a run of pages never takes more free pages than slots become filled.\<close>

lemma map_pages_step:
  assumes "vm_inv rel d F s" and "v + n \<le> 2 ^ 20" and "\<And>k. v \<le> k \<Longrightarrow> k < v + n \<Longrightarrow> k div 1024 \<in> A"
    and "A \<subseteq> {..<1024} - {self_slot}" and "finite F" and "card (absent_slots (mem s) d {..<1024}) \<le> card F"
    and "map_pages m (page2va d) (of_nat (4096 * v)) n pa perm s = Some s'"
  shows "\<exists>F' \<subseteq> F. vm_inv rel d F' s' \<and> card (absent_slots (mem s') d {..<1024}) \<le> card F' \<and>
      (\<forall>k < 1024. k \<notin> A \<longrightarrow> mem s' (cell d k) = mem s (cell d k)) \<and> cr3 s' = cr3 s \<and>
      (\<forall>la. ordinary la \<longrightarrow> translate (mem s') d la =
        (if v \<le> unat (PAGE_NUM la) \<and> unat (PAGE_NUM la) < v + n
         then Some ((pa + of_nat (4096 * (unat (PAGE_NUM la) - v))) OR PTE_P OR perm)
         else translate (mem s) d la))"
  using assms
proof (induction n arbitrary: v pa s F)
  case 0
  then show ?case by auto
next
  case (Suc n)
  let ?la = "of_nat (4096 * v) :: u32" and ?v = "pa OR PTE_P OR perm"
  have v: "v < 2 ^ 20" using Suc.prems(2) by simp
  note pn = PAGE_NUM_of_nat [OF v]
  have slot: "unat (PDX ?la) = v div 1024" by (simp add: PDX_PAGE_NUM pn del: of_nat_mult)
  have A: "v div 1024 \<in> A" using Suc.prems(3) [of v] by simp
  have o: "ordinary ?la" using A Suc.prems(4) slot by auto
  from Suc.prems(7) obtain p s1 where g1: "get_pte m (page2va d) ?la s = Some (p, s1)"
    and rest: "map_pages m (page2va d) (of_nat (4096 * Suc v)) n (pa + PGSIZE) perm (store p ?v s1) = Some s'"
    by (auto simp: bind_eq_Some_conv PGSIZE_def algebra_simps)
  have c1: "cr3 s1 = cr3 s" using get_pte_correct [OF Suc.prems(1) o g1] by blast
  let ?s2 = "store p ?v s1"
  have m2: "mem ?s2 = (mem s1)(p := ?v)" "pmm ?s2 = pmm s1" by simp_all
  obtain F1 where G: "dir_grown d (v div 1024) (mem s) (mem ?s2) F F1" "vm_inv rel d F1 ?s2"
    "\<And>la'. ordinary la' \<Longrightarrow> translate (mem ?s2) d la' =
      (if PAGE_NUM la' = PAGE_NUM ?la then Some ?v else translate (mem s) d la')"
    using entry_step [OF Suc.prems(1) o g1 m2] unfolding if_P [OF present_or(2)] slot by blast
  have sub: "F1 \<subseteq> F" using G(1) by (auto simp: dir_grown_def split: if_splits)
  have i: "v div 1024 < 1024" using A Suc.prems(4) by auto
  have card: "card (absent_slots (mem ?s2) d {..<1024}) \<le> card F1"
    by (rule absent_slots_taken [OF dir_grown_taken [OF G(1) i] _ _ Suc.prems(5,6)]) (use i in auto)
  obtain F' where F': "F' \<subseteq> F1" "vm_inv rel d F' s'" "card (absent_slots (mem s') d {..<1024}) \<le> card F'"
    "\<forall>k < 1024. k \<notin> A \<longrightarrow> mem s' (cell d k) = mem ?s2 (cell d k)" "cr3 s' = cr3 ?s2"
    "\<And>la. ordinary la \<Longrightarrow> translate (mem s') d la =
        (if Suc v \<le> unat (PAGE_NUM la) \<and> unat (PAGE_NUM la) < Suc v + n
         then Some ((pa + PGSIZE + of_nat (4096 * (unat (PAGE_NUM la) - Suc v))) OR PTE_P OR perm)
         else translate (mem ?s2) d la)"
    using Suc.IH [OF G(2) _ _ Suc.prems(4) finite_subset [OF sub Suc.prems(5)] card rest] Suc.prems(2,3) by force
  have "translate (mem s') d la =
        (if v \<le> unat (PAGE_NUM la) \<and> unat (PAGE_NUM la) < v + Suc n
         then Some ((pa + of_nat (4096 * (unat (PAGE_NUM la) - v))) OR PTE_P OR perm)
         else translate (mem s) d la)" if la: "ordinary la" for la
  proof (cases "unat (PAGE_NUM la) = v")
    case True
    then have "PAGE_NUM la = PAGE_NUM ?la" using pn by (metis unsigned_word_eqI)
    then show ?thesis using True F'(6) [OF la] G(3) [OF la] by simp
  next
    case False
    then have ne: "PAGE_NUM la \<noteq> PAGE_NUM ?la" using pn by metis
    then show ?thesis using False F'(6) [OF la] G(3) [OF la] by (auto simp: PGSIZE_def algebra_simps)
  qed
  moreover have "\<forall>k < 1024. k \<notin> A \<longrightarrow> mem s' (cell d k) = mem s (cell d k)"
    using F'(4) G(1) A unfolding dir_grown_def by metis
  moreover have "cr3 s' = cr3 s" using F'(5) c1 by simp
  ultimately show ?case using sub F'(1-3) by (intro exI [of _ F']) blast
qed

end

section \<open>Pages that hold data\<close>

text \<open>With some pages set aside, the contract still holds for the rest: a page that was allocated
  for data is then known not to become a table.\<close>

context page_source begin

lemma reserved_source:
  "page_source m (\<lambda>s G. R \<subseteq> G \<and> rel s (G - R)) limit"
proof
  fix s G n r s'
  assume R: "R \<subseteq> G \<and> rel s (G - R)" and n: "0 < n" and a: "alloc_pages m n s = Some (r, s')"
  from R have "rel s (G - R)" by simp
  moreover have "G - R - X = G - X - R" for X by blast
  ultimately show "case r of None \<Rightarrow> s' = s
      | Some p \<Rightarrow> {p..<p + n} \<subseteq> G \<and> n < limit \<and> R \<subseteq> G - {p..<p + n} \<and> rel s' (G - {p..<p + n} - R)"
    using alloc_law [of s "G - R" n r s'] n a R by (cases r) auto
qed

end

context page_allocator begin

lemma reserved_pages:
  "page_allocator m (\<lambda>s G. R \<subseteq> G \<and> rel s (G - R)) limit"
proof (intro page_allocator.intro reserved_source page_allocator_axioms.intro)
  fix s G p n
  assume R: "R \<subseteq> G \<and> rel s (G - R)" "{p..<p + n} \<inter> G = {}" "n < limit"
  then have "{p..<p + n} \<inter> (G - R) = {}" by blast
  with R(1,3) obtain s' where s': "free_pages m p n s = Some s'" "rel s' (G - R \<union> {p..<p + n})"
    using free_law by blast
  moreover have "G - R \<union> {p..<p + n} = G \<union> {p..<p + n} - R" using R(1,2) by blast
  ultimately show "\<exists>s'. free_pages m p n s = Some s' \<and> R \<subseteq> G \<union> {p..<p + n} \<and> rel s' (G \<union> {p..<p + n} - R)"
    using R(1) by auto
qed

end

definition data_rel :: "nat set \<Rightarrow> buddy \<Rightarrow> nat set \<Rightarrow> bool" where
  "data_rel R s G \<longleftrightarrow> R \<subseteq> G \<and> buddy_rel Null s (G - R)"

interpretation buddy_data: page_allocator buddy_pmm_manager "data_rel R" 2048 for R
  unfolding data_rel_def by (rule buddy.reserved_pages)

lemma data_rel_one: "p \<in> F \<Longrightarrow> data_rel {p} s F = buddy_rel Null s (F - {p})"
  by (simp add: data_rel_def)

lemma frame_entry: "p < 2 ^ 18 \<Longrightarrow> frame (page2pa p OR PTE_P OR PTE_W) = p"
  using frame_page2pa [of p "PTE_P OR PTE_W"] by (simp add: PTE_P_def PTE_W_def or.assoc)

lemma pa2page_page2pa: "p < 2 ^ 18 \<Longrightarrow> pa2page (page2pa p) = p"
  using frame_page2pa [of p 0] by (simp add: frame_def pa2page_def PAGE_NUM_def)

lemma store_byte_cell:
  assumes "translate (mem s) (pa2page (cr3 s)) la = Some pte"
  shows "\<exists>j < 1024. \<exists>v. store_byte la c s = Some (store (cell (frame pte) j) v s)"
proof -
  let ?w = "take_bit 10 (drop_bit 2 la)"
  have m: "(0xFFC :: u32) = push_bit 2 (mask 10)" by (simp add: mask_eq_exp_minus_1 push_bit_eq_mult)
  have n: "Suc (Suc (n - 2)) = n" if "2 \<le> n" for n using that by arith
  have "la AND 0xFFC = push_bit 2 ?w" unfolding m take_bit_eq_mask by (rule bit_word_eqI) (auto simp: bit_simps n)
  also have "\<dots> = of_nat (4 * unat ?w)" by (simp add: push_bit_eq_mult)
  finally have "VADDR (PTE_ADDR pte) + (la AND 0xFFC) = cell (frame pte) (unat ?w)"
    by (simp add: VADDR_def PTE_ADDR_frame cell_def)
  moreover have "unat ?w < 1024"
    using take_bit_int_less_exp [of 10 "uint (drop_bit 2 la)"]
    by (simp only: unsigned_take_bit_eq) (simp add: take_bit_eq_mod)
  ultimately show ?thesis using assms by (auto simp: store_byte_def walk_def Let_def)
qed

lemma translate_cong:
  assumes "\<mu>' (cell d (unat (PDX la))) = \<mu> (cell d (unat (PDX la)))"
    and "present (\<mu> (cell d (unat (PDX la)))) \<Longrightarrow>
      \<mu>' (cell (frame (\<mu> (cell d (unat (PDX la))))) (unat (PTX la))) =
      \<mu> (cell (frame (\<mu> (cell d (unat (PDX la))))) (unat (PTX la)))"
  shows "translate \<mu>' d la = translate \<mu> d la"
  using assms by (simp add: translate_def Let_def)

text \<open>A word in a page that is free for the tables belongs to no table.\<close>

lemma spare_store:
  assumes T: "tables_ok \<mu> d G" and p: "p \<in> G" and j: "j < 1024"
  shows "tables_ok (\<mu>(cell p j := v)) d G" "k < 1024 \<Longrightarrow> (\<mu>(cell p j := v)) (cell d k) = \<mu> (cell d k)"
    "ordinary la \<Longrightarrow> translate (\<mu>(cell p j := v)) d la = translate \<mu> d la"
proof -
  note TD = tables_okD [OF T]
  have p': "p < 2 ^ 18" "p \<noteq> d" using p TD(2,3) by auto
  have dir: "(\<mu>(cell p j := v)) (cell d k) = \<mu> (cell d k)" if "k < 1024" for k
    using cell_inj [of d k p j] TD(1) p' that j by auto
  then show "k < 1024 \<Longrightarrow> (\<mu>(cell p j := v)) (cell d k) = \<mu> (cell d k)" .
  show "tables_ok (\<mu>(cell p j := v)) d G"
    using tables_ok_cong [OF T, of "\<mu>(cell p j := v)"] dir by simp
  assume o: "ordinary la"
  have "cell p j \<noteq> cell (frame (\<mu> (cell d (unat (PDX la))))) (unat (PTX la))" if pr: "present (\<mu> (cell d (unat (PDX la))))"
    using cell_inj [of p j "frame (\<mu> (cell d (unat (PDX la))))" "unat (PTX la)"] TD(4,5) [OF PDX_lt o pr] p p'(1) j PTX_lt
    by auto
  then show "translate (\<mu>(cell p j := v)) d la = translate \<mu> d la"
    using dir [OF PDX_lt, of la] by (intro translate_cong) auto
qed

lemma data_store:
  assumes inv: "vm_inv (data_rel R) d G s" and p: "p \<in> R" and j: "j < 1024"
  shows "vm_inv (data_rel R) d G (store (cell p j) v s)" "k < 1024 \<Longrightarrow> mem (store (cell p j) v s) (cell d k) = mem s (cell d k)"
    "ordinary la \<Longrightarrow> translate (mem (store (cell p j) v s)) d la = translate (mem s) d la"
proof -
  have T: "tables_ok (mem s) d G" and pG: "p \<in> G" using inv p by (auto simp: vm_inv_def data_rel_def)
  note S = spare_store [OF T pG j]
  show "vm_inv (data_rel R) d G (store (cell p j) v s)" using S(1) inv by (simp add: vm_inv_def)
  show "k < 1024 \<Longrightarrow> mem (store (cell p j) v s) (cell d k) = mem s (cell d k)" using S(2) by simp
  show "ordinary la \<Longrightarrow> translate (mem (store (cell p j) v s)) d la = translate (mem s) d la" using S(3) by simp
qed

lemma clear_slot:
  assumes T: "tables_ok \<mu> d F" and i: "i < 1024" "i \<noteq> self_slot" "present (\<mu> (cell d i))"
  shows "tables_ok (\<mu>(cell d i := 0)) d (insert (frame (\<mu> (cell d i))) F)"
    and "k < 1024 \<Longrightarrow> (\<mu>(cell d i := 0)) (cell d k) = (if k = i then 0 else \<mu> (cell d k))"
    and "ordinary la \<Longrightarrow> translate (\<mu>(cell d i := 0)) d la = (if unat (PDX la) = i then None else translate \<mu> d la)"
proof -
  note TD = tables_okD [OF T]
  note I = TD(4-7) [OF i]
  let ?\<mu> = "\<mu>(cell d i := 0)"
  have dir: "?\<mu> (cell d k) = (if k = i then 0 else \<mu> (cell d k))" if "k < 1024" for k
    using cell_inj [of d k d i] TD(1) that i(1) by auto
  then show "k < 1024 \<Longrightarrow> ?\<mu> (cell d k) = (if k = i then 0 else \<mu> (cell d k))" .
  show "tables_ok ?\<mu> d (insert (frame (\<mu> (cell d i))) F)"
    unfolding tables_ok_def
  proof (intro conjI allI impI)
    show "d < 2 ^ 18" "d \<notin> insert (frame (\<mu> (cell d i))) F" "insert (frame (\<mu> (cell d i))) F \<subseteq> {..<2 ^ 18}"
      using TD(1-3) I by auto
  next
    fix k j assume k: "k < 1024" "k \<noteq> self_slot \<and> present (?\<mu> (cell d k))"
    then have ki: "k \<noteq> i" "?\<mu> (cell d k) = \<mu> (cell d k)" "present (\<mu> (cell d k))" using dir by (auto split: if_splits)
    show "frame (?\<mu> (cell d k)) < 2 ^ 18" "frame (?\<mu> (cell d k)) \<notin> insert (frame (\<mu> (cell d i))) F" "frame (?\<mu> (cell d k)) \<noteq> d"
      using TD(4-6) [OF k(1)] k ki I(4) [OF k(1)] by auto
    assume j: "j < 1024" "j \<noteq> self_slot \<and> j \<noteq> k \<and> present (?\<mu> (cell d j))"
    then have "?\<mu> (cell d j) = \<mu> (cell d j)" "present (\<mu> (cell d j))" using dir by (auto split: if_splits)
    then show "frame (?\<mu> (cell d j)) \<noteq> frame (?\<mu> (cell d k))" using TD(7) [OF k(1) _ ki(3) j(1)] k j ki by auto
  qed
  assume o: "ordinary la"
  have "cell d i \<noteq> cell (frame (\<mu> (cell d (unat (PDX la))))) (unat (PTX la))" if pr: "present (\<mu> (cell d (unat (PDX la))))"
    using cell_inj [of d i "frame (\<mu> (cell d (unat (PDX la))))" "unat (PTX la)"] TD(4,6) [OF PDX_lt o pr] TD(1) i(1) PTX_lt
    by auto
  then have "unat (PDX la) \<noteq> i \<Longrightarrow> translate ?\<mu> d la = translate \<mu> d la"
    using dir [OF PDX_lt, of la] by (intro translate_cong) auto
  moreover have "unat (PDX la) = i \<Longrightarrow> translate ?\<mu> d la = None"
    using dir [OF PDX_lt, of la] by (simp add: translate_def)
  ultimately show "translate ?\<mu> d la = (if unat (PDX la) = i then None else translate \<mu> d la)" by simp
qed

section \<open>The self-tests of the tables\<close>

text \<open>Both tests work in the first slot, whose table \<open>t\<close> they make and give back. \<open>D\<close> is the rest of the
  directory, \<open>M\<close> what the tables translate to.\<close>

definition low_table ::
  "('s \<Rightarrow> nat set \<Rightarrow> bool) \<Rightarrow> nat \<Rightarrow> nat \<Rightarrow> (nat \<Rightarrow> u32) \<Rightarrow> u32 \<Rightarrow> (u32 \<Rightarrow> u32 option) \<Rightarrow> nat set \<Rightarrow> 's vm \<Rightarrow> bool" where
  "low_table rel d t D c M G s \<longleftrightarrow> vm_inv rel d G s \<and> present (mem s (cell d 0)) \<and> frame (mem s (cell d 0)) = t \<and>
     (\<forall>k < 1024. k \<noteq> 0 \<longrightarrow> mem s (cell d k) = D k) \<and> cr3 s = c \<and>
     (\<forall>la. ordinary la \<longrightarrow> translate (mem s) d la = M la)"

lemma slot_zero: "0 \<noteq> self_slot" "(0 :: nat) < 1024"
  by (simp_all add: self_slot_number)

lemma dir_base: "page2va d = cell d 0"
  by (simp add: page2va_def VADDR_def page2pa_of_nat cell_def)

context page_source begin

lemma low_table_get_pte:
  assumes "low_table rel d t D c M G s" and "PDX la = 0"
  shows "\<exists>p. get_pte m (page2va d) la s = Some (p, s)"
  using assms by (simp add: low_table_def get_pte_def dir_base Let_def)

lemma low_table_grown:
  assumes "low_table rel d t D c M G s" and "dir_grown d 0 (mem s) (mem s') G G'" and "vm_inv rel d G' s'"
    and "cr3 s' = cr3 s" and "\<And>la. ordinary la \<Longrightarrow> translate (mem s') d la = M' la"
  shows "low_table rel d t D c M' G s'"
  using assms by (auto simp: low_table_def dir_grown_def)

lemma low_table_insert:
  assumes L: "low_table rel d t D c M G s" and la: "PDX la = 0"
  shows "\<exists>s'. page_insert m (page2va d) q la perm s = Some (0, s') \<and>
    low_table rel d t D c (\<lambda>la'. if PAGE_NUM la' = PAGE_NUM la then Some (page2pa q OR PTE_P OR perm) else M la') G s'"
proof -
  from low_table_get_pte [OF assms] obtain p where "get_pte m (page2va d) la s = Some (p, s)" by blast
  then obtain s' where s': "page_insert m (page2va d) q la perm s = Some (0, s')"
    by (auto simp: page_insert_def Let_def)
  have o: "ordinary la" using la slot_zero by simp
  have inv: "vm_inv rel d G s" using L by (simp add: low_table_def)
  from page_insert_step [OF inv o s'] obtain G' where R: "dir_grown d 0 (mem s) (mem s') G G'" "vm_inv rel d G' s'" "cr3 s' = cr3 s"
    "\<And>la'. ordinary la' \<Longrightarrow> translate (mem s') d la' =
      (if PAGE_NUM la' = PAGE_NUM la then Some (page2pa q OR PTE_P OR perm) else translate (mem s) d la')"
    unfolding la unsigned_0 by blast
  have "low_table rel d t D c (\<lambda>la'. if PAGE_NUM la' = PAGE_NUM la then Some (page2pa q OR PTE_P OR perm) else M la') G s'"
    by (rule low_table_grown [OF L R(1-3)]) (use R(4) L in \<open>simp add: low_table_def\<close>)
  with s' show ?thesis by blast
qed

lemma low_table_remove:
  assumes L: "low_table rel d t D c M G s" and la: "PDX la = 0"
  shows "\<exists>s'. page_remove m (page2va d) la s = Some s' \<and>
    low_table rel d t D c (\<lambda>la'. if PAGE_NUM la' = PAGE_NUM la then None else M la') G s'"
proof -
  from low_table_get_pte [OF assms] obtain p where "get_pte m (page2va d) la s = Some (p, s)" by blast
  then obtain s' where s': "page_remove m (page2va d) la s = Some s'" by (auto simp: page_remove_def)
  have o: "ordinary la" using la slot_zero by simp
  have inv: "vm_inv rel d G s" using L by (simp add: low_table_def)
  from page_remove_step [OF inv o s'] obtain G' where R: "dir_grown d 0 (mem s) (mem s') G G'" "vm_inv rel d G' s'" "cr3 s' = cr3 s"
    "\<And>la'. ordinary la' \<Longrightarrow> translate (mem s') d la' =
      (if PAGE_NUM la' = PAGE_NUM la then None else translate (mem s) d la')"
    unfolding la unsigned_0 by blast
  have "low_table rel d t D c (\<lambda>la'. if PAGE_NUM la' = PAGE_NUM la then None else M la') G s'"
    by (rule low_table_grown [OF L R(1-3)]) (use R(4) L in \<open>simp add: low_table_def\<close>)
  with s' show ?thesis by blast
qed

text \<open>The first lookup makes the table.\<close>

lemma low_table_start:
  assumes inv: "vm_inv rel d F s" and g: "get_pte m (page2va d) la s = Some (p, s')" and la: "PDX la = 0"
    and absent: "\<not> present (mem s (cell d 0))"
  shows "\<exists>t \<in> F. low_table rel d t (\<lambda>k. mem s (cell d k)) (cr3 s) (translate (mem s) d) (F - {t}) s'"
proof -
  have o: "ordinary la" using la slot_zero by simp
  obtain F' where G: "dir_grown d 0 (mem s) (mem s') F F'" "vm_inv rel d F' s'"
    using get_pte_grown [OF inv o g] la by auto
  have "cr3 s' = cr3 s" "\<And>la. ordinary la \<Longrightarrow> translate (mem s') d la = translate (mem s) d la"
    using get_pte_correct [OF inv o g] by blast+
  then show ?thesis
    using G absent by (intro bexI [of _ "frame (mem s' (cell d 0))"]) (auto simp: low_table_def dir_grown_def)
qed

end

text \<open>Giving the table back.\<close>

context page_allocator begin

lemma low_table_end:
  assumes L: "low_table rel d t D c M G s" and one: "1 < limit"
  shows "\<exists>s'. free_page m t s = Some s' \<and> vm_inv rel d (insert t G) (store (page2va d) 0 s') \<and> cr3 s' = c \<and>
    mem (store (page2va d) 0 s') (cell d 0) = 0 \<and> (\<forall>k < 1024. k \<noteq> 0 \<longrightarrow> mem (store (page2va d) 0 s') (cell d k) = D k) \<and>
    (\<forall>la. ordinary la \<longrightarrow> translate (mem (store (page2va d) 0 s')) d la = (if PDX la = 0 then None else M la))"
proof -
  have inv: "vm_inv rel d G s" and t: "frame (mem s (cell d 0)) = t" "present (mem s (cell d 0))"
    using L by (auto simp: low_table_def)
  then have T: "tables_ok (mem s) d G" and rel: "rel (pmm s) G" by (auto simp: vm_inv_def)
  have "t \<notin> G" using tables_okD(5) [OF T slot_zero(2,1) t(2)] t(1) by simp
  then have "{t..<t + 1} \<inter> G = {}" by auto
  from free_law [OF rel this one] obtain q where q: "free_pages m t 1 (pmm s) = Some q" "rel q (G \<union> {t..<t + 1})" by blast
  note C = clear_slot [OF T slot_zero(2,1) t(2), unfolded t(1)]
  let ?s = "s\<lparr>pmm := q\<rparr>"
  have "mem (store (page2va d) 0 ?s) = (mem s)(cell d 0 := 0)" by (simp add: dir_base)
  moreover have "G \<union> {t..<t + 1} = insert t G" by auto
  moreover have "PDX la = 0 \<longleftrightarrow> unat (PDX la) = 0" for la by (simp add: unat_eq_0)
  ultimately show ?thesis
    using q C L by (intro exI [of _ ?s]) (auto simp: free_page_def vm_inv_def low_table_def)
qed

end

lemma tables_ok_subset: "tables_ok \<mu> d F \<Longrightarrow> F' \<subseteq> F \<Longrightarrow> tables_ok \<mu> d F'"
  unfolding tables_ok_def by blast

context page_supplier begin

lemma alloc_page_supplied:
  assumes "rel (pmm s) F" and "F \<noteq> {}"
  shows "\<exists>p s'. alloc_page m s = Some (p, s') \<and> p \<in> F \<and> rel (pmm s') (F - {p}) \<and> mem s' = mem s \<and> cr3 s' = cr3 s \<and> tlb s' = tlb s"
proof -
  from one_law [OF assms] obtain p q where "alloc_pages m 1 (pmm s) = Some (Some p, q)" by blast
  then have a: "alloc_page m s = Some (p, s\<lparr>pmm := q\<rparr>)" by (simp add: alloc_page_def)
  with alloc_page_some [OF assms(1) a] show ?thesis by auto
qed

lemma low_table_alloc:
  assumes L: "low_table rel d t D c M G s" and "G \<noteq> {}"
  shows "\<exists>p s'. alloc_page m s = Some (p, s') \<and> p \<in> G \<and> low_table rel d t D c M (G - {p}) s'"
proof -
  have rel: "rel (pmm s) G" and T: "tables_ok (mem s) d G" using L by (auto simp: low_table_def vm_inv_def)
  from alloc_page_supplied [OF rel assms(2)] obtain p s' where
    A: "alloc_page m s = Some (p, s')" "p \<in> G" "rel (pmm s') (G - {p})" "mem s' = mem s" "cr3 s' = cr3 s" by blast
  then show ?thesis
    using L tables_ok_subset [OF T, of "G - {p}"] by (auto simp: low_table_def vm_inv_def)
qed

end

lemma low_pages: "PDX 0 = 0" "PDX PGSIZE = 0" "PDX (0x100 + PGSIZE) = 0" "PDX 0x100 = 0" "PDX (0x100 + 18) = 0"
  "PAGE_NUM 0x100 = 0" "PAGE_NUM (0x100 + 18) = 0" "PAGE_NUM (0x100 + PGSIZE) = 1"
  by (simp_all add: PDX_def PGSIZE_def PAGE_NUM_def)

lemma slot_zero_absent:
  "\<not> present (\<mu> (cell d 0)) \<Longrightarrow> PDX la = 0 \<Longrightarrow> translate \<mu> d la = None"
  by (simp add: translate_def)

lemma check_pgdir_correct:
  assumes inv: "vm_inv (buddy_rel Null) d F s" and absent: "\<not> present (mem s (cell d 0))" and four: "4 \<le> card F"
  shows "\<exists>s' F'. check_pgdir buddy_pmm_manager (page2va d) s = Some s' \<and> F' \<subseteq> F \<and> card F \<le> card F' + 2 \<and>
    vm_inv (buddy_rel Null) d F' s' \<and> mem s' (cell d 0) = 0 \<and>
    (\<forall>k < 1024. k \<noteq> 0 \<longrightarrow> mem s' (cell d k) = mem s (cell d k)) \<and>
    (\<forall>la. ordinary la \<longrightarrow> translate (mem s') d la = translate (mem s) d la)"
proof -
  let ?m = buddy_pmm_manager and ?L = "\<lambda>t. low_table (buddy_rel Null) d t (\<lambda>k. mem s (cell d k)) (cr3 s)"
  have rel: "buddy_rel Null (pmm s) F" using inv by (simp add: vm_inv_def)
  have fin: "finite F" and ne: "F \<noteq> {}" using four by (auto intro: card_ge_0_finite)
  from buddy_supply.get_pte_some [OF rel ne] obtain p s1 where g: "get_pte ?m (page2va d) 0 s = Some (p, s1)" by blast
  from buddy.low_table_start [OF inv g low_pages(1) absent] obtain t where
    t: "t \<in> F" "?L t (translate (mem s) d) (F - {t}) s1" by blast
  have c1: "3 \<le> card (F - {t})" using t(1) four fin by simp
  then have "F - {t} \<noteq> {}" by force
  from buddy_supply.low_table_alloc [OF t(2) this] obtain p1 s2 where
    A1: "alloc_page ?m s1 = Some (p1, s2)" "p1 \<in> F - {t}" "?L t (translate (mem s) d) (F - {t} - {p1}) s2" by blast
  from buddy.low_table_insert [OF A1(3) low_pages(1)] obtain s3 M3 where
    I1: "page_insert ?m (page2va d) p1 0 PTE_W s2 = Some (0, s3)" "?L t M3 (F - {t} - {p1}) s3"
    "\<And>la. PAGE_NUM la \<noteq> PAGE_NUM 0 \<Longrightarrow> M3 la = translate (mem s) d la" by fastforce
  from buddy.low_table_get_pte [OF I1(2) low_pages(1)] obtain q1 where
    G1: "get_pte ?m (page2va d) 0 s3 = Some (q1, s3)" by blast
  have "2 \<le> card (F - {t} - {p1})" using A1(2) c1 fin by (subst card_Diff_singleton) auto
  then have "F - {t} - {p1} \<noteq> {}" by force
  from buddy_supply.low_table_alloc [OF I1(2) this] obtain p2 s4 where
    A2: "alloc_page ?m s3 = Some (p2, s4)" "p2 \<in> F - {t} - {p1}" "?L t M3 (F - {t} - {p1} - {p2}) s4" by blast
  from buddy.low_table_insert [OF A2(3) low_pages(2)] obtain s5 M5 where
    I2: "page_insert ?m (page2va d) p2 PGSIZE PTE_W s4 = Some (0, s5)" "?L t M5 (F - {t} - {p1} - {p2}) s5"
    "\<And>la. PAGE_NUM la \<noteq> PAGE_NUM PGSIZE \<Longrightarrow> M5 la = M3 la" by fastforce
  from buddy.low_table_get_pte [OF I2(2) low_pages(2)] obtain q2 where
    G2: "get_pte ?m (page2va d) PGSIZE s5 = Some (q2, s5)" by blast
  from buddy.low_table_remove [OF I2(2) low_pages(1)] obtain s6 M6 where
    R1: "page_remove ?m (page2va d) 0 s5 = Some s6" "?L t M6 (F - {t} - {p1} - {p2}) s6"
    "\<And>la. PAGE_NUM la \<noteq> PAGE_NUM 0 \<Longrightarrow> M6 la = M5 la" by fastforce
  from buddy.low_table_remove [OF R1(2) low_pages(2)] obtain s7 M7 where
    R2: "page_remove ?m (page2va d) PGSIZE s6 = Some s7" "?L t M7 (F - {t} - {p1} - {p2}) s7"
    "\<And>la. PAGE_NUM la \<noteq> PAGE_NUM PGSIZE \<Longrightarrow> M7 la = M6 la" by fastforce
  let ?F' = "insert t (F - {t} - {p1} - {p2})"
  from buddy.low_table_end [OF R2(2)] obtain s8 where
    E: "free_page ?m t s7 = Some s8" "vm_inv (buddy_rel Null) d ?F' (store (page2va d) 0 s8)"
    "mem (store (page2va d) 0 s8) (cell d 0) = 0"
    "\<forall>k < 1024. k \<noteq> 0 \<longrightarrow> mem (store (page2va d) 0 s8) (cell d k) = mem s (cell d k)"
    "\<And>la. ordinary la \<Longrightarrow> translate (mem (store (page2va d) 0 s8)) d la = (if PDX la = 0 then None else M7 la)"
    by (auto simp del: vm.simps)
  have "pa2page (mem s7 (page2va d)) = t"
    using R2(2) by (simp add: low_table_def pa2page_def PAGE_NUM_def dir_base frame_def)
  then have run: "check_pgdir ?m (page2va d) s = Some (store (page2va d) 0 s8)"
    using g A1(1) I1(1) G1 A2(1) I2(1) G2 R1(1) R2(1) E(1)
    by (simp add: check_pgdir_def get_page_def)
  have "translate (mem (store (page2va d) 0 s8)) d la = translate (mem s) d la" if o: "ordinary la" for la
  proof (cases "PDX la = 0")
    case True
    then show ?thesis using E(5) [OF o] slot_zero_absent [where \<mu> = "mem s" and d = d, OF absent True] by simp
  next
    case False
    then have "PAGE_NUM la \<noteq> PAGE_NUM 0" "PAGE_NUM la \<noteq> PAGE_NUM PGSIZE" using low_pages(1,2) same_page by metis+
    then show ?thesis using False E(5) [OF o] I1(3) I2(3) R1(3) R2(3) by simp
  qed
  moreover have "card F \<le> card ?F' + 2" using t(1) A1(2) A2(2) fin c1 four by (simp add: card_Diff_singleton)
  ultimately show ?thesis using run E(2-4) t(1) by (intro exI [of _ "store (page2va d) 0 s8"] exI [of _ ?F']) auto
qed

text \<open>The second test writes into its page through the paging unit.\<close>

lemma low_table_store:
  assumes L: "low_table (data_rel {p}) d t D (page2pa d) M G s" and la: "PDX la = 0"
    and M: "M la = Some (page2pa p OR PTE_P OR PTE_W)"
  shows "\<exists>s'. store_byte la c s = Some s' \<and> low_table (data_rel {p}) d t D (page2pa d) M G s'"
proof -
  have inv: "vm_inv (data_rel {p}) d G s" and o: "ordinary la" and c3: "cr3 s = page2pa d"
    using L la slot_zero by (auto simp: low_table_def)
  have T: "tables_ok (mem s) d G" and pG: "p \<in> G" using inv by (auto simp: vm_inv_def data_rel_def)
  have d: "d < 2 ^ 18" and p: "p < 2 ^ 18" using tables_okD(1,3) [OF T] pG by auto
  have "translate (mem s) (pa2page (cr3 s)) la = Some (page2pa p OR PTE_P OR PTE_W)"
    using L o M by (simp add: low_table_def c3 pa2page_page2pa [OF d])
  from store_byte_cell [OF this] obtain j v where j: "j < 1024" "store_byte la c s = Some (store (cell p j) v s)"
    unfolding frame_entry [OF p] by blast
  note S = data_store [OF inv singletonI j(1), where v = v]
  have "low_table (data_rel {p}) d t D (page2pa d) M G (store (cell p j) v s)"
    using L S(1) S(2) [OF slot_zero(2)] S(2,3) unfolding low_table_def by simp
  then show ?thesis using j(2) by blast
qed

lemma low_address:
  assumes "unat la < 4096"
  shows "PDX la = 0" "PAGE_NUM la = 0"
proof -
  show pn: "PAGE_NUM la = 0" using PAGE_NUM_unat [of la] assms by (simp add: unat_eq_0 [symmetric])
  then show "PDX la = 0" using same_page [of la 0] low_pages(1) by (simp add: PAGE_NUM_def)
qed

lemma low_table_store_string:
  assumes "low_table (data_rel {p}) d t D (page2pa d) M G s" and "unat la + length cs < 4096"
    and "\<And>la. PAGE_NUM la = 0 \<Longrightarrow> M la = Some (page2pa p OR PTE_P OR PTE_W)"
  shows "\<exists>s'. store_string la cs s = Some s' \<and> low_table (data_rel {p}) d t D (page2pa d) M G s'"
  using assms
proof (induction cs arbitrary: la s)
  case Nil
  from low_table_store [OF Nil.prems(1) low_address(1) Nil.prems(3) [OF low_address(2)]] Nil.prems(2) show ?case by simp
next
  case (Cons c cs)
  have la: "unat la < 4096" using Cons.prems(2) by simp
  from low_table_store [OF Cons.prems(1) low_address(1) [OF la] Cons.prems(3) [OF low_address(2) [OF la]]] obtain s1 where
    s1: "store_byte la c s = Some s1" "low_table (data_rel {p}) d t D (page2pa d) M G s1" by blast
  have "unat (la + 1) = unat la + 1" using la by (simp add: unat_word_ariths)
  then have "unat (la + 1) + length cs < 4096" using Cons.prems(2) by simp
  from Cons.IH [OF s1(2) this Cons.prems(3)] s1(1) show ?case by simp
qed

lemma boot_ptes:
  assumes "\<And>k. k < n \<Longrightarrow> present (mem s (cell d (unat (PDX (VADDR (of_nat k * PGSIZE))))))"
  shows "fold (\<lambda>k r. do { s \<leftarrow> r; (pte_p, s) \<leftarrow> get_pte buddy_pmm_manager (page2va d) (VADDR (of_nat k * PGSIZE)) s; Some s })
    [0..<n] (Some s) = Some s"
  using assms
proof (induction n)
  case (Suc n)
  have "present (mem s (cell d (unat (PDX (VADDR (of_nat n * PGSIZE))))))" by (rule Suc.prems) simp
  then show ?case using Suc by (simp add: get_pte_def dir_cell Let_def)
qed simp

lemma check_boot_pgdir_correct:
  assumes inv: "vm_inv (buddy_rel Null) d F s" and c3: "cr3 s = page2pa d" and absent: "\<not> present (mem s (cell d 0))"
    and two: "2 \<le> card F"
    and pres: "\<And>k. k < (unat npage + 4095) div 4096 \<Longrightarrow> present (mem s (cell d (unat (PDX (VADDR (of_nat k * PGSIZE))))))"
  shows "\<exists>s'. check_boot_pgdir npage (page2va d) s = Some s' \<and> vm_inv (buddy_rel Null) d F s' \<and> cr3 s' = cr3 s \<and>
    mem s' (cell d 0) = 0 \<and> (\<forall>k < 1024. k \<noteq> 0 \<longrightarrow> mem s' (cell d k) = mem s (cell d k)) \<and>
    (\<forall>la. ordinary la \<longrightarrow> translate (mem s') d la = translate (mem s) d la)"
proof -
  let ?m = buddy_pmm_manager and ?D = "\<lambda>k. mem s (cell d k)"
  have rel: "buddy_rel Null (pmm s) F" and T: "tables_ok (mem s) d F" using inv by (auto simp: vm_inv_def)
  have fin: "finite F" and ne: "F \<noteq> {}" using two by (auto intro: card_ge_0_finite)
  from buddy_supply.alloc_page_supplied [OF rel ne] obtain p s1 where
    A: "alloc_page ?m s = Some (p, s1)" "p \<in> F" "buddy_rel Null (pmm s1) (F - {p})" "mem s1 = mem s" "cr3 s1 = cr3 s" by blast
  have inv1: "vm_inv (data_rel {p}) d F s1" using A T by (simp add: vm_inv_def data_rel_def)
  have "F - {p} \<noteq> {}" using A(2) two by (metis Diff_eq_empty_iff card_mono card.empty card_insert_disjoint finite.intros
        insert_absorb empty_iff not_less_eq_eq numeral_2_eq_2 subset_singletonD le_0_eq nat.distinct(1) One_nat_def)
  from buddy_supply.page_insert_some [OF A(3) this] obtain s2 where
    I1: "page_insert ?m (page2va d) p (0x100 + PGSIZE) PTE_W s1 = Some (0, s2)" by blast
  have o: "ordinary (0x100 + PGSIZE)" using low_pages slot_zero by simp
  from buddy_data.page_insert_step [OF inv1 o I1] obtain F2 where S2: "dir_grown d 0 (mem s) (mem s2) F F2"
    "vm_inv (data_rel {p}) d F2 s2" "cr3 s2 = cr3 s"
    "\<And>la'. ordinary la' \<Longrightarrow> translate (mem s2) d la' =
      (if PAGE_NUM la' = PAGE_NUM (0x100 + PGSIZE) then Some (page2pa p OR PTE_P OR PTE_W) else translate (mem s) d la')"
    unfolding low_pages A(4,5) unsigned_0 by blast
  define t where "t = frame (mem s2 (cell d 0))"
  have t: "t \<in> F" "F2 = F - {t}" using S2(1) absent by (simp_all add: dir_grown_def t_def)
  have L2: "low_table (data_rel {p}) d t ?D (page2pa d) (translate (mem s2) d) (F - {t}) s2"
    using S2(1-3) t c3 by (simp add: low_table_def dir_grown_def t_def)
  from buddy_data.low_table_insert [OF L2 low_pages(4)] obtain s3 M3 where
    I2: "page_insert ?m (page2va d) p 0x100 PTE_W s2 = Some (0, s3)" "low_table (data_rel {p}) d t ?D (page2pa d) M3 (F - {t}) s3"
    "M3 = (\<lambda>la. if PAGE_NUM la = 0 then Some (page2pa p OR PTE_P OR PTE_W) else translate (mem s2) d la)"
    unfolding low_pages by blast
  from buddy_data.low_table_insert [OF I2(2) low_pages(5)] obtain s4 M4 where
    I3: "page_insert ?m (page2va d) p (0x100 + 18) PTE_W s3 = Some (0, s4)" "low_table (data_rel {p}) d t ?D (page2pa d) M4 (F - {t}) s4"
    "M4 = (\<lambda>la. if PAGE_NUM la = 0 then Some (page2pa p OR PTE_P OR PTE_W) else M3 la)"
    unfolding low_pages by blast
  have M4: "M4 la = Some (page2pa p OR PTE_P OR PTE_W)" if "PAGE_NUM la = 0" for la using that I3(3) by simp
  from low_table_store [OF I3(2) low_pages(4) M4 [OF low_pages(6)]] obtain s5 where
    W1: "store_byte 0x100 (of_char (CHR ''c'')) s4 = Some s5" "low_table (data_rel {p}) d t ?D (page2pa d) M4 (F - {t}) s5" by blast
  have len: "unat (0x100 :: u32) + length (map of_char ''hello world!'' :: u8 list) < 4096" by simp
  from low_table_store_string [OF W1(2) len M4] obtain s6 where
    W2: "store_string 0x100 (map of_char ''hello world!'') s5 = Some s6" "low_table (data_rel {p}) d t ?D (page2pa d) M4 (F - {t}) s6" by blast
  have d6: "p \<in> F - {t}" "buddy_rel Null (pmm s6) (F - {t} - {p})" "tables_ok (mem s6) d (F - {t})"
    using W2(2) by (auto simp: low_table_def vm_inv_def data_rel_def)
  have "{p..<p + 1} \<inter> (F - {t} - {p}) = {}" "(1 :: nat) < 2048" by auto
  from buddy.free_law [OF d6(2) this] obtain q where
    q: "free_pages ?m p 1 (pmm s6) = Some q" "buddy_rel Null q (F - {t} - {p} \<union> {p..<p + 1})" by blast
  have "F - {t} - {p} \<union> {p..<p + 1} = F - {t}" using d6(1) by auto
  then have L7: "low_table (buddy_rel Null) d t ?D (page2pa d) M4 (F - {t}) (s6\<lparr>pmm := q\<rparr>)"
    using W2(2) q(2) d6(3) by (simp add: low_table_def vm_inv_def)
  have f7: "free_page ?m p s6 = Some (s6\<lparr>pmm := q\<rparr>)" using q(1) by (simp add: free_page_def)
  have fr: "pa2page (PDE_ADDR (mem (s6\<lparr>pmm := q\<rparr>) (page2va d))) = t"
    using W2(2) pde2page_frame [of "mem s6 (cell d 0)"] by (simp add: low_table_def dir_base pde2page_def)
  have i: "insert t (F - {t}) = F" using t(1) by blast
  from buddy.low_table_end [OF L7] obtain s8 where
    E: "free_page ?m t (s6\<lparr>pmm := q\<rparr>) = Some s8" "vm_inv (buddy_rel Null) d F (store (page2va d) 0 s8)" "cr3 s8 = page2pa d"
    "mem (store (page2va d) 0 s8) (cell d 0) = 0"
    "\<forall>k < 1024. k \<noteq> 0 \<longrightarrow> mem (store (page2va d) 0 s8) (cell d k) = mem s (cell d k)"
    "\<And>la. ordinary la \<Longrightarrow> translate (mem (store (page2va d) 0 s8)) d la = (if PDX la = 0 then None else M4 la)"
    unfolding i by (auto simp del: vm.simps)
  have run: "check_boot_pgdir npage (page2va d) s = Some (store (page2va d) 0 s8)"
    unfolding check_boot_pgdir_def
    by (subst boot_ptes [OF pres], assumption)
      (simp only: Option.bind.bind_lunit prod.case A(1) I1 I2(1) I3(1) W1(1) W2(1) f7 E(1) fr)
  have "translate (mem (store (page2va d) 0 s8)) d la = translate (mem s) d la" if o: "ordinary la" for la
  proof (cases "PDX la = 0")
    case True
    then show ?thesis using E(6) [OF o] slot_zero_absent [where \<mu> = "mem s" and d = d, OF absent True] by simp
  next
    case False
    then have "PAGE_NUM la \<noteq> PAGE_NUM 0x100" "PAGE_NUM la \<noteq> PAGE_NUM (0x100 + PGSIZE)"
      using low_pages(3,4) same_page by metis+
    then show ?thesis using False E(6) [OF o] I2(3) I3(3) S2(4) [OF o] unfolding low_pages by simp
  qed
  then show ?thesis using run E c3 by (intro exI [of _ "store (page2va d) 0 s8"]) auto
qed

section \<open>Enough memory for the self-test of the allocator\<close>

text \<open>The counter of the largest order tells that there is a block, whatever the lists look like.\<close>

lemma memmap_fill_counts:
  "memmap_fill k p n s = (p', n', s') \<Longrightarrow>
     nr_free s' j = (if j = k then nr_free s j + of_nat (n div 2 ^ k) else nr_free s j)"
proof (induction k p n s rule: memmap_fill.induct)
  case (1 k p n s)
  show ?case
  proof (cases "2 ^ k \<le> n")
    case False
    with "1.prems" show ?thesis by (auto simp: memmap_fill.simps [of k p n s])
  next
    case True
    then have "n div 2 ^ k = Suc ((n - 2 ^ k) div 2 ^ k)" by (simp add: le_div_geq)
    with True "1.IH" [OF True] "1.prems" show ?thesis
      by (simp add: memmap_fill.simps [of k p n s] link_block_def)
  qed
qed

lemma memmap_orders_counts:
  "k < j \<Longrightarrow> nr_free (memmap_orders k p n s) j = nr_free s j"
proof (induction k arbitrary: p n s)
  case 0
  obtain p' n' s' where "memmap_fill 0 p n s = (p', n', s')" by (cases "memmap_fill 0 p n s")
  with memmap_fill_counts [OF this, of j] 0 show ?case by (simp add: memmap_orders.simps [of 0])
next
  case (Suc k)
  obtain p' n' s' where f: "memmap_fill (Suc k) p n s = (p', n', s')" by (cases "memmap_fill (Suc k) p n s")
  with memmap_fill_counts [OF f, of j] Suc show ?case by (simp add: memmap_orders.simps [of "Suc k"])
qed

lemma buddy_init_memmap_counts:
  "nr_free (buddy_init_memmap p n s) MAX_ORDER = nr_free s MAX_ORDER + of_nat (n div 1024)"
proof -
  let ?s = "clear_pages p n s"
  obtain p' n' s' where f: "memmap_fill MAX_ORDER p n ?s = (p', n', s')" by (cases "memmap_fill MAX_ORDER p n ?s")
  have m: "MAX_ORDER = Suc 9" by (simp add: MAX_ORDER_def)
  have "nr_free (memmap_orders MAX_ORDER p n ?s) MAX_ORDER = nr_free ?s MAX_ORDER + of_nat (n div 1024)"
  proof -
    have "memmap_orders MAX_ORDER p n ?s = (if n = 0 then ?s else memmap_orders 9 p' n' s')"
      using f unfolding m memmap_orders.simps [of "Suc 9"] by (simp only: nat.case prod.case)
    then show ?thesis
      using memmap_fill_counts [OF f, of MAX_ORDER] memmap_orders_counts [of 9 MAX_ORDER p' n' s'] by (simp add: MAX_ORDER_def)
  qed
  then show ?thesis by (simp add: buddy_init_memmap_def clear_pages_fields)
qed

lemma init_memmaps_counts:
  "nr_free (fold (\<lambda>(p, n). init_memmap buddy_pmm_manager p n) rs s) MAX_ORDER =
     nr_free s MAX_ORDER + of_nat (\<Sum>(p, n) \<leftarrow> rs. n div 1024)"
proof (induction rs arbitrary: s)
  case (Cons r rs)
  then show ?case
    by (cases r) (simp add: init_memmap_def buddy_pmm_manager_def buddy_init_memmap_counts)
qed simp

lemma held_pages_card: "held_apart rs \<Longrightarrow> finite (held_pages rs) \<and> card (held_pages rs) = (\<Sum>(p, n) \<leftarrow> rs. n)"
proof (induction rs)
  case (Cons r rs)
  have "span r \<inter> held_pages rs = {}" using Cons.prems by (auto simp: held_pages_def)
  then show ?case using Cons by (cases r) (simp add: card_Un_disjoint span_def)
qed simp

lemma sum_list_div: "(\<Sum>(p, n) \<leftarrow> rs. n div (1024 :: nat)) \<le> (\<Sum>(p, n) \<leftarrow> rs. n)"
  by (induction rs) (auto intro: add_mono)

lemma sum_list_member: "(p, n) \<in> set rs \<Longrightarrow> n div (1024 :: nat) \<le> (\<Sum>(p, n) \<leftarrow> rs. n div 1024)"
  by (induction rs) auto

lemma buddy_check_passes:
  assumes "buddy_rel Null q F" and "nr_free q MAX_ORDER \<noteq> 0"
  shows "\<exists>q'. buddy_check q = Some q' \<and> buddy_rel Null q' F"
proof -
  from assms(1) obtain L where L: "buddy_inv Null q L" "cover L = F" by (auto simp: buddy_rel_def)
  then have ne: "L MAX_ORDER \<noteq> []" using assms(2) by (auto simp: buddy_inv_def)
  have "getorder 3 \<le> MAX_ORDER" by (simp add: getorder_def getorder_loop.simps MAX_ORDER_def)
  from buddy_alloc_pages_succeeds [OF L(1) _ _ this order_refl ne] obtain p q1 where
    a: "alloc_pages buddy_pmm_manager 3 q = Some (Some p, q1)"
    by (auto simp: alloc_pages_def buddy_pmm_manager_def)
  from buddy.alloc_free_restores [OF assms(1) _ a] obtain q2 where
    "free_pages buddy_pmm_manager p 3 q1 = Some q2" "buddy_rel Null q2 F" by auto
  with a show ?thesis by (simp add: buddy_check_def)
qed

section \<open>Mapping a region\<close>

lemma map_physical_pages:
  assumes "unat la + unat sz + 8190 < 4294967296" and "n = (unat sz + unat (PG_OFF la) + 4095) div 4096"
  shows "map_physical_memory m pgdir la sz pa perm s =
      map_pages m pgdir (of_nat (4096 * (unat la div 4096))) n (ROUNDDOWN pa PGSIZE) perm s"
    and "unat la div 4096 + n \<le> 2 ^ 20"
proof -
  let ?v = "unat la div 4096"
  have off: "unat (PG_OFF la) = unat la mod 4096"
    unfolding PG_OFF_def mask_numerals take_bit_eq_mask [symmetric]
    by (simp only: unsigned_take_bit_eq) (simp add: take_bit_eq_mod)
  have small: "unat sz + unat (PG_OFF la) + 4095 < 4294967296"
    using assms(1) off mod_less_eq_dividend [of "unat la" 4096] by linarith
  then have "unat (sz + PG_OFF la) = unat sz + unat (PG_OFF la)" by (simp add: unat_word_ariths)
  with small have "unat (ROUNDUP (sz + PG_OFF la) PGSIZE div PGSIZE) = n" using ROUNDUP_pages(2) assms(2) by simp
  then show "map_physical_memory m pgdir la sz pa perm s = map_pages m pgdir (of_nat (4096 * ?v)) n (ROUNDDOWN pa PGSIZE) perm s"
    by (simp only: map_physical_memory_def Let_def PAGE_NUM_ROUNDDOWN [of la] PAGE_NUM_unat)
  have "4096 * ?v + unat la mod 4096 = unat la" by simp
  then have "4096 * ?v + 4096 * n < 4294967296 + 4096" using assms(1,2) off by linarith
  then show "?v + n \<le> 2 ^ 20" by simp
qed

lemma map_region_correct:
  assumes inv: "vm_inv (buddy_rel t) d F s" and small: "unat la + unat sz + 8190 < 4294967296"
    and n: "n = (unat sz + unat (PG_OFF la) + 4095) div 4096"
    and slots: "\<And>k. unat la div 4096 \<le> k \<Longrightarrow> k < unat la div 4096 + n \<Longrightarrow> k div 1024 \<in> A"
    and A: "A \<subseteq> {..<1024} - {self_slot}" and card: "card (absent_slots (mem s) d {..<1024}) \<le> card F"
  shows "\<exists>s' F'. map_physical_memory buddy_pmm_manager (page2va d) la sz pa perm s = Some s' \<and> F' \<subseteq> F \<and>
    vm_inv (buddy_rel t) d F' s' \<and> card (absent_slots (mem s') d {..<1024}) \<le> card F' \<and>
    (\<forall>k < 1024. k \<notin> A \<longrightarrow> mem s' (cell d k) = mem s (cell d k)) \<and> cr3 s' = cr3 s \<and>
    (\<forall>la'. ordinary la' \<longrightarrow> translate (mem s') d la' =
      (let k = unat la' div 4096; k0 = unat la div 4096 in
       if k0 \<le> k \<and> k < k0 + n then Some ((ROUNDDOWN pa PGSIZE + of_nat (4096 * (k - k0))) OR PTE_P OR perm)
       else translate (mem s) d la'))"
proof -
  note P = map_physical_pages [OF small n]
  have "F \<subseteq> {..<2 ^ 18}" using inv unfolding vm_inv_def tables_ok_def by blast
  then have fin: "finite F" by (rule finite_subset) simp
  have "absent_slots (mem s) d A \<subseteq> absent_slots (mem s) d {..<1024}" using A by (auto simp: absent_slots_def)
  moreover have "finite (absent_slots (mem s) d {..<1024})" by (simp add: absent_slots_def)
  ultimately have "card (absent_slots (mem s) d A) \<le> card F" using card card_mono le_trans by blast
  from buddy_supply.map_pages_some [OF inv fin P(2) slots A this] obtain s' where
    s': "map_pages buddy_pmm_manager (page2va d) (of_nat (4096 * (unat la div 4096))) n (ROUNDDOWN pa PGSIZE) perm s = Some s'"
    by blast
  from buddy.map_pages_step [OF inv P(2) slots A fin card s'] s' show ?thesis
    unfolding P(1) PAGE_NUM_unat Let_def by blast
qed

section \<open>The start as a whole\<close>

text \<open>The regions that \<open>page_init\<close> makes free.\<close>

abbreviation boot_regions :: "boot_env \<Rightarrow> (nat \<times> nat) list" where
  "boot_regions e \<equiv> usable_regions (page_init_freemem (be_end e) (be_map e)) (be_map e)"

text \<open>What a machine must provide: entries of the memory map that do not wrap, usable regions that do not
  overlap, and a region of at least 2048 pages (8 MB).\<close>

definition boot_memory_ok :: "boot_env \<Rightarrow> bool" where
  "boot_memory_ok e \<longleftrightarrow> (\<forall>x \<in> set (be_map e). unat (e_addr x) + unat (e_size x) < 2 ^ 64) \<and>
     held_apart (boot_regions e) \<and> (\<exists>(p, n) \<in> set (boot_regions e). 2048 \<le> n)"

lemma boot_pages:
  assumes "boot_memory_ok e"
  shows "finite (held_pages (boot_regions e))" "2048 \<le> card (held_pages (boot_regions e))"
    "held_pages (boot_regions e) \<subseteq> {..<229376}"
proof -
  have apart: "held_apart (boot_regions e)" using assms by (simp add: boot_memory_ok_def)
  show fin: "finite (held_pages (boot_regions e))" using held_pages_card [OF apart] by blast
  from assms obtain p n where r: "(p, n) \<in> set (boot_regions e)" "2048 \<le> n" by (auto simp: boot_memory_ok_def)
  have "card (span (p, n)) \<le> card (held_pages (boot_regions e))" by (rule card_mono [OF fin span_held [OF r(1)]])
  then show "2048 \<le> card (held_pages (boot_regions e))" using r(2) by (simp add: span_def)
  show "held_pages (boot_regions e) \<subseteq> {..<229376}"
  proof
    fix y assume "y \<in> held_pages (boot_regions e)"
    then obtain q l where q: "(q, l) \<in> set (boot_regions e)" "y \<in> span (q, l)" by (auto simp: held_pages_def)
    from q(1) obtain x where "x \<in> set (be_map e)" "free_region (page_init_freemem (be_end e) (be_map e)) x = Some (q, l)"
      by (auto simp: usable_regions_def List.map_filter_def)
    then have "4096 * (q + l) \<le> unat KMEMSIZE"
      using free_region_bounds(5) assms by (auto simp: boot_memory_ok_def)
    then show "y \<in> {..<229376}" using q(2) by (simp add: span_def KMEMSIZE_def)
  qed
qed

text \<open>\<open>page_init\<close> and the self-test of the allocator.\<close>

lemma boot_allocator:
  assumes ok: "boot_memory_ok e" and q0: "q0 = buddy_init (static_free_area f)"
  shows "\<exists>npage pages q q'. page_init buddy_pmm_manager (be_end e) (be_map e) q0 = (npage, pages, q) \<and>
    buddy_check q = Some q' \<and> buddy_rel Null q' (held_pages (boot_regions e)) \<and> unat npage \<le> 229376"
proof -
  let ?rs = "boot_regions e" and ?F = "held_pages (boot_regions e)"
  have apart: "held_apart ?rs" using ok by (simp add: boot_memory_ok_def)
  have rel0: "buddy_rel Null q0 {}" unfolding q0 by (rule buddy_init_rel)
  define q where "q = fold (\<lambda>(p, n). init_memmap buddy_pmm_manager p n) ?rs q0"
  have rel: "buddy_rel Null q ?F" using buddy_add_regions [OF apart _ rel0] by (simp add: q_def)
  have "nr_free q0 MAX_ORDER = 0" by (simp add: q0 buddy_init_def buddy_init_links static_free_area_def)
  then have cnt: "nr_free q MAX_ORDER = of_nat (\<Sum>(p, n) \<leftarrow> ?rs. n div 1024)" by (simp add: q_def init_memmaps_counts)
  from ok obtain p n where r: "(p, n) \<in> set ?rs" "2048 \<le> n" by (auto simp: boot_memory_ok_def)
  have "2 \<le> n div 1024" using r(2) by simp
  then have pos: "0 < (\<Sum>(p, n) \<leftarrow> ?rs. n div 1024)" using sum_list_member [OF r(1)] by linarith
  have "card ?F \<le> 229376" using card_mono [OF finite_lessThan boot_pages(3) [OF ok]] by simp
  then have "(\<Sum>(p, n) \<leftarrow> ?rs. n div 1024) < 4294967296"
    using sum_list_div [of ?rs] held_pages_card [OF apart] by simp
  then have "unat (nr_free q MAX_ORDER) = (\<Sum>(p, n) \<leftarrow> ?rs. n div 1024)" unfolding cnt by (rule unat_of_nat_u32)
  then have "nr_free q MAX_ORDER \<noteq> 0" using pos by (metis less_irrefl unsigned_0)
  from buddy_check_passes [OF rel this] obtain q' where q': "buddy_check q = Some q'" "buddy_rel Null q' ?F" by blast
  have K: "unat KMEMSIZE = 939524096" by (simp add: KMEMSIZE_def)
  have "unat (max_pa (be_map e) div ucast PGSIZE) = unat (max_pa (be_map e)) div 4096"
    by (simp add: unat_div_distrib PGSIZE_def)
  moreover have "unat (max_pa (be_map e)) div 4096 \<le> 229376" using max_pa_le [of "be_map e"] K by simp
  ultimately have "unat (ucast (max_pa (be_map e) div ucast PGSIZE) :: u32) \<le> 229376" by (subst unat_ucast_32) simp_all
  with q' show ?thesis by (simp add: page_init_regions q_def)
qed

definition kernel_entry :: "u32 \<Rightarrow> u32 option" where
  "kernel_entry la =
     (let k = unat la div 4096 in
      if 0xC0000 \<le> k \<and> k < 0xF8000 then Some (of_nat (4096 * (k - 0xC0000)) OR PTE_P OR PTE_W) else None)"

lemma map_kernel:
  assumes inv: "vm_inv (buddy_rel Null) d F s" and card: "card (absent_slots (mem s) d {..<1024}) \<le> card F"
    and empty: "\<And>la. ordinary la \<Longrightarrow> translate (mem s) d la = None"
  shows "\<exists>s' F'. map_physical_memory buddy_pmm_manager (page2va d) KERNBASE KMEMSIZE 0 PTE_W s = Some s' \<and> F' \<subseteq> F \<and>
    vm_inv (buddy_rel Null) d F' s' \<and> card (absent_slots (mem s') d {..<1024}) \<le> card F' \<and>
    (\<forall>k < 1024. k \<notin> {768..<992} \<longrightarrow> mem s' (cell d k) = mem s (cell d k)) \<and>
    (\<forall>la. ordinary la \<longrightarrow> translate (mem s') d la = kernel_entry la)"
proof -
  have n: "229376 = (unat KMEMSIZE + unat (PG_OFF KERNBASE) + 4095) div 4096"
    by (simp add: KMEMSIZE_def KERNBASE_def PG_OFF_def)
  have small: "unat KERNBASE + unat KMEMSIZE + 8190 < 4294967296" by (simp add: KERNBASE_def KMEMSIZE_def)
  have slots: "k div 1024 \<in> {768..<992}" if "unat KERNBASE div 4096 \<le> k" "k < unat KERNBASE div 4096 + 229376" for k
    using that by (auto simp: KERNBASE_def)
  have A: "{768..<992} \<subseteq> {..<1024} - {self_slot}" by (auto simp: self_slot_number)
  have z: "ROUNDDOWN 0 PGSIZE = 0" by (simp add: ROUNDDOWN_def)
  from map_region_correct [OF inv small n slots A card, of 0 PTE_W] obtain s' F' where
    R: "map_physical_memory buddy_pmm_manager (page2va d) KERNBASE KMEMSIZE 0 PTE_W s = Some s'" "F' \<subseteq> F"
      "vm_inv (buddy_rel Null) d F' s'" "card (absent_slots (mem s') d {..<1024}) \<le> card F'"
      "\<forall>k < 1024. k \<notin> {768..<992} \<longrightarrow> mem s' (cell d k) = mem s (cell d k)"
    and T: "\<And>la'. ordinary la' \<Longrightarrow> translate (mem s') d la' =
      (let k = unat la' div 4096; k0 = unat KERNBASE div 4096 in
       if k0 \<le> k \<and> k < k0 + 229376 then Some ((ROUNDDOWN 0 PGSIZE + of_nat (4096 * (k - k0))) OR PTE_P OR PTE_W)
       else translate (mem s) d la')" by blast
  have "unat KERNBASE div 4096 = 0xC0000" by (simp add: KERNBASE_def)
  then have "\<forall>la. ordinary la \<longrightarrow> translate (mem s') d la = kernel_entry la"
    using T empty unfolding z kernel_entry_def Let_def by (simp del: of_nat_mult)
  then show ?thesis using R by blast
qed

lemma tables_ok_empty:
  assumes "d < 2 ^ 18" and "d \<notin> F" and "F \<subseteq> {..<2 ^ 18}"
    and "\<And>k. k < 1024 \<Longrightarrow> k \<noteq> self_slot \<Longrightarrow> \<not> present (\<mu> (cell d k))"
  shows "tables_ok \<mu> d F"
  using assms unfolding tables_ok_def by blast

lemma build_tables_correct:
  assumes ok: "boot_memory_ok e" and q0: "pmm (bo_vm s) = static_free_area f"
  shows "\<exists>s' d vm F. build_tables e s = Some s' \<and> bo_vm s' = store (page2va d) (mem vm (cell d 768)) vm \<and>
    bo_pgdir s' = page2va d \<and> boot_cr3 (bo_kernel s') = page2pa d \<and> unat (bo_npage s') \<le> 229376 \<and>
    vm_inv (buddy_rel Null) d F vm \<and> F \<subseteq> held_pages (boot_regions e) \<and> card (absent_slots (mem vm) d {..<1024}) \<le> card F \<and>
    mem vm (cell d 0) = 0 \<and> mem vm (cell d 1) AND PTE_P = 0 \<and> self_mapped (mem vm) d \<and>
    (\<forall>la. ordinary la \<longrightarrow> translate (mem vm) d la = kernel_entry la)"
proof -
  let ?m = buddy_pmm_manager and ?F = "held_pages (boot_regions e)" and ?s = "init_pmm_manager s"
  have q1: "pmm (bo_vm ?s) = buddy_init (static_free_area f)"
    by (simp add: init_pmm_manager_def bprintf_def Let_def q0 buddy_pmm_manager_def)
  from boot_allocator [OF ok q1] obtain npage pages q q' where
    P: "page_init ?m (be_end e) (be_map e) (pmm (bo_vm ?s)) = (npage, pages, q)" "buddy_check q = Some q'"
      "buddy_rel Null q' ?F" "unat npage \<le> 229376" by blast
  note B = boot_pages [OF ok]
  have ne: "?F \<noteq> {}" using B(2) by auto
  let ?v0 = "(bo_vm ?s)\<lparr>pmm := q'\<rparr>"
  have "buddy_rel Null (pmm ?v0) ?F" using P(3) by simp
  from buddy_supply.alloc_page_supplied [OF this ne] obtain d v1 where
    A: "alloc_page ?m ?v0 = Some (d, v1)" "d \<in> ?F" "buddy_rel Null (pmm v1) (?F - {d})" by blast
  have d: "d < 2 ^ 18" using A(2) B(3) by auto
  let ?v2 = "v1\<lparr>mem := clear_page (page2va d) (mem v1)\<rparr>"
  have z: "mem ?v2 (cell d i) = 0" if "i < 1024" for i
    using clear_page_cell [OF d d that, of "mem v1"] by (simp add: page2va_def)
  have T2: "tables_ok (mem ?v2) d (?F - {d})"
    by (rule tables_ok_empty [OF d]) (use z B(3) in auto)
  then have inv2: "vm_inv (buddy_rel Null) d (?F - {d}) ?v2" using A(3) by (simp add: vm_inv_def)
  have empty2: "translate (mem ?v2) d la = None" for la
    using z [OF PDX_lt, of la] by (simp add: translate_def)
  have a2: "\<not> present (mem ?v2 (cell d 0))" using z [OF slot_zero(2)] by simp
  have c2: "2047 \<le> card (?F - {d})" using A(2) B(1,2) by simp
  then have "4 \<le> card (?F - {d})" by simp
  from check_pgdir_correct [OF inv2 a2 this] obtain v3 F3 where
    C: "check_pgdir ?m (page2va d) ?v2 = Some v3" "F3 \<subseteq> ?F - {d}" "card (?F - {d}) \<le> card F3 + 2"
      "vm_inv (buddy_rel Null) d F3 v3" "mem v3 (cell d 0) = 0"
      "\<And>la. ordinary la \<Longrightarrow> translate (mem v3) d la = None"
    "\<And>k. k < 1024 \<Longrightarrow> k \<noteq> 0 \<Longrightarrow> mem v3 (cell d k) = 0"
    using empty2 z by (auto simp del: vm.simps)
  let ?self = "PADDR (page2va d) OR PTE_P OR PTE_W"
  let ?v4 = "store (page2va d + 4 * PDX VPT) ?self v3"
  have vs: "page2va d + 4 * PDX VPT = cell d self_slot" by (simp add: dir_cell self_slot_def)
  have sl: "self_slot < 1024" by (simp add: self_slot_number)
  have m4: "mem ?v4 (cell d k) = (if k = self_slot then ?self else mem v3 (cell d k))" if "k < 1024" for k
    using cell_inj [of d k d self_slot] d that sl by (auto simp: vs)
  have T3: "tables_ok (mem v3) d F3" using C(4) by (simp add: vm_inv_def)
  have z4: "\<not> present (mem ?v4 (cell d k))" if k: "k < 1024" "k \<noteq> self_slot" for k
  proof -
    have "mem ?v4 (cell d k) = mem v3 (cell d k)" using m4 [OF k(1)] k(2) by (simp only: if_False)
    also have "\<dots> = 0" using C(5) C(7) [OF k(1)] by (cases "k = 0") simp_all
    finally show ?thesis by (simp only: and_zero_eq zero_and_eq)
  qed
  have T4: "tables_ok (mem ?v4) d F3" using tables_okD(1-3) [OF T3] z4 by (intro tables_ok_empty)
  then have inv4: "vm_inv (buddy_rel Null) d F3 ?v4" using C(4) by (simp add: vm_inv_def)
  have empty4: "translate (mem ?v4) d la = None" if "ordinary la" for la
    using z4 [OF PDX_lt that] by (simp add: translate_def)
  have "card (absent_slots (mem ?v4) d {..<1024}) \<le> card {..<1024 :: nat}"
    by (rule card_mono) (auto simp: absent_slots_def)
  then have card4: "card (absent_slots (mem ?v4) d {..<1024}) \<le> card F3" using c2 C(3) by simp
  from map_kernel [OF inv4 card4 empty4] obtain v5 F5 where
    K: "map_physical_memory ?m (page2va d) KERNBASE KMEMSIZE 0 PTE_W ?v4 = Some v5" "F5 \<subseteq> F3"
      "vm_inv (buddy_rel Null) d F5 v5" "card (absent_slots (mem v5) d {..<1024}) \<le> card F5"
      "\<And>k. k < 1024 \<Longrightarrow> k \<notin> {768..<992} \<Longrightarrow> mem v5 (cell d k) = mem ?v4 (cell d k)"
      "\<forall>la. ordinary la \<longrightarrow> translate (mem v5) d la = kernel_entry la" by blast
  have "mem v5 (cell d self_slot) = ?self" using K(5) [OF sl] m4 [OF sl] by (simp add: self_slot_number)
  then have self: "self_mapped (mem v5) d" using d by (simp add: self_mapped_def)
  have z5: "mem v5 (cell d 0) = 0" "mem v5 (cell d 1) = 0"
    using K(5) [of 0] K(5) [of 1] m4 [of 0] m4 [of 1] C(5) C(7) [of 1] slot_zero by (simp_all add: self_slot_number del: vm.simps)
  have kb: "page2va d + 4 * PDX KERNBASE = cell d 768" by (simp only: dir_cell) (simp add: PDX_def KERNBASE_def)
  let ?k = "kprintf ''check_pgdir succeeded\<newline>'' [] ((bo_kernel ?s)\<lparr>boot_cr3 := PADDR (page2va d)\<rparr>)"
  have run: "build_tables e s = Some (?s\<lparr>bo_vm := store (page2va d) (mem v5 (cell d 768)) v5, bo_npage := npage,
      bo_pages := pages, bo_pgdir := page2va d, bo_kernel := ?k\<rparr>)"
    using P(1,2) A(1) C(1) K(1) by (simp add: build_tables_def Let_def kb)
  have sub: "F5 \<subseteq> ?F" using K(2) C(2) by blast
  have bk: "boot_cr3 ?k = page2pa d" by (simp add: kprintf_def)
  show ?thesis
    by (intro exI conjI, rule run) (use K(3,4,6) sub self z5 P(4) bk in simp_all)
qed

section \<open>The kernel's address space\<close>

definition vram_size :: "boot_info \<Rightarrow> u32" where
  "vram_size b = word_of_int (uint (scrnx b) * uint (scrny b) * nBppixel b)"

text \<open>The first page of the frame buffer and its number of pages.\<close>

definition vram_page :: "boot_info \<Rightarrow> nat" where
  "vram_page b = unat (vram b) div 4096"

definition vram_pages :: "boot_info \<Rightarrow> nat" where
  "vram_pages b = (unat (vram_size b) + unat (PG_OFF (vram b)) + 4095) div 4096"

definition vram_ok :: "boot_info \<Rightarrow> bool" where
  "vram_ok b \<longleftrightarrow> unat (vram b) + unat (vram_size b) + 8190 < 2 ^ 32 \<and>
     (\<forall>k \<in> {vram_page b..<vram_page b + vram_pages b}. k div 1024 \<noteq> self_slot)"

text \<open>What every linear address outside the slot of the tables translates to: the frame buffer to itself,
  the kernel's part to physical memory from 0 on, nothing else.\<close>

definition kernel_map :: "boot_info \<Rightarrow> u32 \<Rightarrow> u32 option" where
  "kernel_map b la =
     (let k = unat la div 4096 in
      if vram_page b \<le> k \<and> k < vram_page b + vram_pages b then Some (of_nat (4096 * k) OR PTE_P OR PTE_W)
      else kernel_entry la)"

lemma map_vram:
  assumes inv: "vm_inv (buddy_rel Null) d F s" and card: "card (absent_slots (mem s) d {..<1024}) \<le> card F"
    and ok: "vram_ok b" and self: "self_mapped (mem s) d"
    and old: "\<And>la. ordinary la \<Longrightarrow> translate (mem s) d la = kernel_entry la"
  shows "\<exists>s' F'. map_physical_memory buddy_pmm_manager (page2va d) (vram b) (vram_size b) (vram b) PTE_W s = Some s' \<and> F' \<subseteq> F \<and>
    vm_inv (buddy_rel Null) d F' s' \<and> self_mapped (mem s') d \<and> cr3 s' = cr3 s \<and>
    (\<forall>la. ordinary la \<longrightarrow> translate (mem s') d la = kernel_map b la)"
proof -
  let ?A = "(\<lambda>k. k div 1024) ` {vram_page b..<vram_page b + vram_pages b}"
  have small: "unat (vram b) + unat (vram_size b) + 8190 < 4294967296" using ok by (simp add: vram_ok_def)
  have n: "vram_pages b = (unat (vram_size b) + unat (PG_OFF (vram b)) + 4095) div 4096" by (simp add: vram_pages_def)
  have slots: "k div 1024 \<in> ?A" if "unat (vram b) div 4096 \<le> k" "k < unat (vram b) div 4096 + vram_pages b" for k
    using that by (auto simp: vram_page_def)
  have top: "vram_page b + vram_pages b \<le> 2 ^ 20" using map_physical_pages(2) [OF small n] by (simp add: vram_page_def)
  have A: "?A \<subseteq> {..<1024} - {self_slot}" using ok top by (auto simp: vram_ok_def less_mult_imp_div_less)
  from map_region_correct [OF inv small n slots A card, of "vram b" PTE_W] obtain s' F' where
    R: "map_physical_memory buddy_pmm_manager (page2va d) (vram b) (vram_size b) (vram b) PTE_W s = Some s'" "F' \<subseteq> F"
      "vm_inv (buddy_rel Null) d F' s'" "cr3 s' = cr3 s" "\<forall>k < 1024. k \<notin> ?A \<longrightarrow> mem s' (cell d k) = mem s (cell d k)"
    and T: "\<And>la'. ordinary la' \<Longrightarrow> translate (mem s') d la' =
      (let k = unat la' div 4096; k0 = unat (vram b) div 4096 in
       if k0 \<le> k \<and> k < k0 + vram_pages b then Some ((ROUNDDOWN (vram b) PGSIZE + of_nat (4096 * (k - k0))) OR PTE_P OR PTE_W)
       else translate (mem s) d la')" by blast
  have "self_slot < 1024" "self_slot \<notin> ?A" using A by (auto simp: self_slot_number)
  then have "self_mapped (mem s') d" using R(5) self by (simp add: self_mapped_def)
  have ident: "ROUNDDOWN (vram b) PGSIZE + of_nat (4096 * (k - vram_page b)) = of_nat (4096 * k)"
    if "vram_page b \<le> k" for k
    using that unfolding PAGE_NUM_ROUNDDOWN PAGE_NUM_unat vram_page_def by (simp add: diff_mult_distrib2 flip: of_nat_add)
  have "translate (mem s') d la = kernel_map b la" if "ordinary la" for la
    unfolding T [OF that] kernel_map_def Let_def vram_page_def [symmetric] old [OF that]
    by (cases "vram_page b \<le> unat la div 4096") (simp_all only: ident if_True if_False simp_thms)
  then show ?thesis using R(1-4) \<open>self_mapped (mem s') d\<close> by blast
qed

lemma translate_present: "translate \<mu> d la \<noteq> None \<Longrightarrow> present (\<mu> (cell d (unat (PDX la))))"
  by (auto simp: translate_def Let_def split: if_splits)

lemma low_kernel_slots:
  assumes T: "\<And>la. ordinary la \<Longrightarrow> translate \<mu> d la = kernel_entry la" and k: "k < 229376"
  shows "present (\<mu> (cell d (unat (PDX (VADDR (of_nat k * PGSIZE))))))"
proof -
  have la: "VADDR (of_nat k * PGSIZE) = of_nat (4096 * (0xC0000 + k))"
    by (simp add: VADDR_def KERNBASE_def PGSIZE_def algebra_simps)
  have p: "unat (PAGE_NUM (of_nat (4096 * (0xC0000 + k)))) = 0xC0000 + k" by (rule PAGE_NUM_of_nat) (use k in simp)
  have "(0xC0000 + k) div 1024 < 992" using k by (intro less_mult_imp_div_less) simp
  then have o: "ordinary (of_nat (4096 * (0xC0000 + k)))" unfolding PDX_PAGE_NUM p by (simp add: self_slot_number)
  have "kernel_entry (of_nat (4096 * (0xC0000 + k))) \<noteq> None"
    using p k unfolding kernel_entry_def PAGE_NUM_unat by (simp add: Let_def del: of_nat_mult of_nat_add)
  then show ?thesis unfolding la by (intro translate_present) (simp only: T [OF o] not_False_eq_True)
qed

lemma pmm_init_correct:
  assumes ok: "boot_memory_ok e" and q0: "pmm (bo_vm s) = static_free_area f" and vr: "vram_ok (be_binfo e)"
    and trace: "\<And>k. print_stackframe (be_stack e) (be_debug e) (be_ebp e) (be_eip e) k \<noteq> None"
  shows "\<exists>s' d F. pmm_init e s = Some s' \<and> cr3 (bo_vm s') = page2pa d \<and> bo_pgdir s' = page2va d \<and>
    vm_inv (buddy_rel Null) d F (bo_vm s') \<and> kheap Null F (memory (bo_kernel s')) {} \<and>
    frames (memory (bo_kernel s')) = pmm (bo_vm s') \<and> self_mapped (mem (bo_vm s')) d \<and>
    (\<forall>la. ordinary la \<longrightarrow> translate (mem (bo_vm s')) d la = kernel_map (be_binfo e) la)"
proof -
  let ?m = buddy_pmm_manager and ?b = "be_binfo e"
  from build_tables_correct [OF ok q0] obtain s1 d vm F where
    B: "build_tables e s = Some s1" "bo_vm s1 = store (page2va d) (mem vm (cell d 768)) vm" "bo_pgdir s1 = page2va d"
      "boot_cr3 (bo_kernel s1) = page2pa d" "unat (bo_npage s1) \<le> 229376"
      "vm_inv (buddy_rel Null) d F vm" "F \<subseteq> held_pages (boot_regions e)" "card (absent_slots (mem vm) d {..<1024}) \<le> card F"
      "mem vm (cell d 0) = 0" "mem vm (cell d 1) AND PTE_P = 0" "self_mapped (mem vm) d"
      "\<And>la. ordinary la \<Longrightarrow> translate (mem vm) d la = kernel_entry la" by blast
  let ?v2 = "vm\<lparr>cr3 := page2pa d, tlb := Map.empty\<rparr>"
  have v2: "store (page2va d) 0 (bo_vm (enable_paging s1)) = ?v2"
  proof -
    have "(mem vm)(page2va d := 0) = mem vm" using B(9) by (simp add: dir_base fun_upd_idem)
    then show ?thesis by (cases vm) (simp add: enable_paging_def lcr3_def B(2,4) Let_def)
  qed
  have fin: "finite F" using B(7) boot_pages(1) [OF ok] by (rule finite_subset)
  have "{0, 1} \<subseteq> absent_slots (mem vm) d {..<1024}" using B(9,10) by (simp add: absent_slots_def)
  then have "card {0, 1 :: nat} \<le> card (absent_slots (mem vm) d {..<1024})" by (rule card_mono [rotated]) (simp add: absent_slots_def)
  then have two: "2 \<le> card F" using B(8) by simp
  have inv2: "vm_inv (buddy_rel Null) d F ?v2" and a2: "\<not> present (mem ?v2 (cell d 0))" using B(6,9) by (simp_all add: vm_inv_def)
  have pres: "present (mem ?v2 (cell d (unat (PDX (VADDR (of_nat k * PGSIZE))))))"
    if "k < (unat (bo_npage s1) + 4095) div 4096" for k
    using low_kernel_slots [where \<mu> = "mem vm" and d = d and k = k, OF B(12)] that B(5) by (simp add: div_le_mono)
  have c3: "cr3 ?v2 = page2pa d" by simp
  have old2: "translate (mem ?v2) d la = kernel_entry la" if "ordinary la" for la using B(12) [OF that] by simp
  from check_boot_pgdir_correct [where npage = "bo_npage s1", OF inv2 c3 a2 two pres] obtain v3 where
    C: "check_boot_pgdir (bo_npage s1) (page2va d) ?v2 = Some v3" "vm_inv (buddy_rel Null) d F v3" "cr3 v3 = cr3 ?v2"
      "mem v3 (cell d 0) = 0" "\<forall>k < 1024. k \<noteq> 0 \<longrightarrow> mem v3 (cell d k) = mem ?v2 (cell d k)"
      "\<forall>la. ordinary la \<longrightarrow> translate (mem v3) d la = translate (mem ?v2) d la" by blast
  have map3: "translate (mem v3) d la = kernel_entry la" if "ordinary la" for la using C(6) old2 that by simp
  have same: "mem v3 (cell d k) = mem vm (cell d k)" if "k < 1024" for k
    using C(4) C(5) that B(9) by (cases "k = 0") simp_all
  have "absent_slots (mem v3) d {..<1024} = absent_slots (mem vm) d {..<1024}" using same by (auto simp: absent_slots_def)
  then have card3: "card (absent_slots (mem v3) d {..<1024}) \<le> card F" using B(8) by simp
  have self3: "self_mapped (mem v3) d" using B(11) same [of self_slot] by (simp add: self_mapped_def self_slot_number)
  from map_vram [OF C(2) card3 vr self3 map3] obtain v4 F4 where
    V: "map_physical_memory ?m (page2va d) (vram ?b) (vram_size ?b) (vram ?b) PTE_W v3 = Some v4" "F4 \<subseteq> F"
      "vm_inv (buddy_rel Null) d F4 v4" "self_mapped (mem v4) d" "cr3 v4 = page2pa d"
      "\<forall>la. ordinary la \<longrightarrow> translate (mem v4) d la = kernel_map ?b la"
    using C(3) by auto
  let ?s3 = "(enable_paging s1)\<lparr>bo_gdt := gdt_init (be_ts e) (bo_gdt (enable_paging s1))\<rparr>"
  let ?k = "print_pgdir (mem v4) (pa2page (cr3 v4)) (kprintf ''check_boot_pgdir() succeeded!\<newline>'' [] (bo_kernel ?s3))"
  obtain k5 where k5: "print_stackframe (be_stack e) (be_debug e) (be_ebp e) (be_eip e) ?k = Some k5"
    using trace [of ?k] by blast
  have F4: "F4 \<subseteq> {..<229376}" using V(2) B(7) boot_pages(3) [OF ok] by blast
  have "buddy_rel Null (frames ((memory k5)\<lparr>frames := pmm v4\<rparr>)) F4" using V(3) by (simp add: vm_inv_def)
  from kheap_slab_init [OF this F4] obtain mo where
    S: "slab_init ((memory k5)\<lparr>frames := pmm v4\<rparr>) = Some mo" "kheap Null F4 mo {}" by blast
  have fr: "frames mo = pmm v4" using S(1) by (auto simp: slab_init_result kheap_init_def)
  have p: "bo_pgdir ?s3 = page2va d" "bo_npage ?s3 = bo_npage s1" "bo_vm ?s3 = bo_vm (enable_paging s1)"
    using B(3) by (simp_all add: enable_paging_def Let_def)
  have "pmm_init e s = Some (?s3\<lparr>bo_vm := v4, bo_kernel := k5\<lparr>memory := mo\<rparr>\<rparr>)"
    unfolding pmm_init_def B(1) Let_def Option.bind.bind_lunit p v2 C(1) V(1) [unfolded vram_size_def] k5 S(1) by simp
  then show ?thesis
    by (intro exI [of _ "?s3\<lparr>bo_vm := v4, bo_kernel := k5\<lparr>memory := mo\<rparr>\<rparr>"] exI [of _ d] exI [of _ F4])
      (use V S(2) fr p in simp)
qed


definition small_machine :: boot_env where
  "small_machine = \<lparr>be_end = 0xC0110000, be_map = two_regions, be_ts = 0xC0108000,
     be_binfo = \<lparr>bi_cyls = 0, bi_leds = 0, bi_vmode = 8, bi_reserve = 0, scrnx = 1024, scrny = 768, bitspixel = 24,
       bi_mem_model = 6, vram = 0xE0000000\<rparr>,
     be_stack = (\<lambda>_. 0), be_debug = \<lparr>dd_stabs = [], dd_stabstr = 0, dd_stabstr_end = 0, dd_unknown = 0\<rparr>,
     be_ebp = 0, be_eip = 0xC0100000\<rparr>"

definition power_on :: "kernel \<Rightarrow> boot" where
  "power_on k = \<lparr>bo_vm = \<lparr>mem = (\<lambda>_. 0xFFFFFFFF), cr3 = 0, tlb = Map.empty, pmm = static_free_area (\<lambda>_. \<lparr>flags = 0, order = 0\<rparr>)\<rparr>,
     bo_cr0 = 1, bo_gdt = [], bo_npage = 0, bo_pages = 0, bo_pgdir = 0, bo_kernel = k\<rparr>"

lemma small_machine_boots:
  "boot_memory_ok small_machine" "pmm (bo_vm (power_on k)) = static_free_area (\<lambda>_. \<lparr>flags = 0, order = 0\<rparr>)"
  "vram_ok (be_binfo small_machine)"
  "print_stackframe (be_stack small_machine) (be_debug small_machine) (be_ebp small_machine) (be_eip small_machine) k' \<noteq> None"
  "kernel_map (be_binfo small_machine) 0xC0001000 = Some (0x1000 OR PTE_P OR PTE_W)" "ordinary 0xC0001000"
proof -
  show "boot_memory_ok small_machine"
    by (simp add: boot_memory_ok_def small_machine_def two_regions_usable) (simp add: two_regions_def)
  show "pmm (bo_vm (power_on k)) = static_free_area (\<lambda>_. \<lparr>flags = 0, order = 0\<rparr>)" by (simp add: power_on_def)
  have v: "vram_page (be_binfo small_machine) = 0xE0000" "vram_pages (be_binfo small_machine) = 576"
    "vram (be_binfo small_machine) = 0xE0000000" "vram_size (be_binfo small_machine) = 0x240000"
    by (simp_all add: vram_page_def vram_pages_def vram_size_def small_machine_def nBppixel_def PG_OFF_def)
  have "k div 1024 \<noteq> self_slot" if "0xE0000 \<le> k" "k < 0xE0240" for k
  proof -
    have "k div 1024 < 1003" using that by (intro less_mult_imp_div_less) simp
    then show ?thesis by (simp add: self_slot_number)
  qed
  then show "vram_ok (be_binfo small_machine)" by (simp add: vram_ok_def v)
  show "print_stackframe (be_stack small_machine) (be_debug small_machine) (be_ebp small_machine) (be_eip small_machine) k' \<noteq> None"
    by (simp add: print_stackframe_def small_machine_def STACKFRAME_DEPTH_def eval_nat_numeral)
  show "kernel_map (be_binfo small_machine) 0xC0001000 = Some (0x1000 OR PTE_P OR PTE_W)"
    by (simp add: kernel_map_def v kernel_entry_def)
  show "ordinary 0xC0001000" by (simp add: PDX_def self_slot_number)
qed


end
