(* ===== verification/KernelMem.thy ===== *)
theory KernelMem
  imports Startup
begin

text \<open>
  The memory of the running kernel: the page tables, the pages callers take and the blocks of \<open>kmalloc\<close> all
  come from the one page allocator of pmm.c. The page table operations of theory Paging are run here over the state of the
  object allocator, whose field \<open>frames\<close> is that page allocator. For the page tables the object allocator with
  everything it holds is then a source of pages, an interpretation of the locale \<open>page_source\<close>: a page that
  a table takes is never one the heap uses. Every interleaving of the operations keeps tables, heap
  blocks and data pages apart.
\<close>

section \<open>The page allocator inside the object allocator\<close>

definition shared_frames :: "buddy pmm_manager \<Rightarrow> kmem pmm_manager" where
  "shared_frames m = \<lparr>pm_name = pm_name m,
     pm_init = (\<lambda>k. k\<lparr>frames := pm_init m (frames k)\<rparr>),
     pm_init_memmap = (\<lambda>p n k. k\<lparr>frames := pm_init_memmap m p n (frames k)\<rparr>),
     pm_alloc_pages = (\<lambda>n k. do { (r, q) \<leftarrow> pm_alloc_pages m n (frames k); Some (r, k\<lparr>frames := q\<rparr>) }),
     pm_free_pages = (\<lambda>p n k. do { q \<leftarrow> pm_free_pages m p n (frames k); Some (k\<lparr>frames := q\<rparr>) })\<rparr>"

abbreviation kernel_pmm :: "kmem pmm_manager" where
  "kernel_pmm \<equiv> shared_frames buddy_pmm_manager"

lemma shared_alloc:
  "alloc_pages (shared_frames m) n k = do { (r, q) \<leftarrow> alloc_pages m n (frames k); Some (r, k\<lparr>frames := q\<rparr>) }"
  by (simp add: alloc_pages_def shared_frames_def)

lemma shared_free:
  "free_pages (shared_frames m) p n k = do { q \<leftarrow> free_pages m p n (frames k); Some (k\<lparr>frames := q\<rparr>) }"
  by (simp add: free_pages_def shared_frames_def)

interpretation heap_frames: page_source kernel_pmm "\<lambda>k P. kheap t P k H" 2048 for t H
proof
  fix k P n r k'
  assume h: "kheap t P k H" and n: "0 < n" and a: "alloc_pages kernel_pmm n k = Some (r, k')"
  obtain F Sl R where inv: "slab_inv t P F Sl R k" and H: "std_kheap (slab_cache k)" "H = held_blocks (slab_cache k) (users (slab_cache k) Sl)"
    using h by (auto simp: kheap_def)
  obtain q where q: "alloc_pages buddy_pmm_manager n (frames k) = Some (r, q)" "k' = k\<lparr>frames := q\<rparr>"
    using a by (auto simp: shared_alloc bind_eq_Some_conv)
  show "case r of None \<Rightarrow> k' = k
      | Some p \<Rightarrow> {p..<p + n} \<subseteq> P \<and> n < 2048 \<and> kheap t (P - {p..<p + n}) k' H"
  proof (cases r)
    case None
    then show ?thesis using slab_inv_alloc_pages [OF inv n q(1)] q(2) by simp
  next
    case (Some p)
    have A: "{p..<p + n} \<subseteq> F" "slab_inv t (P - {p..<p + n}) (F - {p..<p + n}) Sl R k'"
      using slab_inv_alloc_pages [OF inv n q(1)] q(2) Some by auto
    have "n < 2048" using buddy.alloc_some(2) [OF slab_invD(2) [OF inv] n] q(1) Some by simp
    moreover have "kheap t (P - {p..<p + n}) k' H" using kheap_intro [OF A(2)] H q(2) by simp
    ultimately show ?thesis using A(1) slab_invD(4) [OF inv] Some by auto
  qed
qed

lemma heap_free_page:
  assumes h: "kheap t P k H" and p: "p \<notin> P" "p < 229376"
  shows "\<exists>k'. free_pages kernel_pmm p 1 k = Some k' \<and> kheap t (insert p P) k' H"
proof -
  obtain F Sl R where inv: "slab_inv t P F Sl R k" and H: "std_kheap (slab_cache k)" "H = held_blocks (slab_cache k) (users (slab_cache k) Sl)"
    using h by (auto simp: kheap_def)
  have "{p..<p + 1} \<inter> P = {}" "{p..<p + 1} \<subseteq> {..<229376}" using p by auto
  from slab_inv_free_pages [OF inv _ this] obtain q where
    q: "free_pages buddy_pmm_manager p 1 (frames k) = Some q" "slab_inv t ({p..<p + 1} \<union> P) (F \<union> {p..<p + 1}) Sl R (k\<lparr>frames := q\<rparr>)"
    by auto
  moreover have "{p..<p + 1} \<union> P = insert p P" by auto
  ultimately show ?thesis using kheap_intro [of t "insert p P" _ Sl R "k\<lparr>frames := q\<rparr>"] H by (auto simp: shared_free)
qed

section \<open>Where the blocks lie\<close>

text \<open>The page of an address of the kernel's direct map.\<close>

definition page_at :: "nat \<Rightarrow> nat" where
  "page_at a = (a - 0xC0000000) div 4096"

lemma block_pages:
  assumes "kheap t P k H" and "b \<in> H" and "a \<in> block_bytes b"
  shows "0xC0000000 \<le> a" "page_at a \<in> P"
proof -
  let ?kc = "slab_cache k"
  obtain F Sl R where inv: "slab_inv t P F Sl R k" and H: "H = held_blocks ?kc (users ?kc Sl)"
    using assms(1) by (auto simp: kheap_def)
  obtain c p i where x: "(c, p, i) \<in> users ?kc Sl" "b = (obj_at ?kc (c, p, i), unat (objsize (?kc c)))"
    using assms(2) unfolding H held_blocks_def by force
  have l: "(c, p, i) \<in> live ?kc Sl" using x(1) by (rule users_live)
  note R = obj_pa_range [OF slab_invD(1) [OF inv] live_obj_ok [OF inv l]]
  have at: "unat (obj_at ?kc (c, p, i)) = 3221225472 + obj_pa ?kc (c, p, i)"
    using R(3,4) by (simp add: obj_at_def unat_kaddr)
  have a: "3221225472 + obj_pa ?kc (c, p, i) \<le> a" "a < 3221225472 + obj_pa ?kc (c, p, i) + unat (objsize (?kc c))"
    using assms(3) at by (simp_all add: x(2) block_bytes_def)
  then show "0xC0000000 \<le> a" by simp
  have "4096 * p \<le> a - 3221225472" "a - 3221225472 < 4096 * (p + 2 ^ page_order (?kc c))" using a R(1,2) by linarith+
  then have "p \<le> page_at a" "page_at a < p + 2 ^ page_order (?kc c)"
    unfolding page_at_def by (simp_all add: less_eq_div_iff_mult_less_eq div_less_iff_less_mult mult.commute)
  then have "page_at a \<in> slab_pages ?kc c p" by (simp add: slab_pages_def)
  moreover obtain s js where "Sl s = Some (c, p, js)" using l by (auto simp: live_def)
  ultimately show "page_at a \<in> P" using layout_pages slab_invD(4) [OF inv] by blast
qed

lemma page_cell:
  assumes "0xC0000000 \<le> unat a" and "4 dvd unat a"
  shows "\<exists>j < 1024. a = cell (page_at (unat a)) j"
proof -
  let ?o = "unat a - 0xC0000000"
  have "4 dvd ?o" using assms by (intro dvd_diff_nat) auto
  then have "4 dvd ?o mod 4096" by (simp add: dvd_mod)
  then have o: "?o = 4096 * (?o div 4096) + 4 * (?o mod 4096 div 4)" by simp
  have "unat a = 0xC0000000 + ?o" using assms(1) by simp
  moreover have "a = of_nat (unat a)" by simp
  ultimately have "a = of_nat (0xC0000000 + ?o)" by metis
  also have "\<dots> = of_nat (0xC0000000 + (4096 * (?o div 4096) + 4 * (?o mod 4096 div 4)))" using o by simp
  also have "\<dots> = cell (?o div 4096) (?o mod 4096 div 4)"
    by (simp add: cell_def page2pa_of_nat VADDR_def KERNBASE_def)
  finally have "a = cell (page_at (unat a)) (?o mod 4096 div 4)" by (simp add: page_at_def)
  moreover have "?o mod 4096 div 4 < 1024" by (intro less_mult_imp_div_less) simp
  ultimately show ?thesis by blast
qed

section \<open>Sequences of operations\<close>

text \<open>The words a caller may write: those of the blocks it holds, given by address and requested size, and
  of the pages it took.\<close>

definition held_words :: "(u32 \<times> u32) set \<Rightarrow> nat set \<Rightarrow> u32 set" where
  "held_words V R = {a. 4 dvd unat a \<and> 0xC0000000 \<le> unat a \<and>
     (page_at (unat a) \<in> R \<or> (\<exists>(v, n) \<in> V. unat v \<le> unat a \<and> unat a < unat v + unat n))}"

text \<open>The operations of the kernel on its memory, in any order: \<open>V\<close> are the blocks held, \<open>R\<close> the pages
  held, \<open>d\<close> the page of the directory.\<close>

inductive memory_reach :: "nat \<Rightarrow> kmem vm \<Rightarrow> kmem vm \<Rightarrow> (u32 \<times> u32) set \<Rightarrow> nat set \<Rightarrow> bool" for d s0 where
  start: "memory_reach d s0 s0 {} {}"
| kmalloc: "memory_reach d s0 s V R \<Longrightarrow> kmalloc n (pmm s) = Some (Some v, k) \<Longrightarrow>
    memory_reach d s0 (s\<lparr>pmm := k\<rparr>) (insert (v, n) V) R"
| no_block: "memory_reach d s0 s V R \<Longrightarrow> kmalloc n (pmm s) = Some (None, k) \<Longrightarrow> memory_reach d s0 (s\<lparr>pmm := k\<rparr>) V R"
| kfree: "memory_reach d s0 s V R \<Longrightarrow> (v, n) \<in> V \<Longrightarrow> kfree v (pmm s) = Some k \<Longrightarrow>
    memory_reach d s0 (s\<lparr>pmm := k\<rparr>) (V - {(v, n)}) R"
| take_page: "memory_reach d s0 s V R \<Longrightarrow> alloc_page kernel_pmm s = Some (p, s') \<Longrightarrow> memory_reach d s0 s' V (insert p R)"
| give_page: "memory_reach d s0 s V R \<Longrightarrow> p \<in> R \<Longrightarrow> free_page kernel_pmm p s = Some s' \<Longrightarrow> memory_reach d s0 s' V (R - {p})"
| lookup: "memory_reach d s0 s V R \<Longrightarrow> ordinary la \<Longrightarrow> get_pte kernel_pmm (page2va d) la s = Some (p, s') \<Longrightarrow>
    memory_reach d s0 s' V R"
| map_page: "memory_reach d s0 s V R \<Longrightarrow> ordinary la \<Longrightarrow> page_insert kernel_pmm (page2va d) q la perm s = Some (r, s') \<Longrightarrow>
    memory_reach d s0 s' V R"
| unmap_page: "memory_reach d s0 s V R \<Longrightarrow> ordinary la \<Longrightarrow> page_remove kernel_pmm (page2va d) la s = Some s' \<Longrightarrow>
    memory_reach d s0 s' V R"
| put_word: "memory_reach d s0 s V R \<Longrightarrow> a \<in> held_words V R \<Longrightarrow> memory_reach d s0 (store a w s) V R"

text \<open>The heap \<open>H\<close> lies in the pages \<open>G\<close> without \<open>R\<close>; neither belongs to a table.\<close>

definition heap_rel :: "block set \<Rightarrow> nat set \<Rightarrow> kmem \<Rightarrow> nat set \<Rightarrow> bool" where
  "heap_rel H R k G \<longleftrightarrow> R \<subseteq> G \<and> kheap Null (G - R) k H"

interpretation heap_data: page_source kernel_pmm "heap_rel H R" 2048 for H R
  unfolding heap_rel_def [abs_def] by (rule heap_frames.reserved_source)

definition memory_inv :: "nat \<Rightarrow> kmem vm \<Rightarrow> (u32 \<times> u32) set \<Rightarrow> nat set \<Rightarrow> bool" where
  "memory_inv d s V R \<longleftrightarrow> R \<subseteq> {..<229376} \<and> inj_on fst V \<and>
     (\<exists>G H. vm_inv (heap_rel H R) d G s \<and> fst ` H = fst ` V \<and> (\<forall>(v, n) \<in> V. \<exists>m \<ge> unat n. (v, m) \<in> H))"

lemma memory_invI:
  assumes "R \<subseteq> {..<229376}" "inj_on fst V" "vm_inv (heap_rel H R) d G s" "fst ` H = fst ` V"
    and "\<And>v n. (v, n) \<in> V \<Longrightarrow> \<exists>m \<ge> unat n. (v, m) \<in> H"
  shows "memory_inv d s V R"
  using assms unfolding memory_inv_def by blast

lemma kheap_pages: "kheap t P k H \<Longrightarrow> P \<subseteq> {..<229376}"
  unfolding kheap_def slab_inv_def Let_def by blast

lemma held_word_cell:
  assumes inv: "vm_inv (heap_rel H R) d G s" and V: "\<forall>(v, n) \<in> V. \<exists>m \<ge> unat n. (v, m) \<in> H" and a: "a \<in> held_words V R"
  shows "\<exists>p \<in> G. \<exists>j < 1024. a = cell p j"
proof -
  have R: "R \<subseteq> G" and h: "kheap Null (G - R) (pmm s) H" using inv by (auto simp: vm_inv_def heap_rel_def)
  have "page_at (unat a) \<in> G"
  proof (cases "page_at (unat a) \<in> R")
    case False
    then obtain v n where v: "(v, n) \<in> V" "unat v \<le> unat a" "unat a < unat v + unat n" using a by (auto simp: held_words_def)
    then obtain m where m: "(v, m) \<in> H" "unat n \<le> m" using V by blast
    then have "unat a \<in> block_bytes (v, m)" using v by (simp add: block_bytes_def)
    then show ?thesis using block_pages(2) [OF h m(1)] by blast
  qed (use R in blast)
  moreover have "0xC0000000 \<le> unat a" "4 dvd unat a" using a by (auto simp: held_words_def)
  ultimately show ?thesis using page_cell [of a] by blast
qed

text \<open>A step of the object allocator changes neither the tables nor the pages it shares with them.\<close>

lemma heap_step:
  "vm_inv (heap_rel H R) d G s \<Longrightarrow> kheap Null (G - R) k H' \<Longrightarrow> vm_inv (heap_rel H' R) d G (s\<lparr>pmm := k\<rparr>)"
  by (simp add: vm_inv_def heap_rel_def)

lemma memory_reach_inv:
  assumes "memory_reach d s0 s V R" and "memory_inv d s0 {} {}"
  shows "memory_inv d s V R"
  using assms
proof (induction rule: memory_reach.induct)
  case (kmalloc s V R n v k)
  then obtain G H where I: "R \<subseteq> {..<229376}" "inj_on fst V" "vm_inv (heap_rel H R) d G s" "fst ` H = fst ` V"
    "\<forall>(v, n) \<in> V. \<exists>m \<ge> unat n. (v, m) \<in> H" by (auto simp: memory_inv_def)
  have h: "kheap Null (G - R) (pmm s) H" using I(3) by (simp add: vm_inv_def heap_rel_def)
  then obtain m where m: "unat n \<le> m" "(v, m) \<notin> H" "kheap Null (G - R) k (insert (v, m) H)"
    using kmalloc_cases [OF h, of n] kmalloc.hyps(2) by auto
  have "v \<notin> fst ` H" using blocks_apart_addr [OF kheap_apart [OF m(3)], of "(v, m)"] m(2) by fastforce
  then show ?case
    using I m heap_step [OF I(3) m(3)] by (intro memory_invI [where H = "insert (v, m) H" and G = G]) auto
next
  case (no_block s V R n k)
  then obtain G H where I: "R \<subseteq> {..<229376}" "inj_on fst V" "vm_inv (heap_rel H R) d G s" "fst ` H = fst ` V"
    "\<forall>(v, n) \<in> V. \<exists>m \<ge> unat n. (v, m) \<in> H" by (auto simp: memory_inv_def)
  have h: "kheap Null (G - R) (pmm s) H" using I(3) by (simp add: vm_inv_def heap_rel_def)
  then have "kheap Null (G - R) k H" using kmalloc_cases [OF h, of n] no_block.hyps(2) by simp
  then show ?case using I heap_step [OF I(3)] by (intro memory_invI [where H = H and G = G]) auto
next
  case (kfree s V R v n k)
  then obtain G H where I: "R \<subseteq> {..<229376}" "inj_on fst V" "vm_inv (heap_rel H R) d G s" "fst ` H = fst ` V"
    "\<forall>(v, n) \<in> V. \<exists>m \<ge> unat n. (v, m) \<in> H" by (auto simp: memory_inv_def)
  have h: "kheap Null (G - R) (pmm s) H" using I(3) by (simp add: vm_inv_def heap_rel_def)
  obtain m where m: "(v, m) \<in> H" using I(5) kfree.hyps(2) by blast
  then have k: "kheap Null (G - R) k (H - {(v, m)})" using slab.free_held [OF h m] kfree.hyps(3) by auto
  have V: "fst ` (V - {(v, n)}) = fst ` V - {v}" using inj_on_image_set_diff [OF I(2), of V "{(v, n)}"] kfree.hyps(2) by simp
  moreover have "inj_on fst H" using blocks_apart_addr [OF kheap_apart [OF h]] by (auto intro: inj_onI)
  then have "fst ` (H - {(v, m)}) = fst ` H - {v}" using inj_on_image_set_diff [of fst H H "{(v, m)}"] m by simp
  ultimately have f: "fst ` (H - {(v, m)}) = fst ` (V - {(v, n)})" using I(4) by simp
  show ?case
  proof (rule memory_invI [OF I(1) _ heap_step [OF I(3) k] f])
    show "inj_on fst (V - {(v, n)})" using I(2) by (rule inj_on_subset) blast
    fix v' n' assume v': "(v', n') \<in> V - {(v, n)}"
    then obtain m' where "unat n' \<le> m'" "(v', m') \<in> H" using I(5) by blast
    moreover have "v' \<in> fst ` (V - {(v, n)})" using imageI [OF v', of fst] by (simp only: fst_conv)
    then have "v' \<noteq> v" unfolding V by simp
    ultimately show "\<exists>k \<ge> unat n'. (v', k) \<in> H - {(v, m)}" by blast
  qed
next
  case (take_page s V R p s')
  then obtain G H where I: "R \<subseteq> {..<229376}" "inj_on fst V" "vm_inv (heap_rel H R) d G s" "fst ` H = fst ` V"
    "\<forall>(v, n) \<in> V. \<exists>m \<ge> unat n. (v, m) \<in> H" by (auto simp: memory_inv_def)
  have rel: "heap_rel H R (pmm s) G" and T: "tables_ok (mem s) d G" using I(3) by (auto simp: vm_inv_def)
  note A = heap_data.alloc_page_some [OF rel take_page.hyps(2)]
  have "p \<in> G - R" using A(1,2) by (auto simp: heap_rel_def)
  then have p: "p < 229376" using kheap_pages [of Null "G - R" "pmm s" H] rel by (auto simp: heap_rel_def)
  have "G - insert p R = G - {p} - R" by blast
  then have "vm_inv (heap_rel H (insert p R)) d G s'" using A T rel by (auto simp: vm_inv_def heap_rel_def)
  then show ?case using I p by (intro memory_invI [where H = H and G = G]) auto
next
  case (give_page s V R p s')
  then obtain G H where I: "R \<subseteq> {..<229376}" "inj_on fst V" "vm_inv (heap_rel H R) d G s" "fst ` H = fst ` V"
    "\<forall>(v, n) \<in> V. \<exists>m \<ge> unat n. (v, m) \<in> H" by (auto simp: memory_inv_def)
  have h: "kheap Null (G - R) (pmm s) H" and RG: "R \<subseteq> G" using I(3) by (simp_all add: vm_inv_def heap_rel_def)
  have "p \<notin> G - R" "p < 229376" using give_page.hyps(2) I(1) by auto
  from heap_free_page [OF h this] give_page.hyps(3) have k: "kheap Null (insert p (G - R)) (pmm s') H" "mem s' = mem s"
    by (auto simp: free_page_def bind_eq_Some_conv)
  have "insert p (G - R) = G - (R - {p})" using RG give_page.hyps(2) by blast
  then have "vm_inv (heap_rel H (R - {p})) d G s'" using k I(3) RG by (auto simp: vm_inv_def heap_rel_def)
  then show ?case using I by (intro memory_invI [where H = H and G = G]) auto
next
  case (lookup s V R la p s')
  then obtain G H where I: "R \<subseteq> {..<229376}" "inj_on fst V" "vm_inv (heap_rel H R) d G s" "fst ` H = fst ` V"
    "\<forall>(v, n) \<in> V. \<exists>m \<ge> unat n. (v, m) \<in> H" by (auto simp: memory_inv_def)
  obtain G' where "vm_inv (heap_rel H R) d G' s'" using heap_data.get_pte_correct [OF I(3) lookup.hyps(2,3)] by blast
  then show ?case using I by (intro memory_invI [where H = H and G = G']) auto
next
  case (map_page s V R la q perm r s')
  then obtain G H where I: "R \<subseteq> {..<229376}" "inj_on fst V" "vm_inv (heap_rel H R) d G s" "fst ` H = fst ` V"
    "\<forall>(v, n) \<in> V. \<exists>m \<ge> unat n. (v, m) \<in> H" by (auto simp: memory_inv_def)
  obtain G' where "vm_inv (heap_rel H R) d G' s'" using heap_data.page_insert_correct [OF I(3) map_page.hyps(2,3)] by blast
  then show ?case using I by (intro memory_invI [where H = H and G = G']) auto
next
  case (unmap_page s V R la s')
  then obtain G H where I: "R \<subseteq> {..<229376}" "inj_on fst V" "vm_inv (heap_rel H R) d G s" "fst ` H = fst ` V"
    "\<forall>(v, n) \<in> V. \<exists>m \<ge> unat n. (v, m) \<in> H" by (auto simp: memory_inv_def)
  obtain G' where "vm_inv (heap_rel H R) d G' s'" using heap_data.page_remove_correct [OF I(3) unmap_page.hyps(2,3)] by blast
  then show ?case using I by (intro memory_invI [where H = H and G = G']) auto
next
  case (put_word s V R a w)
  then obtain G H where I: "R \<subseteq> {..<229376}" "inj_on fst V" "vm_inv (heap_rel H R) d G s" "fst ` H = fst ` V"
    "\<forall>(v, n) \<in> V. \<exists>m \<ge> unat n. (v, m) \<in> H" by (auto simp: memory_inv_def)
  obtain p j where "p \<in> G" "j < 1024" "a = cell p j" using held_word_cell [OF I(3,5) put_word.hyps(2)] by blast
  then have "vm_inv (heap_rel H R) d G (store a w s)" using I(3) spare_store(1) by (simp add: vm_inv_def)
  then show ?case using I by (intro memory_invI [where H = H and G = G]) auto
qed simp

section \<open>Nothing overlaps\<close>

text \<open>The pages of the directory and of the tables it names.\<close>

definition table_pages :: "(u32 \<Rightarrow> u32) \<Rightarrow> nat \<Rightarrow> nat set" where
  "table_pages \<mu> d = insert d {frame (\<mu> (cell d i)) |i. i < 1024 \<and> i \<noteq> self_slot \<and> present (\<mu> (cell d i))}"

lemma tables_ok_pages: "tables_ok \<mu> d G \<Longrightarrow> G \<inter> table_pages \<mu> d = {}"
  unfolding tables_ok_def table_pages_def by blast

abbreviation bytes_of :: "u32 \<times> u32 \<Rightarrow> nat set" where
  "bytes_of b \<equiv> {unat (fst b)..<unat (fst b) + unat (snd b)}"

lemma memory_inv_apart:
  assumes "memory_inv d s V R"
  shows "b \<in> V \<Longrightarrow> bytes_of b \<subseteq> {0xC0000000..<2 ^ 32} \<and> page_at ` bytes_of b \<inter> (R \<union> table_pages (mem s) d) = {}"
    and "b \<in> V \<Longrightarrow> b' \<in> V \<Longrightarrow> b \<noteq> b' \<Longrightarrow> bytes_of b \<inter> bytes_of b' = {}"
    and "R \<inter> table_pages (mem s) d = {}"
    and "a \<in> held_words V R \<Longrightarrow> ordinary la \<Longrightarrow> translate (mem (store a w s)) d la = translate (mem s) d la"
proof -
  obtain G H where I: "inj_on fst V" "vm_inv (heap_rel H R) d G s" "\<forall>(v, n) \<in> V. \<exists>m \<ge> unat n. (v, m) \<in> H"
    using assms by (auto simp: memory_inv_def)
  have R: "R \<subseteq> G" and h: "kheap Null (G - R) (pmm s) H" and T: "tables_ok (mem s) d G"
    using I(2) by (auto simp: vm_inv_def heap_rel_def)
  note apart = kheap_apart [OF h, unfolded blocks_apart_def]
  have block: "\<exists>m. (fst b, m) \<in> H \<and> bytes_of b \<subseteq> block_bytes (fst b, m)" if "b \<in> V" for b
  proof -
    obtain v n where b: "b = (v, n)" by (cases b)
    then obtain m where "unat n \<le> m" "(v, m) \<in> H" using I(3) \<open>b \<in> V\<close> by blast
    then show ?thesis by (intro exI [of _ m]) (auto simp: b block_bytes_def)
  qed
  show "bytes_of b \<subseteq> {0xC0000000..<2 ^ 32} \<and> page_at ` bytes_of b \<inter> (R \<union> table_pages (mem s) d) = {}" if b: "b \<in> V"
  proof -
    obtain m where m: "(fst b, m) \<in> H" "bytes_of b \<subseteq> block_bytes (fst b, m)" using block [OF b] by blast
    have "unat (fst b) + m \<le> 2 ^ 32" using apart m(1) by fastforce
    then have top: "a < 2 ^ 32" if "a \<in> bytes_of b" for a using subsetD [OF m(2) that] by (simp add: block_bytes_def)
    have page: "0xC0000000 \<le> a" "page_at a \<in> G - R" if "a \<in> bytes_of b" for a
      using block_pages [OF h m(1) subsetD [OF m(2) that]] by blast+
    have "bytes_of b \<subseteq> {0xC0000000..<2 ^ 32}" 
    proof
      fix a assume "a \<in> bytes_of b"
      then show "a \<in> {0xC0000000..<2 ^ 32}" unfolding atLeastLessThan_iff [of a "0xC0000000"] by (intro conjI top page(1))
    qed
    moreover have "page_at a \<notin> R \<union> table_pages (mem s) d" if "a \<in> bytes_of b" for a
      using page(2) [OF that] tables_ok_pages [OF T] by blast
    then have "page_at ` bytes_of b \<inter> (R \<union> table_pages (mem s) d) = {}" by (simp only: disjoint_iff image_iff) blast
    ultimately show ?thesis by (rule conjI)
  qed
  show "bytes_of b \<inter> bytes_of b' = {}" if b: "b \<in> V" "b' \<in> V" "b \<noteq> b'"
  proof -
    obtain m m' where m: "(fst b, m) \<in> H" "bytes_of b \<subseteq> block_bytes (fst b, m)"
      "(fst b', m') \<in> H" "bytes_of b' \<subseteq> block_bytes (fst b', m')" using block [OF b(1)] block [OF b(2)] by blast
    have "(fst b, m) \<noteq> (fst b', m')" using inj_onD [OF I(1) _ b(1,2)] b(3) by blast
    then have "block_bytes (fst b, m) \<inter> block_bytes (fst b', m') = {}" using conjunct2 [OF apart] m(1,3) by blast
    then show ?thesis using m(2,4) by blast
  qed
  show "R \<inter> table_pages (mem s) d = {}" using R tables_ok_pages [OF T] by blast
  assume a: "a \<in> held_words V R" and o: "ordinary la"
  obtain p j where "p \<in> G" "j < 1024" "a = cell p j" using held_word_cell [OF I(2,3) a] by blast
  then show "translate (mem (store a w s)) d la = translate (mem s) d la" using spare_store(3) [OF T _ _ o] by simp
qed

text \<open>The memory of the kernel that \<open>pmm_init\<close> leaves.\<close>

definition running :: "boot \<Rightarrow> kmem vm" where
  "running b = \<lparr>mem = mem (bo_vm b), cr3 = cr3 (bo_vm b), tlb = tlb (bo_vm b), pmm = memory (bo_kernel b)\<rparr>"

lemma memory_inv_start:
  assumes "vm_inv (buddy_rel Null) d F (bo_vm b)" and "kheap Null F (memory (bo_kernel b)) {}"
  shows "memory_inv d (running b) {} {}"
  using assms by (intro memory_invI [where G = F and H = "{}"]) (auto simp: vm_inv_def heap_rel_def running_def)



end
