(* ===== verification/Bootmain.thy ===== *)
theory Bootmain
  imports Cstring
begin

text \<open>
  boot/setup/main.c and libs/elf.h: the loader that reads the kernel, an ELF file, from the first IDE disk and enters it.
  The disk is not code of the repository: it is a parameter, the functions by which a program reads and writes its
  ports, and what the loader relies on is the predicate \<open>ata_disk\<close>: the drive becomes ready after some polls, keeps
  the registers that are written, and after the command 0x20 delivers the words of the sector with the 28-bit number in
  its registers, one with each read of the data port while it is ready.
\<close>

section \<open>Ports\<close>

record 'd disk =
  dk_inb :: "u16 \<Rightarrow> 'd \<Rightarrow> u8 \<times> 'd"
  dk_outb :: "u16 \<Rightarrow> u8 \<Rightarrow> 'd \<Rightarrow> 'd"
  dk_inl :: "u16 \<Rightarrow> 'd \<Rightarrow> u32 \<times> 'd"
  dk_outw :: "u16 \<Rightarrow> u16 \<Rightarrow> 'd \<Rightarrow> 'd"

definition store32 :: "u32 \<Rightarrow> u32 \<Rightarrow> bytes \<Rightarrow> bytes" where
  "store32 a w \<mu> = \<mu>(a := ucast w, a + 1 := ucast (drop_bit 8 w), a + 2 := ucast (drop_bit 16 w), a + 3 := ucast (drop_bit 24 w))"

text \<open>\<open>insl\<close> of libs/x86.h: \<open>cnt\<close> words from the port to \<open>addr\<close> upwards.\<close>

primrec insl :: "'d disk \<Rightarrow> u16 \<Rightarrow> nat \<Rightarrow> u32 \<Rightarrow> bytes \<times> 'd \<Rightarrow> bytes \<times> 'd" where
  "insl dk port 0 addr s = s"
| "insl dk port (Suc cnt) addr s =
     (let (w, d) = dk_inl dk port (snd s) in insl dk port cnt (addr + 4) (store32 addr w (fst s), d))"

section \<open>The loader\<close>

definition SECTSIZE :: u32 where "SECTSIZE = 512"
definition ELFHDR :: u32 where "ELFHDR = 0x10000"
definition RES_ADDR :: u32 where "RES_ADDR = 0x11000"
definition ELF_MAGIC :: u32 where "ELF_MAGIC = 0x464C457F"

partial_function (option) waitdisk :: "'d disk \<Rightarrow> 'd \<Rightarrow> 'd option" where
  "waitdisk dk d =
     (let (v, d) = dk_inb dk 0x1F7 d in if v AND 0xC0 \<noteq> 0x40 then waitdisk dk d else Some d)"

definition readsect :: "'d disk \<Rightarrow> u32 \<Rightarrow> u32 \<Rightarrow> bytes \<times> 'd \<Rightarrow> (bytes \<times> 'd) option" where
  "readsect dk dst secno s =
     do { d \<leftarrow> waitdisk dk (snd s);
          let d = dk_outb dk 0x1F2 1 d;
          let d = dk_outb dk 0x1F3 (ucast (secno AND 0xFF)) d;
          let d = dk_outb dk 0x1F4 (ucast (drop_bit 8 secno AND 0xFF)) d;
          let d = dk_outb dk 0x1F5 (ucast (drop_bit 16 secno AND 0xFF)) d;
          let d = dk_outb dk 0x1F6 (ucast (drop_bit 24 secno AND 0xF OR 0xE0)) d;
          let d = dk_outb dk 0x1F7 0x20 d;
          d \<leftarrow> waitdisk dk d;
          Some (insl dk 0x1F0 (unat (SECTSIZE div 4)) dst (fst s, d)) }"

partial_function (option) readseg_loop :: "'d disk \<Rightarrow> u32 \<Rightarrow> u32 \<Rightarrow> u32 \<Rightarrow> bytes \<times> 'd \<Rightarrow> (bytes \<times> 'd) option" where
  "readseg_loop dk end_va va secno s =
     (if va < end_va then do { s \<leftarrow> readsect dk va secno s; readseg_loop dk end_va (va + SECTSIZE) (secno + 1) s }
      else Some s)"

definition readseg :: "'d disk \<Rightarrow> u32 \<Rightarrow> u32 \<Rightarrow> u32 \<Rightarrow> bytes \<times> 'd \<Rightarrow> (bytes \<times> 'd) option" where
  "readseg dk va count offset s =
     (let end_va = va + count; va = va - offset mod SECTSIZE; secno = offset div SECTSIZE + 1
      in readseg_loop dk end_va va secno s)"

text \<open>The fields of \<open>struct elfhdr\<close> and \<open>struct proghdr\<close> that are read.\<close>

definition e_magic :: "bytes \<Rightarrow> u32 \<Rightarrow> u32" where "e_magic \<mu> p = load32 \<mu> p"
definition e_entry :: "bytes \<Rightarrow> u32 \<Rightarrow> u32" where "e_entry \<mu> p = load32 \<mu> (p + 24)"
definition e_phoff :: "bytes \<Rightarrow> u32 \<Rightarrow> u32" where "e_phoff \<mu> p = load32 \<mu> (p + 28)"
definition e_phnum :: "bytes \<Rightarrow> u32 \<Rightarrow> u16" where "e_phnum \<mu> p = load16 \<mu> (p + 44)"
definition p_offset :: "bytes \<Rightarrow> u32 \<Rightarrow> u32" where "p_offset \<mu> p = load32 \<mu> (p + 4)"
definition p_va :: "bytes \<Rightarrow> u32 \<Rightarrow> u32" where "p_va \<mu> p = load32 \<mu> (p + 8)"
definition p_memsz :: "bytes \<Rightarrow> u32 \<Rightarrow> u32" where "p_memsz \<mu> p = load32 \<mu> (p + 20)"
definition sizeof_proghdr :: u32 where "sizeof_proghdr = 32"

partial_function (option) load_segments :: "'d disk \<Rightarrow> u32 \<Rightarrow> u32 \<Rightarrow> bytes \<times> 'd \<Rightarrow> (bytes \<times> 'd) option" where
  "load_segments dk eph ph s =
     (if ph < eph then
        do { s \<leftarrow> readseg dk (p_va (fst s) ph AND 0xFFFFFF) (p_memsz (fst s) ph) (SECTSIZE * 2 + p_offset (fst s) ph) s;
             load_segments dk eph (ph + sizeof_proghdr) s }
      else Some s)"

text \<open>The loader jumps to an address and does not come back, or returns when the file is no ELF file.\<close>

datatype boot_result = Entered u32 | Bad

definition bootmain :: "'d disk \<Rightarrow> bytes \<times> 'd \<Rightarrow> (boot_result \<times> bytes \<times> 'd) option" where
  "bootmain dk s =
     do { s \<leftarrow> readseg dk ELFHDR (SECTSIZE * 8) (SECTSIZE * 2) s;
          if e_magic (fst s) ELFHDR \<noteq> ELF_MAGIC
          then Some (Bad, fst s, dk_outw dk 0x8A00 0x8E00 (dk_outw dk 0x8A00 0x8A00 (snd s)))
          else do { let ph = ELFHDR + e_phoff (fst s) ELFHDR;
                    let eph = ph + sizeof_proghdr * ucast (e_phnum (fst s) ELFHDR);
                    s \<leftarrow> load_segments dk eph ph s;
                    s \<leftarrow> readseg dk RES_ADDR (SECTSIZE * (8 + 116)) (SECTSIZE * 8000) s;
                    Some (Entered (e_entry (fst s) ELFHDR AND 0xFFFFFF), s) } }"

section \<open>What the loader relies on\<close>

text \<open>A word of a file given by its bytes.\<close>

definition le32 :: "(nat \<Rightarrow> u8) \<Rightarrow> nat \<Rightarrow> u32" where
  "le32 f k = ucast (f k) OR push_bit 8 (ucast (f (k + 1))) OR push_bit 16 (ucast (f (k + 2))) OR push_bit 24 (ucast (f (k + 3)))"

definition lba :: "(u16 \<Rightarrow> u8) \<Rightarrow> u32" where
  "lba r = ucast (r 0x1F3) OR push_bit 8 (ucast (r 0x1F4)) OR push_bit 16 (ucast (r 0x1F5)) OR push_bit 24 (ucast (r 0x1F6 AND 0xF))"

primrec polls :: "'d disk \<Rightarrow> nat \<Rightarrow> 'd \<Rightarrow> 'd" where
  "polls dk 0 d = d"
| "polls dk (Suc n) d = polls dk n (snd (dk_inb dk 0x1F7 d))"

text \<open>\<open>regs\<close>, \<open>ready\<close> and \<open>queue\<close> are the registers of the drive, whether its last status was ready, and the words
  it has still to deliver; \<open>disk\<close> are its bytes.\<close>

definition ata_disk ::
  "'d disk \<Rightarrow> ('d \<Rightarrow> u16 \<Rightarrow> u8) \<Rightarrow> ('d \<Rightarrow> bool) \<Rightarrow> ('d \<Rightarrow> u32 list) \<Rightarrow> (nat \<Rightarrow> u8) \<Rightarrow> bool" where
  "ata_disk dk regs ready queue disk \<longleftrightarrow>
     (\<forall>d. \<exists>n. fst (dk_inb dk 0x1F7 (polls dk n d)) AND 0xC0 = 0x40) \<and>
     (\<forall>d v d'. dk_inb dk 0x1F7 d = (v, d') \<longrightarrow> regs d' = regs d \<and> queue d' = queue d \<and> ready d' = (v AND 0xC0 = 0x40)) \<and>
     (\<forall>d port v. port \<in> {0x1F2, 0x1F3, 0x1F4, 0x1F5, 0x1F6} \<longrightarrow> ready d \<longrightarrow>
        regs (dk_outb dk port v d) = (regs d)(port := v) \<and> ready (dk_outb dk port v d)) \<and>
     (\<forall>d. ready d \<and> regs d 0x1F2 = 1 \<and> regs d 0x1F6 AND 0xE0 = 0xE0 \<longrightarrow>
        queue (dk_outb dk 0x1F7 0x20 d) = map (\<lambda>k. le32 disk (512 * unat (lba (regs d)) + 4 * k)) [0..<128]) \<and>
     (\<forall>d w ws. ready d \<and> queue d = w # ws \<longrightarrow>
        (\<exists>d'. dk_inl dk 0x1F0 d = (w, d') \<and> queue d' = ws \<and> ready d'))"

section \<open>Ranges of memory\<close>

text \<open>Memory with \<open>n\<close> bytes from \<open>a\<close> on replaced; the range may wrap around.\<close>

definition patch :: "u32 \<Rightarrow> nat \<Rightarrow> (nat \<Rightarrow> u8) \<Rightarrow> bytes \<Rightarrow> bytes" where
  "patch a n f \<mu> = (\<lambda>x. if unat (x - a) < n then f (unat (x - a)) else \<mu> x)"

lemma patch_0 [simp]: "patch a 0 f \<mu> = \<mu>"
  by (simp add: patch_def)

lemma unat_sub_shift:
  fixes x a :: u32
  shows "unat (x - (a + of_nat n)) = (if unat (of_nat n :: u32) \<le> unat (x - a) then unat (x - a) - unat (of_nat n :: u32)
    else 2 ^ 32 + unat (x - a) - unat (of_nat n :: u32))"
proof -
  have e: "x - (a + of_nat n) = (x - a) - of_nat n" by simp
  show ?thesis
  proof (cases "of_nat n \<le> x - a")
    case True
    then show ?thesis unfolding e by (simp add: unat_sub word_le_nat_alt)
  next
    case False
    then have "x - a < of_nat n" by simp
    then show ?thesis unfolding e by (simp add: unat_sub_if' word_le_nat_alt word_less_nat_alt)
  qed
qed

lemma patch_patch:
  assumes "n + m \<le> 2 ^ 32" and "n < 2 ^ 32"
  shows "patch (a + of_nat n) m (\<lambda>i. f (n + i)) (patch a n f \<mu>) = patch a (n + m) f \<mu>"
proof
  fix x
  have n: "unat (of_nat n :: u32) = n" using assms(2) by (intro unat_of_nat_u32) simp
  have lt: "unat (x - a) < 2 ^ 32" using unsigned_less [of "x - a"] by simp
  show "patch (a + of_nat n) m (\<lambda>i. f (n + i)) (patch a n f \<mu>) x = patch a (n + m) f \<mu> x"
    unfolding patch_def unat_sub_shift n using assms(1) lt by auto
qed

lemma store32_patch: "store32 a (le32 f k) \<mu> = patch a 4 (\<lambda>i. f (k + i)) \<mu>"
proof
  fix x
  have b: "ucast (le32 f k) = f k" "ucast (drop_bit 8 (le32 f k)) = f (k + 1)"
    "ucast (drop_bit 16 (le32 f k)) = f (k + 2)" "ucast (drop_bit 24 (le32 f k)) = f (k + 3)"
    by (rule bit_word_eqI, auto simp: le32_def bit_simps dest: bit_imp_le_length)+
  consider "x = a" | "x = a + 1" | "x = a + 2" | "x = a + 3" | "4 \<le> unat (x - a)"
  proof (cases "4 \<le> unat (x - a)")
    case False
    then obtain u where u: "unat (x - a) = u" "u < 4" by simp
    have "x - a = of_nat u" by (simp flip: u(1))
    moreover have "u \<in> {0, 1, 2, 3}" using u(2) by auto
    ultimately have "x - a \<in> {0, 1, 2, 3}" by auto
    then have "x \<in> {a, a + 1, a + 2, a + 3}" by (auto simp: diff_eq_eq add.commute)
    then show ?thesis using that by blast
  qed
  then show "store32 a (le32 f k) \<mu> x = patch a 4 (\<lambda>i. f (k + i)) \<mu> x"
  proof cases
    case 5
    then have "x \<noteq> a" "x \<noteq> a + 1" "x \<noteq> a + 2" "x \<noteq> a + 3" by auto
    then show ?thesis using 5 by (simp add: store32_def patch_def)
  qed (simp_all add: store32_def patch_def b)
qed

lemma ata_diskD:
  assumes "ata_disk dk regs ready queue disk"
  shows "\<exists>n. fst (dk_inb dk 0x1F7 (polls dk n d)) AND 0xC0 = 0x40"
    "dk_inb dk 0x1F7 d = (v, d') \<Longrightarrow> regs d' = regs d \<and> queue d' = queue d \<and> ready d' = (v AND 0xC0 = 0x40)"
    "port \<in> {0x1F2, 0x1F3, 0x1F4, 0x1F5, 0x1F6} \<Longrightarrow> ready d \<Longrightarrow>
       regs (dk_outb dk port v d) = (regs d)(port := v) \<and> ready (dk_outb dk port v d)"
    "ready d \<Longrightarrow> regs d 0x1F2 = 1 \<Longrightarrow> regs d 0x1F6 AND 0xE0 = 0xE0 \<Longrightarrow>
       queue (dk_outb dk 0x1F7 0x20 d) = map (\<lambda>k. le32 disk (512 * unat (lba (regs d)) + 4 * k)) [0..<128]"
    "ready d \<Longrightarrow> queue d = w # ws \<Longrightarrow> \<exists>d'. dk_inl dk 0x1F0 d = (w, d') \<and> queue d' = ws \<and> ready d'"
  using assms unfolding ata_disk_def by blast+

lemma insl_patch:
  assumes "ata_disk dk regs ready queue disk"
  shows "ready (snd s) \<Longrightarrow> queue (snd s) = map (\<lambda>k. le32 disk (q + 4 * k)) [m..<m + n] \<Longrightarrow> 4 * n \<le> 512 \<Longrightarrow>
    \<exists>d'. insl dk 0x1F0 n a s = (patch a (4 * n) (\<lambda>i. disk (q + 4 * m + i)) (fst s), d') \<and> ready d'"
proof (induction n arbitrary: m a s)
  case 0
  then show ?case by (cases s) auto
next
  case (Suc n)
  let ?w = "le32 disk (q + 4 * m)" and ?ws = "map (\<lambda>k. le32 disk (q + 4 * k)) [Suc m..<Suc m + n]"
  have "[m..<m + Suc n] = m # [Suc m..<Suc m + n]" by (subst upt_conv_Cons) simp_all
  then have "queue (snd s) = ?w # ?ws" using Suc.prems(2) by (simp only: list.map)
  then obtain d where d: "dk_inl dk 0x1F0 (snd s) = (?w, d)" "queue d = ?ws" "ready d"
    using ata_diskD(5) [OF assms Suc.prems(1)] by blast
  let ?s = "(store32 a ?w (fst s), d)"
  obtain d' where d': "insl dk 0x1F0 n (a + 4) ?s = (patch (a + 4) (4 * n) (\<lambda>i. disk (q + 4 * Suc m + i)) (fst ?s), d')" "ready d'"
    using Suc.IH [of ?s "Suc m" "a + 4"] d(2,3) Suc.prems(3) by auto
  have f: "(\<lambda>i. disk (q + 4 * Suc m + i)) = (\<lambda>i. disk (q + 4 * m + (4 + i)))" by (rule ext, rule arg_cong [where f = disk]) simp
  have "patch (a + of_nat 4) (4 * n) (\<lambda>i. disk (q + 4 * m + (4 + i))) (patch a 4 (\<lambda>i. disk (q + 4 * m + i)) (fst s)) =
      patch a (4 + 4 * n) (\<lambda>i. disk (q + 4 * m + i)) (fst s)"
    using Suc.prems(3) by (intro patch_patch) simp_all
  then have "patch (a + 4) (4 * n) (\<lambda>i. disk (q + 4 * Suc m + i)) (fst ?s) = patch a (4 * Suc n) (\<lambda>i. disk (q + 4 * m + i)) (fst s)"
    unfolding f fst_conv store32_patch by simp
  then have "insl dk 0x1F0 (Suc n) a s = (patch a (4 * Suc n) (\<lambda>i. disk (q + 4 * m + i)) (fst s), d')"
    using d(1) d'(1) by (simp only: insl.simps Let_def prod.case)
  then show ?case using d'(2) by blast
qed

section \<open>One sector\<close>

lemma waitdisk_ready:
  assumes "ata_disk dk regs ready queue disk"
  shows "\<exists>d'. waitdisk dk d = Some d' \<and> ready d' \<and> regs d' = regs d \<and> queue d' = queue d"
proof -
  obtain n where "fst (dk_inb dk 0x1F7 (polls dk n d)) AND 0xC0 = 0x40" using ata_diskD(1) [OF assms] by blast
  then show ?thesis
  proof (induction n arbitrary: d)
    case 0
    obtain v d' where i: "dk_inb dk 0x1F7 d = (v, d')" by (cases "dk_inb dk 0x1F7 d")
    then show ?case using 0 ata_diskD(2) [OF assms i] by (simp add: waitdisk.simps [of dk d])
  next
    case (Suc n)
    obtain v d1 where i: "dk_inb dk 0x1F7 d = (v, d1)" by (cases "dk_inb dk 0x1F7 d")
    have "fst (dk_inb dk 0x1F7 (polls dk n d1)) AND 0xC0 = 0x40" using Suc.prems by (simp add: i)
    from Suc.IH [OF this] obtain d' where
      d': "waitdisk dk d1 = Some d'" "ready d'" "regs d' = regs d1" "queue d' = queue d1" by blast
    then show ?case using ata_diskD(2) [OF assms i] i by (cases "v AND 0xC0 = 0x40") (auto simp: waitdisk.simps [of dk d])
  qed
qed

lemma lba_split:
  fixes n :: u32
  assumes "unat n < 2 ^ 28" and "r 0x1F3 = ucast (n AND 0xFF)" and "r 0x1F4 = ucast (drop_bit 8 n AND 0xFF)"
    and "r 0x1F5 = ucast (drop_bit 16 n AND 0xFF)" and "r 0x1F6 = ucast (drop_bit 24 n AND 0xF OR 0xE0)"
  shows "lba r = n" "r 0x1F6 AND 0xE0 = 0xE0"
proof -
  have m: "(0xFF :: u32) = mask 8" "(0xF :: u32) = mask 4" "(0xE0 :: u32) = push_bit 5 (mask 3)"
    "(0xF :: u8) = mask 4" "(0xE0 :: u8) = push_bit 5 (mask 3)"
    by (simp_all add: mask_eq_exp_minus_1 push_bit_eq_mult)
  have hi: "\<not> bit n k" if "28 \<le> k" for k
  proof -
    have "(2 :: nat) ^ 28 \<le> 2 ^ k" using that by (intro power_increasing) simp_all
    then have "unat n div 2 ^ k = 0" using assms(1) by (intro div_less) linarith
    then have "\<not> bit (unat n) k" by (simp add: bit_iff_odd)
    then show ?thesis by (auto simp: bit_unsigned_iff)
  qed
  have part: "ucast (r 0x1F6 AND 0xF) = (take_bit 4 (drop_bit 24 n) :: u32)"
    unfolding assms(5) m by (rule bit_word_eqI) (auto simp: bit_simps)
  show "lba r = n"
    unfolding lba_def part unfolding assms(2-4) m
  proof (rule bit_word_eqI)
    fix k assume "k < LENGTH(32)"
    then have "k < 32" by simp
    have hk: "\<not> bit n k \<or> k < 28" using hi [of k] by (cases "k < 28") auto
    from \<open>k < 32\<close> have "k < 8 \<or> (\<exists>j < 8. k = 8 + j) \<or> (\<exists>j < 8. k = 16 + j) \<or> (\<exists>j < 8. k = 24 + j)" by presburger
    then show "bit (ucast (ucast (n AND mask 8) :: u8) OR push_bit 8 (ucast (ucast (drop_bit 8 n AND mask 8) :: u8)) OR
        push_bit 16 (ucast (ucast (drop_bit 16 n AND mask 8) :: u8)) OR push_bit 24 (take_bit 4 (drop_bit 24 n))) k = bit n k"
      using hk by (elim disjE exE conjE) (auto simp: bit_simps dest: bit_imp_le_length)
  qed
  show "r 0x1F6 AND 0xE0 = 0xE0" unfolding assms(5) m by (rule bit_word_eqI) (auto simp: bit_simps)
qed

lemma readsect_reads:
  assumes A: "ata_disk dk regs ready queue disk" and n: "unat secno < 2 ^ 28"
  shows "\<exists>d'. readsect dk dst secno (\<mu>, d) = Some (patch dst 512 (\<lambda>i. disk (512 * unat secno + i)) \<mu>, d')"
proof -
  obtain d0 where d0: "waitdisk dk d = Some d0" "ready d0" using waitdisk_ready [OF A] by blast
  define d1 where "d1 = dk_outb dk 0x1F2 1 d0"
  define d2 where "d2 = dk_outb dk 0x1F3 (ucast (secno AND 0xFF)) d1"
  define d3 where "d3 = dk_outb dk 0x1F4 (ucast (drop_bit 8 secno AND 0xFF)) d2"
  define d4 where "d4 = dk_outb dk 0x1F5 (ucast (drop_bit 16 secno AND 0xFF)) d3"
  define d5 where "d5 = dk_outb dk 0x1F6 (ucast (drop_bit 24 secno AND 0xF OR 0xE0)) d4"
  have r1: "regs d1 = (regs d0)(0x1F2 := 1)" "ready d1"
    using ata_diskD(3) [OF A _ d0(2), of "0x1F2" 1] by (simp_all add: d1_def)
  have r2: "regs d2 = (regs d1)(0x1F3 := ucast (secno AND 0xFF))" "ready d2"
    using ata_diskD(3) [OF A _ r1(2), of "0x1F3"] by (simp_all add: d2_def)
  have r3: "regs d3 = (regs d2)(0x1F4 := ucast (drop_bit 8 secno AND 0xFF))" "ready d3"
    using ata_diskD(3) [OF A _ r2(2), of "0x1F4"] by (simp_all add: d3_def)
  have r4: "regs d4 = (regs d3)(0x1F5 := ucast (drop_bit 16 secno AND 0xFF))" "ready d4"
    using ata_diskD(3) [OF A _ r3(2), of "0x1F5"] by (simp_all add: d4_def)
  have r5: "regs d5 = (regs d4)(0x1F6 := ucast (drop_bit 24 secno AND 0xF OR 0xE0))" "ready d5"
    using ata_diskD(3) [OF A _ r4(2), of "0x1F6"] by (simp_all add: d5_def)
  have "regs d5 0x1F3 = ucast (secno AND 0xFF)" "regs d5 0x1F4 = ucast (drop_bit 8 secno AND 0xFF)"
    "regs d5 0x1F5 = ucast (drop_bit 16 secno AND 0xFF)" "regs d5 0x1F6 = ucast (drop_bit 24 secno AND 0xF OR 0xE0)"
    and one: "regs d5 0x1F2 = 1"
    by (simp_all add: r5(1) r4(1) r3(1) r2(1) r1(1))
  note L = lba_split [OF n this(1-4)]
  obtain d6 where d6: "waitdisk dk (dk_outb dk 0x1F7 0x20 d5) = Some d6" "ready d6" "queue d6 = queue (dk_outb dk 0x1F7 0x20 d5)"
    using waitdisk_ready [OF A] by blast
  have "queue d6 = map (\<lambda>k. le32 disk (512 * unat secno + 4 * k)) [0..<0 + 128]"
    using ata_diskD(4) [OF A r5(2) one L(2)] by (simp add: d6(3) L(1))
  then have "\<exists>d'. insl dk 0x1F0 128 dst (\<mu>, d6) =
      (patch dst (4 * 128) (\<lambda>i. disk (512 * unat secno + 4 * 0 + i)) (fst (\<mu>, d6)), d') \<and> ready d'"
    by (intro insl_patch [OF A]) (use d6(2) in simp_all)
  then obtain d' where "insl dk 0x1F0 128 dst (\<mu>, d6) = (patch dst 512 (\<lambda>i. disk (512 * unat secno + i)) \<mu>, d')" by auto
  moreover have "unat (SECTSIZE div 4) = 128" by (simp add: SECTSIZE_def)
  ultimately have "readsect dk dst secno (\<mu>, d) = Some (patch dst 512 (\<lambda>i. disk (512 * unat secno + i)) \<mu>, d')"
    using d0(1) d6(1) by (simp add: readsect_def Let_def flip: d1_def d2_def d3_def d4_def d5_def)
  then show ?thesis by blast
qed

section \<open>Segments\<close>

text \<open>The number of sectors that are read up to \<open>end_va\<close>.\<close>

definition sectors :: "u32 \<Rightarrow> u32 \<Rightarrow> nat" where
  "sectors va end_va = (unat end_va - unat va + 511) div 512"

lemma readseg_loop_reads:
  assumes A: "ata_disk dk regs ready queue disk"
  shows "n = sectors va end_va \<Longrightarrow> unat end_va + 511 < 2 ^ 32 \<Longrightarrow> unat secno + n \<le> 2 ^ 28 \<Longrightarrow>
    \<exists>d'. readseg_loop dk end_va va secno (\<mu>, d) = Some (patch va (512 * n) (\<lambda>i. disk (512 * unat secno + i)) \<mu>, d')"
proof (induction n arbitrary: va secno \<mu> d)
  case 0
  then have "\<not> va < end_va" by (simp add: sectors_def word_less_nat_alt)
  then show ?case by (simp add: readseg_loop.simps [of dk end_va va])
next
  case (Suc n)
  have lt: "va < end_va" using Suc.prems(1) by (cases "va < end_va") (auto simp: sectors_def word_less_nat_alt)
  then have u: "unat (va + SECTSIZE) = unat va + 512" "unat va < unat end_va"
    using Suc.prems(2) by (simp_all add: SECTSIZE_def word_less_nat_alt unat_word_ariths)
  have k: "n = sectors (va + SECTSIZE) end_va"
    using Suc.prems(1) u unfolding sectors_def u(1) by (cases "unat va + 512 \<le> unat end_va") auto
  have s: "unat (secno + 1) = unat secno + 1" "unat secno < 2 ^ 28" using Suc.prems(3) by (simp_all add: unat_word_ariths)
  obtain d1 where 1: "readsect dk va secno (\<mu>, d) = Some (patch va 512 (\<lambda>i. disk (512 * unat secno + i)) \<mu>, d1)"
    using readsect_reads [OF A s(2)] by blast
  have "unat (secno + 1) + n \<le> 2 ^ 28" using Suc.prems(3) s(1) by simp
  from Suc.IH [OF k Suc.prems(2) this, of "patch va 512 (\<lambda>i. disk (512 * unat secno + i)) \<mu>" d1] obtain d' where
    2: "readseg_loop dk end_va (va + SECTSIZE) (secno + 1) (patch va 512 (\<lambda>i. disk (512 * unat secno + i)) \<mu>, d1) =
      Some (patch (va + SECTSIZE) (512 * n) (\<lambda>i. disk (512 * unat (secno + 1) + i)) (patch va 512 (\<lambda>i. disk (512 * unat secno + i)) \<mu>), d')"
    by blast
  have f: "(\<lambda>i. disk (512 * unat (secno + 1) + i)) = (\<lambda>i. disk (512 * unat secno + (512 + i)))"
    by (rule ext, rule arg_cong [where f = disk]) (simp add: s(1))
  have va: "va + SECTSIZE = va + of_nat 512" by (simp add: SECTSIZE_def)
  have "512 * Suc n \<le> unat end_va - unat va + 511" using Suc.prems(1) by (simp add: sectors_def)
  then have "512 + 512 * n \<le> 2 ^ 32" using Suc.prems(2) by simp
  then have "patch (va + SECTSIZE) (512 * n) (\<lambda>i. disk (512 * unat (secno + 1) + i)) (patch va 512 (\<lambda>i. disk (512 * unat secno + i)) \<mu>) =
      patch va (512 * Suc n) (\<lambda>i. disk (512 * unat secno + i)) \<mu>"
    unfolding f va by (subst patch_patch) simp_all
  with 1 2 lt show ?case by (simp add: readseg_loop.simps [of dk end_va va])
qed

text \<open>The bytes of memory a call of \<open>readseg\<close> writes.\<close>

definition seg_start :: "u32 \<Rightarrow> u32 \<Rightarrow> u32" where
  "seg_start va off = va - off mod SECTSIZE"

definition seg_length :: "u32 \<Rightarrow> u32 \<Rightarrow> nat" where
  "seg_length count off = 512 * ((unat count + unat off mod 512 + 511) div 512)"

definition region :: "u32 \<Rightarrow> nat \<Rightarrow> u32 set" where
  "region a n = {x. unat (x - a) < n}"

lemma patch_outside: "x \<notin> region a n \<Longrightarrow> patch a n f \<mu> x = \<mu> x"
  by (simp add: region_def patch_def)

lemma region_iff: "unat a + n \<le> 2 ^ 32 \<Longrightarrow> x \<in> region a n \<longleftrightarrow> unat a \<le> unat x \<and> unat x < unat a + n"
proof -
  assume n: "unat a + n \<le> 2 ^ 32"
  have "unat x < 2 ^ 32" using unsigned_less [of x] by simp
  then show ?thesis using n by (auto simp: region_def unat_sub_if' word_le_nat_alt not_le)
qed

definition readable :: "u32 \<Rightarrow> u32 \<Rightarrow> u32 \<Rightarrow> bool" where
  "readable va count off \<longleftrightarrow> unat off mod 512 \<le> unat va \<and> unat va + unat count + 511 < 2 ^ 32"

lemma whole_sectors: "(m :: nat) \<le> 512 * ((m + 511) div 512)"
  using div_mult_mod_eq [of "m + 511" 512] mod_less_divisor [of 512 "m + 511"] by linarith

lemma readseg_reads:
  assumes A: "ata_disk dk regs ready queue disk" and ok: "readable va count off"
  shows "\<exists>\<mu>' d'. readseg dk va count off (\<mu>, d) = Some (\<mu>', d') \<and>
    (\<forall>i < unat count. \<mu>' (va + of_nat i) = disk (512 + unat off + i) \<and> va + of_nat i \<in> region (seg_start va off) (seg_length count off)) \<and>
    (\<forall>x. x \<notin> region (seg_start va off) (seg_length count off) \<longrightarrow> \<mu>' x = \<mu> x)"
proof -
  let ?r = "unat off mod 512" and ?lo = "seg_start va off"
  have r: "unat (off mod SECTSIZE) = ?r" by (simp add: SECTSIZE_def unat_mod)
  have le: "?r \<le> unat va" and top: "unat va + unat count + 511 < 2 ^ 32" using ok by (auto simp: readable_def)
  have lo: "unat ?lo = unat va - ?r" unfolding seg_start_def using le r by (simp add: unat_sub word_le_nat_alt)
  have "unat va + unat count < 4294967296" using top by simp
  then have e: "unat (va + count) = unat va + unat count" by (simp add: unat_word_ariths)
  have n: "512 * sectors ?lo (va + count) = seg_length count off"
    unfolding sectors_def seg_length_def e lo using le by (simp add: algebra_simps)
  have "unat off div 512 < 2 ^ 23" using unsigned_less [of off] by (intro less_mult_imp_div_less) simp
  then have "unat off div 512 + 1 < 4294967296" by simp
  moreover have "unat (off div SECTSIZE) = unat off div 512" by (simp add: SECTSIZE_def unat_div)
  ultimately have sec: "unat (off div SECTSIZE + 1) = unat off div 512 + 1" by (simp add: unat_word_ariths)
  have "sectors ?lo (va + count) \<le> 2 ^ 32 div 512" unfolding sectors_def using top e by (intro div_le_mono) simp
  then have small: "unat (off div SECTSIZE + 1) + sectors ?lo (va + count) \<le> 2 ^ 28"
    unfolding sec using \<open>unat off div 512 < 2 ^ 23\<close> by simp
  obtain d' where run: "readseg dk va count off (\<mu>, d) =
      Some (patch ?lo (seg_length count off) (\<lambda>i. disk (512 * (unat off div 512 + 1) + i)) \<mu>, d')"
    using readseg_loop_reads [OF A refl _ small, of \<mu> d] top unfolding e n sec
    by (auto simp: readseg_def Let_def seg_start_def)
  have "patch ?lo (seg_length count off) (\<lambda>i. disk (512 * (unat off div 512 + 1) + i)) \<mu> (va + of_nat i) = disk (512 + unat off + i) \<and>
      va + of_nat i \<in> region ?lo (seg_length count off)" if i: "i < unat count" for i
  proof -
    have a: "va + of_nat i - ?lo = off mod SECTSIZE + of_nat i" by (simp add: seg_start_def)
    have "?r < 512" by simp
    then have b: "?r + i < 4294967296" using i top by simp
    have "unat (of_nat i :: u32) = i" using i top by (intro unat_of_nat_u32) simp
    then have u: "unat (va + of_nat i - ?lo) = ?r + i" unfolding a unat_word_ariths(1) r using b by simp
    have "?r + i < seg_length count off"
    proof -
      have "unat count + ?r \<le> 512 * ((unat count + ?r + 511) div 512)" by (rule whole_sectors)
      then show ?thesis using i unfolding seg_length_def by linarith
    qed
    moreover have e: "512 * (unat off div 512 + 1) + (?r + i) = 512 + unat off + i" by simp
    ultimately show ?thesis unfolding patch_def region_def mem_Collect_eq u e by simp
  qed
  then show ?thesis using run patch_outside by blast
qed

section \<open>The kernel\<close>

text \<open>The segment of the program header at \<open>k\<close>: address, size and offset as the loader computes them.\<close>

definition segment :: "(nat \<Rightarrow> u8) \<Rightarrow> nat \<Rightarrow> u32 \<times> u32 \<times> u32" where
  "segment f k = (le32 f (k + 8) AND 0xFFFFFF, le32 f (k + 20), le32 f (k + 4))"

fun seg_region :: "u32 \<times> u32 \<times> u32 \<Rightarrow> u32 set" where
  "seg_region (va, sz, off) = region (seg_start va (1024 + off)) (seg_length sz (1024 + off))"

fun seg_readable :: "u32 \<times> u32 \<times> u32 \<Rightarrow> bool" where
  "seg_readable (va, sz, off) \<longleftrightarrow> readable va sz (1024 + off) \<and> unat off + 1024 < 2 ^ 32"

fun seg_loaded :: "(nat \<Rightarrow> u8) \<Rightarrow> bytes \<Rightarrow> u32 \<times> u32 \<times> u32 \<Rightarrow> bool" where
  "seg_loaded f \<mu> (va, sz, off) \<longleftrightarrow> (\<forall>i < unat sz. \<mu> (va + of_nat i) = f (unat off + i))"

abbreviation header_region :: "u32 set" where
  "header_region \<equiv> region ELFHDR 4096"

definition header_at :: "(nat \<Rightarrow> u8) \<Rightarrow> bytes \<Rightarrow> bool" where
  "header_at f \<mu> \<longleftrightarrow> (\<forall>k < 4096. \<mu> (ELFHDR + of_nat k) = f k)"

lemma header_load32:
  assumes "header_at f \<mu>" and "k + 4 \<le> 4096"
  shows "load32 \<mu> (ELFHDR + of_nat k) = le32 f k"
proof -
  have "\<mu> (ELFHDR + of_nat (k + j)) = f (k + j)" if "j < 4" for j
    using assms that by (simp add: header_at_def del: of_nat_add)
  from this [of 0] this [of 1] this [of 2] this [of 3] show ?thesis
    by (simp add: load32_def le32_def ac_simps)
qed

lemma header_region_mem: "k < 4096 \<Longrightarrow> ELFHDR + of_nat k \<in> header_region"
  by (simp add: region_def unat_of_nat_u32)

lemma header_fields:
  assumes "header_at f \<mu>" and "k + 32 \<le> 4096" and "p = ELFHDR + of_nat k"
  shows "(p_va \<mu> p AND 0xFFFFFF, p_memsz \<mu> p, p_offset \<mu> p) = segment f k"
proof -
  have "load32 \<mu> (p + of_nat j) = le32 f (k + j)" if "j \<le> 28" for j
    using header_load32 [OF assms(1), of "k + j"] assms(2) that by (simp add: assms(3) add.assoc)
  from this [of 8] this [of 20] this [of 4] show ?thesis
    by (simp add: p_va_def p_memsz_def p_offset_def segment_def)
qed

text \<open>Segments that can be read and overwrite neither the header nor each other.\<close>

definition segments_ok :: "(nat \<Rightarrow> u8) \<Rightarrow> nat \<Rightarrow> nat \<Rightarrow> bool" where
  "segments_ok f p n \<longleftrightarrow> (\<forall>i < n. seg_readable (segment f (p + 32 * i)) \<and> seg_region (segment f (p + 32 * i)) \<inter> header_region = {} \<and>
     (\<forall>j < i. seg_region (segment f (p + 32 * j)) \<inter> seg_region (segment f (p + 32 * i)) = {}))"

lemma load_one:
  assumes A: "ata_disk dk regs ready queue disk" and f: "f = (\<lambda>k. disk (1536 + k))" and ok: "seg_readable (va, sz, off)"
  shows "\<exists>\<mu>' d'. readseg dk va sz (SECTSIZE * 2 + off) (\<mu>, d) = Some (\<mu>', d') \<and> seg_loaded f \<mu>' (va, sz, off) \<and>
    (\<forall>i < unat sz. va + of_nat i \<in> seg_region (va, sz, off)) \<and> (\<forall>x. x \<notin> seg_region (va, sz, off) \<longrightarrow> \<mu>' x = \<mu> x)"
proof -
  have s: "SECTSIZE * 2 + off = 1024 + off" by (simp add: SECTSIZE_def)
  have "unat off + 1024 < 4294967296" using ok by simp
  then have u: "unat (1024 + off) = 1024 + unat off" by (simp add: unat_word_ariths)
  have e: "512 + unat (1024 + off) + i = 1536 + (unat off + i)" for i by (simp add: u)
  have "readable va sz (1024 + off)" using ok by simp
  from readseg_reads [OF A this, of \<mu> d] show ?thesis unfolding s f e seg_region.simps seg_loaded.simps by blast
qed

lemma load_segments_loads:
  assumes A: "ata_disk dk regs ready queue disk" and f: "f = (\<lambda>k. disk (1536 + k))"
  shows "header_at f \<mu> \<Longrightarrow> p + 32 * n \<le> 4096 \<Longrightarrow> segments_ok f p n \<Longrightarrow>
    \<exists>\<mu>' d'. load_segments dk (ELFHDR + of_nat (p + 32 * n)) (ELFHDR + of_nat p) (\<mu>, d) = Some (\<mu>', d') \<and> header_at f \<mu>' \<and>
      (\<forall>i < n. seg_loaded f \<mu>' (segment f (p + 32 * i))) \<and>
      (\<forall>x. (\<forall>i < n. x \<notin> seg_region (segment f (p + 32 * i))) \<longrightarrow> \<mu>' x = \<mu> x)"
proof (induction n arbitrary: p \<mu> d)
  case 0
  then show ?case by (simp add: load_segments.simps [of dk "ELFHDR + of_nat p"])
next
  case (Suc n)
  let ?ph = "ELFHDR + of_nat p" and ?eph = "ELFHDR + of_nat (p + 32 * Suc n)"
  obtain va sz off where seg: "segment f p = (va, sz, off)" by (cases "segment f p") auto
  have ok0: "seg_readable (va, sz, off)" "seg_region (va, sz, off) \<inter> header_region = {}"
    using Suc.prems(3) seg unfolding segments_ok_def by (metis add.right_neutral mult_0_right zero_less_Suc)+
  have later: "seg_region (va, sz, off) \<inter> seg_region (segment f (p + 32 * Suc i)) = {}" if "i < n" for i
    using Suc.prems(3) seg that unfolding segments_ok_def by (metis Suc_less_eq add.right_neutral mult_0_right zero_less_Suc)
  obtain \<mu>1 d1 where 1: "readseg dk va sz (SECTSIZE * 2 + off) (\<mu>, d) = Some (\<mu>1, d1)" "seg_loaded f \<mu>1 (va, sz, off)"
    "\<forall>i < unat sz. va + of_nat i \<in> seg_region (va, sz, off)" "\<forall>x. x \<notin> seg_region (va, sz, off) \<longrightarrow> \<mu>1 x = \<mu> x"
    using load_one [OF A f ok0(1)] by blast
  have h1: "header_at f \<mu>1"
    using Suc.prems(1) 1(4) ok0(2) header_region_mem unfolding header_at_def by (metis IntI empty_iff)
  have p1: "p + 32 + 32 * n \<le> 4096" using Suc.prems(2) by simp
  have sh: "p + 32 + 32 * i = p + 32 * Suc i" for i by simp
  have "segments_ok f (p + 32) n" using Suc.prems(3) unfolding segments_ok_def sh by (metis Suc_less_eq)
  from Suc.IH [OF h1 p1 this, of d1] obtain \<mu>2 d2 where
    2: "load_segments dk (ELFHDR + of_nat (p + 32 + 32 * n)) (ELFHDR + of_nat (p + 32)) (\<mu>1, d1) = Some (\<mu>2, d2)" "header_at f \<mu>2"
      "\<forall>i < n. seg_loaded f \<mu>2 (segment f (p + 32 * Suc i))"
      "\<forall>x. (\<forall>i < n. x \<notin> seg_region (segment f (p + 32 * Suc i))) \<longrightarrow> \<mu>2 x = \<mu>1 x" unfolding sh by blast
  have first: "seg_loaded f \<mu>2 (va, sz, off)"
  proof -
    have "\<mu>2 (va + of_nat i) = \<mu>1 (va + of_nat i)" if "i < unat sz" for i
      using 2(4) later 1(3) that by blast
    then show ?thesis using 1(2) by simp
  qed
  have lt: "?ph < ?eph" using Suc.prems(2) by (simp add: word_less_nat_alt unat_word_ariths unat_of_nat_u32 ELFHDR_def)
  have "segment f p = (p_va \<mu> ?ph AND 0xFFFFFF, p_memsz \<mu> ?ph, p_offset \<mu> ?ph)"
    using header_fields [OF Suc.prems(1) _ refl, of p] Suc.prems(2) by simp
  then have fields: "p_va \<mu> ?ph AND 0xFFFFFF = va" "p_memsz \<mu> ?ph = sz" "p_offset \<mu> ?ph = off" using seg by simp_all
  have nx: "?ph + sizeof_proghdr = ELFHDR + of_nat (p + 32)" by (simp add: sizeof_proghdr_def)
  have e: "p + 32 + 32 * n = p + 32 * Suc n" by simp
  have "load_segments dk ?eph ?ph (\<mu>, d) = Some (\<mu>2, d2)"
    by (subst load_segments.simps) (use lt 1(1) 2(1) in \<open>simp only: fst_conv fields if_True Option.bind.bind_lunit nx e\<close>)
  moreover have "seg_loaded f \<mu>2 (segment f (p + 32 * i))" if "i < Suc n" for i
    using that first 2(3) seg by (cases i) auto
  moreover have "\<mu>2 x = \<mu> x" if x: "\<forall>i < Suc n. x \<notin> seg_region (segment f (p + 32 * i))" for x
  proof -
    have "x \<notin> seg_region (va, sz, off)" using x seg by (metis add.right_neutral mult_0_right zero_less_Suc)
    then show ?thesis using x 1(4) 2(4) by (metis Suc_less_eq)
  qed
  ultimately show ?case using 2(2) by blast
qed

definition le16 :: "(nat \<Rightarrow> u8) \<Rightarrow> nat \<Rightarrow> u16" where
  "le16 f k = ucast (f k) OR push_bit 8 (ucast (f (k + 1)))"

abbreviation resource_region :: "u32 set" where
  "resource_region \<equiv> region RES_ADDR 63488"

text \<open>An ELF file whose program headers lie in its first page, with segments that keep clear of each other, of the
  page with the header and of the resources. \<open>phoff\<close> and \<open>phnum\<close> are the place and number of its program headers.\<close>

abbreviation phoff :: "(nat \<Rightarrow> u8) \<Rightarrow> nat" where "phoff f \<equiv> unat (le32 f 28)"
abbreviation phnum :: "(nat \<Rightarrow> u8) \<Rightarrow> nat" where "phnum f \<equiv> unat (le16 f 44)"

definition elf_ok :: "(nat \<Rightarrow> u8) \<Rightarrow> bool" where
  "elf_ok f \<longleftrightarrow> le32 f 0 = ELF_MAGIC \<and> phoff f + 32 * phnum f \<le> 4096 \<and> segments_ok f (phoff f) (phnum f) \<and>
     (\<forall>i < phnum f. seg_region (segment f (phoff f + 32 * i)) \<inter> resource_region = {})"

lemma regions_apart:
  "unat a + n \<le> 2 ^ 32 \<Longrightarrow> unat b + m \<le> 2 ^ 32 \<Longrightarrow> unat a + n \<le> unat b \<Longrightarrow> region a n \<inter> region b m = {}"
  using region_iff by fastforce

lemma header_resources_apart: "header_region \<inter> resource_region = {}"
  by (rule regions_apart) (simp_all add: ELFHDR_def RES_ADDR_def)

lemma header_read:
  assumes A: "ata_disk dk regs ready queue disk" and f: "f = (\<lambda>k. disk (1536 + k))"
  shows "\<exists>\<mu>1 d1. readseg dk ELFHDR (SECTSIZE * 8) (SECTSIZE * 2) (\<mu>, d) = Some (\<mu>1, d1) \<and> header_at f \<mu>1"
proof -
  have "readable ELFHDR (SECTSIZE * 8) (SECTSIZE * 2)" by (simp add: readable_def ELFHDR_def SECTSIZE_def)
  from readseg_reads [OF A this, of \<mu> d] show ?thesis by (auto simp: header_at_def f SECTSIZE_def)
qed

lemma resources_read:
  assumes A: "ata_disk dk regs ready queue disk"
  shows "\<exists>\<mu>1 d1. readseg dk RES_ADDR (SECTSIZE * (8 + 116)) (SECTSIZE * 8000) (\<mu>, d) = Some (\<mu>1, d1) \<and>
    (\<forall>i < 63488. \<mu>1 (RES_ADDR + of_nat i) = disk (4096512 + i)) \<and> (\<forall>x. x \<notin> resource_region \<longrightarrow> \<mu>1 x = \<mu> x)"
proof -
  have "readable RES_ADDR (SECTSIZE * (8 + 116)) (SECTSIZE * 8000)" by (simp add: readable_def RES_ADDR_def SECTSIZE_def)
  moreover have "region (seg_start RES_ADDR (SECTSIZE * 8000)) (seg_length (SECTSIZE * (8 + 116)) (SECTSIZE * 8000)) = resource_region"
    by (simp add: seg_start_def seg_length_def SECTSIZE_def)
  moreover have "unat (SECTSIZE * (8 + 116)) = 63488" "512 + unat (SECTSIZE * 8000) = 4096512" by (simp_all add: SECTSIZE_def)
  ultimately show ?thesis using readseg_reads [OF A, of RES_ADDR "SECTSIZE * (8 + 116)" "SECTSIZE * 8000" \<mu> d] by (simp only: simp_thms) blast
qed

lemma header_elf_fields:
  assumes "header_at f \<mu>"
  shows "e_magic \<mu> ELFHDR = le32 f 0" "e_entry \<mu> ELFHDR = le32 f 24" "e_phoff \<mu> ELFHDR = le32 f 28" "e_phnum \<mu> ELFHDR = le16 f 44"
proof -
  show "e_magic \<mu> ELFHDR = le32 f 0" "e_entry \<mu> ELFHDR = le32 f 24" "e_phoff \<mu> ELFHDR = le32 f 28"
    using header_load32 [OF assms, of 0] header_load32 [OF assms, of 24] header_load32 [OF assms, of 28]
    by (simp_all add: e_magic_def e_entry_def e_phoff_def)
  have "\<mu> (ELFHDR + of_nat 44) = f 44" "\<mu> (ELFHDR + of_nat 45) = f 45" using assms by (simp_all only: header_at_def)
  then show "e_phnum \<mu> ELFHDR = le16 f 44" by (simp add: e_phnum_def load16_def le16_def add.assoc)
qed

text \<open>C11. The loader loads the kernel. On a disk whose sectors from the fourth on hold an ELF file with
  segments that overlap nothing, \<open>bootmain\<close> ends by jumping to the entry point of the file (its low 24 bits), with every
  byte of every segment in memory where its program header says and the resources at \<open>RES_ADDR\<close>. If the file does
  not start with the magic number the loader returns.\<close>

theorem bootmain_loads_kernel:
  assumes A: "ata_disk dk regs ready queue disk" and f: "f = (\<lambda>k. disk (1536 + k))"
  shows "if le32 f 0 \<noteq> ELF_MAGIC then \<exists>s'. bootmain dk (\<mu>, d) = Some (Bad, s')
    else elf_ok f \<longrightarrow> (\<exists>\<mu>' d'. bootmain dk (\<mu>, d) = Some (Entered (le32 f 24 AND 0xFFFFFF), \<mu>', d') \<and>
      (\<forall>i < phnum f. seg_loaded f \<mu>' (segment f (phoff f + 32 * i))) \<and>
      (\<forall>i < 63488. \<mu>' (RES_ADDR + of_nat i) = disk (4096512 + i)))"
proof -
  obtain \<mu>1 d1 where 1: "readseg dk ELFHDR (SECTSIZE * 8) (SECTSIZE * 2) (\<mu>, d) = Some (\<mu>1, d1)" "header_at f \<mu>1"
    using header_read [OF A f] by blast
  note H = header_elf_fields [OF 1(2)]
  show ?thesis
  proof (cases "le32 f 0 = ELF_MAGIC")
    case False
    then show ?thesis using 1(1) H(1) by (simp add: bootmain_def)
  next
    case True
    have "\<exists>\<mu>' d'. bootmain dk (\<mu>, d) = Some (Entered (le32 f 24 AND 0xFFFFFF), \<mu>', d') \<and>
      (\<forall>i < phnum f. seg_loaded f \<mu>' (segment f (phoff f + 32 * i))) \<and>
      (\<forall>i < 63488. \<mu>' (RES_ADDR + of_nat i) = disk (4096512 + i))" if elf: "elf_ok f"
    proof -
      have ok: "phoff f + 32 * phnum f \<le> 4096" "segments_ok f (phoff f) (phnum f)"
        "\<And>i. i < phnum f \<Longrightarrow> seg_region (segment f (phoff f + 32 * i)) \<inter> resource_region = {}" using elf by (auto simp: elf_ok_def)
      from load_segments_loads [OF A f 1(2) ok(1,2), of d1] obtain \<mu>2 d2 where
        2: "load_segments dk (ELFHDR + of_nat (phoff f + 32 * phnum f)) (ELFHDR + of_nat (phoff f)) (\<mu>1, d1) = Some (\<mu>2, d2)"
          "header_at f \<mu>2" "\<forall>i < phnum f. seg_loaded f \<mu>2 (segment f (phoff f + 32 * i))" by blast
      obtain \<mu>3 d3 where 3: "readseg dk RES_ADDR (SECTSIZE * (8 + 116)) (SECTSIZE * 8000) (\<mu>2, d2) = Some (\<mu>3, d3)"
        "\<forall>i < 63488. \<mu>3 (RES_ADDR + of_nat i) = disk (4096512 + i)" "\<forall>x. x \<notin> resource_region \<longrightarrow> \<mu>3 x = \<mu>2 x"
        using resources_read [OF A] by blast
      have h3: "header_at f \<mu>3"
        using 2(2) 3(3) header_resources_apart header_region_mem unfolding header_at_def by (metis IntI empty_iff)
      have "seg_loaded f \<mu>3 (segment f (phoff f + 32 * i))" if i: "i < phnum f" for i
      proof -
        obtain va sz off where seg: "segment f (phoff f + 32 * i) = (va, sz, off)" by (cases "segment f (phoff f + 32 * i)") auto
        have "seg_readable (va, sz, off)" using ok(2) i seg unfolding segments_ok_def by metis
        then have "va + of_nat k \<in> seg_region (va, sz, off)" if "k < unat sz" for k using load_one [OF A f] that by blast
        then have "\<mu>3 (va + of_nat k) = \<mu>2 (va + of_nat k)" if "k < unat sz" for k using 3(3) ok(3) [OF i] seg that by auto
        then show ?thesis using 2(3) i seg by (metis seg_loaded.simps)
      qed
      moreover have "sizeof_proghdr * ucast (le16 f 44) = (of_nat (32 * phnum f) :: u32)" by (simp add: sizeof_proghdr_def)
      then have "bootmain dk (\<mu>, d) = Some (Entered (le32 f 24 AND 0xFFFFFF), \<mu>3, d3)"
        using 1(1) 2(1) 3(1) H True header_elf_fields(2) [OF h3] by (simp add: bootmain_def add.assoc)
      ultimately show ?thesis using 3(2) by blast
    qed
    then show ?thesis using True by simp
  qed
qed

text \<open>For the witness: a drive that is always ready, and a file with one segment of 600 bytes for the address 0x100000.\<close>

definition ready_drive :: "(nat \<Rightarrow> u8) \<Rightarrow> ((u16 \<Rightarrow> u8) \<times> u32 list) disk" where
  "ready_drive disk = \<lparr>dk_inb = (\<lambda>port d. (0x40, d)),
     dk_outb = (\<lambda>port v (r, q). if port = 0x1F7 then (r, map (\<lambda>k. le32 disk (512 * unat (lba r) + 4 * k)) [0..<128]) else (r(port := v), q)),
     dk_inl = (\<lambda>port (r, q). case q of [] \<Rightarrow> (0, r, []) | w # ws \<Rightarrow> (w, r, ws)),
     dk_outw = (\<lambda>port v d. d)\<rparr>"

lemma ready_drive_ata: "ata_disk (ready_drive disk) fst (\<lambda>_. True) snd disk"
  by (auto simp: ata_disk_def ready_drive_def)

definition small_elf :: "nat \<Rightarrow> u8" where
  "small_elf k = (if k < 84 then
     [0x7F, 0x45, 0x4C, 0x46, 1, 1, 1, 0, 0, 0, 0, 0, 0, 0, 0, 0, 2, 0, 3, 0, 1, 0, 0, 0, 0, 0, 0x10, 0, 0x34, 0, 0, 0,
      0, 0, 0, 0, 0, 0, 0, 0, 0x34, 0, 0x20, 0, 1, 0, 0x28, 0, 0, 0, 0, 0, 1, 0, 0, 0, 0, 0x10, 0, 0, 0, 0, 0x10, 0,
      0, 0, 0x10, 0, 0x58, 2, 0, 0, 0x58, 2, 0, 0, 5, 0, 0, 0, 0, 0x10, 0, 0] ! k else of_nat k)"

lemma small_elf_fields: "le32 small_elf 0 = ELF_MAGIC" "le32 small_elf 24 = 0x100000" "le32 small_elf 28 = 52" "le16 small_elf 44 = 1"
  "segment small_elf 52 = (0x100000, 600, 0x1000)"
  by (simp_all add: le32_def le16_def small_elf_def ELF_MAGIC_def segment_def)

lemma small_elf_ok: "elf_ok small_elf"
proof -
  have r: "seg_region (0x100000, 600, 0x1000) = region 0x100000 1024"
    by (simp add: seg_start_def seg_length_def SECTSIZE_def)
  have "header_region \<inter> region 0x100000 1024 = {}" "resource_region \<inter> region 0x100000 1024 = {}"
    by (rule regions_apart; simp add: ELFHDR_def RES_ADDR_def)+
  moreover have "seg_readable (0x100000, 600, 0x1000)" by (simp add: readable_def)
  ultimately have "segments_ok small_elf 52 1" "seg_region (segment small_elf 52) \<inter> resource_region = {}"
    unfolding segments_ok_def by (simp_all add: small_elf_fields r Int_commute del: seg_region.simps seg_readable.simps)
  then show ?thesis by (simp add: elf_ok_def small_elf_fields)
qed

theorem bootmain_loads_kernel_witness:
  "\<exists>\<mu>' d'. bootmain (ready_drive (\<lambda>k. small_elf (k - 1536))) (\<lambda>_. 0, \<lambda>_. 0, []) = Some (Entered 0x100000, \<mu>', d') \<and>
     \<mu>' 0x100000 = 0 \<and> \<mu>' 0x100101 = 1"
proof -
  let ?disk = "\<lambda>k. small_elf (k - 1536)"
  have f: "small_elf = (\<lambda>k. ?disk (1536 + k))" by simp
  obtain \<mu>' d' where R: "bootmain (ready_drive ?disk) (\<lambda>_. 0, \<lambda>_. 0, []) = Some (Entered 0x100000, \<mu>', d')"
    "seg_loaded small_elf \<mu>' (segment small_elf 52)"
    using bootmain_loads_kernel [OF ready_drive_ata f, of "\<lambda>_. 0" "(\<lambda>_. 0, [])"] small_elf_ok small_elf_fields by auto
  have b: "\<mu>' (0x100000 + of_nat i) = small_elf (4096 + i)" if "i < 600" for i
    using R(2) that by (simp add: small_elf_fields)
  have "\<mu>' 0x100000 = 0" "\<mu>' 0x100101 = 1" using b [of 0] b [of 257] by (simp_all add: small_elf_def)
  with R(1) show ?thesis by blast
qed

end
