(* ===== verification/Keybuf.thy ===== *)
theory Keybuf
  imports Console
begin

text \<open>
  libs/stringbuffer.c: the stack of characters \<open>StringBuffer\<close> over a caller's array, and the ring
  \<open>keybuf_t\<close> of 31 characters between the keyboard interrupt and the edit box. A \<open>StringBuffer\<close>
  is its base address, its top and its size over a byte memory.
\<close>

section \<open>The stack of characters\<close>

record StringBuffer =
  sb_base :: u32
  sb_top :: u32
  sb_stacksize :: int

definition buffer_init :: "u32 \<Rightarrow> int \<Rightarrow> StringBuffer" where
  "buffer_init b sz = \<lparr>sb_base = b, sb_top = b, sb_stacksize = sz\<rparr>"

definition buffer_gettop :: "bytes \<Rightarrow> StringBuffer \<Rightarrow> u8" where
  "buffer_gettop \<mu> sb = (if sb_top sb = sb_base sb then 0 else \<mu> (sb_top sb - 1))"

definition buffer_push :: "u8 \<Rightarrow> StringBuffer \<times> bytes \<Rightarrow> StringBuffer \<times> bytes" where
  "buffer_push ch = (\<lambda>(sb, \<mu>).
     if to_int (sb_top sb - sb_base sb) \<ge> sb_stacksize sb then (sb, \<mu>)
     else (sb\<lparr>sb_top := sb_top sb + 1\<rparr>, \<mu>(sb_top sb := ch)))"

definition buffer_pop :: "StringBuffer \<times> bytes \<Rightarrow> u8 \<times> StringBuffer \<times> bytes" where
  "buffer_pop = (\<lambda>(sb, \<mu>).
     if sb_top sb = sb_base sb then (0, sb, \<mu>)
     else let sb = sb\<lparr>sb_top := sb_top sb - 1\<rparr> in (\<mu> (sb_top sb), sb, \<mu>))"

section \<open>The keyboard buffer\<close>

record keybuf =
  kb_data :: "u8 list"
  kb_front :: int
  kb_rear :: int

definition keybuf_init :: "keybuf \<Rightarrow> keybuf" where
  "keybuf_init kb = kb\<lparr>kb_data := replicate 32 0, kb_front := 0, kb_rear := 0\<rparr>"

text \<open>\<open>keybuf_push\<close> without its debugging output; an index outside the array is undefined.\<close>

definition keybuf_put :: "u8 \<Rightarrow> keybuf \<Rightarrow> (bool \<times> keybuf) option" where
  "keybuf_put ch kb =
     (if kb_front kb - kb_rear kb = 1 then Some (False, kb)
      else if kb_front kb = 0 \<and> kb_rear kb = 31 then Some (False, kb)
      else if 0 \<le> kb_rear kb \<and> nat (kb_rear kb) < length (kb_data kb) then
        (let kb = kb\<lparr>kb_data := (kb_data kb)[nat (kb_rear kb) := ch], kb_rear := kb_rear kb + 1\<rparr>
         in Some (True, if kb_rear kb = 32 then kb\<lparr>kb_rear := 0\<rparr> else kb))
      else None)"

text \<open>\<open>pkb\<close> is the address of the buffer, which the first line of output shows.\<close>

definition keybuf_push :: "bytes \<Rightarrow> u32 \<Rightarrow> u8 \<Rightarrow> keybuf \<times> console \<Rightarrow> (bool \<times> keybuf \<times> console) option" where
  "keybuf_push \<mu> pkb ch = (\<lambda>(kb, con).
     do { (n, con) \<leftarrow> cprintf \<mu> (literal (''keybuf: %x  ch:%c'' @ [CHR 0x0A])) [pkb, scast ch] con;
          (r, kb) \<leftarrow> keybuf_put ch kb;
          con \<leftarrow> (if r then map_option snd (cprintf \<mu> (literal (''hello'' @ [CHR 0x0A])) [] con) else Some con);
          Some (r, kb, con) })"

definition keybuf_pop :: "keybuf \<Rightarrow> (u8 \<times> keybuf) option" where
  "keybuf_pop kb =
     (if kb_front kb = kb_rear kb then Some (0, kb)
      else if 0 \<le> kb_front kb \<and> nat (kb_front kb) < length (kb_data kb) then
        (let c = kb_data kb ! nat (kb_front kb); kb = kb\<lparr>kb_front := kb_front kb + 1\<rparr>
         in Some (c, if kb_front kb = 32 then kb\<lparr>kb_front := 0\<rparr> else kb))
      else None)"

section \<open>The stack is a bounded stack\<close>

text \<open>The bytes on the stack, bottom first.\<close>

definition stack_rel :: "StringBuffer \<times> bytes \<Rightarrow> u8 list \<Rightarrow> bool" where
  "stack_rel st xs \<longleftrightarrow> (case st of (sb, \<mu>) \<Rightarrow>
     0 \<le> sb_stacksize sb \<and> sb_stacksize sb < 2 ^ 31 \<and> int (length xs) \<le> sb_stacksize sb \<and>
     sb_top sb = sb_base sb + of_nat (length xs) \<and> at \<mu> (sb_base sb) xs)"

lemma stack_offset:
  assumes "n < 2 ^ 31"
  shows "to_int (b + of_nat n - b) = int n"
proof -
  have "(of_nat n :: u32) = word_of_int (int n)" by simp
  then have "sint (of_nat n :: u32) = signed_take_bit 31 (int n)" by (simp only: sint_sbintrunc') simp
  also have "\<dots> = int n" using assms by (simp add: signed_take_bit_int_eq_self_iff)
  finally show ?thesis by (simp add: to_int_def)
qed

lemma buffer_init_rel: "0 \<le> sz \<Longrightarrow> sz < 2 ^ 31 \<Longrightarrow> stack_rel (buffer_init b sz, \<mu>) []"
  by (simp add: stack_rel_def buffer_init_def)

lemma stack_top:
  assumes "stack_rel (sb, \<mu>) xs"
  shows "sb_top sb = sb_base sb \<longleftrightarrow> xs = []" and "buffer_gettop \<mu> sb = (if xs = [] then 0 else last xs)"
proof -
  have n: "length xs < 2 ^ 31" and t: "sb_top sb = sb_base sb + of_nat (length xs)" and a: "at \<mu> (sb_base sb) xs"
    using assms by (auto simp: stack_rel_def)
  have u: "unat (of_nat (length xs) :: u32) = length xs" using n by (simp add: unat_of_nat_u32)
  show e: "sb_top sb = sb_base sb \<longleftrightarrow> xs = []"
  proof
    assume "sb_top sb = sb_base sb"
    then have "(of_nat (length xs) :: u32) = 0" using t by simp
    then show "xs = []" using u by (metis length_0_conv unsigned_0)
  qed (simp add: t)
  show "buffer_gettop \<mu> sb = (if xs = [] then 0 else last xs)"
  proof (cases "xs = []")
    case False
    then have "of_nat (length xs) - 1 = (of_nat (length xs - 1) :: u32)" by (simp add: of_nat_diff Suc_leI)
    then have "sb_top sb - 1 = sb_base sb + of_nat (length xs - 1)" using t by (simp add: add_diff_eq [symmetric])
    moreover have "\<mu> (sb_base sb + of_nat (length xs - 1)) = xs ! (length xs - 1)"
      using a False unfolding at_nth by simp
    ultimately show ?thesis using False e by (simp add: buffer_gettop_def last_conv_nth)
  qed (use e in \<open>simp add: buffer_gettop_def\<close>)
qed

lemma buffer_push_correct:
  assumes "stack_rel st xs"
  shows "stack_rel (buffer_push ch st) (if int (length xs) < sb_stacksize (fst st) then xs @ [ch] else xs)"
proof -
  obtain sb \<mu> where st: "st = (sb, \<mu>)" by (cases st)
  have n: "length xs < 2 ^ 31" and t: "sb_top sb = sb_base sb + of_nat (length xs)" and a: "at \<mu> (sb_base sb) xs"
    using assms by (auto simp: stack_rel_def st)
  have "to_int (sb_top sb - sb_base sb) = int (length xs)" using stack_offset [OF n] t by simp
  moreover have "at (\<mu>(sb_base sb + of_nat (length xs) := ch)) (sb_base sb) (xs @ [ch])"
  proof -
    have "sb_base sb + of_nat i \<noteq> sb_base sb + of_nat (length xs)" if "i < length xs" for i
    proof
      assume "sb_base sb + of_nat i = sb_base sb + of_nat (length xs)"
      then have "unat (of_nat i :: u32) = unat (of_nat (length xs) :: u32)" by simp
      then show False using that n by (simp add: unat_of_nat_u32)
    qed
    then show ?thesis using a by (auto simp: at_nth nth_append less_Suc_eq)
  qed
  ultimately show ?thesis
    using assms t by (auto simp: st stack_rel_def buffer_push_def algebra_simps)
qed

lemma buffer_pop_correct:
  assumes "stack_rel st xs"
  shows "case buffer_pop st of (c, st') \<Rightarrow>
    c = (if xs = [] then 0 else last xs) \<and> stack_rel st' (butlast xs)"
proof -
  obtain sb \<mu> where st: "st = (sb, \<mu>)" by (cases st)
  note T = stack_top [OF assms [unfolded st]]
  show ?thesis
  proof (cases "xs = []")
    case True
    then show ?thesis using T assms by (simp add: st buffer_pop_def)
  next
    case False
    have t: "sb_top sb = sb_base sb + of_nat (length xs)" and a: "at \<mu> (sb_base sb) xs"
      and sz: "0 \<le> sb_stacksize sb" "sb_stacksize sb < 2 ^ 31" "int (length xs) \<le> sb_stacksize sb"
      using assms by (auto simp: stack_rel_def st)
    have "of_nat (length xs) - 1 = (of_nat (length xs - 1) :: u32)" using False by (simp add: of_nat_diff Suc_leI)
    then have "sb_top sb - 1 = sb_base sb + of_nat (length xs - 1)" using t by (simp add: add_diff_eq [symmetric])
    moreover have "at \<mu> (sb_base sb) (butlast xs)" using a by (simp add: at_nth nth_butlast)
    ultimately show ?thesis
      using T False sz by (simp add: st buffer_pop_def Let_def buffer_gettop_def stack_rel_def)
  qed
qed

section \<open>The keyboard buffer is a queue of 31 characters\<close>

definition keybuf_ok :: "keybuf \<Rightarrow> bool" where
  "keybuf_ok kb \<longleftrightarrow> length (kb_data kb) = 32 \<and> 0 \<le> kb_front kb \<and> kb_front kb < 32 \<and> 0 \<le> kb_rear kb \<and> kb_rear kb < 32"

definition keys :: "keybuf \<Rightarrow> u8 list" where
  "keys kb = ring_items 32 (kb_data kb) (nat (kb_front kb)) (nat (kb_rear kb))"

lemma keybuf_init_ok: "keybuf_ok (keybuf_init kb)" "keys (keybuf_init kb) = []"
  by (simp_all add: keybuf_init_def keybuf_ok_def keys_def)

lemma keybuf_full_iff:
  assumes "keybuf_ok kb"
  shows "length (keys kb) = 31 \<longleftrightarrow> kb_front kb - kb_rear kb = 1 \<or> kb_front kb = 0 \<and> kb_rear kb = 31"
proof -
  have "length (keys kb) = 31 \<longleftrightarrow> next_slot 32 (nat (kb_rear kb)) = nat (kb_front kb)"
    using ring_full_iff [of "nat (kb_front kb)" 32 "nat (kb_rear kb)" "kb_data kb"] assms
    by (auto simp: keybuf_ok_def keys_def)
  also have "\<dots> \<longleftrightarrow> kb_front kb - kb_rear kb = 1 \<or> kb_front kb = 0 \<and> kb_rear kb = 31"
    using assms by (auto simp: keybuf_ok_def)
  finally show ?thesis .
qed

lemma keys_bound: "keybuf_ok kb \<Longrightarrow> length (keys kb) \<le> 31"
proof -
  assume "keybuf_ok kb"
  have "(nat (kb_rear kb) + 32 - nat (kb_front kb)) mod 32 < 32" by simp
  then show ?thesis unfolding keys_def length_ring_items by linarith
qed

lemma keybuf_put_correct:
  assumes "keybuf_ok kb"
  shows "\<exists>kb'. keybuf_put ch kb = Some (length (keys kb) < 31, kb') \<and> keybuf_ok kb' \<and>
    keys kb' = (if length (keys kb) < 31 then keys kb @ [ch] else keys kb)"
proof (cases "length (keys kb) = 31")
  case True
  then show ?thesis using keybuf_full_iff [OF assms] assms by (auto simp: keybuf_put_def)
next
  case False
  then have nf: "\<not> (kb_front kb - kb_rear kb = 1)" "\<not> (kb_front kb = 0 \<and> kb_rear kb = 31)"
    using keybuf_full_iff [OF assms] by auto
  have r: "nat (kb_rear kb) < 32" "nat (kb_front kb) < 32" "length (kb_data kb) = 32"
    using assms by (auto simp: keybuf_ok_def)
  let ?kb = "kb\<lparr>kb_data := (kb_data kb)[nat (kb_rear kb) := ch],
    kb_rear := (if kb_rear kb + 1 = 32 then 0 else kb_rear kb + 1)\<rparr>"
  have put: "keybuf_put ch kb = Some (True, ?kb)"
    using nf r assms by (auto simp: keybuf_put_def Let_def keybuf_ok_def)
  have nx: "nat (kb_rear ?kb) = next_slot 32 (nat (kb_rear kb))" using assms by (auto simp: keybuf_ok_def)
  have "next_slot 32 (nat (kb_rear kb)) \<noteq> nat (kb_front kb)"
    using False ring_full_iff [OF r(2,1), of "kb_data kb"] by (auto simp: keys_def)
  from ring_items_push [OF r(2,1,3) this, of ch] have "keys ?kb = keys kb @ [ch]"
    unfolding keys_def nx by simp
  moreover have "keybuf_ok ?kb" using assms by (auto simp: keybuf_ok_def)
  ultimately show ?thesis using put False keys_bound [OF assms] by simp
qed

lemma keybuf_pop_correct:
  assumes "keybuf_ok kb"
  shows "case keys kb of
      [] \<Rightarrow> keybuf_pop kb = Some (0, kb)
    | c # cs \<Rightarrow> (\<exists>kb'. keybuf_pop kb = Some (c, kb') \<and> keybuf_ok kb' \<and> keys kb' = cs)"
proof (cases "kb_front kb = kb_rear kb")
  case True
  have "nat (kb_rear kb) < 32" using assms unfolding keybuf_ok_def by linarith
  then have "keys kb = []" using True by (simp add: keys_def)
  then show ?thesis using True by (simp add: keybuf_pop_def)
next
  case False
  have r: "nat (kb_front kb) < 32" "nat (kb_rear kb) < 32" "nat (kb_front kb) \<noteq> nat (kb_rear kb)"
    using assms False by (auto simp: keybuf_ok_def)
  let ?kb = "kb\<lparr>kb_front := (if kb_front kb + 1 = 32 then 0 else kb_front kb + 1)\<rparr>"
  have pop: "keybuf_pop kb = Some (kb_data kb ! nat (kb_front kb), ?kb)"
    using False assms by (auto simp: keybuf_pop_def Let_def keybuf_ok_def)
  have nx: "nat (kb_front ?kb) = next_slot 32 (nat (kb_front kb))" using assms by (auto simp: keybuf_ok_def)
  have k: "keys ?kb = ring_items 32 (kb_data kb) (next_slot 32 (nat (kb_front kb))) (nat (kb_rear kb))"
    unfolding keys_def nx by simp
  have "keys kb = kb_data kb ! nat (kb_front kb) # keys ?kb"
    unfolding k keys_def [of kb] by (rule ring_items_pop [OF r])
  moreover have "keybuf_ok ?kb" using assms by (auto simp: keybuf_ok_def)
  ultimately show ?thesis using pop by simp
qed

interpretation key_queue: fifo keybuf_ok keys 31 "\<lambda>ch kb. map_option snd (keybuf_put ch kb)" keybuf_pop 0
proof unfold_locales
  fix kb and ch :: u8
  assume "keybuf_ok kb" "length (keys kb) < 31"
  then show "\<exists>s'. map_option snd (keybuf_put ch kb) = Some s' \<and> keybuf_ok s' \<and> keys s' = keys kb @ [ch]"
    using keybuf_put_correct [of kb ch] by auto
next
  fix kb assume "keybuf_ok kb"
  then show "case keys kb of [] \<Rightarrow> keybuf_pop kb = Some (0, kb)
    | c # cs \<Rightarrow> \<exists>s'. keybuf_pop kb = Some (c, s') \<and> keybuf_ok s' \<and> keys s' = cs"
    by (rule keybuf_pop_correct)
qed

lemma keybuf_push_correct:
  assumes "keybuf_ok kb"
  shows "\<exists>kb' p. keybuf_push \<mu> pkb ch (kb, con) = Some (length (keys kb) < 31, kb', con\<lparr>ports := p\<rparr>) \<and>
    keybuf_ok kb' \<and> keys kb' = (if length (keys kb) < 31 then keys kb @ [ch] else keys kb)"
proof -
  let ?fmt = "literal (''keybuf: %x  ch:%c'' @ [CHR 0x0A])"
  let ?num = "num_chars 16 (unat pkb) (-1) 0x20"
  let ?w = "scast ch :: u32"
  have f: "\<exists>cs. \<forall>d. vprintfmt cputch \<mu> ?fmt [pkb, ?w] d = Some (fold cputch cs d)"
  proof -
    have u: "{0..<8} = {0, 1, 2, 3, 4, 5, 6, 7 :: nat}" "{10..<15} = {10, 11, 12, 13, 14 :: nat}" "{17..<18} = {17 :: nat}"
      by auto
    have p1: "\<forall>k \<in> {0..<8}. ?fmt k \<noteq> 0 \<and> ?fmt k \<noteq> 0x25" and p2: "\<forall>k \<in> {10..<15}. ?fmt k \<noteq> 0 \<and> ?fmt k \<noteq> 0x25"
      and p3: "\<forall>k \<in> {17..<18}. ?fmt k \<noteq> 0 \<and> ?fmt k \<noteq> 0x25"
      unfolding u by (simp_all add: literal_def)
    have c: "?fmt 8 = 0x25" "uint (?fmt (Suc 8)) = 0x78" "?fmt 15 = 0x25" "uint (?fmt (Suc 15)) = 0x63" "?fmt 18 = 0"
      by (simp_all add: literal_def)
    have conv: "is_conversion 0x78" "is_conversion 0x63" by (simp_all add: is_conversion_def)
    define cs where "cs = map (\<lambda>k. uint (?fmt k)) [0..<8] @ ?num @ map (\<lambda>k. uint (?fmt k)) [10..<15] @
      [to_int ?w] @ map (\<lambda>k. uint (?fmt k)) [17..<18]"
    have "vprintfmt cputch \<mu> ?fmt [pkb, ?w] d = Some (fold cputch cs d)" for d
    proof -
      let ?L = "\<lambda>i ap d. fmt_loop (printfmt_error cputch \<mu>) cputch \<mu> ?fmt Text i ap d"
      let ?t = "\<lambda>i j. map (\<lambda>k. uint (?fmt k)) [i..<j]"
      have "?L 0 [pkb, ?w] d = ?L 8 [pkb, ?w] (fold cputch (?t 0 8) d)" by (rule fmt_plain [OF _ p1]) simp
      also have "\<dots> = ?L (Suc (Suc 8)) [?w] (fold cputch ?num (fold cputch (?t 0 8) d))"
        by (rule fmt_conversion [where fmt = ?fmt and i = 8, OF c(1,2) conv(1) convert_hex])
      also have "\<dots> = ?L 10 [?w] (fold cputch (?t 0 8 @ ?num) d)" by simp
      also have "\<dots> = ?L 15 [?w] (fold cputch (?t 10 15) (fold cputch (?t 0 8 @ ?num) d))"
        by (rule fmt_plain [OF _ p2]) simp
      also have "\<dots> = ?L (Suc (Suc 15)) [] (cputch (to_int ?w) (fold cputch (?t 10 15) (fold cputch (?t 0 8 @ ?num) d)))"
        by (rule fmt_conversion [where fmt = ?fmt and i = 15, OF c(3,4) conv(2) convert_char])
      also have "\<dots> = ?L 17 [] (fold cputch (?t 0 8 @ ?num @ ?t 10 15 @ [to_int ?w]) d)" by simp
      also have "\<dots> = ?L 18 [] (fold cputch (?t 17 18) (fold cputch (?t 0 8 @ ?num @ ?t 10 15 @ [to_int ?w]) d))"
        by (rule fmt_plain [OF _ p3]) simp
      also have "\<dots> = Some (fold cputch (?t 17 18) (fold cputch (?t 0 8 @ ?num @ ?t 10 15 @ [to_int ?w]) d))"
        by (rule fmt_end [where fmt = ?fmt and i = 18, OF c(5)])
      finally show ?thesis unfolding vprintfmt_def cs_def by (simp only: fold_append comp_apply append_assoc)
    qed
    then show ?thesis by blast
  qed
  then obtain cs where cs: "\<And>d. vprintfmt cputch \<mu> ?fmt [pkb, ?w] d = Some (fold cputch cs d)" by blast
  obtain p n where "fold cputch cs (con, 0) = (con\<lparr>ports := p\<rparr>, n)" using cputch_fold by blast
  then have g: "cprintf \<mu> ?fmt [pkb, ?w] con = Some (n, con\<lparr>ports := p\<rparr>)"
    unfolding cprintf_def vcprintf_def cs by simp
  have "\<forall>c \<in> set (''hello'' @ [CHR 0x0A]). c \<noteq> CHR 0x25 \<and> c \<noteq> CHR 0x00" by simp
  from cprintf_text [OF this] obtain n' p' where
    h: "cprintf \<mu> (literal (''hello'' @ [CHR 0x0A])) [] (con\<lparr>ports := p\<rparr>) = Some (n', con\<lparr>ports := p'\<rparr>)"
    by (metis (no_types) console.update_convs(6) console.surjective)
  from keybuf_put_correct [OF assms, of ch] obtain kb' where
    k: "keybuf_put ch kb = Some (length (keys kb) < 31, kb')" "keybuf_ok kb'"
      "keys kb' = (if length (keys kb) < 31 then keys kb @ [ch] else keys kb)" by blast
  show ?thesis
    using g h k by (intro exI [of _ kb'] exI [of _ "if length (keys kb) < 31 then p' else p"])
      (simp add: keybuf_push_def del: append_Cons append_Nil)
qed

section \<open>Properties\<close>

definition empty_keybuf :: keybuf where
  "empty_keybuf = keybuf_init \<lparr>kb_data = [], kb_front = 0, kb_rear = 0\<rparr>"

lemma empty_keybuf_ok: "keybuf_ok empty_keybuf" "keys empty_keybuf = []"
  by (simp_all add: empty_keybuf_def keybuf_init_ok)



text \<open>\<open>keybuf_push\<close> always returns, and only its output to the console is seen there; it
  appends the character and says so, except when 31 wait: then it changes nothing and says so.\<close>

theorem keybuf_push_appends_or_refuses:
  assumes "keybuf_ok kb"
  shows "\<exists>kb' p. keybuf_push \<mu> pkb ch (kb, con) = Some (length (keys kb) < 31, kb', con\<lparr>ports := p\<rparr>) \<and>
    keybuf_ok kb' \<and> keys kb' = (if length (keys kb) < 31 then keys kb @ [ch] else keys kb)"
  by (rule keybuf_push_correct [OF assms])

theorem keybuf_push_appends_or_refuses_witness:
  "\<exists>kb' p. keybuf_push (\<lambda>_. 0) 0xC0110000 0x41 (empty_keybuf, new_console []) =
      Some (length (keys empty_keybuf) < 31, kb', (new_console [])\<lparr>ports := p\<rparr>) \<and>
    keybuf_ok kb' \<and> keys kb' = (if length (keys empty_keybuf) < 31 then keys empty_keybuf @ [0x41] else keys empty_keybuf)"
  by (rule keybuf_push_appends_or_refuses [OF empty_keybuf_ok(1)])

text \<open>A \<open>StringBuffer\<close> is a stack bounded by its size: \<open>buffer_push\<close> adds a character on top
  unless it is full, \<open>buffer_pop\<close> takes the last one, and an empty stack gives 0.\<close>

theorem string_buffer_is_stack:
  assumes "stack_rel st xs"
  shows "stack_rel (buffer_push ch st) (if int (length xs) < sb_stacksize (fst st) then xs @ [ch] else xs) \<and>
    fst (buffer_pop st) = (if xs = [] then 0 else last xs) \<and> stack_rel (snd (buffer_pop st)) (butlast xs)"
  using buffer_push_correct [OF assms, of ch] buffer_pop_correct [OF assms] by (auto split: prod.splits)

theorem string_buffer_is_stack_witness:
  "stack_rel (buffer_push 7 (buffer_init 0x1000 1, \<lambda>_. 0))
      (if int (length ([] :: u8 list)) < sb_stacksize (fst (buffer_init 0x1000 1, \<lambda>_. 0)) then [] @ [7] else []) \<and>
    fst (buffer_pop (buffer_init 0x1000 1, \<lambda>_. 0)) = (if ([] :: u8 list) = [] then 0 else last []) \<and>
    stack_rel (snd (buffer_pop (buffer_init 0x1000 1, \<lambda>_. 0))) (butlast [])"
  using string_buffer_is_stack [OF buffer_init_rel [of 1 "0x1000" "\<lambda>_. 0"], of 7] by simp

end
