(* ===== verification/Rbtree.thy ===== *)
theory Rbtree
  imports Prelude
begin

text \<open>
  kern/libs/rb_tree.c: red-black trees whose nodes are embedded in the structures they order.
  Nodes live in a heap from pointers to \<open>rb_node\<close>; a tree has two extra nodes, the black \<open>nil\<close>
  that stands for every missing child and a \<open>root\<close> whose left child is the root of the tree. The
  macros that are expanded once for each side take a \<open>side\<close>.
\<close>

section \<open>Nodes\<close>

record 'p rb_node =
  red :: bool
  parent :: 'p
  left :: 'p
  right :: 'p

type_synonym 'p rb_heap = "'p \<Rightarrow> 'p rb_node"

record 'p rb_tree =
  rbt_nil :: 'p
  rbt_root :: 'p

text \<open>The two values of the macro parameters \<open>_left\<close> and \<open>_right\<close>.\<close>

datatype side = Lft | Rgt

fun opp :: "side \<Rightarrow> side" where
  "opp Lft = Rgt"
| "opp Rgt = Lft"

fun child :: "side \<Rightarrow> 'p rb_node \<Rightarrow> 'p" where
  "child Lft n = left n"
| "child Rgt n = right n"

definition set_child :: "side \<Rightarrow> 'p \<Rightarrow> 'p \<Rightarrow> 'p rb_heap \<Rightarrow> 'p rb_heap" where
  "set_child d p v h = h(p := (case d of Lft \<Rightarrow> (h p)\<lparr>left := v\<rparr> | Rgt \<Rightarrow> (h p)\<lparr>right := v\<rparr>))"

definition set_parent :: "'p \<Rightarrow> 'p \<Rightarrow> 'p rb_heap \<Rightarrow> 'p rb_heap" where
  "set_parent p v h = h(p := (h p)\<lparr>parent := v\<rparr>)"

definition set_red :: "'p \<Rightarrow> bool \<Rightarrow> 'p rb_heap \<Rightarrow> 'p rb_heap" where
  "set_red p v h = h(p := (h p)\<lparr>red := v\<rparr>)"

definition rb_tree_empty :: "'p rb_tree \<Rightarrow> 'p rb_heap \<Rightarrow> bool" where
  "rb_tree_empty T h \<longleftrightarrow> left (h (rbt_root T)) = rbt_nil T"

section \<open>Rotation and insertion\<close>

definition FUNC_ROTATE :: "side \<Rightarrow> 'p rb_tree \<Rightarrow> 'p \<Rightarrow> 'p rb_heap \<Rightarrow> 'p rb_heap" where
  "FUNC_ROTATE d T x h =
     (let y = child (opp d) (h x);
          h = set_child (opp d) x (child d (h y)) h;
          h = (if child d (h y) \<noteq> rbt_nil T then set_parent (child d (h y)) x h else h);
          h = set_parent y (parent (h x)) h;
          h = (if x = child d (h (parent (h x))) then set_child d (parent (h x)) y h
               else set_child (opp d) (parent (h x)) y h);
          h = set_child d y x h
      in set_parent x y h)"

definition rb_left_rotate :: "'p rb_tree \<Rightarrow> 'p \<Rightarrow> 'p rb_heap \<Rightarrow> 'p rb_heap" where
  "rb_left_rotate = FUNC_ROTATE Lft"

definition rb_right_rotate :: "'p rb_tree \<Rightarrow> 'p \<Rightarrow> 'p rb_heap \<Rightarrow> 'p rb_heap" where
  "rb_right_rotate = FUNC_ROTATE Rgt"

definition rb_rotate :: "side \<Rightarrow> 'p rb_tree \<Rightarrow> 'p \<Rightarrow> 'p rb_heap \<Rightarrow> 'p rb_heap" where
  "rb_rotate d = (case d of Lft \<Rightarrow> rb_left_rotate | Rgt \<Rightarrow> rb_right_rotate)"

text \<open>\<open>cmp\<close> is the function \<open>compare\<close> of the tree, which reads the structures around the nodes.\<close>

partial_function (option) insert_descend ::
  "('p \<Rightarrow> 'p \<Rightarrow> int) \<Rightarrow> 'p rb_tree \<Rightarrow> 'p \<Rightarrow> 'p rb_heap \<Rightarrow> 'p \<Rightarrow> 'p \<Rightarrow> 'p option" where
  "insert_descend cmp T node h x y =
     (if x \<noteq> rbt_nil T
      then insert_descend cmp T node h (if 0 < cmp x node then left (h x) else right (h x)) x
      else Some y)"

declare insert_descend.simps [code]

definition rb_insert_binary ::
  "('p \<Rightarrow> 'p \<Rightarrow> int) \<Rightarrow> 'p rb_tree \<Rightarrow> 'p \<Rightarrow> 'p rb_heap \<Rightarrow> 'p rb_heap option" where
  "rb_insert_binary cmp T z h =
     (let h = set_child Lft z (rbt_nil T) (set_child Rgt z (rbt_nil T) h)
      in do { y \<leftarrow> insert_descend cmp T z h (left (h (rbt_root T))) (rbt_root T);
              let h = set_parent z y h;
              Some (if y = rbt_root T \<or> 0 < cmp y z then set_child Lft y z h else set_child Rgt y z h) })"

definition RB_INSERT_SUB :: "side \<Rightarrow> 'p rb_tree \<Rightarrow> 'p \<Rightarrow> 'p rb_heap \<Rightarrow> 'p \<times> 'p rb_heap" where
  "RB_INSERT_SUB d T x h =
     (let y = child (opp d) (h (parent (h (parent (h x))))) in
      if red (h y) then
        (let h = set_red (parent (h x)) False h;
             h = set_red y False h;
             h = set_red (parent (h (parent (h x)))) True h
         in (parent (h (parent (h x))), h))
      else
        (let (x, h) = (if x = child (opp d) (h (parent (h x)))
                       then (parent (h x), rb_rotate d T (parent (h x)) h) else (x, h));
             h = set_red (parent (h x)) False h;
             h = set_red (parent (h (parent (h x)))) True h
         in (x, rb_rotate (opp d) T (parent (h (parent (h x)))) h)))"

partial_function (option) rb_insert_loop :: "'p rb_tree \<Rightarrow> 'p \<Rightarrow> 'p rb_heap \<Rightarrow> 'p rb_heap option" where
  "rb_insert_loop T x h =
     (if red (h (parent (h x))) then
        (case (if parent (h x) = left (h (parent (h (parent (h x)))))
               then RB_INSERT_SUB Lft T x h else RB_INSERT_SUB Rgt T x h) of
           (x, h) \<Rightarrow> rb_insert_loop T x h)
      else Some h)"

declare rb_insert_loop.simps [code]

definition rb_insert :: "('p \<Rightarrow> 'p \<Rightarrow> int) \<Rightarrow> 'p rb_tree \<Rightarrow> 'p \<Rightarrow> 'p rb_heap \<Rightarrow> 'p rb_heap option" where
  "rb_insert cmp T node h =
     do { h \<leftarrow> rb_insert_binary cmp T node h;
          h \<leftarrow> rb_insert_loop T node (set_red node True h);
          Some (set_red (left (h (rbt_root T))) False h) }"

section \<open>Search and traversal\<close>

text \<open>\<open>while (y->_left != nil) y = y->_left\<close>, with the side as a parameter.\<close>

partial_function (option) rb_extreme :: "side \<Rightarrow> 'p rb_tree \<Rightarrow> 'p rb_heap \<Rightarrow> 'p \<Rightarrow> 'p option" where
  "rb_extreme d T h y =
     (if child d (h y) \<noteq> rbt_nil T then rb_extreme d T h (child d (h y)) else Some y)"

partial_function (option) successor_climb :: "'p rb_tree \<Rightarrow> 'p rb_heap \<Rightarrow> 'p \<Rightarrow> 'p \<Rightarrow> 'p option" where
  "successor_climb T h x y =
     (if x = right (h y) then successor_climb T h y (parent (h y))
      else if y = rbt_root T then Some (rbt_nil T) else Some y)"

definition rb_tree_successor :: "'p rb_tree \<Rightarrow> 'p rb_heap \<Rightarrow> 'p \<Rightarrow> 'p option" where
  "rb_tree_successor T h node =
     (if right (h node) \<noteq> rbt_nil T then rb_extreme Lft T h (right (h node))
      else successor_climb T h node (parent (h node)))"

partial_function (option) predecessor_climb :: "'p rb_tree \<Rightarrow> 'p rb_heap \<Rightarrow> 'p \<Rightarrow> 'p \<Rightarrow> 'p option" where
  "predecessor_climb T h x y =
     (if x = left (h y) then
        (if y = rbt_root T then Some (rbt_nil T) else predecessor_climb T h y (parent (h y)))
      else Some y)"

definition rb_tree_predecessor :: "'p rb_tree \<Rightarrow> 'p rb_heap \<Rightarrow> 'p \<Rightarrow> 'p option" where
  "rb_tree_predecessor T h node =
     (if left (h node) \<noteq> rbt_nil T then rb_extreme Rgt T h (left (h node))
      else predecessor_climb T h node (parent (h node)))"

text \<open>\<open>cmpk\<close> compares a node with the key. The outer option is the loop, the inner one the null
  pointer a failed search returns.\<close>

partial_function (option) rb_search_loop ::
  "'p rb_tree \<Rightarrow> ('p \<Rightarrow> int) \<Rightarrow> 'p rb_heap \<Rightarrow> 'p \<Rightarrow> 'p option option" where
  "rb_search_loop T cmpk h node =
     (if node \<noteq> rbt_nil T \<and> cmpk node \<noteq> 0
      then rb_search_loop T cmpk h (if 0 < cmpk node then left (h node) else right (h node))
      else Some (if node \<noteq> rbt_nil T then Some node else None))"

definition rb_search :: "'p rb_tree \<Rightarrow> ('p \<Rightarrow> int) \<Rightarrow> 'p rb_heap \<Rightarrow> 'p option option" where
  "rb_search T cmpk h = rb_search_loop T cmpk h (left (h (rbt_root T)))"

definition non_nil :: "'p rb_tree \<Rightarrow> 'p \<Rightarrow> 'p option" where
  "non_nil T p = (if p \<noteq> rbt_nil T then Some p else None)"

definition rb_node_prev :: "'p rb_tree \<Rightarrow> 'p rb_heap \<Rightarrow> 'p \<Rightarrow> 'p option option" where
  "rb_node_prev T h node = map_option (non_nil T) (rb_tree_predecessor T h node)"

definition rb_node_next :: "'p rb_tree \<Rightarrow> 'p rb_heap \<Rightarrow> 'p \<Rightarrow> 'p option option" where
  "rb_node_next T h node = map_option (non_nil T) (rb_tree_successor T h node)"

definition rb_node_root :: "'p rb_tree \<Rightarrow> 'p rb_heap \<Rightarrow> 'p option" where
  "rb_node_root T h = non_nil T (left (h (rbt_root T)))"

definition rb_node_left :: "'p rb_tree \<Rightarrow> 'p rb_heap \<Rightarrow> 'p \<Rightarrow> 'p option" where
  "rb_node_left T h node = non_nil T (left (h node))"

definition rb_node_right :: "'p rb_tree \<Rightarrow> 'p rb_heap \<Rightarrow> 'p \<Rightarrow> 'p option" where
  "rb_node_right T h node = non_nil T (right (h node))"

partial_function (option) check_tree :: "'p rb_tree \<Rightarrow> 'p rb_heap \<Rightarrow> 'p \<Rightarrow> int option" where
  "check_tree T h node =
     (if node = rbt_nil T then Some 1
      else do { hb \<leftarrow> check_tree T h (left (h node));
                Some (if \<not> red (h node) then hb + 1 else hb) })"

section \<open>Deletion\<close>

definition RB_DELETE_FIXUP_SUB ::
  "side \<Rightarrow> 'p rb_tree \<Rightarrow> 'p \<Rightarrow> 'p \<Rightarrow> 'p rb_heap \<Rightarrow> 'p \<times> 'p rb_heap" where
  "RB_DELETE_FIXUP_SUB d T rt x h =
     (let w = child (opp d) (h (parent (h x)));
          (w, h) = (if red (h w) then
                      (let h = set_red w False h;
                           h = set_red (parent (h x)) True h;
                           h = rb_rotate d T (parent (h x)) h
                       in (child (opp d) (h (parent (h x))), h))
                    else (w, h))
      in if \<not> red (h (child d (h w))) \<and> \<not> red (h (child (opp d) (h w))) then
           (let h = set_red w True h in (parent (h x), h))
         else
           (let (w, h) = (if \<not> red (h (child (opp d) (h w))) then
                            (let h = set_red (child d (h w)) False h;
                                 h = set_red w True h;
                                 h = rb_rotate (opp d) T w h
                             in (child (opp d) (h (parent (h x))), h))
                          else (w, h));
                h = set_red w (red (h (parent (h x)))) h;
                h = set_red (parent (h x)) False h;
                h = set_red (child (opp d) (h w)) False h;
                h = rb_rotate d T (parent (h x)) h
            in (rt, h)))"

partial_function (option) rb_delete_fixup_loop ::
  "'p rb_tree \<Rightarrow> 'p \<Rightarrow> 'p \<Rightarrow> 'p rb_heap \<Rightarrow> 'p rb_heap option" where
  "rb_delete_fixup_loop T rt x h =
     (if x \<noteq> rt \<and> \<not> red (h x) then
        (case (if x = left (h (parent (h x)))
               then RB_DELETE_FIXUP_SUB Lft T rt x h else RB_DELETE_FIXUP_SUB Rgt T rt x h) of
           (x, h) \<Rightarrow> rb_delete_fixup_loop T rt x h)
      else Some (set_red x False h))"

definition rb_delete_fixup :: "'p rb_tree \<Rightarrow> 'p \<Rightarrow> 'p rb_heap \<Rightarrow> 'p rb_heap option" where
  "rb_delete_fixup T node h = rb_delete_fixup_loop T (left (h (rbt_root T))) node h"

definition rb_delete :: "'p rb_tree \<Rightarrow> 'p \<Rightarrow> 'p rb_heap \<Rightarrow> 'p rb_heap option" where
  "rb_delete T z h =
     do { y \<leftarrow> (if left (h z) = rbt_nil T \<or> right (h z) = rbt_nil T then Some z
               else rb_tree_successor T h z);
          let x = (if left (h y) \<noteq> rbt_nil T then left (h y) else right (h y));
          let h = set_parent x (parent (h y)) h;
          let h = (if y = left (h (parent (h y))) then set_child Lft (parent (h y)) x h
                   else set_child Rgt (parent (h y)) x h);
          let need_fixup = (\<not> red (h y));
          let h = (if y \<noteq> z then
                     (let h = (if z = left (h (parent (h z))) then set_child Lft (parent (h z)) y h
                               else set_child Rgt (parent (h z)) y h);
                          h = set_parent (right (h z)) y h;
                          h = set_parent (left (h z)) y h
                      in h(y := h z))
                   else h);
          if need_fixup then rb_delete_fixup T x h else Some h }"

end
