(* ===== verification/RbRep.thy ===== *)
theory RbRep
  imports "HOL-Library.Tree" Rbtree
begin

text \<open>
  Red-black trees in the heap: a tree of pointers with a focus, the context of the focus being the
  list of its ancestors from the parent up, each with the side the focus hangs on and the other
  subtree. Rotation rearranges the tree at the focus and keeps its inorder sequence.
\<close>

section \<open>Trees with a focus\<close>

type_synonym 'p rbctx = "(side \<times> 'p \<times> 'p tree) list"

text \<open>\<open>mk d s a s'\<close> has \<open>s\<close> on side \<open>d\<close>.\<close>

fun mk :: "side \<Rightarrow> 'p tree \<Rightarrow> 'p \<Rightarrow> 'p tree \<Rightarrow> 'p tree" where
  "mk Lft s a s' = Node s a s'"
| "mk Rgt s a s' = Node s' a s"

fun plug :: "'p rbctx \<Rightarrow> 'p tree \<Rightarrow> 'p tree" where
  "plug [] t = t"
| "plug ((d, a, s) # C) t = plug C (mk d t a s)"

fun before :: "'p rbctx \<Rightarrow> 'p list" where
  "before [] = []"
| "before ((d, a, s) # C) = before C @ (case d of Lft \<Rightarrow> [] | Rgt \<Rightarrow> inorder s @ [a])"

fun behind :: "'p rbctx \<Rightarrow> 'p list" where
  "behind [] = []"
| "behind ((d, a, s) # C) = (case d of Lft \<Rightarrow> a # inorder s | Rgt \<Rightarrow> []) @ behind C"

definition cset :: "'p rbctx \<Rightarrow> 'p set" where
  "cset C = set (before C) \<union> set (behind C)"

fun ptr :: "'p rb_tree \<Rightarrow> 'p tree \<Rightarrow> 'p" where
  "ptr T Leaf = rbt_nil T"
| "ptr T (Node l a r) = a"

fun par :: "'p rb_tree \<Rightarrow> 'p rbctx \<Rightarrow> 'p" where
  "par T [] = rbt_root T"
| "par T ((d, a, s) # C) = a"

fun side_of :: "'p rbctx \<Rightarrow> side" where
  "side_of [] = Lft"
| "side_of ((d, a, s) # C) = d"

lemma opp_opp [simp]: "opp (opp d) = d" by (cases d) simp_all
lemma opp_ne [simp]: "opp d \<noteq> d" "d \<noteq> opp d" by (cases d; simp)+
lemma side_cases: "e = d \<or> e = opp d" by (cases d; cases e) simp_all

lemma mk_opp: "mk (opp d) s a s' = mk d s' a s" by (cases d) simp_all
lemma mk_ne [simp]: "mk d s a s' \<noteq> Leaf" by (cases d) simp_all
lemma ptr_mk [simp]: "ptr T (mk d s a s') = a" by (cases d) simp_all

lemma set_mk [simp]: "set_tree (mk d s a s') = insert a (set_tree s \<union> set_tree s')"
  by (cases d) auto

lemma inorder_plug: "inorder (plug C t) = before C @ inorder t @ behind C"
  by (induction C t rule: plug.induct) (auto split: side.splits)

lemma set_plug: "set_tree (plug C t) = set_tree t \<union> cset C"
  using inorder_plug [of C t] by (auto simp: cset_def simp flip: set_inorder)

lemma cset_simps [simp]: "cset [] = {}" "cset ((d, a, s) # C) = insert a (set_tree s \<union> cset C)"
  by (cases d; auto simp: cset_def)+

lemma par_in_cset: "C \<noteq> [] \<Longrightarrow> par T C \<in> cset C"
  by (cases C) auto

section \<open>Representation\<close>

fun rbt :: "'p rb_tree \<Rightarrow> 'p rb_heap \<Rightarrow> 'p \<Rightarrow> 'p tree \<Rightarrow> bool" where
  "rbt T h u Leaf \<longleftrightarrow> True"
| "rbt T h u (Node l a r) \<longleftrightarrow> parent (h a) = u \<and> left (h a) = ptr T l \<and> right (h a) = ptr T r \<and>
     rbt T h a l \<and> rbt T h a r"

fun ctx :: "'p rb_tree \<Rightarrow> 'p rb_heap \<Rightarrow> 'p \<Rightarrow> 'p rbctx \<Rightarrow> bool" where
  "ctx T h v [] \<longleftrightarrow> left (h (rbt_root T)) = v \<and> right (h (rbt_root T)) = rbt_nil T"
| "ctx T h v ((d, a, s) # C) \<longleftrightarrow> child d (h a) = v \<and> child (opp d) (h a) = ptr T s \<and>
     parent (h a) = par T C \<and> rbt T h a s \<and> ctx T h a C"

text \<open>The nodes are distinct and none of them is one of the two sentinels.\<close>

definition nodes_ok :: "'p rb_tree \<Rightarrow> 'p tree \<Rightarrow> bool" where
  "nodes_ok T t \<longleftrightarrow> distinct (inorder t) \<and> rbt_nil T \<notin> set_tree t \<and> rbt_root T \<notin> set_tree t \<and> rbt_nil T \<noteq> rbt_root T"

definition rep :: "'p rb_tree \<Rightarrow> 'p rb_heap \<Rightarrow> 'p rbctx \<Rightarrow> 'p tree \<Rightarrow> bool" where
  "rep T h C t \<longleftrightarrow> rbt T h (par T C) t \<and> ctx T h (ptr T t) C \<and> nodes_ok T (plug C t)"

lemma rbt_mk: "rbt T h u (mk d s a s') \<longleftrightarrow> parent (h a) = u \<and> child d (h a) = ptr T s \<and>
    child (opp d) (h a) = ptr T s' \<and> rbt T h a s \<and> rbt T h a s'"
  by (cases d) auto

text \<open>Moving the focus up.\<close>

lemma rep_up: "rep T h ((d, a, s) # C) t \<longleftrightarrow> rep T h C (mk d t a s)"
  by (auto simp: rep_def rbt_mk)

lemma rep_plug: "rep T h C t \<longleftrightarrow> rep T h [] (plug C t)"
  by (induction C t rule: plug.induct) (simp_all add: rep_up)

lemma rep_nodes:
  assumes "rep T h C t"
  shows "distinct (before C @ inorder t @ behind C)" "rbt_nil T \<notin> set_tree t \<union> cset C"
    "rbt_root T \<notin> set_tree t \<union> cset C" "rbt_nil T \<noteq> rbt_root T" "set_tree t \<inter> cset C = {}"
  using assms by (auto simp: rep_def nodes_ok_def inorder_plug set_plug cset_def simp flip: set_inorder)

definition same_links :: "'p rb_heap \<Rightarrow> 'p rb_heap \<Rightarrow> 'p \<Rightarrow> bool" where
  "same_links h h' a \<longleftrightarrow> parent (h' a) = parent (h a) \<and> left (h' a) = left (h a) \<and> right (h' a) = right (h a)"

lemma same_links_child: "same_links h h' a \<Longrightarrow> child d (h' a) = child d (h a)"
  by (cases d) (simp_all add: same_links_def)

lemma same_linksI: "parent (h' a) = parent (h a) \<Longrightarrow> (\<And>f. child f (h' a) = child f (h a)) \<Longrightarrow> same_links h h' a"
  by (metis child.simps same_links_def)

lemma rbt_frame: "(\<And>a. a \<in> set_tree t \<Longrightarrow> same_links h h' a) \<Longrightarrow> rbt T h' u t = rbt T h u t"
  by (induction t arbitrary: u) (auto simp: same_links_def)

lemma ctx_frame:
  "(\<And>a. a \<in> insert (rbt_root T) (cset C) \<Longrightarrow> same_links h h' a) \<Longrightarrow> ctx T h' v C = ctx T h v C"
proof (induction C arbitrary: v)
  case Nil
  then show ?case by (simp add: same_links_def)
next
  case (Cons f C)
  obtain d a s where f: "f = (d, a, s)" by (cases f)
  have "same_links h h' a" using Cons.prems f by simp
  moreover have "rbt T h' a s = rbt T h a s" by (rule rbt_frame) (use Cons.prems f in auto)
  moreover have "ctx T h' w C = ctx T h w C" for w by (rule Cons.IH) (use Cons.prems f in auto)
  ultimately show ?case using f same_links_child [of h h' a] by (simp add: same_links_def)
qed

lemma rep_frame:
  assumes "rep T h C t" "\<And>a. a \<in> insert (rbt_root T) (set_tree t \<union> cset C) \<Longrightarrow> same_links h h' a"
  shows "rep T h' C t"
proof -
  have "rbt T h' (par T C) t = rbt T h (par T C) t" by (rule rbt_frame) (use assms(2) in auto)
  moreover have "ctx T h' (ptr T t) C = ctx T h (ptr T t) C" by (rule ctx_frame) (use assms(2) in auto)
  ultimately show ?thesis using assms(1) by (simp add: rep_def)
qed

text \<open>Hanging another pointer below the parent of the focus.\<close>

lemma ctx_set:
  assumes "ctx T h v C" "distinct (before C @ behind C)" "rbt_root T \<notin> cset C"
    and "\<And>a. a \<in> insert (rbt_root T) (cset C) \<Longrightarrow> a \<noteq> par T C \<Longrightarrow> same_links h h' a"
    and "child (side_of C) (h' (par T C)) = v'" "parent (h' (par T C)) = parent (h (par T C))"
    and "child (opp (side_of C)) (h' (par T C)) = child (opp (side_of C)) (h (par T C))"
  shows "ctx T h' v' C"
proof (cases C)
  case Nil
  then show ?thesis using assms by simp
next
  case (Cons f D)
  obtain d a s where f: "f = (d, a, s)" by (cases f)
  have a: "a \<notin> set_tree s \<union> cset D" "a \<noteq> rbt_root T"
    using assms(2,3) Cons f by (auto simp: cset_def split: side.splits simp flip: set_inorder)
  have "rbt T h' a s = rbt T h a s" by (rule rbt_frame) (use assms(4) a Cons f in auto)
  moreover have "ctx T h' a D = ctx T h a D" by (rule ctx_frame) (use assms(4) a Cons f in auto)
  ultimately show ?thesis using assms(1,5-7) Cons f by simp
qed

text \<open>The parent of the focus has the focus on one side only.\<close>

lemma focus_side:
  assumes "rep T h C t" "t \<noteq> Leaf"
  shows "child (side_of C) (h (par T C)) = ptr T t" "child (opp (side_of C)) (h (par T C)) \<noteq> ptr T t"
proof -
  have t: "ptr T t \<in> set_tree t" using assms(2) by (cases t) auto
  note N = rep_nodes [OF assms(1)]
  show "child (side_of C) (h (par T C)) = ptr T t"
    using assms(1) by (cases C) (auto simp: rep_def)
  show "child (opp (side_of C)) (h (par T C)) \<noteq> ptr T t"
  proof (cases C)
    case Nil
    then show ?thesis using assms(1) N(2) t by (auto simp: rep_def)
  next
    case (Cons f D)
    obtain d a s where f: "f = (d, a, s)" by (cases f)
    have "child (opp d) (h a) = ptr T s" using assms(1) Cons f by (simp add: rep_def)
    moreover have "ptr T s \<in> insert (rbt_nil T) (set_tree s)" by (cases s) auto
    ultimately show ?thesis using N(2,5) t Cons f by auto
  qed
qed

section \<open>Rotation\<close>

lemma FUNC_ROTATE_links:
  assumes y: "y = child (opp d) (h x)" and b: "b = child d (h y)" and u: "u = parent (h x)"
    and e: "child e (h u) = x" "child (opp e) (h u) \<noteq> x"
    and ne: "x \<noteq> y" "u \<noteq> x" "u \<noteq> y" "b \<noteq> x" "b \<noteq> y" "b \<noteq> u"
  shows "parent (FUNC_ROTATE d T x h a) =
      (if a = x then y else if a = y then u else if a = b \<and> b \<noteq> rbt_nil T then x else parent (h a))"
    and "child f (FUNC_ROTATE d T x h a) =
      (if a = x \<and> f = opp d then b else if a = y \<and> f = d then x else if a = u \<and> f = e then y else child f (h a))"
    and "red (FUNC_ROTATE d T x h a) = red (h a)"
  using assms
  by (cases d; cases e; cases f; simp add: FUNC_ROTATE_def Let_def set_child_def set_parent_def)+

lemma rbt_parent:
  assumes "rbt T h u t" "\<And>a. a \<in> set_tree t \<Longrightarrow> a \<noteq> ptr T t \<Longrightarrow> same_links h h' a"
    and "distinct (inorder t)" "\<And>f. child f (h' (ptr T t)) = child f (h (ptr T t))"
    and "t \<noteq> Leaf \<Longrightarrow> parent (h' (ptr T t)) = u'"
  shows "rbt T h' u' t"
proof (cases t)
  case (Node l a r)
  have "rbt T h' a l = rbt T h a l" "rbt T h' a r = rbt T h a r"
    by (rule rbt_frame; use assms(2,3) Node in \<open>force simp flip: set_inorder\<close>)+
  then show ?thesis using assms(1,5) assms(4) [of Lft] assms(4) [of Rgt] Node by simp
qed simp

lemma inorder_mk_rotate: "inorder (mk d (mk d \<alpha> x \<beta>) y \<gamma>) = inorder (mk d \<alpha> x (mk d \<beta> y \<gamma>))"
  by (cases d) simp_all

lemma rotate_correct:
  assumes r: "rep T h C (mk d \<alpha> x (mk d \<beta> y \<gamma>))"
  shows "rep T (FUNC_ROTATE d T x h) C (mk d (mk d \<alpha> x \<beta>) y \<gamma>)" and "red (FUNC_ROTATE d T x h a) = red (h a)"
proof -
  let ?h = "FUNC_ROTATE d T x h" and ?b = "ptr T \<beta>" and ?u = "par T C"
  note N = rep_nodes [OF r]
  have ds: "distinct (before C @ behind C)" using N(1) by auto
  have in3: "distinct (inorder \<alpha>) \<and> distinct (inorder \<beta>) \<and> distinct (inorder \<gamma>) \<and> x \<noteq> y \<and>
      x \<notin> set_tree \<alpha> \<union> set_tree \<beta> \<union> set_tree \<gamma> \<and> y \<notin> set_tree \<alpha> \<union> set_tree \<beta> \<union> set_tree \<gamma> \<and>
      set_tree \<alpha> \<inter> set_tree \<beta> = {} \<and> set_tree \<alpha> \<inter> set_tree \<gamma> = {} \<and> set_tree \<beta> \<inter> set_tree \<gamma> = {}"
    using N(1) by (cases d) (auto simp flip: set_inorder)
  have u: "?u \<notin> insert x (insert y (set_tree \<alpha> \<union> set_tree \<beta> \<union> set_tree \<gamma>))" "?u \<noteq> rbt_nil T"
    using N(2-5) par_in_cset [of C T] by (cases C; auto)+
  have b: "?b \<in> insert (rbt_nil T) (set_tree \<beta>)" by (cases \<beta>) auto
  have nl: "rbt_nil T \<notin> {x, y}" "rbt_nil T \<notin> set_tree \<alpha> \<union> set_tree \<gamma>" using N(2) by auto
  have L: "parent (h x) = ?u" "child d (h x) = ptr T \<alpha>" "child (opp d) (h x) = y" "rbt T h x \<alpha>"
    "parent (h y) = x" "child d (h y) = ?b" "child (opp d) (h y) = ptr T \<gamma>" "rbt T h y \<beta>" "rbt T h y \<gamma>"
    using r by (auto simp: rep_def rbt_mk)
  have ne: "x \<noteq> y" "?u \<noteq> x" "?u \<noteq> y" "?b \<noteq> x" "?b \<noteq> y" "?b \<noteq> ?u" using in3 u b nl by auto
  note F = FUNC_ROTATE_links [where T = T and e = "side_of C" and d = d and h = h and x = x and y = y and b = ?b and u = ?u,
      OF L(3) [symmetric] L(6) [symmetric] L(1) [symmetric] focus_side [OF r mk_ne, unfolded ptr_mk] ne]
  have bC: "?b \<notin> cset C \<union> set_tree \<alpha> \<union> set_tree \<gamma>" using b N(2,5) in3 by auto
  have keep: "same_links h ?h a" if "a \<notin> {x, y, ?b, ?u}" for a
    using that by (intro same_linksI) (simp_all add: F)
  have xyC: "x \<notin> insert (rbt_root T) (cset C)" "y \<notin> insert (rbt_root T) (cset C)" using N(3,5) by auto
  have bR: "?b \<noteq> rbt_root T" using b N(3,4) by auto
  have "rbt T ?h x \<alpha>" using rbt_frame [of \<alpha> h ?h T x] keep in3 u bC L(4) by fastforce
  moreover have "rbt T ?h y \<gamma>" using rbt_frame [of \<gamma> h ?h T y] keep in3 u bC L(9) by fastforce
  moreover have "rbt T ?h x \<beta>"
  proof (rule rbt_parent [OF L(8)])
    show "same_links h ?h a" if "a \<in> set_tree \<beta>" "a \<noteq> ?b" for a using keep that in3 u by fastforce
    show "child f (?h ?b) = child f (h ?b)" for f using ne by (simp add: F)
    show "parent (?h ?b) = x" if "\<beta> \<noteq> Leaf"
      using that ne N(2) by (cases \<beta>) (auto simp: F)
  qed (use in3 in simp)
  moreover have "ctx T ?h y C"
  proof (rule ctx_set [where h = h and v = x])
    show "same_links h ?h a" if "a \<in> insert (rbt_root T) (cset C)" "a \<noteq> ?u" for a
      using keep that xyC bC bR by fastforce
  qed (use r N ds ne in \<open>auto simp: F rep_def\<close>)
  moreover have "nodes_ok T (plug C (mk d (mk d \<alpha> x \<beta>) y \<gamma>))"
    using r by (auto simp: rep_def nodes_ok_def inorder_plug set_plug inorder_mk_rotate)
  ultimately show "rep T ?h C (mk d (mk d \<alpha> x \<beta>) y \<gamma>)"
    using ne L by (simp add: rep_def rbt_mk F)
  show "red (?h a) = red (h a)" by (rule F(3))
qed

end
