(* ===== verification/RbInsert.thy ===== *)
theory RbInsert
  imports RbRep
begin

text \<open>
  Insertion into a red-black tree keeps the red-black invariants and puts the node behind the nodes
  that do not compare greater than it; searching finds a node that compares equal.
\<close>

section \<open>The colours\<close>

abbreviation reds :: "'p rb_heap \<Rightarrow> 'p \<Rightarrow> bool" where
  "reds h \<equiv> (\<lambda>a. red (h a))"

fun rootred :: "('p \<Rightarrow> bool) \<Rightarrow> 'p tree \<Rightarrow> bool" where
  "rootred c Leaf = False"
| "rootred c (Node l a r) = c a"

text \<open>\<open>rbh c n t\<close>: no red node has a red child, and every path down has \<open>n\<close> black nodes.\<close>

fun rbh :: "('p \<Rightarrow> bool) \<Rightarrow> nat \<Rightarrow> 'p tree \<Rightarrow> bool" where
  "rbh c n Leaf \<longleftrightarrow> n = 0"
| "rbh c n (Node l a r) \<longleftrightarrow>
     (if c a then \<not> rootred c l \<and> \<not> rootred c r \<and> rbh c n l \<and> rbh c n r
      else 0 < n \<and> rbh c (n - 1) l \<and> rbh c (n - 1) r)"

fun cred :: "('p \<Rightarrow> bool) \<Rightarrow> 'p rbctx \<Rightarrow> bool" where
  "cred c [] = False"
| "cred c ((d, a, s) # C) = c a"

text \<open>A context into which a tree of black height \<open>n\<close> fits, whatever the colour of its root.\<close>

fun rctx :: "('p \<Rightarrow> bool) \<Rightarrow> nat \<Rightarrow> 'p rbctx \<Rightarrow> bool" where
  "rctx c n [] \<longleftrightarrow> True"
| "rctx c n ((d, a, s) # C) \<longleftrightarrow> rbh c n s \<and>
     (if c a then \<not> rootred c s \<and> C \<noteq> [] \<and> \<not> cred c C \<and> rctx c n C else rctx c (Suc n) C)"

lemma rbh_mk: "rbh c n (mk d s a s') \<longleftrightarrow>
     (if c a then \<not> rootred c s \<and> \<not> rootred c s' \<and> rbh c n s \<and> rbh c n s'
      else 0 < n \<and> rbh c (n - 1) s \<and> rbh c (n - 1) s')"
  by (cases d) auto

lemma rootred_mk [simp]: "rootred c (mk d s a s') = c a"
  by (cases d) simp_all

lemma rootred_cong: "(\<And>a. a \<in> set_tree t \<Longrightarrow> c' a = c a) \<Longrightarrow> rootred c' t = rootred c t"
  by (cases t) auto

lemma rbh_cong: "(\<And>a. a \<in> set_tree t \<Longrightarrow> c' a = c a) \<Longrightarrow> rbh c' n t = rbh c n t"
proof (induction t arbitrary: n)
  case (Node l a r)
  then show ?case using rootred_cong [of l c' c] rootred_cong [of r c' c] by auto
qed simp

lemma cred_cong: "(\<And>a. a \<in> cset C \<Longrightarrow> c' a = c a) \<Longrightarrow> cred c' C = cred c C"
  by (cases C) auto

lemma rctx_cong: "(\<And>a. a \<in> cset C \<Longrightarrow> c' a = c a) \<Longrightarrow> rctx c' n C = rctx c n C"
proof (induction C arbitrary: n)
  case (Cons f C)
  obtain d a s where f: "f = (d, a, s)" by (cases f)
  have "rbh c' m s = rbh c m s" "rootred c' s = rootred c s" "cred c' C = cred c C" for m
    using Cons.prems f by (auto intro!: rbh_cong rootred_cong cred_cong)
  moreover have "rctx c' m C = rctx c m C" for m by (rule Cons.IH) (use Cons.prems f in auto)
  ultimately show ?case using Cons.prems f by simp
qed simp

lemma rbh_plug:
  "rctx c n C \<Longrightarrow> rbh c n t \<Longrightarrow> (rootred c t \<Longrightarrow> \<not> cred c C) \<Longrightarrow> \<exists>m. rbh c m (plug C t)"
proof (induction C t arbitrary: n rule: plug.induct)
  case (2 d a s C t)
  show ?case
  proof (cases "c a")
    case True
    then have "rbh c n (mk d t a s)" using 2 by (auto simp: rbh_mk)
    then show ?thesis using 2 True by auto
  next
    case False
    then have "rbh c (Suc n) (mk d t a s)" using 2 by (auto simp: rbh_mk)
    then show ?thesis using 2 False by auto
  qed
qed auto

lemma rbh_root_black:
  assumes "rbh c n t" "distinct (inorder t)"
  shows "\<exists>m. rbh (c(ptr T t := False)) m t \<and> \<not> rootred (c(ptr T t := False)) t"
proof (cases t)
  case Leaf
  then show ?thesis using assms by auto
next
  case (Node l a r)
  let ?c = "c(a := False)"
  have "rbh ?c m l = rbh c m l" "rbh ?c m r = rbh c m r" for m
    by (rule rbh_cong; use assms(2) Node in \<open>auto simp flip: set_inorder\<close>)+
  then have "rbh ?c (if c a then Suc n else n) t" using assms(1) Node by (auto split: if_splits)
  then show ?thesis using Node by auto
qed

lemma rootred_ptr:
  assumes "\<not> c (rbt_nil T)"
  shows "c (ptr T t) = rootred c t"
  using assms by (cases t) auto

lemma cred_par:
  assumes "\<not> c (rbt_root T)"
  shows "c (par T C) = cred c C"
  using assms by (cases C) auto

section \<open>Descending\<close>

fun descend :: "('p \<Rightarrow> 'p \<Rightarrow> int) \<Rightarrow> 'p \<Rightarrow> 'p rbctx \<Rightarrow> 'p tree \<Rightarrow> 'p rbctx" where
  "descend cmp z C Leaf = C"
| "descend cmp z C (Node l a r) =
     (if 0 < cmp a z then descend cmp z ((Lft, a, r) # C) l else descend cmp z ((Rgt, a, l) # C) r)"

lemma plug_descend: "plug (descend cmp z C t) Leaf = plug C t"
  by (induction cmp z C t rule: descend.induct) auto

lemma insert_descend_correct:
  "rep T h C t \<Longrightarrow> insert_descend cmp T z h (ptr T t) (par T C) = Some (par T (descend cmp z C t))"
proof (induction cmp z C t rule: descend.induct)
  case (1 cmp z C)
  then show ?case by (subst insert_descend.simps) simp
next
  case (2 cmp z C l a r)
  have "a \<noteq> rbt_nil T" using rep_nodes(2) [OF 2(3)] by auto
  moreover have "left (h a) = ptr T l" "right (h a) = ptr T r" using 2(3) by (auto simp: rep_def)
  moreover have "rep T h ((Lft, a, r) # C) l" "rep T h ((Rgt, a, l) # C) r" using 2(3) by (simp_all add: rep_up)
  ultimately show ?case using 2(1,2) by (subst insert_descend.simps) simp
qed

lemma rctx_descend:
  "rbh c n t \<Longrightarrow> rctx c n C \<Longrightarrow> (rootred c t \<Longrightarrow> C \<noteq> [] \<and> \<not> cred c C) \<Longrightarrow> rctx c 0 (descend cmp z C t)"
proof (induction cmp z C t arbitrary: n rule: descend.induct)
  case (2 cmp z C l a r)
  show ?case
  proof (cases "c a")
    case True
    then show ?thesis using 2 by auto
  next
    case False
    then show ?thesis using 2(1) [of "n - 1"] 2(2) [of "n - 1"] 2(3,4) by auto
  qed
qed auto

lemma descend_side:
  "t \<noteq> Leaf \<Longrightarrow> 0 < cmp (par T (descend cmp z C t)) z \<longleftrightarrow> side_of (descend cmp z C t) = Lft"
proof (induction cmp z C t rule: descend.induct)
  case (2 cmp z C l a r)
  show ?case
  proof (cases "0 < cmp a z")
    case True
    then show ?thesis using 2(1) by (cases "l = Leaf") auto
  next
    case False
    then show ?thesis using 2(2) by (cases "r = Leaf") auto
  qed
qed simp

text \<open>The place of the new node when comparing greater than it is monotone along the tree.\<close>

lemma sorted_wrt_mid:
  "sorted_wrt R (xs @ [a] @ ys) \<Longrightarrow>
   sorted_wrt R xs \<and> sorted_wrt R ys \<and> (\<forall>b \<in> set ys. R a b) \<and> (\<forall>b \<in> set xs. R b a)"
  by (auto simp: sorted_wrt_append)

lemma descend_place:
  assumes "\<forall>a \<in> set (before C). \<not> 0 < cmp a z" "\<forall>a \<in> set (behind C). 0 < cmp a z"
    and "sorted_wrt (\<lambda>a b. 0 < cmp a z \<longrightarrow> 0 < cmp b z) (inorder t)"
  shows "(\<forall>a \<in> set (before (descend cmp z C t)). \<not> 0 < cmp a z) \<and>
    (\<forall>a \<in> set (behind (descend cmp z C t)). 0 < cmp a z)"
  using assms
proof (induction cmp z C t rule: descend.induct)
  case (2 cmp z C l a r)
  note m = sorted_wrt_mid [OF 2(5) [unfolded inorder.simps]]
  have s: "sorted_wrt (\<lambda>a b. 0 < cmp a z \<longrightarrow> 0 < cmp b z) (inorder l)"
    "sorted_wrt (\<lambda>a b. 0 < cmp a z \<longrightarrow> 0 < cmp b z) (inorder r)"
    by (rule m [THEN conjunct1], rule m [THEN conjunct2, THEN conjunct1])
  have s3: "\<forall>b \<in> set (inorder r). 0 < cmp b z" if "0 < cmp a z" using m that by (intro ballI) (elim conjE, drule (1) bspec, simp only:)
  have s4: "\<forall>b \<in> set (inorder l). \<not> 0 < cmp b z" if "\<not> 0 < cmp a z"
  proof (intro ballI notI)
    fix b assume "b \<in> set (inorder l)" "0 < cmp b z"
    with m have "0 < cmp a z" by (elim conjE) (drule (1) bspec, drule (1) mp)
    with that show False by simp
  qed
  show ?case
  proof (cases "0 < cmp a z")
    case True
    have "\<forall>b \<in> set (behind ((Lft, a, r) # C)). 0 < cmp b z" using 2(4) s3 [OF True] True by auto
    moreover have "\<forall>b \<in> set (before ((Lft, a, r) # C)). \<not> 0 < cmp b z" using 2(3) by simp
    ultimately show ?thesis unfolding descend.simps if_P [OF True] by (intro 2(1) [OF True] s)
  next
    case False
    have "\<forall>b \<in> set (before ((Rgt, a, l) # C)). \<not> 0 < cmp b z" using 2(3) s4 [OF False] False by auto
    moreover have "\<forall>b \<in> set (behind ((Rgt, a, l) # C)). 0 < cmp b z" using 2(4) by simp
    ultimately show ?thesis unfolding descend.simps if_not_P [OF False] by (intro 2(2) [OF False] s)
  qed
qed simp

lemma filter_split:
  "\<forall>a \<in> set xs. \<not> P a \<Longrightarrow> \<forall>a \<in> set ys. P a \<Longrightarrow> filter P (xs @ ys) = ys \<and> filter (\<lambda>a. \<not> P a) (xs @ ys) = xs"
  by (auto simp: filter_empty_conv)

section \<open>Linking the new node\<close>

lemma insert_binary_correct:
  assumes r: "rep T h [] t" and z: "z \<notin> set_tree t" "z \<noteq> rbt_nil T" "z \<noteq> rbt_root T"
  shows "\<exists>h'. rb_insert_binary cmp T z h = Some h' \<and> rep T h' (descend cmp z [] t) (Node Leaf z Leaf) \<and>
    reds h' = reds h"
proof -
  define D where "D = descend cmp z [] t"
  define h1 where "h1 = set_child Lft z (rbt_nil T) (set_child Rgt z (rbt_nil T) h)"
  let ?y = "par T D"
  have D: "plug D Leaf = t" using plug_descend [where cmp = cmp and z = z and C = "[]" and t = t] by (simp add: D_def)
  have links: "parent (h1 a) = parent (h a)" "red (h1 a) = red (h a)"
    "child f (h1 a) = (if a = z then rbt_nil T else child f (h a))" for a f
    by (cases f; simp add: h1_def set_child_def)+
  have r1: "rep T h1 D Leaf"
  proof -
    have "rep T h1 [] t" by (rule rep_frame [OF r]) (use z links in \<open>auto intro!: same_linksI\<close>)
    then show ?thesis using rep_plug [of T h1 D Leaf] D by simp
  qed
  have desc: "insert_descend cmp T z h1 (left (h1 (rbt_root T))) (rbt_root T) = Some ?y"
  proof -
    have "rep T h1 [] t" using r1 rep_plug [of T h1 D Leaf] D by simp
    then show ?thesis using insert_descend_correct [where T = T and h = h1 and C = "[]" and t = t and cmp = cmp and z = z] by (simp add: rep_def D_def)
  qed
  note N = rep_nodes [OF r1]
  have zC: "z \<notin> cset D" using z(1) D set_plug [of D Leaf] by simp
  have yz: "?y \<noteq> z" using zC z(3) by (cases D) auto
  define e where "e = side_of D"
  have side: "(?y = rbt_root T \<or> 0 < cmp ?y z) \<longleftrightarrow> e = Lft"
  proof (cases "D = []")
    case True
    then show ?thesis by (simp add: e_def)
  next
    case False
    then have "?y \<noteq> rbt_root T" using N(3) par_in_cset [of D T] by auto
    moreover have "t \<noteq> Leaf" using False by (auto simp: D_def)
    ultimately show ?thesis using descend_side [where t = t and cmp = cmp and T = T and z = z and C = "[]"] by (simp add: D_def e_def)
  qed
  define h' where "h' = set_child e ?y z (set_parent z ?y h1)"
  have res: "rb_insert_binary cmp T z h = Some h'"
    using desc side by (cases e) (auto simp: rb_insert_binary_def Let_def h'_def h1_def [symmetric])
  have links': "parent (h' a) = (if a = z then ?y else parent (h a))" "red (h' a) = red (h a)"
    "child f (h' a) = (if a = ?y \<and> f = e then z else if a = z then rbt_nil T else child f (h a))" for a f
    using yz by (cases e; cases f; simp add: h'_def set_child_def set_parent_def h1_def)+
  have "ctx T h' z D"
  proof (rule ctx_set [where h = h1 and v = "rbt_nil T"])
    show "ctx T h1 (rbt_nil T) D" using r1 by (simp add: rep_def)
    show "same_links h1 h' a" if "a \<in> insert (rbt_root T) (cset D)" "a \<noteq> ?y" for a
      using that zC z(3) by (intro same_linksI) (auto simp: links links')
  qed (use N yz in \<open>auto simp: links links' e_def\<close>)
  moreover have "nodes_ok T (plug D (Node Leaf z Leaf))"
    using N zC z by (auto simp: nodes_ok_def inorder_plug set_plug cset_def)
  ultimately have "rep T h' D (Node Leaf z Leaf)"
    using links'(1) [of z] links'(3) [of Lft z] links'(3) [of Rgt z] yz by (simp add: rep_def)
  then show ?thesis using res links'(2) unfolding D_def by auto
qed

section \<open>Repairing\<close>

lemma set_red_fields [simp]:
  "parent (set_red p v h a) = parent (h a)" "left (set_red p v h a) = left (h a)"
  "right (set_red p v h a) = right (h a)" "child d (set_red p v h a) = child d (h a)"
  "red (set_red p v h a) = (if a = p then v else red (h a))"
  by (cases d; simp add: set_red_def)+

lemma set_red_same [simp]: "same_links h0 (set_red p v h) a = same_links h0 h a"
  by (simp add: same_links_def)

lemma rep_set_red [simp]: "rep T (set_red p v h) C t = rep T h C t"
  using rep_frame [of T h C t "set_red p v h"] rep_frame [of T "set_red p v h" C t h]
  by (auto simp: same_links_def)

lemma rb_rotate_eq: "rb_rotate d = FUNC_ROTATE d"
  by (cases d) (simp_all add: rb_rotate_def rb_left_rotate_def rb_right_rotate_def)

lemma mk_cases:
  assumes "t \<noteq> Leaf"
  obtains \<alpha> \<beta> where "t = mk d \<alpha> (ptr T t) \<beta>"
  using assms by (cases t; cases d) (fastforce elim: mk.elims)+

text \<open>What a step leaves behind at the place of the grandparent.\<close>

definition sub_post :: "'p rb_tree \<Rightarrow> 'p rb_heap \<Rightarrow> 'p rbctx \<Rightarrow> nat \<Rightarrow> 'p list \<Rightarrow> 'p \<times> 'p rb_heap \<Rightarrow> bool" where
  "sub_post T h C n xs res \<longleftrightarrow> (case res of (x', h') \<Rightarrow>
     \<exists>t'. rep T h' C t' \<and> t' \<noteq> Leaf \<and> rbh (reds h') n t' \<and> rctx (reds h') n C \<and> inorder t' = xs \<and>
       red (h' (rbt_nil T)) = red (h (rbt_nil T)) \<and> red (h' (rbt_root T)) = red (h (rbt_root T)) \<and>
       (if rootred (reds h') t' then ptr T t' = x' else \<not> red (h' (parent (h' x')))))"

lemma sub_red_uncle:
  assumes r: "rep T h ((d1, p, s1) # (d2, g, u) # C) t" and t: "t \<noteq> Leaf"
    and c: "rbh (reds h) n t" "rctx (reds h) n ((d1, p, s1) # (d2, g, u) # C)" "red (h p)"
    and y: "rootred (reds h) u"
  shows "sub_post T h C (Suc n) (inorder (mk d2 (mk d1 t p s1) g u)) (RB_INSERT_SUB d2 T (ptr T t) h)"
proof -
  let ?y = "ptr T u" and ?t = "mk d2 (mk d1 t p s1) g u"
  define h' where "h' = set_red g True (set_red ?y False (set_red p False h))"
  note N = rep_nodes [OF r]
  have up: "parent (h (ptr T t)) = p" using r t by (cases t) (simp_all add: rep_def)
  have L: "parent (h p) = g" "child (opp d2) (h g) = ?y" using r by (simp_all add: rep_def)
  have yr: "red (h ?y)" using y by (cases u) auto
  have res: "RB_INSERT_SUB d2 T (ptr T t) h = (g, h')"
    using up L yr by (simp add: RB_INSERT_SUB_def Let_def h'_def)
  have r': "rep T h' C ?t" using r by (simp add: h'_def rep_up)
  have yu: "?y \<in> set_tree u" using y by (cases u) auto
  have dist: "p \<notin> set_tree t \<union> set_tree s1 \<union> set_tree u \<union> cset C" "g \<notin> set_tree t \<union> set_tree s1 \<union> set_tree u \<union> cset C"
    "p \<noteq> g" "?y \<notin> set_tree t \<union> set_tree s1 \<union> cset C" "distinct (inorder u)"
    using N(1) yu by (cases d1; cases d2; auto simp: cset_def simp flip: set_inorder)+
  have sent: "rbt_nil T \<notin> {p, g, ?y}" "rbt_root T \<notin> {p, g, ?y}" using N(2,3) yu by auto
  have col: "red (h' a) = (if a = g then True else if a = ?y \<or> a = p then False else red (h a))" for a
    by (simp add: h'_def)
  have sub: "rbh (reds h') m v = rbh (reds h) m v" if "v \<in> {t, s1}" for v m
    by (rule rbh_cong) (use that dist col in auto)
  have u: "rbh (reds h') (Suc n) u" "\<not> rootred (reds h') u"
  proof -
    obtain ul w ur where u: "u = Node ul w ur" using yu by (cases u) auto
    have w: "w \<notin> set_tree ul \<union> set_tree ur" using dist(5) u by (auto simp flip: set_inorder)
    have "rbh (reds h') m v = rbh (reds h) m v" if "v \<in> {ul, ur}" for m v
      by (rule rbh_cong) (use that u w dist(1,2) col in auto)
    moreover have "\<not> red (h' w)" "red (h w)" using y u dist(2) col by auto
    moreover have "rbh (reds h) n u" using c by auto
    ultimately show "rbh (reds h') (Suc n) u" "\<not> rootred (reds h') u" using u by auto
  qed
  have "\<not> red (h' p)" "red (h' g)" using col dist(3) by simp_all
  then have "rbh (reds h') (Suc n) ?t" using c u by (auto simp: rbh_mk sub)
  moreover have "rctx (reds h') (Suc n) C = rctx (reds h) (Suc n) C"
    by (rule rctx_cong) (use dist col in auto)
  then have "rctx (reds h') (Suc n) C" using c by auto
  moreover have "red (h' (rbt_nil T)) = red (h (rbt_nil T))" "red (h' (rbt_root T)) = red (h (rbt_root T))" "red (h' g)"
    using sent col by simp_all
  ultimately show ?thesis
    using res r' by (auto simp: sub_post_def intro!: exI [of _ ?t])
qed

lemma sub_rotate_outer:
  assumes r: "rep T h ((d, q, \<gamma>) # (d, g, u) # C) t" and t: "t \<noteq> Leaf"
    and c: "rbh (reds h) n t" "rbh (reds h) n \<gamma>" "\<not> rootred (reds h) \<gamma>" "rbh (reds h) n u" "\<not> rootred (reds h) u"
      "rctx (reds h) (Suc n) C" "rootred (reds h) t"
  shows "sub_post T h C (Suc n) (inorder (mk d (mk d t q \<gamma>) g u))
    (ptr T t, rb_rotate (opp d) T g (set_red g True (set_red q False h)))"
proof -
  let ?t = "mk (opp d) (mk (opp d) u g \<gamma>) q t"
  define h2 where "h2 = set_red g True (set_red q False h)"
  define h' where "h' = FUNC_ROTATE (opp d) T g h2"
  note N = rep_nodes [OF r]
  have "rep T h2 C (mk (opp d) u g (mk (opp d) \<gamma> q t))" using r by (simp add: h2_def rep_up mk_opp)
  note R = rotate_correct [OF this, folded h'_def]
  have dist: "q \<notin> set_tree t \<union> set_tree \<gamma> \<union> set_tree u \<union> cset C" "g \<notin> set_tree t \<union> set_tree \<gamma> \<union> set_tree u \<union> cset C"
    "q \<noteq> g" using N(1) by (cases d; auto simp: cset_def simp flip: set_inorder)+
  have sent: "rbt_nil T \<notin> {q, g}" "rbt_root T \<notin> {q, g}" using N(2,3) by auto
  have col: "red (h' a) = (if a = g then True else if a = q then False else red (h a))" for a
    by (simp add: R(2) h2_def)
  have sub: "rbh (reds h') m v = rbh (reds h) m v" "rootred (reds h') v = rootred (reds h) v"
    if "v \<in> {t, \<gamma>, u}" for v m
    by (rule rbh_cong rootred_cong; use that dist col in auto)+
  have "\<not> red (h' q)" "red (h' g)" using col dist(3) by simp_all
  then have "rbh (reds h') (Suc n) ?t" using c by (simp add: rbh_mk sub)
  moreover have "rctx (reds h') (Suc n) C = rctx (reds h) (Suc n) C" by (rule rctx_cong) (use dist col in auto)
  moreover have "inorder ?t = inorder (mk d (mk d t q \<gamma>) g u)" by (cases d) simp_all
  moreover have "parent (h' (ptr T t)) = q" using R(1) t by (cases t; cases d) (simp_all add: rep_def)
  ultimately show ?thesis
    using R(1) sent col c(6) dist(3)
    unfolding sub_post_def rb_rotate_eq h2_def [symmetric] h'_def [symmetric] prod.case
    by (intro exI [of _ ?t]) auto
qed

lemma sub_black_uncle:
  assumes r: "rep T h ((d1, p, s1) # (d2, g, u) # C) t" and t: "t \<noteq> Leaf"
    and c: "rbh (reds h) n t" "rctx (reds h) n ((d1, p, s1) # (d2, g, u) # C)" "red (h p)" "rootred (reds h) t"
    and y: "\<not> rootred (reds h) u" and nil: "\<not> red (h (rbt_nil T))"
  shows "sub_post T h C (Suc n) (inorder (mk d2 (mk d1 t p s1) g u)) (RB_INSERT_SUB d2 T (ptr T t) h)"
proof -
  have up: "parent (h (ptr T t)) = p" using r t by (cases t) (simp_all add: rep_def)
  have L: "parent (h p) = g" "child (opp d2) (h g) = ptr T u" using r by (simp_all add: rep_def)
  have yr: "\<not> red (h (ptr T u))" using y nil by (cases u) auto
  have cs: "rbh (reds h) n s1" "\<not> rootred (reds h) s1" "\<not> red (h g)" "rbh (reds h) n u" "rctx (reds h) (Suc n) C"
    using c by auto
  note side = focus_side [OF r t]
  show ?thesis
  proof (cases "d1 = d2")
    case True
    have "RB_INSERT_SUB d2 T (ptr T t) h = (ptr T t, rb_rotate (opp d2) T g (set_red g True (set_red p False h)))"
      using side up L yr True by (simp add: RB_INSERT_SUB_def Let_def)
    then show ?thesis using sub_rotate_outer [of T h d2 p s1 g u C t n] r t c cs y True by simp
  next
    case False
    then have d1: "d1 = opp d2" using side_cases [of d1 d2] by simp
    obtain \<alpha> \<beta> where ab: "t = mk d2 \<alpha> (ptr T t) \<beta>" using mk_cases [OF t] by blast
    let ?x = "ptr T t" and ?tt = "mk d2 s1 p \<alpha>"
    define h1 where "h1 = FUNC_ROTATE d2 T p h"
    have "rep T h ((d2, g, u) # C) (mk d2 s1 p (mk d2 \<alpha> ?x \<beta>))"
      using r d1 ab by (simp add: rep_up mk_opp)
    note R = rotate_correct [OF this, folded h1_def]
    have reds: "reds h1 = reds h" using R(2) by simp
    have r1: "rep T h1 ((d2, ?x, \<beta>) # (d2, g, u) # C) ?tt" using R(1) by (simp add: rep_up)
    have up1: "parent (h1 p) = ?x" "parent (h1 ?x) = g" using r1 by (auto simp: rep_def rbt_mk)
    have ct: "rbh (reds h) n \<alpha>" "rbh (reds h) n \<beta>" "\<not> rootred (reds h) \<alpha>" "\<not> rootred (reds h) \<beta>"
      using c(1,4) ab rbh_mk [of "reds h" n d2 \<alpha> ?x \<beta>] rootred_mk [of "reds h" d2 \<alpha> ?x \<beta>] by auto
    have res: "RB_INSERT_SUB d2 T ?x h = (ptr T ?tt, rb_rotate (opp d2) T g (set_red g True (set_red ?x False h1)))"
      using side up L yr d1 up1 by (simp add: RB_INSERT_SUB_def Let_def rb_rotate_eq h1_def)
    have "sub_post T h1 C (Suc n) (inorder (mk d2 (mk d2 ?tt ?x \<beta>) g u)) (RB_INSERT_SUB d2 T ?x h)"
      unfolding res by (rule sub_rotate_outer [OF r1 mk_ne]) (use ct cs c(3) y in \<open>simp_all add: reds rbh_mk\<close>)
    moreover have "inorder (mk d2 (mk d2 ?tt ?x \<beta>) g u) = inorder (mk d2 (mk d1 t p s1) g u)"
      by (subst (2) ab) (cases d2; simp add: d1)
    ultimately show ?thesis by (simp add: sub_post_def R(2))
  qed
qed

lemma loop_step:
  assumes r: "rep T h C t" and t: "t \<noteq> Leaf" and c: "rbh (reds h) n t" "rctx (reds h) n C" "rootred (reds h) t"
    and sent: "\<not> red (h (rbt_nil T))" "\<not> red (h (rbt_root T))" and p: "cred (reds h) C"
  shows "\<exists>d1 p s1 d2 g u D res. C = (d1, p, s1) # (d2, g, u) # D \<and>
    sub_post T h D (Suc n) (inorder (mk d2 (mk d1 t p s1) g u)) res \<and>
    rb_insert_loop T (ptr T t) h = (case res of (x, h) \<Rightarrow> rb_insert_loop T x h)"
proof -
  obtain d1 p s1 C1 where 1: "C = (d1, p, s1) # C1" "red (h p)" using p by (cases C) auto
  then have "C1 \<noteq> []" using c(2) by auto
  then obtain d2 g u D where C: "C = (d1, p, s1) # (d2, g, u) # D" using 1 by (cases C1) auto
  have up: "parent (h (ptr T t)) = p" using r t C by (cases t) (simp_all add: rep_def)
  have L: "parent (h p) = g" using r C by (simp add: rep_def)
  have "rep T h ((d2, g, u) # D) (mk d1 t p s1)" using r C by (simp add: rep_up)
  note side = focus_side [OF this mk_ne]
  have "(p = left (h g)) = (d2 = Lft)" using side by (cases d2) auto
  then have step: "rb_insert_loop T (ptr T t) h = (case RB_INSERT_SUB d2 T (ptr T t) h of (x, h) \<Rightarrow> rb_insert_loop T x h)"
    using up L 1(2) by (subst rb_insert_loop.simps) (cases d2; simp)
  have "sub_post T h D (Suc n) (inorder (mk d2 (mk d1 t p s1) g u)) (RB_INSERT_SUB d2 T (ptr T t) h)"
    using sub_red_uncle [OF r [unfolded C] t c(1)] sub_black_uncle [OF r [unfolded C] t c(1)] c 1(2) sent C by blast
  with step C show ?thesis by blast
qed

text \<open>The loop ends, because the context of the focus shrinks.\<close>

lemma insert_loop_correct:
  assumes "rep T h C t" and "t \<noteq> Leaf" and "rbh (reds h) n t" "rctx (reds h) n C" "rootred (reds h) t"
    and "\<not> red (h (rbt_nil T))" "\<not> red (h (rbt_root T))"
  shows "\<exists>h' t' m. rb_insert_loop T (ptr T t) h = Some h' \<and> rep T h' [] t' \<and> t' \<noteq> Leaf \<and> rbh (reds h') m t' \<and>
    inorder t' = inorder (plug C t) \<and> \<not> red (h' (rbt_nil T)) \<and> \<not> red (h' (rbt_root T))"
  using assms
proof (induction "length C" arbitrary: C t h n rule: less_induct)
  case less
  note r = less.prems(1) and t = less.prems(2) and c = less.prems(3-5) and sent = less.prems(6,7)
  show ?case
  proof (cases "cred (reds h) C")
    case False
    have "parent (h (ptr T t)) = par T C" using r t by (cases t) (simp_all add: rep_def)
    then have "rb_insert_loop T (ptr T t) h = Some h"
      using False cred_par [of "reds h" T C] sent by (subst rb_insert_loop.simps) simp
    moreover obtain m where "rbh (reds h) m (plug C t)" using rbh_plug [OF c(2,1)] False by blast
    moreover have "plug C t \<noteq> Leaf" using t set_plug [of C t] by (cases t) auto
    ultimately show ?thesis using r sent rep_plug by blast
  next
    case True
    obtain d1 p s1 d2 g u D x1 h1 where S: "C = (d1, p, s1) # (d2, g, u) # D"
      "sub_post T h D (Suc n) (inorder (mk d2 (mk d1 t p s1) g u)) (x1, h1)"
      "rb_insert_loop T (ptr T t) h = rb_insert_loop T x1 h1"
      using loop_step [OF r t c sent True] by (metis (no_types, lifting) case_prod_conv surj_pair)
    then obtain t1 where t1: "rep T h1 D t1" "t1 \<noteq> Leaf" "rbh (reds h1) (Suc n) t1" "rctx (reds h1) (Suc n) D"
      "inorder t1 = inorder (mk d2 (mk d1 t p s1) g u)" "\<not> red (h1 (rbt_nil T))" "\<not> red (h1 (rbt_root T))"
      "if rootred (reds h1) t1 then ptr T t1 = x1 else \<not> red (h1 (parent (h1 x1)))"
      using sent by (auto simp: sub_post_def)
    have io: "inorder (plug D t1) = inorder (plug C t)" using t1(5) S(1) by (simp add: inorder_plug)
    show ?thesis
    proof (cases "rootred (reds h1) t1")
      case True
      then show ?thesis
        using less.hyps [of D h1 t1 "Suc n"] t1 S io by auto
    next
      case False
      then have "rb_insert_loop T x1 h1 = Some h1" using t1(8) by (subst rb_insert_loop.simps) simp
      moreover obtain m where "rbh (reds h1) m (plug D t1)" using rbh_plug [OF t1(4,3)] False by blast
      moreover have "plug D t1 \<noteq> Leaf" using t1(2) set_plug [of D t1] by (cases t1) auto
      ultimately show ?thesis using t1(1,6,7) S(3) io rep_plug by metis
    qed
  qed
qed

section \<open>Insertion as a whole\<close>

text \<open>The tree in the heap is a red-black tree: black root and sentinels, no red child of a red node,
  equal numbers of black nodes on all paths.\<close>

definition rb_inv :: "'p rb_tree \<Rightarrow> 'p rb_heap \<Rightarrow> 'p tree \<Rightarrow> bool" where
  "rb_inv T h t \<longleftrightarrow> rep T h [] t \<and> \<not> red (h (rbt_nil T)) \<and> \<not> red (h (rbt_root T)) \<and>
     \<not> rootred (reds h) t \<and> (\<exists>n. rbh (reds h) n t)"

lemma rb_insert_inv:
  assumes inv: "rb_inv T h t" and z: "z \<notin> set_tree t" "z \<noteq> rbt_nil T" "z \<noteq> rbt_root T"
  shows "\<exists>h' t'. rb_insert cmp T z h = Some h' \<and> rb_inv T h' t' \<and>
    inorder t' = before (descend cmp z [] t) @ z # behind (descend cmp z [] t)"
proof -
  let ?D = "descend cmp z [] t" and ?z = "Node Leaf z Leaf"
  obtain n where n: "rbh (reds h) n t" using inv by (auto simp: rb_inv_def)
  obtain h1 where h1: "rb_insert_binary cmp T z h = Some h1" "rep T h1 ?D ?z" "reds h1 = reds h"
    using insert_binary_correct [OF _ z] inv by (auto simp: rb_inv_def)
  define h2 where "h2 = set_red z True h1"
  have zD: "z \<notin> cset ?D"
    using set_plug [of ?D Leaf] plug_descend [of cmp z "[]" t] z(1) by simp
  have "rctx (reds h) 0 ?D" by (rule rctx_descend [OF n]) (use inv in \<open>auto simp: rb_inv_def\<close>)
  moreover have "rctx (reds h2) 0 ?D = rctx (reds h) 0 ?D"
    by (rule rctx_cong) (use zD h1(3) in \<open>auto simp: h2_def fun_eq_iff\<close>)
  ultimately have c2: "rctx (reds h2) 0 ?D" by simp
  have sent: "\<not> red (h2 (rbt_nil T))" "\<not> red (h2 (rbt_root T))"
    using inv z(2,3) h1(3) by (auto simp: rb_inv_def h2_def fun_eq_iff)
  obtain h3 t' m where L: "rb_insert_loop T z h2 = Some h3" "rep T h3 [] t'" "t' \<noteq> Leaf" "rbh (reds h3) m t'"
    "inorder t' = inorder (plug ?D ?z)" "\<not> red (h3 (rbt_nil T))" "\<not> red (h3 (rbt_root T))"
    using insert_loop_correct [of T h2 ?D ?z 0] h1(2) c2 sent by (auto simp: h2_def)
  have lt: "left (h3 (rbt_root T)) = ptr T t'" using L(2) by (simp add: rep_def)
  define h4 where "h4 = set_red (ptr T t') False h3"
  have "distinct (inorder t')" using rep_nodes(1) [OF L(2)] by simp
  from rbh_root_black [OF L(4) this]
  have "\<exists>m. rbh (reds h4) m t' \<and> \<not> rootred (reds h4) t'"
    by (simp add: h4_def fun_upd_def)
  then have "rb_inv T h4 t'" using L(2,6,7) by (auto simp: rb_inv_def h4_def)
  moreover have "rb_insert cmp T z h = Some h4"
    using h1(1) L(1) lt by (simp add: rb_insert_def h2_def h4_def)
  ultimately show ?thesis using L(5) by (auto simp: inorder_plug)
qed

end
