(* ===== verification/RbDelete.thy ===== *)
theory RbDelete
  imports RbInsert
begin

text \<open>
  Deletion from a red-black tree. The node that takes the place of the removed one may be the
  sentinel \<open>nil\<close>, whose parent field the code uses on the way up.
\<close>

section \<open>A focus whose parent field is right even for the sentinel\<close>

definition xrep :: "'p rb_tree \<Rightarrow> 'p rb_heap \<Rightarrow> 'p rbctx \<Rightarrow> 'p tree \<Rightarrow> bool" where
  "xrep T h C t \<longleftrightarrow> rep T h C t \<and> parent (h (ptr T t)) = par T C"

lemma xrep_node: "t \<noteq> Leaf \<Longrightarrow> xrep T h C t \<longleftrightarrow> rep T h C t"
  by (cases t) (auto simp: xrep_def rep_def)

lemma xrep_set_red [simp]: "xrep T (set_red p v h) C t = xrep T h C t"
  by (simp add: xrep_def)

lemma plug_append: "plug (C @ D) t = plug D (plug C t)"
  by (induction C t rule: plug.induct) simp_all

lemma rbh_blacken:
  assumes "rbh c n t" "rootred c t" "distinct (inorder t)" "\<not> c' (ptr T t)"
    and "\<And>a. a \<noteq> ptr T t \<Longrightarrow> c' a = c a"
  shows "rbh c' (Suc n) t \<and> \<not> rootred c' t"
proof -
  obtain l a r where t: "t = Node l a r" using assms(2) by (cases t) auto
  have a: "a \<notin> set_tree l \<union> set_tree r" using assms(3) t by (auto simp flip: set_inorder)
  have "rbh c' m v = rbh c m v" if v: "v \<in> {l, r}" for m v
  proof (rule rbh_cong)
    fix b assume "b \<in> set_tree v"
    then have "b \<noteq> a" using a v by auto
    then show "c' b = c b" using assms(5) t by simp
  qed
  then show ?thesis using assms(1,2,4) t by auto
qed

text \<open>Taking a red-black tree apart at a focus.\<close>

lemma rbh_unplug:
  "rbh c m (plug C t) \<Longrightarrow> \<not> rootred c (plug C t) \<Longrightarrow>
   \<exists>n. rbh c n t \<and> rctx c n C \<and> (rootred c t \<longrightarrow> C \<noteq> [] \<and> \<not> cred c C)"
proof (induction C t rule: plug.induct)
  case (2 d a s C t)
  then obtain n where n: "rbh c n (mk d t a s)" "rctx c n C" "c a \<longrightarrow> C \<noteq> [] \<and> \<not> cred c C" by auto
  show ?case
  proof (cases "c a")
    case True
    then show ?thesis using n by (auto simp: rbh_mk)
  next
    case False
    then have "rbh c (n - 1) t" "rbh c (n - 1) s" "Suc (n - 1) = n" using n(1) by (auto simp: rbh_mk)
    then show ?thesis using False n(2) by (intro exI [of _ "n - 1"]) auto
  qed
qed auto

lemma rctx_root:
  assumes "rctx c n C" "C \<noteq> []"
  shows "\<not> rootred c (plug C t)"
  using assms
proof (induction C t arbitrary: n rule: plug.induct)
  case (2 d a s C t)
  then show ?case by (cases "C = []") (auto split: if_splits)
qed simp

lemma rbh_split:
  assumes "rbh c (Suc n) s"
  shows "s \<noteq> Leaf"
  using assms by auto

section \<open>Unlinking a node with at most one child\<close>

lemma splice_correct:
  assumes r: "rep T h C (mk d t' y Leaf)"
  defines "x \<equiv> ptr T t'" and "u \<equiv> parent (h y)"
  defines "h1 \<equiv> set_parent x u h"
  defines "h2 \<equiv> (if y = left (h1 u) then set_child Lft u x h1 else set_child Rgt u x h1)"
  shows "xrep T h2 C t'" "red (h2 a) = red (h a)"
proof -
  note N = rep_nodes [OF r]
  have u: "u = par T C" using r by (simp add: rep_def rbt_mk u_def)
  have x: "x \<in> insert (rbt_nil T) (set_tree t')" by (cases t') (auto simp: x_def)
  have uC: "u \<notin> insert y (set_tree t')" "u \<noteq> rbt_nil T"
    using N(2-5) par_in_cset [of C T] by (cases C; auto simp: u)+
  have ux: "u \<noteq> x" using x uC by auto
  have dist: "distinct (inorder t')" "distinct (before C @ behind C)" "y \<notin> set_tree t'"
    using N(1) by (cases d; auto simp flip: set_inorder)+
  define e where "e = side_of C"
  have side: "(y = left (h1 u)) = (e = Lft)"
    using focus_side [OF r mk_ne] ux by (cases e) (auto simp: h1_def set_parent_def u e_def)
  have h2: "h2 = set_child e u x h1" using side by (cases e) (auto simp: h2_def)
  have F: "parent (h2 a) = (if a = x then u else parent (h a))" "red (h2 a) = red (h a)"
    "child f (h2 a) = (if a = u \<and> f = e then x else child f (h a))" for a f
    using ux by (cases e; cases f; simp add: h2 h1_def set_child_def set_parent_def)+
  have "rbt T h2 u t'"
  proof (rule rbt_parent [of T h y])
    show "rbt T h y t'" using r by (simp add: rep_def rbt_mk)
    show "same_links h h2 a" if "a \<in> set_tree t'" "a \<noteq> ptr T t'" for a
      using that uC by (intro same_linksI) (auto simp: F x_def)
  qed (use dist ux in \<open>auto simp: F x_def\<close>)
  moreover have "ctx T h2 x C"
  proof (rule ctx_set [where h = h and v = y])
    show "ctx T h y C" using r by (simp add: rep_def)
    show "same_links h h2 a" if "a \<in> insert (rbt_root T) (cset C)" "a \<noteq> par T C" for a
      using that N(2-5) x by (intro same_linksI) (auto simp: F u)
    show "child (opp (side_of C)) (h2 (par T C)) = child (opp (side_of C)) (h (par T C))"
      by (simp add: F u e_def)
  qed (use N dist ux in \<open>auto simp: F u e_def\<close>)
  moreover have "nodes_ok T (plug C t')"
    using r by (auto simp: rep_def nodes_ok_def inorder_plug set_plug) (cases d; auto)+
  ultimately show "xrep T h2 C t'" by (simp add: xrep_def rep_def u F flip: x_def)
  show "red (h2 a) = red (h a)" by (rule F(2))
qed

section \<open>Putting one node in the place of another\<close>

lemma replace_correct:
  assumes r: "rep T h C (Node l z r)" and l: "l \<noteq> Leaf"
    and y: "y \<notin> insert (rbt_nil T) (insert (rbt_root T) (set_tree (plug C (Node l z r))))"
  defines "u \<equiv> parent (h z)"
  defines "h1 \<equiv> (if z = left (h u) then set_child Lft u y h else set_child Rgt u y h)"
  defines "h2 \<equiv> set_parent (right (h1 z)) y h1"
  defines "h3 \<equiv> set_parent (left (h2 z)) y h2"
  defines "h4 \<equiv> h3(y := h3 z)"
  shows "rep T h4 C (Node l y r)" "red (h4 a) = (if a = y then red (h z) else red (h a))"
    "parent (h4 (rbt_nil T)) = (if r = Leaf then y else parent (h (rbt_nil T)))"
proof -
  note N = rep_nodes [OF r]
  have u: "u = par T C" using r by (simp add: rep_def u_def)
  have uC: "u \<notin> insert z (set_tree l \<union> set_tree r)" "u \<noteq> rbt_nil T"
    using N(2-5) par_in_cset [of C T] by (cases C; auto simp: u)+
  have yn: "y \<notin> insert z (set_tree l \<union> set_tree r \<union> cset C)" "y \<noteq> rbt_nil T" "y \<noteq> rbt_root T" "y \<noteq> u"
    using y par_in_cset [of C T] by (cases C; auto simp: set_plug u)+
  have dist: "distinct (inorder l)" "distinct (inorder r)" "distinct (before C @ behind C)"
    "z \<notin> set_tree l \<union> set_tree r" "set_tree l \<inter> set_tree r = {}"
    using N(1) by (auto simp flip: set_inorder)
  have lr: "ptr T l \<in> set_tree l" "ptr T r \<in> insert (rbt_nil T) (set_tree r)" using l by (cases l; cases r; auto)+
  have zn: "z \<noteq> rbt_nil T" "rbt_nil T \<notin> set_tree l" "rbt_nil T \<notin> set_tree r" using N(2) by auto
  have L: "left (h z) = ptr T l" "right (h z) = ptr T r" using r by (simp_all add: rep_def)
  define e where "e = side_of C"
  have side: "(z = left (h u)) = (e = Lft)"
    using focus_side [OF r] by (cases e) (auto simp: u e_def)
  have h1: "h1 = set_child e u y h" using side by (cases e) (auto simp: h1_def)
  have uz: "u \<noteq> z" using uC by simp
  have z12: "h1 z = h z" using uz by (simp add: h1 set_child_def)
  have zne: "z \<noteq> ptr T r" "z \<noteq> ptr T l" using lr dist(4) zn(1) by auto
  have h2e: "h2 = set_parent (ptr T r) y h1" using z12 L by (simp add: h2_def)
  have h2z: "h2 z = h z" using zne z12 by (simp add: h2e set_parent_def)
  have h3e: "h3 = set_parent (ptr T l) y (set_parent (ptr T r) y (set_child e u y h))"
    using L h2z by (simp add: h3_def h2e h1)
  have h3z: "h3 z = h z" using zne uz by (simp add: h3e set_parent_def set_child_def)
  have ne: "y \<noteq> u" "y \<noteq> ptr T l" "y \<noteq> ptr T r" "u \<noteq> ptr T l" "u \<noteq> ptr T r" "parent (h z) = u"
    using yn(1,2,4) uC lr by (auto simp: u_def)
  have h4e: "h4 = (set_parent (ptr T l) y (set_parent (ptr T r) y (set_child e u y h)))(y := h z)"
    using h3z by (simp add: h4_def h3e)
  have F: "parent (h4 a) = (if a = y then u else if a = ptr T l \<or> a = ptr T r then y else parent (h a))"
    "red (h4 a) = (if a = y then red (h z) else red (h a))"
    "child f (h4 a) = (if a = y then child f (h z) else if a = u \<and> f = e then y else child f (h a))" for a f
    using ne by (cases e; cases f; simp add: h4e set_child_def set_parent_def)+
  have keep: "same_links h h4 a" if "a \<notin> {y, u, ptr T l, ptr T r}" for a
    using that by (intro same_linksI) (simp_all add: F)
  have "rbt T h4 y l"
  proof (rule rbt_parent [of T h z])
    show "same_links h h4 a" if "a \<in> set_tree l" "a \<noteq> ptr T l" for a
      using that yn uC lr dist zn by (intro keep) auto
  qed (use r dist yn uC lr in \<open>auto simp: F rep_def\<close>)
  moreover have "rbt T h4 y r"
  proof (rule rbt_parent [of T h z])
    show "same_links h h4 a" if "a \<in> set_tree r" "a \<noteq> ptr T r" for a
      using that yn uC lr dist zn by (intro keep) auto
    show "child f (h4 (ptr T r)) = child f (h (ptr T r))" for f using ne by (simp add: F)
  qed (use r dist yn uC lr zn in \<open>auto simp: F rep_def\<close>)
  moreover have "ctx T h4 y C"
  proof (rule ctx_set [where h = h and v = z])
    show "ctx T h z C" using r by (simp add: rep_def)
    show "same_links h h4 a" if "a \<in> insert (rbt_root T) (cset C)" "a \<noteq> par T C" for a
    proof -
      have "a \<notin> insert (rbt_nil T) (set_tree l \<union> set_tree r)" using that(1) N(2-5) by auto
      moreover have "a \<noteq> y" using that(1) yn(1,3) by auto
      ultimately show ?thesis using keep lr that(2) u by blast
    qed
    show "parent (h4 (par T C)) = parent (h (par T C))" using ne by (simp add: F flip: u)
  qed (use N dist yn in \<open>auto simp: F u e_def\<close>)
  moreover have "nodes_ok T (plug C (Node l y r))"
    using r yn by (auto simp: rep_def nodes_ok_def inorder_plug set_plug cset_def simp flip: set_inorder)
  ultimately show "rep T h4 C (Node l y r)"
    using F(1) [of y] F(3) [of Lft y] F(3) [of Rgt y] L by (simp add: rep_def u)
  show "red (h4 a) = (if a = y then red (h z) else red (h a))" by (rule F(2))
  show "parent (h4 (rbt_nil T)) = (if r = Leaf then y else parent (h (rbt_nil T)))"
    using yn zn lr by (cases r) (auto simp: F)
qed

section \<open>The steps of the repair\<close>

text \<open>The cases of the loop body one after the other: a red sibling, a sibling whose outer child is
  black, and the final rotation.\<close>

definition fix_red :: "side \<Rightarrow> 'p rb_tree \<Rightarrow> 'p \<Rightarrow> 'p rb_heap \<Rightarrow> 'p \<times> 'p rb_heap" where
  "fix_red d T x h =
     (let w = child (opp d) (h (parent (h x))) in
      if red (h w) then
        (let h = set_red w False h;
             h = set_red (parent (h x)) True h;
             h = rb_rotate d T (parent (h x)) h
         in (child (opp d) (h (parent (h x))), h))
      else (w, h))"

definition fix_inner :: "side \<Rightarrow> 'p rb_tree \<Rightarrow> 'p \<Rightarrow> 'p \<Rightarrow> 'p rb_heap \<Rightarrow> 'p \<times> 'p rb_heap" where
  "fix_inner d T w x h =
     (if \<not> red (h (child (opp d) (h w))) then
        (let h = set_red (child d (h w)) False h;
             h = set_red w True h;
             h = rb_rotate (opp d) T w h
         in (child (opp d) (h (parent (h x))), h))
      else (w, h))"

definition fix_outer :: "side \<Rightarrow> 'p rb_tree \<Rightarrow> 'p \<Rightarrow> 'p \<Rightarrow> 'p rb_heap \<Rightarrow> 'p rb_heap" where
  "fix_outer d T w x h =
     (let h = set_red w (red (h (parent (h x)))) h;
          h = set_red (parent (h x)) False h;
          h = set_red (child (opp d) (h w)) False h
      in rb_rotate d T (parent (h x)) h)"

lemma fixup_steps:
  "RB_DELETE_FIXUP_SUB d T rt x h = (case fix_red d T x h of (w, h) \<Rightarrow>
     if \<not> red (h (child d (h w))) \<and> \<not> red (h (child (opp d) (h w)))
     then (parent (h x), set_red w True h)
     else (case fix_inner d T w x h of (w, h) \<Rightarrow> (rt, fix_outer d T w x h)))"
  by (simp add: RB_DELETE_FIXUP_SUB_def fix_red_def fix_inner_def fix_outer_def Let_def split: prod.split)

lemma rotate_nil:
  assumes "rep T h C (mk d \<alpha> x (mk d \<beta> y \<gamma>))"
  shows "parent (FUNC_ROTATE d T x h (rbt_nil T)) = parent (h (rbt_nil T))"
proof -
  have "child (opp d) (h x) = y" using assms by (simp add: rep_def rbt_mk)
  moreover have "rbt_nil T \<noteq> x" "rbt_nil T \<noteq> y" using rep_nodes(2) [OF assms] by auto
  ultimately show ?thesis
    by (cases d) (auto simp: FUNC_ROTATE_def Let_def set_child_def set_parent_def)
qed

lemma xrep_intro:
  assumes "rep T h' C t" "rep T h D t" "parent (h (rbt_nil T)) = par T C \<or> t \<noteq> Leaf"
    "parent (h' (rbt_nil T)) = parent (h (rbt_nil T))"
  shows "xrep T h' C t"
  using assms by (cases t) (auto simp: xrep_def rep_def)

text \<open>The focus lacks one black node compared with what its context expects.\<close>

definition lacks :: "'p rb_tree \<Rightarrow> 'p rb_heap \<Rightarrow> nat \<Rightarrow> 'p rbctx \<Rightarrow> 'p tree \<Rightarrow> bool" where
  "lacks T h n C t \<longleftrightarrow> xrep T h C t \<and> rbh (reds h) n t \<and> rctx (reds h) (Suc n) C \<and>
     \<not> red (h (rbt_nil T)) \<and> \<not> red (h (rbt_root T))"

lemma lacksD:
  assumes "lacks T h n ((d, p, s) # C) t"
  shows "parent (h (ptr T t)) = p" "child (opp d) (h p) = ptr T s" "rep T h C (mk d t p s)"
    "rbh (reds h) n t" "rbh (reds h) (Suc n) s" "red (h p) \<Longrightarrow> \<not> rootred (reds h) s \<and> C \<noteq> [] \<and> \<not> cred (reds h) C"
    "rctx (reds h) (if red (h p) then Suc n else Suc (Suc n)) C"
    "\<not> red (h (rbt_nil T))" "\<not> red (h (rbt_root T))"
  using assms by (auto simp: lacks_def xrep_def rep_up rep_def rbt_mk split: if_splits)

lemma focus_dist:
  assumes "rep T h C (mk d t p s)"
  shows "p \<notin> set_tree t \<union> set_tree s \<union> cset C" "set_tree t \<inter> set_tree s = {}"
    "set_tree t \<inter> cset C = {}" "set_tree s \<inter> cset C = {}" "distinct (inorder s)" "distinct (inorder t)"
    "rbt_nil T \<notin> insert p (set_tree t \<union> set_tree s \<union> cset C)" "rbt_root T \<notin> insert p (set_tree t \<union> set_tree s \<union> cset C)"
  using rep_nodes [OF assms] by (cases d; auto simp: cset_def simp flip: set_inorder)+

lemma fix_red_correct:
  assumes inv: "lacks T h n ((d, p, s) # C) t"
  shows "\<exists>h1 s1 C1. fix_red d T (ptr T t) h = (ptr T s1, h1) \<and> lacks T h1 n ((d, p, s1) # C1) t \<and>
    \<not> rootred (reds h1) s1 \<and> inorder (plug C1 (mk d t p s1)) = inorder (plug C (mk d t p s)) \<and>
    (h1 = h \<and> s1 = s \<and> C1 = C \<or> red (h1 p) \<and> (\<exists>w \<gamma>. C1 = (d, w, \<gamma>) # C) \<and> (\<forall>a \<in> cset C. red (h1 a) = red (h a))) \<and>
    rootred (reds h1) t = rootred (reds h) t"
proof (cases "rootred (reds h) s")
  note D = lacksD [OF inv]
  case False
  then have "\<not> red (h (ptr T s))" using D(8) by (cases s) auto
  then have "fix_red d T (ptr T t) h = (ptr T s, h)" using D(1,2) by (simp add: fix_red_def)
  then show ?thesis using inv False by blast
next
  note D = lacksD [OF inv]
  case True
  then have "s \<noteq> Leaf" by auto
  then obtain \<beta> \<gamma> where s: "s = mk d \<beta> (ptr T s) \<gamma>" using mk_cases by blast
  define w where "w = ptr T s"
  define h0 where "h0 = set_red p True (set_red w False h)"
  define h1 where "h1 = FUNC_ROTATE d T p h0"
  have sw: "s = mk d \<beta> w \<gamma>" using s by (simp add: w_def)
  have wr: "red (h w)" using True sw by simp
  have p: "\<not> red (h p)" using D(6) True by auto
  have r0: "rep T h0 C (mk d t p (mk d \<beta> w \<gamma>))" using D(3) sw by (simp add: h0_def)
  note R = rotate_correct [OF r0, folded h1_def]
  note N = focus_dist [OF D(3)]
  have wd: "w \<notin> set_tree t \<union> set_tree \<beta> \<union> set_tree \<gamma> \<union> cset C" "w \<noteq> p" "w \<in> set_tree s"
    using N(1-5) sw by (cases d; auto simp flip: set_inorder)+
  have col: "red (h1 a) = (if a = p then True else if a = w then False else red (h a))" for a
    using R(2) by (simp add: h0_def)
  have sub: "rbh (reds h1) m v = rbh (reds h) m v" "rootred (reds h1) v = rootred (reds h) v" if "v \<in> {t, \<beta>, \<gamma>}" for v m
    by (rule rbh_cong rootred_cong; use that N(1) wd sw col in auto)+
  have pw: "red (h1 p)" "\<not> red (h1 w)" using col wd(2) by simp_all
  have ct: "rctx (reds h1) m C = rctx (reds h) m C" for m by (rule rctx_cong) (use N(1) wd col in auto)
  have sc: "rbh (reds h) (Suc n) \<beta>" "rbh (reds h) (Suc n) \<gamma>" "\<not> rootred (reds h) \<beta>" "\<not> rootred (reds h) \<gamma>"
    using D(5) wr sw by (simp_all add: rbh_mk)
  have r1: "rep T h1 ((d, p, \<beta>) # (d, w, \<gamma>) # C) t" using R(1) by (simp add: rep_up)
  have px: "parent (h1 (ptr T t)) = p"
    using r1 rotate_nil [OF r0, folded h1_def] D(1) by (cases t) (auto simp: rep_def h0_def)
  have "lacks T h1 n ((d, p, \<beta>) # (d, w, \<gamma>) # C) t"
    using r1 px D(4,7-9) sc sub pw ct p N(7,8) wd(3) col by (auto simp: lacks_def xrep_def)
  moreover have "fix_red d T (ptr T t) h = (ptr T \<beta>, h1)"
    using D(1,2) wr px r1 by (auto simp: fix_red_def Let_def h1_def h0_def rb_rotate_eq rep_def simp flip: w_def)
  moreover have "\<not> rootred (reds h1) \<beta>" using sub sc by simp
  moreover have "inorder (plug ((d, w, \<gamma>) # C) (mk d t p \<beta>)) = inorder (plug C (mk d t p s))"
    unfolding sw by (cases d) (simp_all add: inorder_plug)
  moreover have "\<forall>a \<in> cset C. red (h1 a) = red (h a)" using col N(1) wd(1) by auto
  moreover have "rootred (reds h1) t = rootred (reds h) t" using sub by simp
  ultimately show ?thesis using pw(1) by blast
qed

lemma fix_inner_correct:
  assumes inv: "lacks T h n ((d, p, s) # C) t" and s: "\<not> rootred (reds h) s"
    and far: "rootred (reds h) \<sigma> \<or> rootred (reds h) \<tau>" and sw: "s = mk d \<sigma> w \<tau>"
  shows "\<exists>h1 \<sigma>1 w1 \<tau>1. fix_inner d T w (ptr T t) h = (w1, h1) \<and> lacks T h1 n ((d, p, mk d \<sigma>1 w1 \<tau>1) # C) t \<and>
    \<not> red (h1 w1) \<and> rootred (reds h1) \<tau>1 \<and> inorder (mk d \<sigma>1 w1 \<tau>1) = inorder s \<and>
    (\<forall>a \<in> insert p (cset C). red (h1 a) = red (h a))"
proof (cases "rootred (reds h) \<tau>")
  note D = lacksD [OF inv]
  have L: "child (opp d) (h w) = ptr T \<tau>" using D(3) sw by (simp add: rep_def rbt_mk)
  case True
  then have "red (h (child (opp d) (h w)))" using L by (cases \<tau>) auto
  then have "fix_inner d T w (ptr T t) h = (w, h)" by (simp add: fix_inner_def)
  then show ?thesis using inv s True sw by (intro exI [of _ h] exI [of _ \<sigma>] exI [of _ w] exI [of _ \<tau>]) simp
next
  note D = lacksD [OF inv]
  case False
  then have "\<sigma> \<noteq> Leaf" "rootred (reds h) \<sigma>" using far by auto
  then obtain \<sigma>1 \<sigma>2 where se: "\<sigma> = mk d \<sigma>1 (ptr T \<sigma>) \<sigma>2" using mk_cases by blast
  define v where "v = ptr T \<sigma>"
  have sv: "\<sigma> = mk d \<sigma>1 v \<sigma>2" using se by (simp add: v_def)
  have vr: "red (h v)" using \<open>rootred (reds h) \<sigma>\<close> sv by simp
  have wb: "\<not> red (h w)" using s sw by simp
  let ?\<tau> = "mk d \<sigma>2 w \<tau>"
  define h0 where "h0 = set_red w True (set_red v False h)"
  define h1 where "h1 = FUNC_ROTATE (opp d) T w h0"
  have L: "child (opp d) (h w) = ptr T \<tau>" "child d (h w) = v" using D(3) sw sv by (simp_all add: rep_def rbt_mk)
  have r0: "rep T h0 ((opp d, p, t) # C) (mk (opp d) \<tau> w (mk (opp d) \<sigma>2 v \<sigma>1))"
    using D(3) sw sv by (simp add: h0_def rep_up mk_opp)
  note R = rotate_correct [OF r0, folded h1_def]
  note N = focus_dist [OF D(3)]
  have wd: "v \<notin> set_tree t \<union> set_tree \<sigma>1 \<union> set_tree \<sigma>2 \<union> set_tree \<tau> \<union> cset C" "v \<noteq> w" "v \<noteq> p" "w \<noteq> p"
    "w \<notin> set_tree t \<union> set_tree \<sigma>1 \<union> set_tree \<sigma>2 \<union> set_tree \<tau> \<union> cset C" "v \<in> set_tree s" "w \<in> set_tree s"
    using N(1-5) sw sv by (cases d; auto simp flip: set_inorder)+
  have col: "red (h1 a) = (if a = w then True else if a = v then False else red (h a))" for a
    using R(2) by (simp add: h0_def)
  have sub: "rbh (reds h1) m x = rbh (reds h) m x" "rootred (reds h1) x = rootred (reds h) x"
    if "x \<in> {t, \<sigma>1, \<sigma>2, \<tau>}" for x m
    by (rule rbh_cong rootred_cong; use that wd col in auto)+
  have vw: "red (h1 w)" "\<not> red (h1 v)" using col wd(2) by simp_all
  have ct: "rctx (reds h1) m C = rctx (reds h) m C" "cred (reds h1) C = cred (reds h) C" for m
    by (rule rctx_cong cred_cong; use wd col in auto)+
  have keep: "\<forall>a \<in> insert p (cset C). red (h1 a) = red (h a)" using col wd by auto
  have sc: "rbh (reds h) n \<sigma>1" "rbh (reds h) n \<sigma>2" "rbh (reds h) n \<tau>" "\<not> rootred (reds h) \<sigma>1" "\<not> rootred (reds h) \<sigma>2"
    using D(5) wb vr sw sv by (simp_all add: rbh_mk)
  have r1: "rep T h1 ((d, p, mk d \<sigma>1 v ?\<tau>) # C) t" using R(1) by (simp add: rep_up mk_opp)
  have px: "parent (h1 (ptr T t)) = p"
    using r1 rotate_nil [OF r0, folded h1_def] D(1) by (cases t) (auto simp: rep_def h0_def)
  have "rbh (reds h1) (Suc n) (mk d \<sigma>1 v ?\<tau>)" "\<not> rootred (reds h1) (mk d \<sigma>1 v ?\<tau>)"
    using sc sub vw False by (simp_all add: rbh_mk)
  moreover have "red (h1 p) = red (h p)" using keep by simp
  ultimately have cx: "rctx (reds h1) (Suc n) ((d, p, mk d \<sigma>1 v ?\<tau>) # C)"
    using D(6,7) ct by (cases "red (h p)") simp_all
  have "\<not> red (h1 (rbt_nil T))" "\<not> red (h1 (rbt_root T))" using D(8,9) N(7,8) wd(6,7) col by auto
  then have "lacks T h1 n ((d, p, mk d \<sigma>1 v ?\<tau>) # C) t"
    using r1 px cx D(4) sub [of t] vw(2) unfolding lacks_def xrep_def by simp
  moreover have "\<not> red (h (ptr T \<tau>))" using False D(8) by (cases \<tau>) auto
  then have "fix_inner d T w (ptr T t) h = (v, h1)"
    using L px r1 by (auto simp: fix_inner_def Let_def h1_def h0_def rb_rotate_eq rep_def)
  moreover have "inorder (mk d \<sigma>1 v ?\<tau>) = inorder s" using sw sv by (cases d) simp_all
  ultimately show ?thesis using vw keep
    by (intro exI [of _ h1] exI [of _ \<sigma>1] exI [of _ v] exI [of _ ?\<tau>]) simp
qed

lemma fix_outer_correct:
  assumes inv: "lacks T h n ((d, p, mk d \<sigma> w \<tau>) # C) t" and w: "\<not> red (h w)" and far: "rootred (reds h) \<tau>"
  shows "\<exists>t' k. rep T (fix_outer d T w (ptr T t) h) C t' \<and> t' \<noteq> Leaf \<and> rbh (reds (fix_outer d T w (ptr T t) h)) k t' \<and>
    rctx (reds (fix_outer d T w (ptr T t) h)) k C \<and>
    (rootred (reds (fix_outer d T w (ptr T t) h)) t' \<longrightarrow> C \<noteq> [] \<and> \<not> cred (reds (fix_outer d T w (ptr T t) h)) C) \<and>
    inorder t' = inorder (mk d t p (mk d \<sigma> w \<tau>)) \<and>
    (\<forall>a \<in> insert (rbt_nil T) (insert (rbt_root T) (cset C)). red (fix_outer d T w (ptr T t) h a) = red (h a)) \<and>
    \<not> red (fix_outer d T w (ptr T t) h p)"
proof -
  note D = lacksD [OF inv] and N = focus_dist [OF lacksD(3) [OF inv]]
  let ?v = "ptr T \<tau>" and ?t = "mk d (mk d t p \<sigma>) w \<tau>" and ?k = "if red (h p) then Suc n else Suc (Suc n)"
  define h0 where "h0 = set_red ?v False (set_red p False (set_red w (red (h p)) h))"
  define h' where "h' = FUNC_ROTATE d T p h0"
  have L: "child (opp d) (h w) = ?v" using D(3) by (simp add: rep_def rbt_mk)
  have F: "fix_outer d T w (ptr T t) h = h'"
    using D(1) L by (simp add: fix_outer_def Let_def h'_def h0_def rb_rotate_eq)
  have "rep T h0 C (mk d t p (mk d \<sigma> w \<tau>))" using D(3) by (simp add: h0_def)
  note R = rotate_correct [OF this, folded h'_def]
  have v: "?v \<in> set_tree \<tau>" using far by (cases \<tau>) auto
  have wd: "w \<notin> set_tree t \<union> set_tree \<sigma> \<union> set_tree \<tau> \<union> cset C" "w \<noteq> p" "?v \<notin> set_tree t \<union> set_tree \<sigma> \<union> cset C"
    "?v \<noteq> p" "?v \<noteq> w" "distinct (inorder \<tau>)"
    using N(1-5) v by (cases d; auto simp flip: set_inorder)+
  have col: "red (h' a) = (if a = ?v then False else if a = p then False else if a = w then red (h p) else red (h a))" for a
    using R(2) by (simp add: h0_def)
  have sub: "rbh (reds h') m x = rbh (reds h) m x" "rootred (reds h') x = rootred (reds h) x" if "x \<in> {t, \<sigma>}" for x m
    by (rule rbh_cong rootred_cong; use that wd N(1) col in auto)+
  have sc: "rbh (reds h) n \<sigma>" "rbh (reds h) n \<tau>" using D(5) w by (simp_all add: rbh_mk)
  have cols: "\<not> red (h' p)" "red (h' w) = red (h p)" "\<not> red (h' ?v)" using col wd(2,4,5) by auto
  have "rbh (reds h') (Suc n) \<tau> \<and> \<not> rootred (reds h') \<tau>"
  proof -
    define g where "g = set_red ?v False h"
    have "rbh (reds g) (Suc n) \<tau> \<and> \<not> rootred (reds g) \<tau>"
      by (rule rbh_blacken [where T = T, OF sc(2) far wd(6)]) (simp_all add: g_def)
    moreover have "rbh (reds h') (Suc n) \<tau> = rbh (reds g) (Suc n) \<tau>" "rootred (reds h') \<tau> = rootred (reds g) \<tau>"
      by (rule rbh_cong rootred_cong; use wd N(1) col in \<open>auto simp: g_def\<close>)+
    ultimately show ?thesis by simp
  qed
  then have "rbh (reds h') ?k ?t" using sc D(4) sub cols by (simp add: rbh_mk)
  moreover have ct: "rctx (reds h') m C = rctx (reds h) m C" "cred (reds h') C = cred (reds h) C" for m
    by (rule rctx_cong cred_cong; use wd N(1) col in auto)+
  then have "rctx (reds h') ?k C" using D(7) by simp
  moreover have "rootred (reds h') ?t \<longrightarrow> C \<noteq> [] \<and> \<not> cred (reds h') C" using cols(2) ct D(6) by simp
  moreover have "inorder ?t = inorder (mk d t p (mk d \<sigma> w \<tau>))" by (rule inorder_mk_rotate)
  moreover have "\<forall>a \<in> insert (rbt_nil T) (insert (rbt_root T) (cset C)). red (h' a) = red (h a)"
    using col wd N(1,7,8) v by auto
  ultimately show ?thesis unfolding F using R(1) cols(1)
    by (intro exI [of _ ?t] exI [of _ ?k]) simp
qed

section \<open>The repair loop\<close>

definition fixed :: "'p rb_tree \<Rightarrow> 'p list \<Rightarrow> 'p rb_heap option \<Rightarrow> bool" where
  "fixed T xs res \<longleftrightarrow> (\<exists>h' t'. res = Some h' \<and> rb_inv T h' t' \<and> inorder t' = xs)"

lemma fixup_exit:
  assumes inv: "lacks T h n C t" and ex: "C = [] \<or> rootred (reds h) t"
  shows "fixed T (inorder (plug C t)) (Some (set_red (ptr T t) False h))"
proof -
  let ?h = "set_red (ptr T t) False h"
  have r: "rep T h C t" and c: "rbh (reds h) n t" "rctx (reds h) (Suc n) C"
    and sent: "\<not> red (h (rbt_nil T))" "\<not> red (h (rbt_root T))"
    using inv by (auto simp: lacks_def xrep_def)
  note N = rep_nodes [OF r]
  have d: "distinct (inorder t)" using N(1) by simp
  have "\<exists>m. rbh (reds ?h) m (plug C t) \<and> \<not> rootred (reds ?h) (plug C t)"
  proof (cases "C = []")
    case True
    then show ?thesis using rbh_root_black [OF c(1) d] by (simp add: fun_upd_def)
  next
    case False
    then have rt: "rootred (reds h) t" using ex by simp
    have B: "rbh (reds ?h) (Suc n) t \<and> \<not> rootred (reds ?h) t"
      by (rule rbh_blacken [where T = T, OF c(1) rt d]) simp_all
    have "ptr T t \<in> set_tree t" using rt by (cases t) auto
    then have "rctx (reds ?h) (Suc n) C = rctx (reds h) (Suc n) C" by (intro rctx_cong) (use N(5) in auto)
    then have ct: "rctx (reds ?h) (Suc n) C" using c(2) by simp
    show ?thesis using rbh_plug [OF ct] B rctx_root [OF ct False] by blast
  qed
  moreover have "rep T ?h [] (plug C t)" using r rep_plug [of T h C t] by simp
  moreover have "\<not> red (?h (rbt_nil T))" "\<not> red (?h (rbt_root T))" using sent by simp_all
  ultimately show ?thesis unfolding fixed_def rb_inv_def by blast
qed

lemma fixup_step:
  assumes inv: "lacks T h n ((d, p, s) # C) t" and t: "\<not> rootred (reds h) t"
    and rt: "rt = ptr T (plug ((d, p, s) # C) t)"
  shows "rb_delete_fixup_loop T rt (ptr T t) h =
    (case RB_DELETE_FIXUP_SUB d T rt (ptr T t) h of (x, h) \<Rightarrow> rb_delete_fixup_loop T rt x h)"
proof -
  note D = lacksD [OF inv] and N = focus_dist [OF lacksD(3) [OF inv]]
  have tp: "ptr T t \<in> insert (rbt_nil T) (set_tree t)" by (cases t) auto
  have sp: "ptr T s \<in> set_tree s" using D(5) by (cases s) auto
  have "\<not> red (h (ptr T t))" using t D(8) by (cases t) auto
  moreover have "rt \<in> insert p (cset C)"
  proof -
    have "ptr T (plug C v) \<in> insert (ptr T v) (cset C)" for v
      by (induction C v rule: plug.induct) (auto split: if_splits)
    from this [of "mk d t p s"] show ?thesis using rt by simp
  qed
  then have "ptr T t \<noteq> rt" using tp N(1,3,7) by auto
  moreover have "(ptr T t = left (h p)) = (d = Lft)"
  proof -
    have "child d (h p) = ptr T t" "child (opp d) (h p) = ptr T s" using D(3) by (simp_all add: rep_def rbt_mk)
    moreover have "ptr T s \<noteq> ptr T t" using tp sp N(2,7) by auto
    ultimately show ?thesis by (cases d) auto
  qed
  ultimately show ?thesis using D(1) by (subst rb_delete_fixup_loop.simps) (cases d; simp)
qed

text \<open>A step whose sibling has two black children moves the missing black node to the parent.\<close>

lemma fixup_recolour:
  assumes inv: "lacks T h n ((d, p, mk d \<sigma> w \<tau>) # C) t" and w: "\<not> red (h w)" and t: "\<not> rootred (reds h) t"
    and bl: "\<not> rootred (reds h) \<sigma>" "\<not> rootred (reds h) \<tau>"
  defines "h' \<equiv> set_red w True h" and "t' \<equiv> mk d t p (mk d \<sigma> w \<tau>)"
  shows "\<not> red (h p) \<Longrightarrow> lacks T h' (Suc n) C t'" "red (h p) \<Longrightarrow> fixed T (inorder (plug C t')) (Some (set_red p False h'))"
    "red (h' p) = red (h p)"
proof -
  note D = lacksD [OF inv] and N = focus_dist [OF lacksD(3) [OF inv]]
  have wd: "w \<notin> set_tree t \<union> set_tree \<sigma> \<union> set_tree \<tau> \<union> cset C" "w \<noteq> p" "p \<noteq> w"
    using N(1-5) by (cases d; auto simp flip: set_inorder)+
  have sc: "rbh (reds h) n \<sigma>" "rbh (reds h) n \<tau>" using D(5) w by (simp_all add: rbh_mk)
  have r: "rep T h' C t'" using D(3) by (simp add: h'_def t'_def)
  have sent: "\<not> red (h' (rbt_nil T))" "\<not> red (h' (rbt_root T))" using D(8,9) N(7,8) by (auto simp: h'_def)
  have col: "red (h' a) = (a = w \<or> red (h a))" for a by (simp add: h'_def)
  have sub: "rbh (reds h') m v = rbh (reds h) m v" "rootred (reds h') v = rootred (reds h) v" if "v \<in> {t, \<sigma>, \<tau>}" for v m
    by (rule rbh_cong rootred_cong; use that wd col in auto)+
  have ct: "rctx (reds h') m C = rctx (reds h) m C" for m by (rule rctx_cong) (use wd col in auto)
  have cw: "red (h' w)" "red (h' p) = red (h p)" using col wd by auto
  then show "red (h' p) = red (h p)" by simp
  have sib: "rbh (reds h') n (mk d \<sigma> w \<tau>)" using sc bl sub cw by (simp add: rbh_mk)
  show "lacks T h' (Suc n) C t'" if p: "\<not> red (h p)"
    using r sent sib sub [of t] D(4,7) p cw ct unfolding lacks_def xrep_node [of t' T h' C, unfolded t'_def, OF mk_ne, folded t'_def]
    by (simp add: t'_def rbh_mk)
  show "fixed T (inorder (plug C t')) (Some (set_red p False h'))" if p: "red (h p)"
  proof -
    define h'' where "h'' = set_red p False h'"
    have sub2: "rbh (reds h'') m v = rbh (reds h') m v" if "v \<in> {t, mk d \<sigma> w \<tau>}" for v m
      by (rule rbh_cong) (use that N(1) in \<open>auto simp: h''_def\<close>)
    have "rbh (reds h'') n t" "rbh (reds h'') n (mk d \<sigma> w \<tau>)" using sub2 sib sub [of t] D(4) by simp_all
    moreover have "\<not> red (h'' p)" by (simp add: h''_def)
    ultimately have "rbh (reds h'') (Suc n) t'" unfolding t'_def rbh_mk [of _ _ d t] by simp
    moreover have "rctx (reds h'') (Suc n) C = rctx (reds h') (Suc n) C"
      by (rule rctx_cong) (use N(1) in \<open>auto simp: h''_def\<close>)
    then have cc: "rctx (reds h'') (Suc n) C" using ct D(7) p by simp
    moreover have nr: "\<not> rootred (reds h'') t'" by (simp add: t'_def h''_def)
    ultimately obtain m where "rbh (reds h'') m (plug C t')" using rbh_plug by blast
    moreover have "\<not> rootred (reds h'') (plug C t')" using rctx_root [OF cc] D(6) p by simp
    moreover have "rep T h'' [] (plug C t')" using r rep_plug [of T h'' C t'] by (simp add: h''_def)
    moreover have "\<not> red (h'' (rbt_nil T))" "\<not> red (h'' (rbt_root T))" using sent by (simp_all add: h''_def)
    ultimately show ?thesis unfolding fixed_def rb_inv_def h''_def [symmetric] by blast
  qed
qed

lemma plug_root_in: "C \<noteq> [] \<Longrightarrow> ptr T (plug C t) \<in> cset C"
proof (induction C t rule: plug.induct)
  case (2 d a s C t)
  then show ?case by (cases "C = []") auto
qed simp

text \<open>After the last case the loop is sent to the node that was the root when it started, which is
  still black.\<close>

lemma fixup_root_black:
  assumes inv: "lacks T h n ((d, p, s) # C) t" and rt: "rt = ptr T (plug ((d, p, s) # C) t)"
    and keep: "\<And>a. a \<in> cset C \<Longrightarrow> red (h' a) = red (h a)" and p: "\<not> red (h' p)"
  shows "\<not> red (h' rt)"
proof (cases "C = []")
  case True
  then show ?thesis using rt p by simp
next
  case False
  have "rctx (reds h) (Suc n) ((d, p, s) # C)" "\<not> red (h (rbt_nil T))" using inv by (simp_all add: lacks_def)
  from rctx_root [OF this(1), of t] rootred_ptr [of "reds h" T "plug ((d, p, s) # C) t"] this(2)
  have "\<not> red (h rt)" using rt by simp
  moreover have "rt \<in> cset C" using plug_root_in [OF False, of T "mk d t p s"] rt by simp
  ultimately show ?thesis using keep by simp
qed

lemma fixup_finish:
  assumes "rep T h C t" "t \<noteq> Leaf" "rbh (reds h) k t" "rctx (reds h) k C"
    "rootred (reds h) t \<longrightarrow> C \<noteq> [] \<and> \<not> cred (reds h) C" "\<not> red (h x)"
    "\<not> red (h (rbt_nil T))" "\<not> red (h (rbt_root T))"
  shows "fixed T (inorder (plug C t)) (Some (set_red x False h))"
proof -
  obtain m where "rbh (reds h) m (plug C t)" using rbh_plug [OF assms(4,3)] assms(5) by blast
  moreover have "\<not> rootred (reds h) (plug C t)" using assms(5) rctx_root [OF assms(4)] by (cases "C = []") auto
  moreover have "reds (set_red x False h) = reds h" using assms(6) by auto
  moreover have "rep T (set_red x False h) [] (plug C t)" using assms(1) rep_plug [of T h C t] by simp
  ultimately show ?thesis using assms(7,8) unfolding fixed_def rb_inv_def by (metis set_red_fields(5))
qed

lemma fixup_loop_correct:
  assumes "lacks T h n C t" and "rt = ptr T (plug C t)"
  shows "fixed T (inorder (plug C t)) (rb_delete_fixup_loop T rt (ptr T t) h)"
  using assms
proof (induction "length C" arbitrary: C t h n rule: less_induct)
  case less
  note inv = less.prems(1)
  have sent: "\<not> red (h (rbt_nil T))" using inv by (simp add: lacks_def)
  show ?case
  proof (cases "C = [] \<or> rootred (reds h) t")
    case True
    have "ptr T t = rt \<or> red (h (ptr T t))" using True less.prems(2) by (cases t) auto
    then have "rb_delete_fixup_loop T rt (ptr T t) h = Some (set_red (ptr T t) False h)"
      by (subst rb_delete_fixup_loop.simps) auto
    then show ?thesis using fixup_exit [OF inv True] by simp
  next
    case False
    then obtain d p s C' where C: "C = (d, p, s) # C'" and t: "\<not> rootred (reds h) t" by (cases C) auto
    note inv' = inv [unfolded C]
    note step = fixup_step [OF inv' t less.prems(2) [unfolded C]]
    obtain h1 s1 C1 where 1: "fix_red d T (ptr T t) h = (ptr T s1, h1)" "lacks T h1 n ((d, p, s1) # C1) t"
      "\<not> rootred (reds h1) s1" "inorder (plug C1 (mk d t p s1)) = inorder (plug C' (mk d t p s))"
      "h1 = h \<and> s1 = s \<and> C1 = C' \<or> red (h1 p) \<and> (\<exists>w \<gamma>. C1 = (d, w, \<gamma>) # C') \<and> (\<forall>a \<in> cset C'. red (h1 a) = red (h a))"
      "rootred (reds h1) t = rootred (reds h) t"
      using fix_red_correct [OF inv'] by blast
    note D1 = lacksD [OF 1(2)]
    have "s1 \<noteq> Leaf" using D1(5) by auto
    then obtain \<sigma> \<tau> where s1: "s1 = mk d \<sigma> (ptr T s1) \<tau>" using mk_cases by blast
    define w where "w = ptr T s1"
    have sw: "s1 = mk d \<sigma> w \<tau>" using s1 by (simp add: w_def)
    have wb: "\<not> red (h1 w)" using 1(3) sw by simp
    have ch: "child d (h1 w) = ptr T \<sigma>" "child (opp d) (h1 w) = ptr T \<tau>"
      using D1(3) sw by (simp_all add: rep_def rbt_mk)
    have cr: "red (h1 (ptr T \<sigma>)) = rootred (reds h1) \<sigma>" "red (h1 (ptr T \<tau>)) = rootred (reds h1) \<tau>"
      using D1(8) by (cases \<sigma>; cases \<tau>; simp)+
    have t1: "\<not> rootred (reds h1) t" using 1(6) t by simp
    have io: "inorder (plug C t) = inorder (plug C1 (mk d t p s1))" using 1(4) C by simp
    show ?thesis
    proof (cases "rootred (reds h1) \<sigma> \<or> rootred (reds h1) \<tau>")
      case False
      have sub: "RB_DELETE_FIXUP_SUB d T rt (ptr T t) h = (p, set_red w True h1)"
        using 1(1) False ch cr D1(1) by (simp add: fixup_steps w_def)
      note R = fixup_recolour [OF 1(2) [unfolded sw] wb t1] 
      show ?thesis
      proof (cases "red (h1 p)")
        case True
        then have "rb_delete_fixup_loop T rt p (set_red w True h1) = Some (set_red p False (set_red w True h1))"
          using R(3) False by (subst rb_delete_fixup_loop.simps) auto
        then show ?thesis using step sub R(2) True False io sw by simp
      next
        case p: False
        then have same: "h1 = h" "s1 = s" "C1 = C'" using 1(5) by auto
        have "lacks T (set_red w True h1) (Suc n) C' (mk d t p s1)" using R(1) p False sw same by simp
        from less.hyps [OF _ this] show ?thesis
          using step sub C less.prems(2) same by simp
      qed
    next
      case True
      obtain h2 \<sigma>2 w2 \<tau>2 where 2: "fix_inner d T w (ptr T t) h1 = (w2, h2)" "lacks T h2 n ((d, p, mk d \<sigma>2 w2 \<tau>2) # C1) t"
        "\<not> red (h2 w2)" "rootred (reds h2) \<tau>2" "inorder (mk d \<sigma>2 w2 \<tau>2) = inorder s1"
        "\<forall>a \<in> insert p (cset C1). red (h2 a) = red (h1 a)"
        using fix_inner_correct [OF 1(2,3) True sw] by blast
      define h3 where "h3 = fix_outer d T w2 (ptr T t) h2"
      have sub: "RB_DELETE_FIXUP_SUB d T rt (ptr T t) h = (rt, h3)"
        using 1(1) 2(1) True ch cr D1(1) by (auto simp: fixup_steps w_def h3_def)
      obtain t' k where 3: "rep T h3 C1 t'" "t' \<noteq> Leaf" "rbh (reds h3) k t'" "rctx (reds h3) k C1"
        "rootred (reds h3) t' \<longrightarrow> C1 \<noteq> [] \<and> \<not> cred (reds h3) C1"
        "inorder t' = inorder (mk d t p (mk d \<sigma>2 w2 \<tau>2))"
        "\<forall>a \<in> insert (rbt_nil T) (insert (rbt_root T) (cset C1)). red (h3 a) = red (h2 a)" "\<not> red (h3 p)"
        using fix_outer_correct [OF 2(2-4)] unfolding h3_def by blast
      have "inorder (plug C1 t') = inorder (plug C t)"
        using 3(6) 2(5) io by (cases d) (simp_all add: inorder_plug)
      moreover have "fixed T (inorder (plug C1 t')) (Some (set_red rt False h3))"
      proof (rule fixup_finish [OF 3(1-5)])
        have keep: "\<And>a. a \<in> cset C' \<Longrightarrow> red (h3 a) = red (h a)"
          using 2(6) 3(7) 1(5) by auto
        show "\<not> red (h3 rt)"
          by (rule fixup_root_black [where h' = h3, OF inv' less.prems(2) [unfolded C]]) (use keep 3(8) in auto)
        show "\<not> red (h3 (rbt_nil T))" "\<not> red (h3 (rbt_root T))"
          using 3(7) 2(2) by (auto simp: lacks_def)
      qed
      moreover have "rb_delete_fixup_loop T rt rt h3 = Some (set_red rt False h3)"
        by (subst rb_delete_fixup_loop.simps) simp
      ultimately show ?thesis using step sub C by simp
    qed
  qed
qed

end
