(* ===== verification/RbWalk.thy ===== *)
theory RbWalk
  imports RbDelete
begin

text \<open>
  Searching and walking through a tree, and deletion as a whole, which uses the walk to find the
  node that takes the place of the deleted one. Properties of the red-black trees.
\<close>

section \<open>Walking\<close>

lemma focus_on:
  assumes "a \<in> set_tree t"
  shows "\<exists>C l r. t = plug C (Node l a r)"
  using assms
proof (induction t)
  case (Node l b r)
  consider "a = b" | "a \<in> set_tree l" | "a \<in> set_tree r" using Node.prems by auto
  then show ?case
  proof cases
    case 1
    then have "Node l b r = plug [] (Node l a r)" by simp
    then show ?thesis by blast
  next
    case 2
    then obtain C l' r' where "l = plug C (Node l' a r')" using Node.IH by blast
    then have "Node l b r = plug (C @ [(Lft, b, r)]) (Node l' a r')" by (simp add: plug_append)
    then show ?thesis by blast
  next
    case 3
    then obtain C l' r' where "r = plug C (Node l' a r')" using Node.IH by blast
    then have "Node l b r = plug (C @ [(Rgt, b, l)]) (Node l' a r')" by (simp add: plug_append)
    then show ?thesis by blast
  qed
qed simp

text \<open>\<open>pick d\<close> splits the inorder sequence as seen from side \<open>d\<close>.\<close>

lemma extreme_correct:
  assumes "rep T h C t" "t \<noteq> Leaf"
  shows "\<exists>E y s. t = plug E (mk d Leaf y s) \<and> rb_extreme d T h (ptr T t) = Some y \<and>
    (if d = Lft then before E = [] else behind E = [])"
  using assms
proof (induction t arbitrary: C)
  case (Node l a r)
  obtain u v where uv: "Node l a r = mk d u a v" "u = (if d = Lft then l else r)" by (cases d) auto
  have L: "child d (h a) = ptr T u" using Node.prems(1) uv by (simp add: rep_def rbt_mk)
  have r: "rep T h ((d, a, v) # C) u" using Node.prems(1) uv by (simp add: rep_up)
  show ?case
  proof (cases "u = Leaf")
    case True
    then have "rb_extreme d T h a = Some a" using L by (subst rb_extreme.simps) simp
    moreover have "Node l a r = plug [] (mk d Leaf a v)" using uv True by simp
    ultimately show ?thesis by (intro exI [of _ "[]"] exI [of _ a] exI [of _ v]) simp
  next
    case False
    have "ptr T u \<noteq> rbt_nil T" using rep_nodes(2) [OF r] False by (cases u) auto
    then have step: "rb_extreme d T h a = rb_extreme d T h (ptr T u)"
      using L by (subst rb_extreme.simps) simp
    obtain E y s where E: "u = plug E (mk d Leaf y s)" "rb_extreme d T h (ptr T u) = Some y"
      "if d = Lft then before E = [] else behind E = []"
      using Node.IH(1) [of "(d, a, v) # C"] Node.IH(2) [of "(d, a, v) # C"] r uv(2) False by (cases d) auto
    have "Node l a r = plug (E @ [(d, a, v)]) (mk d Leaf y s)" using uv(1) E(1) by (simp add: plug_append)
    moreover have "before (E @ [(d, a, v)]) = [] \<or> d = Rgt" "behind (E @ [(d, a, v)]) = [] \<or> d = Lft"
      using E(3) by (induction E) (cases d; auto split: side.splits if_splits)+
    moreover have "rb_extreme d T h (ptr T (Node l a r)) = Some y" using step E(2) by simp
    ultimately have "Node l a r = plug (E @ [(d, a, v)]) (mk d Leaf y s) \<and>
        rb_extreme d T h (ptr T (Node l a r)) = Some y \<and>
        (if d = Lft then before (E @ [(d, a, v)]) = [] else behind (E @ [(d, a, v)]) = [])"
      by (cases d) simp_all
    then show ?thesis by blast
  qed
qed simp

lemma successor_climb_correct:
  "rep T h C t \<Longrightarrow> t \<noteq> Leaf \<Longrightarrow>
   successor_climb T h (ptr T t) (par T C) = Some (hd (behind C @ [rbt_nil T]))"
proof (induction C t rule: plug.induct)
  case (1 t)
  then show ?case using rep_nodes(2) [OF 1(1)] by (subst successor_climb.simps) (cases t; auto simp: rep_def)
next
  case (2 d a s C t)
  note f = focus_side [OF 2(2,3)]
  have up: "rep T h C (mk d t a s)" using 2(2) by (simp add: rep_up)
  have par: "parent (h a) = par T C" using 2(2) by (simp add: rep_def)
  have ne: "a \<noteq> rbt_root T" using rep_nodes(3) [OF 2(2)] by auto
  show ?case
  proof (cases d)
    case Lft
    then show ?thesis using f ne by (subst successor_climb.simps) simp
  next
    case Rgt
    then have "successor_climb T h (ptr T t) a = successor_climb T h a (par T C)"
      using f par by (subst successor_climb.simps) simp
    then show ?thesis using 2(1) [OF up mk_ne] Rgt by simp
  qed
qed

lemma predecessor_climb_correct:
  "rep T h C t \<Longrightarrow> t \<noteq> Leaf \<Longrightarrow>
   predecessor_climb T h (ptr T t) (par T C) = Some (last (rbt_nil T # before C))"
proof (induction C t rule: plug.induct)
  case (1 t)
  then show ?case using rep_nodes(2) [OF 1(1)] by (subst predecessor_climb.simps) (cases t; auto simp: rep_def)
next
  case (2 d a s C t)
  note f = focus_side [OF 2(2,3)]
  have up: "rep T h C (mk d t a s)" using 2(2) by (simp add: rep_up)
  have par: "parent (h a) = par T C" using 2(2) by (simp add: rep_def)
  have ne: "a \<noteq> rbt_root T" using rep_nodes(3) [OF 2(2)] by auto
  show ?case
  proof (cases d)
    case Rgt
    then show ?thesis using f ne by (subst predecessor_climb.simps) simp
  next
    case Lft
    then have "predecessor_climb T h (ptr T t) a = predecessor_climb T h a (par T C)"
      using f par ne by (subst predecessor_climb.simps) simp
    then show ?thesis using 2(1) [OF up mk_ne] Lft by simp
  qed
qed

lemma successor_at:
  assumes "rep T h C (Node l a r)"
  shows "rb_tree_successor T h a = Some (hd (inorder r @ behind C @ [rbt_nil T]))"
proof (cases "r = Leaf")
  case True
  then show ?thesis
    using assms successor_climb_correct [OF assms] by (simp add: rb_tree_successor_def rep_def)
next
  case False
  have R: "rep T h ((Rgt, a, l) # C) r" using assms by (simp add: rep_up)
  have "right (h a) = ptr T r" using assms by (simp add: rep_def)
  moreover have "ptr T r \<noteq> rbt_nil T" using rep_nodes(2) [OF R] False by (cases r) auto
  moreover obtain E y s where "r = plug E (mk Lft Leaf y s)" "rb_extreme Lft T h (ptr T r) = Some y" "before E = []"
    using extreme_correct [OF R False, of Lft] by auto
  ultimately show ?thesis by (simp add: rb_tree_successor_def inorder_plug)
qed

lemma predecessor_at:
  assumes "rep T h C (Node l a r)"
  shows "rb_tree_predecessor T h a = Some (last (rbt_nil T # before C @ inorder l))"
proof (cases "l = Leaf")
  case True
  then show ?thesis
    using assms predecessor_climb_correct [OF assms] by (simp add: rb_tree_predecessor_def rep_def)
next
  case False
  have R: "rep T h ((Lft, a, r) # C) l" using assms by (simp add: rep_up)
  have "left (h a) = ptr T l" using assms by (simp add: rep_def)
  moreover have "ptr T l \<noteq> rbt_nil T" using rep_nodes(2) [OF R] False by (cases l) auto
  moreover obtain E y s where "l = plug E (mk Rgt Leaf y s)" "rb_extreme Rgt T h (ptr T l) = Some y" "behind E = []"
    using extreme_correct [OF R False, of Rgt] by auto
  ultimately show ?thesis by (simp add: rb_tree_predecessor_def inorder_plug)
qed

lemma distinct_split_eq:
  assumes "distinct (xs @ a # ys)" "xs @ a # ys = xs' @ a # ys'"
  shows "xs = xs'" "ys = ys'"
  using assms by (metis append_Cons_eq_iff distinct.simps(2) distinct_append not_distinct_conv_prefix)+

lemma focus_split:
  assumes r: "rep T h [] t" and a: "inorder t = xs @ a # ys"
  shows "\<exists>C l r. t = plug C (Node l a r) \<and> rep T h C (Node l a r) \<and> xs = before C @ inorder l \<and> ys = inorder r @ behind C"
proof -
  have "a \<in> set_tree t" using a by (simp flip: set_inorder)
  then obtain C l r where t: "t = plug C (Node l a r)" using focus_on [of a t] by blast
  have rC: "rep T h C (Node l a r)" using r t rep_plug by auto
  have e: "xs @ a # ys = (before C @ inorder l) @ a # (inorder r @ behind C)"
    using a t by (simp add: inorder_plug)
  have "distinct (inorder t)" using rep_nodes(1) [OF r] by simp
  from distinct_split_eq [OF this [unfolded a] e] show ?thesis using t rC by blast
qed

section \<open>Searching\<close>

lemma search_loop_correct:
  assumes "rbt T h u t" "rbt_nil T \<notin> set_tree t"
    and "sorted_wrt (\<lambda>a b. (0 < c a \<longrightarrow> 0 < c b) \<and> (c b < 0 \<longrightarrow> c a < 0)) (inorder t)"
  shows "\<exists>r. rb_search_loop T c h (ptr T t) = Some r \<and>
    (case r of Some p \<Rightarrow> p \<in> set_tree t \<and> c p = 0 | None \<Rightarrow> \<forall>p \<in> set_tree t. c p \<noteq> 0)"
  using assms
proof (induction t arbitrary: u)
  case Leaf
  then show ?case by (subst rb_search_loop.simps) simp
next
  case (Node l a r)
  note m = sorted_wrt_mid [OF Node.prems(3) [unfolded inorder.simps]]
  have L: "left (h a) = ptr T l" "right (h a) = ptr T r" "rbt T h a l" "rbt T h a r" "a \<noteq> rbt_nil T"
    "rbt_nil T \<notin> set_tree l" "rbt_nil T \<notin> set_tree r"
    using Node.prems(1,2) by auto
  consider "c a = 0" | "0 < c a" | "c a < 0" by linarith
  then show ?case
  proof cases
    case 1
    then show ?thesis using L by (subst rb_search_loop.simps) simp
  next
    case 2
    obtain x where x: "rb_search_loop T c h (ptr T l) = Some x"
      "case x of Some p \<Rightarrow> p \<in> set_tree l \<and> c p = 0 | None \<Rightarrow> \<forall>p \<in> set_tree l. c p \<noteq> 0"
      using Node.IH(1) [OF L(3,6) m [THEN conjunct1]] by blast
    have "rb_search_loop T c h a = rb_search_loop T c h (ptr T l)"
      using 2 L by (subst rb_search_loop.simps) simp
    moreover have "c p \<noteq> 0" if "p \<in> set_tree r" for p
    proof -
      have "0 < c p" using m that 2 by (metis set_inorder)
      then show ?thesis by simp
    qed
    ultimately show ?thesis using x 2 by (cases x) auto
  next
    case 3
    obtain x where x: "rb_search_loop T c h (ptr T r) = Some x"
      "case x of Some p \<Rightarrow> p \<in> set_tree r \<and> c p = 0 | None \<Rightarrow> \<forall>p \<in> set_tree r. c p \<noteq> 0"
      using Node.IH(2) [OF L(4,7) m [THEN conjunct2, THEN conjunct1]] by blast
    have "rb_search_loop T c h a = rb_search_loop T c h (ptr T r)"
      using 3 L by (subst rb_search_loop.simps) simp
    moreover have "c p \<noteq> 0" if "p \<in> set_tree l" for p
    proof -
      have "c p < 0" using m that 3 by (metis set_inorder)
      then show ?thesis by simp
    qed
    ultimately show ?thesis using x 3 by (cases x) auto
  qed
qed

section \<open>Deletion as a whole\<close>

lemma unlink_colours:
  assumes "rbh c m (plug C (mk d t' y Leaf))" "\<not> rootred c (plug C (mk d t' y Leaf))"
  shows "\<exists>n. rbh c n t' \<and> (if c y then rctx c n C \<and> C \<noteq> [] \<and> \<not> rootred c t' else rctx c (Suc n) C)"
proof -
  obtain n where n: "rbh c n (mk d t' y Leaf)" "rctx c n C" "c y \<longrightarrow> C \<noteq> []"
    using rbh_unplug [OF assms] by auto
  show ?thesis
  proof (cases "c y")
    case True
    then show ?thesis using n by (auto simp: rbh_mk)
  next
    case False
    then have "rbh c (n - 1) t'" "Suc (n - 1) = n" using n(1) by (auto simp: rbh_mk)
    then show ?thesis using False n(2) by (intro exI [of _ "n - 1"]) auto
  qed
qed

text \<open>The end of the deletion: repair if a black node was unlinked.\<close>

lemma delete_finish:
  assumes x: "xrep T h C t" and c: "rbh (reds h) n t"
    "if b then rctx (reds h) n C \<and> C \<noteq> [] \<and> \<not> rootred (reds h) t else rctx (reds h) (Suc n) C"
    and sent: "\<not> red (h (rbt_nil T))" "\<not> red (h (rbt_root T))"
  shows "fixed T (inorder (plug C t)) (if \<not> b then rb_delete_fixup T (ptr T t) h else Some h)"
proof (cases b)
  case True
  have r: "rep T h [] (plug C t)" using x rep_plug [of T h C t] by (simp add: xrep_def)
  have cc: "rctx (reds h) n C" "C \<noteq> []" "\<not> rootred (reds h) t" using c(2) True by auto
  obtain m where "rbh (reds h) m (plug C t)" using rbh_plug [OF cc(1) c(1)] cc(3) by blast
  then have "rb_inv T h (plug C t)" using r sent rctx_root [OF cc(1,2)] by (auto simp: rb_inv_def)
  then show ?thesis using True by (auto simp: fixed_def)
next
  case False
  have r: "rep T h [] (plug C t)" using x rep_plug [of T h C t] by (simp add: xrep_def)
  have "lacks T h n C t" using x c sent False by (simp add: lacks_def)
  moreover have "left (h (rbt_root T)) = ptr T (plug C t)" using r by (simp add: rep_def)
  ultimately show ?thesis using fixup_loop_correct [OF _ refl] False by (simp add: rb_delete_fixup_def)
qed

text \<open>The two changes of the links, apart.\<close>

definition spare :: "'p rb_tree \<Rightarrow> 'p \<Rightarrow> 'p rb_heap \<Rightarrow> 'p" where
  "spare T y h = (if left (h y) \<noteq> rbt_nil T then left (h y) else right (h y))"

definition splice_out :: "'p rb_tree \<Rightarrow> 'p \<Rightarrow> 'p rb_heap \<Rightarrow> 'p rb_heap" where
  "splice_out T y h = (let x = spare T y h; h = set_parent x (parent (h y)) h
     in if y = left (h (parent (h y))) then set_child Lft (parent (h y)) x h else set_child Rgt (parent (h y)) x h)"

definition take_place :: "'p \<Rightarrow> 'p \<Rightarrow> 'p rb_heap \<Rightarrow> 'p rb_heap" where
  "take_place z y h =
     (let h = (if z = left (h (parent (h z))) then set_child Lft (parent (h z)) y h
               else set_child Rgt (parent (h z)) y h);
          h = set_parent (right (h z)) y h;
          h = set_parent (left (h z)) y h
      in h(y := h z))"

lemma rb_delete_steps:
  "rb_delete T z h =
     do { y \<leftarrow> (if left (h z) = rbt_nil T \<or> right (h z) = rbt_nil T then Some z else rb_tree_successor T h z);
          let h3 = (if y \<noteq> z then take_place z y (splice_out T y h) else splice_out T y h);
          if \<not> red (splice_out T y h y) then rb_delete_fixup T (spare T y h) h3 else Some h3 }"
  by (simp add: rb_delete_def splice_out_def take_place_def spare_def Let_def cong: if_cong)

lemma splice_out_correct:
  assumes r: "rep T h C (mk d t' y Leaf)" and x: "ptr T t' = spare T y h"
  shows "xrep T (splice_out T y h) C t'" "red (splice_out T y h a) = red (h a)"
proof -
  have "y \<noteq> ptr T t'" using rep_nodes(1,2) [OF r] by (cases t'; cases d; auto simp flip: set_inorder)
  then have p: "parent (set_parent (ptr T t') (parent (h y)) h y) = parent (h y)" by (simp add: set_parent_def)
  have e: "splice_out T y h = (if y = left (set_parent (ptr T t') (parent (h y)) h (parent (h y)))
      then set_child Lft (parent (h y)) (ptr T t') (set_parent (ptr T t') (parent (h y)) h)
      else set_child Rgt (parent (h y)) (ptr T t') (set_parent (ptr T t') (parent (h y)) h))"
    unfolding splice_out_def Let_def x [symmetric] p by (rule refl)
  show "xrep T (splice_out T y h) C t'" "red (splice_out T y h a) = red (h a)"
    unfolding e by (rule splice_correct [OF r])+
qed

lemma take_place_correct:
  assumes r: "rep T h C (Node l z r)" and l: "l \<noteq> Leaf"
    and y: "y \<notin> insert (rbt_nil T) (insert (rbt_root T) (set_tree (plug C (Node l z r))))"
  shows "rep T (take_place z y h) C (Node l y r)" "red (take_place z y h a) = (if a = y then red (h z) else red (h a))"
    "parent (take_place z y h (rbt_nil T)) = (if r = Leaf then y else parent (h (rbt_nil T)))"
  unfolding take_place_def Let_def by (rule replace_correct [OF r l y])+

lemma delete_one_child:
  assumes inv: "rb_inv T h (plug C (mk d t' z Leaf))" and lf: "left (h z) = rbt_nil T \<or> right (h z) = rbt_nil T"
    and x: "ptr T t' = spare T z h"
  shows "fixed T (inorder (plug C t')) (rb_delete T z h)"
proof -
  have r: "rep T h C (mk d t' z Leaf)" and sent: "\<not> red (h (rbt_nil T))" "\<not> red (h (rbt_root T))"
    using inv rep_plug by (auto simp: rb_inv_def)
  note S = splice_out_correct [OF r x]
  obtain m where "rbh (reds h) m (plug C (mk d t' z Leaf))" "\<not> rootred (reds h) (plug C (mk d t' z Leaf))"
    using inv by (auto simp: rb_inv_def)
  from unlink_colours [OF this] obtain n where n: "rbh (reds h) n t'"
    "if red (h z) then rctx (reds h) n C \<and> C \<noteq> [] \<and> \<not> rootred (reds h) t' else rctx (reds h) (Suc n) C" by blast
  have reds: "reds (splice_out T z h) = reds h" using S(2) by auto
  have "rb_delete T z h = (if \<not> red (h z) then rb_delete_fixup T (ptr T t') (splice_out T z h) else Some (splice_out T z h))"
    using lf S(2) x by (simp add: rb_delete_steps)
  then show ?thesis
    using delete_finish [OF S(1), of n "red (h z)"] n sent S(2) reds by simp
qed

text \<open>The colours along a path, when one node on it is put in the place of another.\<close>

lemma rctx_rename:
  assumes "c2 y = c z" "\<forall>a \<in> cset E \<union> set_tree l \<union> cset C. c2 a = c a"
  shows "rctx c2 n (E @ (d, y, l) # C) = rctx c n (E @ (d, z, l) # C) \<and>
    cred c2 (E @ (d, y, l) # C) = cred c (E @ (d, z, l) # C)"
  using assms(2)
proof (induction E arbitrary: n)
  case Nil
  have "rbh c2 n l = rbh c n l" "rootred c2 l = rootred c l" "rctx c2 m C = rctx c m C" "cred c2 C = cred c C" for n m
    using Nil by (auto intro!: rbh_cong rootred_cong rctx_cong cred_cong)
  then show ?case using assms(1) by auto
next
  case (Cons f E)
  obtain e a s where f: "f = (e, a, s)" by (cases f)
  have "c2 a = c a" "rbh c2 n s = rbh c n s" "rootred c2 s = rootred c s" for n
    using Cons.prems f by (auto intro!: rbh_cong rootred_cong)
  then show ?case using Cons.IH Cons.prems f by auto
qed

lemma delete_two_children:
  assumes inv: "rb_inv T h (plug C (Node l z r))" and lr: "l \<noteq> Leaf" "r \<noteq> Leaf"
  shows "fixed T (before C @ inorder l @ inorder r @ behind C) (rb_delete T z h)"
proof -
  let ?c = "reds h"
  have rz: "rep T h C (Node l z r)" and sent: "\<not> red (h (rbt_nil T))" "\<not> red (h (rbt_root T))"
    using inv rep_plug by (auto simp: rb_inv_def)
  have R: "rep T h ((Rgt, z, l) # C) r" using rz by (simp add: rep_up)
  obtain E y s where E: "r = plug E (Node Leaf y s)" "rb_extreme Lft T h (ptr T r) = Some y" "before E = []"
    using extreme_correct [OF R lr(2), of Lft] by auto
  let ?D = "E @ (Rgt, z, l) # C" and ?D' = "E @ (Rgt, y, l) # C"
  have whole: "plug C (Node l z r) = plug ?D (mk Rgt s y Leaf)" using E(1) by (simp add: plug_append)
  have ry: "rep T h ?D (mk Rgt s y Leaf)"
    using rz rep_plug [of T h C "Node l z r"] rep_plug [of T h ?D "mk Rgt s y Leaf"] whole by simp
  have Lz: "left (h z) = ptr T l" "right (h z) = ptr T r" using rz by (simp_all add: rep_def)
  have nn: "ptr T l \<noteq> rbt_nil T" "ptr T r \<noteq> rbt_nil T"
    using rep_nodes(2) [OF rz] lr by (cases l; cases r; auto)+
  have succ: "rb_tree_successor T h z = Some y"
    using Lz nn E(2) by (simp add: rb_tree_successor_def)
  have "left (h y) = rbt_nil T" "right (h y) = ptr T s" using ry by (simp_all add: rep_def)
  then have sp: "ptr T s = spare T y h" by (simp add: spare_def)
  note N = rep_nodes [OF ry]
  have yn: "y \<notin> cset E \<union> set_tree l \<union> cset C \<union> set_tree s" "y \<noteq> z" "z \<notin> set_tree s" "y \<noteq> rbt_nil T" "y \<noteq> rbt_root T"
    using N(1-3) E(1) rep_nodes(1) [OF rz] by (auto simp: cset_def inorder_plug simp flip: set_inorder)
  define h2 where "h2 = splice_out T y h"
  note S = splice_out_correct [OF ry sp, folded h2_def]
  have r2: "rep T h2 C (Node l z (plug E s))"
    using S(1) rep_plug [of T h2 ?D s] rep_plug [of T h2 C "Node l z (plug E s)"] by (simp add: xrep_def plug_append)
  have ynot: "y \<notin> insert (rbt_nil T) (insert (rbt_root T) (set_tree (plug C (Node l z (plug E s)))))"
    using yn by (auto simp: set_plug)
  define h3 where "h3 = take_place z y h2"
  note P = take_place_correct [OF r2 lr(1) ynot, folded h3_def]
  have r3: "rep T h3 ?D' s"
    using P(1) rep_plug [of T h3 ?D' s] rep_plug [of T h3 C "Node l y (plug E s)"] by (simp add: plug_append)
  have x3: "xrep T h3 ?D' s"
  proof (cases "s = Leaf")
    case False
    then show ?thesis using r3 xrep_node by blast
  next
    case True
    have "parent (h3 (rbt_nil T)) = par T ?D'"
    proof (cases E)
      case Nil
      then show ?thesis using P(3) True by simp
    next
      case (Cons f F)
      have "plug E s \<noteq> Leaf" using Cons set_plug [of E s] by (cases f) auto
      moreover have "parent (h2 (rbt_nil T)) = par T ?D" using S(1) True by (simp add: xrep_def)
      ultimately show ?thesis using P(3) Cons by (cases f) simp
    qed
    then show ?thesis using r3 True by (simp add: xrep_def)
  qed
  have col: "red (h3 a) = (if a = y then red (h z) else red (h a))" for a using P(2) S(2) by simp
  obtain m where "rbh ?c m (plug ?D (mk Rgt s y Leaf))" "\<not> rootred ?c (plug ?D (mk Rgt s y Leaf))"
    using inv whole by (auto simp: rb_inv_def)
  from unlink_colours [OF this] obtain n where n: "rbh ?c n s"
    "if red (h y) then rctx ?c n ?D \<and> ?D \<noteq> [] \<and> \<not> rootred ?c s else rctx ?c (Suc n) ?D" by blast
  have "rctx (reds h3) k ?D' = rctx ?c k ?D" for k
    using rctx_rename [of "reds h3" y ?c z E l C k Rgt] col yn by auto
  moreover have "rbh (reds h3) k s = rbh ?c k s" "rootred (reds h3) s = rootred ?c s" for k
    by (rule rbh_cong rootred_cong; use col yn in auto)+
  ultimately have "fixed T (inorder (plug ?D' s)) (if \<not> red (h y) then rb_delete_fixup T (ptr T s) h3 else Some h3)"
    using n sent col yn by (intro delete_finish [OF x3, of n]) auto
  moreover have "rb_delete T z h = (if \<not> red (h y) then rb_delete_fixup T (ptr T s) h3 else Some h3)"
    using Lz nn succ yn(2) S(2) sp by (simp add: rb_delete_steps h3_def h2_def)
  moreover have "inorder (plug ?D' s) = before C @ inorder l @ inorder r @ behind C"
    using E by (simp add: inorder_plug plug_append)
  ultimately show ?thesis by simp
qed

lemma rb_delete_inv:
  assumes inv: "rb_inv T h t" and z: "inorder t = xs @ z # ys"
  shows "\<exists>h' t'. rb_delete T z h = Some h' \<and> rb_inv T h' t' \<and> inorder t' = xs @ ys"
proof -
  obtain C l r where t: "t = plug C (Node l z r)" and r: "rep T h C (Node l z r)"
    and xy: "xs = before C @ inorder l" "ys = inorder r @ behind C"
    using focus_split [of T h, OF _ z] inv [unfolded rb_inv_def] by blast
  have L: "left (h z) = ptr T l" "right (h z) = ptr T r" using r by (simp_all add: rep_def)
  have nn: "l \<noteq> Leaf \<Longrightarrow> ptr T l \<noteq> rbt_nil T" using rep_nodes(2) [OF r] by (cases l) auto
  have "fixed T (xs @ ys) (rb_delete T z h)"
  proof -
    consider "r = Leaf" "l \<noteq> Leaf" | "l = Leaf" | "l \<noteq> Leaf" "r \<noteq> Leaf" by blast
    then show ?thesis
    proof cases
      case 1
      then have "fixed T (inorder (plug C l)) (rb_delete T z h)"
        using inv t L nn by (intro delete_one_child [where d = Lft]) (auto simp: spare_def)
      then show ?thesis using 1 xy by (simp add: inorder_plug)
    next
      case 2
      then have "fixed T (inorder (plug C r)) (rb_delete T z h)"
        using inv t L by (intro delete_one_child [where d = Rgt]) (auto simp: spare_def)
      then show ?thesis using 2 xy by (simp add: inorder_plug)
    next
      case 3
      then show ?thesis using delete_two_children [of T h C l z r] inv t xy by simp
    qed
  qed
  then show ?thesis by (auto simp: fixed_def)
qed

section \<open>Insertion by key\<close>

lemma filter_sorted_key:
  fixes key :: "'p \<Rightarrow> 'k :: linorder"
  assumes "\<forall>a \<in> set xs. \<not> k < key a" "\<forall>a \<in> set ys. k < key a"
  shows "takeWhile (\<lambda>a. key a \<le> k) (xs @ ys) = xs" "dropWhile (\<lambda>a. key a \<le> k) (xs @ ys) = ys"
proof -
  have 1: "\<forall>a \<in> set xs. key a \<le> k" and 2: "\<forall>a \<in> set ys. \<not> key a \<le> k" using assms by auto
  have "takeWhile (\<lambda>a. key a \<le> k) ys = []" "dropWhile (\<lambda>a. key a \<le> k) ys = ys" using 2 by (cases ys; simp)+
  then show "takeWhile (\<lambda>a. key a \<le> k) (xs @ ys) = xs" "dropWhile (\<lambda>a. key a \<le> k) (xs @ ys) = ys"
    using 1 by (simp_all add: takeWhile_append2 dropWhile_append2)
qed

lemma insert_by_key:
  fixes key :: "'p \<Rightarrow> 'k :: linorder"
  assumes inv: "rb_inv T h t" and z: "z \<notin> set_tree t" "z \<noteq> rbt_nil T" "z \<noteq> rbt_root T"
    and cmp: "\<forall>a \<in> set_tree t. 0 < cmp a z \<longleftrightarrow> key z < key a" and srt: "sorted (map key (inorder t))"
  shows "\<exists>h' t'. rb_insert cmp T z h = Some h' \<and> rb_inv T h' t' \<and> sorted (map key (inorder t')) \<and>
    inorder t' = takeWhile (\<lambda>a. key a \<le> key z) (inorder t) @ z # dropWhile (\<lambda>a. key a \<le> key z) (inorder t)"
proof -
  let ?D = "descend cmp z [] t"
  have it: "inorder t = before ?D @ behind ?D"
    using inorder_plug [of ?D Leaf] plug_descend [of cmp z "[]" t] by simp
  have "sorted_wrt (\<lambda>a b. key a \<le> key b) (inorder t)" using srt by (simp add: sorted_wrt_map)
  then have "sorted_wrt (\<lambda>a b. 0 < cmp a z \<longrightarrow> 0 < cmp b z) (inorder t)"
  proof (rule sorted_wrt_mono_rel [rotated])
    fix a b assume "a \<in> set (inorder t)" "b \<in> set (inorder t)" "key a \<le> key b"
    then have "0 < cmp a z \<longleftrightarrow> key z < key a" "0 < cmp b z \<longleftrightarrow> key z < key b" "key a \<le> key b"
      using cmp by (simp_all add: set_inorder)
    then show "0 < cmp a z \<longrightarrow> 0 < cmp b z" by (simp add: less_le_trans)
  qed
  from descend_place [of "[]" cmp z, OF _ _ this]
  have pl: "(\<forall>a \<in> set (before ?D). \<not> 0 < cmp a z) \<and> (\<forall>a \<in> set (behind ?D). 0 < cmp a z)" by simp
  have mem: "set (before ?D) \<subseteq> set_tree t" "set (behind ?D) \<subseteq> set_tree t"
    using it by (metis Un_upper1 Un_upper2 set_append set_inorder)+
  have k: "\<forall>a \<in> set (before ?D). \<not> key z < key a" "\<forall>a \<in> set (behind ?D). key z < key a"
    using pl mem cmp by blast+
  obtain h' t' where h': "rb_insert cmp T z h = Some h'" "rb_inv T h' t'" "inorder t' = before ?D @ z # behind ?D"
    using rb_insert_inv [OF inv z] by blast
  have "sorted (map key (inorder t'))"
    using srt k unfolding h'(3) it by (auto simp: sorted_append not_less less_imp_le)
  then show ?thesis using h' filter_sorted_key [OF k] it by auto
qed

section \<open>Balance\<close>

lemma rbh_size: "rbh c n t \<Longrightarrow> 2 ^ n \<le> size t + 1 \<and> height t \<le> 2 * n + (if rootred c t then 1 else 0)"
proof (induction t arbitrary: n)
  case (Node l a r)
  show ?case
  proof (cases "c a")
    case True
    then show ?thesis using Node.IH(1) [of n] Node.IH(2) [of n] Node.prems by auto
  next
    case False
    then obtain m where n: "n = Suc m" "rbh c m l" "rbh c m r" using Node.prems by (cases n) auto
    have "height l \<le> 2 * m + 1" "height r \<le> 2 * m + 1" "(2::nat) ^ m \<le> size l + 1" "(2::nat) ^ m \<le> size r + 1"
      using Node.IH(1) [OF n(2)] Node.IH(2) [OF n(3)] by (auto split: if_splits)
    then show ?thesis using n(1) False by simp
  qed
qed simp

section \<open>Properties\<close>

text \<open>The trees of the witnesses: the sentinels are 0 and 1; 5 is the root and 7 its red right child.
  Nodes compare as numbers.\<close>

definition small_tree :: "nat rb_tree" where
  "small_tree = \<lparr>rbt_nil = 0, rbt_root = 1\<rparr>"

definition small_heap :: "nat rb_heap" where
  "small_heap = (\<lambda>_. \<lparr>red = False, parent = 0, left = 0, right = 0\<rparr>)
     (1 := \<lparr>red = False, parent = 0, left = 5, right = 0\<rparr>,
      5 := \<lparr>red = False, parent = 1, left = 0, right = 7\<rparr>,
      7 := \<lparr>red = True, parent = 5, left = 0, right = 0\<rparr>)"

definition cmp_nat :: "nat \<Rightarrow> nat \<Rightarrow> int" where
  "cmp_nat a b = int a - int b"

lemma small_inv: "rb_inv small_tree small_heap (Node Leaf 5 (Node Leaf 7 Leaf))"
  by (auto simp: rb_inv_def rep_def nodes_ok_def small_tree_def small_heap_def intro!: exI [of _ "Suc 0"])

text \<open>C9. \<open>rb_insert\<close> always ends, keeps the tree a red-black tree (black root, no red node with a red
  child, the same number of black nodes on every path, correct parent links) and puts the new node
  behind the nodes whose key is not greater, so the nodes stay in order.\<close>

theorem rb_insert_keeps_red_black:
  fixes key :: "'p \<Rightarrow> 'k :: linorder"
  assumes "rb_inv T h t" and "z \<notin> set_tree t" and "z \<noteq> rbt_nil T" and "z \<noteq> rbt_root T"
    and "\<forall>a \<in> set_tree t. 0 < cmp a z \<longleftrightarrow> key z < key a" and "sorted (map key (inorder t))"
  shows "\<exists>h' t'. rb_insert cmp T z h = Some h' \<and> rb_inv T h' t' \<and> sorted (map key (inorder t')) \<and>
    inorder t' = takeWhile (\<lambda>a. key a \<le> key z) (inorder t) @ z # dropWhile (\<lambda>a. key a \<le> key z) (inorder t)"
  using assms by (rule insert_by_key)

theorem rb_insert_keeps_red_black_witness:
  "\<exists>h' t'. rb_insert cmp_nat small_tree 6 small_heap = Some h' \<and> rb_inv small_tree h' t' \<and> inorder t' = [5, 6, 7]"
proof -
  have "\<exists>h' t'. rb_insert cmp_nat small_tree 6 small_heap = Some h' \<and> rb_inv small_tree h' t' \<and>
      sorted (map (\<lambda>a :: nat. a) (inorder t')) \<and>
      inorder t' = takeWhile (\<lambda>a. a \<le> 6) (inorder (Node Leaf 5 (Node Leaf 7 Leaf))) @
        6 # dropWhile (\<lambda>a. a \<le> 6) (inorder (Node Leaf 5 (Node Leaf 7 Leaf)))"
    by (rule rb_insert_keeps_red_black [where key = "\<lambda>a. a", OF small_inv]) (auto simp: small_tree_def cmp_nat_def)
  then show ?thesis by auto
qed

text \<open>C10. \<open>rb_delete\<close> of a node of the tree always ends, takes exactly that node out of the sequence and
  leaves a red-black tree, whatever cases of the repair the removal runs through.\<close>

theorem rb_delete_keeps_red_black:
  assumes "rb_inv T h t" and "inorder t = xs @ z # ys"
  shows "\<exists>h' t'. rb_delete T z h = Some h' \<and> rb_inv T h' t' \<and> inorder t' = xs @ ys"
  by (rule rb_delete_inv [OF assms])

theorem rb_delete_keeps_red_black_witness:
  "\<exists>h' t'. rb_delete small_tree 5 small_heap = Some h' \<and> rb_inv small_tree h' t' \<and> inorder t' = [7]"
  using rb_delete_keeps_red_black [OF small_inv, of "[]" 5 "[7]"] by simp

text \<open>C27. \<open>rb_search\<close> always ends; it returns a node that compares equal to the key, or a null pointer
  when there is none, if the comparison is monotone along the tree.\<close>

theorem rb_search_finds:
  assumes "rb_inv T h t"
    and "sorted_wrt (\<lambda>a b. (0 < c a \<longrightarrow> 0 < c b) \<and> (c b < 0 \<longrightarrow> c a < 0)) (inorder t)"
  shows "\<exists>r. rb_search T c h = Some r \<and>
    (case r of Some p \<Rightarrow> p \<in> set_tree t \<and> c p = 0 | None \<Rightarrow> \<forall>p \<in> set_tree t. c p \<noteq> 0)"
proof -
  have r: "rep T h [] t" using assms(1) by (simp add: rb_inv_def)
  then have "rbt T h (rbt_root T) t" "rbt_nil T \<notin> set_tree t" "left (h (rbt_root T)) = ptr T t"
    using rep_nodes(2) [OF r] by (simp_all add: rep_def)
  then show ?thesis using search_loop_correct [OF _ _ assms(2)] by (simp add: rb_search_def)
qed

theorem rb_search_finds_witness:
  "\<exists>r. rb_search small_tree (\<lambda>p. int p - 7) small_heap = Some r \<and> r = Some 7"
proof -
  have "sorted_wrt (\<lambda>a b. (0 < int a - 7 \<longrightarrow> 0 < int b - 7) \<and> (int b - 7 < 0 \<longrightarrow> int a - 7 < 0))
    (inorder (Node Leaf 5 (Node Leaf (7 :: nat) Leaf)))" by simp
  from rb_search_finds [OF small_inv this] show ?thesis by (auto split: option.splits)
qed

text \<open>\<open>rb_node_next\<close> and \<open>rb_node_prev\<close> follow the order of the tree in both directions, and return a
  null pointer at its ends.\<close>

theorem rb_node_next_prev_follow_order:
  assumes "rb_inv T h t" and "inorder t = xs @ a # ys"
  shows "rb_node_next T h a = Some (case ys of [] \<Rightarrow> None | b # _ \<Rightarrow> Some b) \<and>
    rb_node_prev T h a = Some (case rev xs of [] \<Rightarrow> None | b # _ \<Rightarrow> Some b)"
proof -
  have R: "rep T h [] t" using assms(1) by (simp add: rb_inv_def)
  obtain C l r where t: "t = plug C (Node l a r)" and r: "rep T h C (Node l a r)"
    and xy: "xs = before C @ inorder l" "ys = inorder r @ behind C"
    using focus_split [OF R assms(2)] by blast
  have nil: "b \<noteq> rbt_nil T" if "b \<in> set xs \<union> set ys" for b
  proof -
    have "b \<in> set (inorder t)" using that assms(2) by auto
    then show ?thesis using rep_nodes(2) [OF R] by auto
  qed
  have "rb_tree_successor T h a = Some (hd (ys @ [rbt_nil T]))" using successor_at [OF r] xy(2) by simp
  then have "rb_node_next T h a = Some (case ys of [] \<Rightarrow> None | b # _ \<Rightarrow> Some b)"
    using nil by (cases ys) (auto simp: rb_node_next_def non_nil_def)
  moreover have "rb_tree_predecessor T h a = Some (last (rbt_nil T # xs))" using predecessor_at [OF r] xy(1) by simp
  then have "rb_node_prev T h a = Some (case rev xs of [] \<Rightarrow> None | b # _ \<Rightarrow> Some b)"
    using nil by (cases xs rule: rev_cases) (auto simp: rb_node_prev_def non_nil_def)
  ultimately show ?thesis by blast
qed

theorem rb_node_next_prev_follow_order_witness:
  "rb_node_next small_tree small_heap 5 = Some (Some 7) \<and> rb_node_prev small_tree small_heap 5 = Some None"
  using rb_node_next_prev_follow_order [OF small_inv, of "[]" 5 "[7]"] by simp

text \<open>A red-black tree is balanced: with \<open>n\<close> nodes its height \<open>d\<close> satisfies
  \<open>2 ^ ((d + 1) / 2) \<le> n + 1\<close>, which bounds the steps of a search from the root.\<close>

theorem rb_tree_balanced:
  assumes "rb_inv T h t"
  shows "2 ^ ((height t + 1) div 2) \<le> size t + 1"
proof -
  obtain n where n: "rbh (reds h) n t" "\<not> rootred (reds h) t" using assms by (auto simp: rb_inv_def)
  then have h: "2 ^ n \<le> size t + 1" "height t \<le> 2 * n" using rbh_size [OF n(1)] by auto
  then have "(2::nat) ^ ((height t + 1) div 2) \<le> 2 ^ n" by (intro power_increasing) auto
  then show ?thesis using h(1) by linarith
qed

theorem rb_tree_balanced_witness:
  "(2::nat) ^ ((height (Node Leaf (5 :: nat) (Node Leaf 7 Leaf)) + 1) div 2) \<le> size (Node Leaf (5 :: nat) (Node Leaf 7 Leaf)) + 1"
  by (rule rb_tree_balanced [OF small_inv])

end
