(* ===== verification/RbAlloc.thy ===== *)
theory RbAlloc
  imports RbWalk Client
begin

text \<open>
  Creating and destroying the trees of kern/libs/rb_tree.c, on top of the object allocator:
  \<open>rb_tree_create\<close> takes three objects or none, and \<open>rb_tree_destroy\<close> gives them back.
\<close>

section \<open>Creating and destroying a tree\<close>

definition sizeof_rb_tree :: u32 where "sizeof_rb_tree = 12"
definition sizeof_rb_node :: u32 where "sizeof_rb_node = 16"

text \<open>The nodes and the \<open>rb_tree\<close> structures.\<close>

record rb_state = client +
  rb_nodes :: "u32 rb_heap"
  rb_trees :: "u32 \<Rightarrow> u32 rb_tree"

definition rb_node_create :: "rb_state \<Rightarrow> (u32 option \<times> rb_state) option" where
  "rb_node_create = k_malloc sizeof_rb_node"

definition rb_tree_create :: "rb_state \<Rightarrow> (u32 option \<times> rb_state) option" where
  "rb_tree_create s =
     do { (r, s) \<leftarrow> k_malloc sizeof_rb_tree s;
          case r of None \<Rightarrow> Some (None, s) | Some t \<Rightarrow>
          do { (r, s) \<leftarrow> rb_node_create s;
               case r of None \<Rightarrow> do { s \<leftarrow> k_free t s; Some (None, s) } | Some n \<Rightarrow>
               (let s = s\<lparr>rb_nodes := (rb_nodes s)(n := \<lparr>red = False, parent = n, left = n, right = n\<rparr>),
                          rb_trees := (rb_trees s)(t := (rb_trees s t)\<lparr>rbt_nil := n\<rparr>)\<rparr>
                in do { (r, s) \<leftarrow> rb_node_create s;
                        case r of None \<Rightarrow> do { s \<leftarrow> k_free n s; s \<leftarrow> k_free t s; Some (None, s) }
                        | Some rt \<Rightarrow>
                            Some (Some t,
                              s\<lparr>rb_nodes := (rb_nodes s)(rt := \<lparr>red = False, parent = n, left = n, right = n\<rparr>),
                                rb_trees := (rb_trees s)(t := (rb_trees s t)\<lparr>rbt_root := rt\<rparr>)\<rparr>) }) } }"

definition rb_tree_destroy :: "u32 \<Rightarrow> rb_state \<Rightarrow> rb_state option" where
  "rb_tree_destroy t s =
     do { s \<leftarrow> k_free (rbt_root (rb_trees s t)) s;
          s \<leftarrow> k_free (rbt_nil (rb_trees s t)) s;
          k_free t s }"

section \<open>What a new tree consists of\<close>

definition new_tree :: "page_ptr \<Rightarrow> nat set \<Rightarrow> u32 set \<Rightarrow> u32 \<Rightarrow> rb_state \<Rightarrow> bool" where
  "new_tree t P X a s \<longleftrightarrow> (let T = rb_trees s a in
     distinct [a, rbt_nil T, rbt_root T] \<and> {a, rbt_nil T, rbt_root T} \<inter> X = {} \<and>
     owns t P s ({a, rbt_nil T, rbt_root T} \<union> X) \<and> rb_inv T (rb_nodes s) Leaf)"

lemma rb_tree_create_cases:
  assumes "owns t P s X"
  shows "case rb_tree_create s of None \<Rightarrow> t = Null
    | Some (None, s') \<Rightarrow> owns t P s' X
    | Some (Some a, s') \<Rightarrow> new_tree t P X a s'"
proof (cases rule: k_malloc_cases [OF assms, of sizeof_rb_tree, case_names fault null got])
  case fault
  then show ?thesis by (simp add: rb_tree_create_def)
next
  case null
  then show ?thesis by (simp add: rb_tree_create_def)
next
  case a: (got a k1)
  let ?s1 = "s\<lparr>memory := k1\<rparr>"
  show ?thesis
  proof (cases rule: k_malloc_cases [OF a(3), of sizeof_rb_node, case_names fault null got])
    case fault
    then show ?thesis using a by (simp add: rb_tree_create_def rb_node_create_def)
  next
    case b: (null k2)
    then show ?thesis
      using a k_free_owned [OF b(2), of a] by (auto simp: rb_tree_create_def rb_node_create_def)
  next
    case b: (got b k2)
    let ?n = "\<lparr>red = False, parent = b, left = b, right = b\<rparr>"
    define s2 where "s2 = ?s1\<lparr>memory := k2, rb_nodes := (rb_nodes s)(b := ?n),
      rb_trees := (rb_trees s)(a := (rb_trees s a)\<lparr>rbt_nil := b\<rparr>)\<rparr>"
    have b2: "owns t P s2 (insert b (insert a X))"
      using b(3) owns_memory [of s2 "?s1\<lparr>memory := k2\<rparr>" t P] by (simp add: s2_def)
    show ?thesis
    proof (cases rule: k_malloc_cases [OF b2, of sizeof_rb_node, case_names fault null got])
      case fault
      then show ?thesis using a b by (simp add: rb_tree_create_def rb_node_create_def s2_def)
    next
      case c: (null k3)
      obtain k4 where s4: "k_free b (s2\<lparr>memory := k3\<rparr>) = Some (s2\<lparr>memory := k4\<rparr>)"
        "owns t P (s2\<lparr>memory := k4\<rparr>) (insert a X)"
        using k_free_owned [OF c(2), of b] b(2) by auto
      obtain k5 where "k_free a (s2\<lparr>memory := k4\<rparr>) = Some (s2\<lparr>memory := k5\<rparr>)" "owns t P (s2\<lparr>memory := k5\<rparr>) X"
        using k_free_owned [OF s4(2), of a] a(2) by auto
      then show ?thesis using a b c s4 by (simp add: rb_tree_create_def rb_node_create_def s2_def)
    next
      case c: (got c k3)
      define s4 where "s4 = s2\<lparr>memory := k3, rb_nodes := (rb_nodes s2)(c := ?n),
        rb_trees := (rb_trees s2)(a := (rb_trees s2 a)\<lparr>rbt_root := c\<rparr>)\<rparr>"
      have res: "rb_tree_create s = Some (Some a, s4)"
        using a b c by (simp add: rb_tree_create_def rb_node_create_def s2_def s4_def)
      have ne: "c \<noteq> b" "c \<noteq> a" "b \<noteq> a" "c \<notin> X" "b \<notin> X" "a \<notin> X" using a(2) b(2) c(2) by auto
      have T: "rb_trees s4 a = \<lparr>rbt_nil = b, rbt_root = c\<rparr>" by (simp add: s4_def s2_def)
      have nodes: "rb_nodes s4 c = ?n" "rb_nodes s4 b = ?n" using ne by (simp_all add: s4_def s2_def)
      have "rb_inv (rb_trees s4 a) (rb_nodes s4) Leaf"
        using ne by (simp add: rb_inv_def rep_def nodes_ok_def T nodes)
      moreover have "owns t P s4 ({a, b, c} \<union> X)"
        using c(3) owns_memory [of s4 "s2\<lparr>memory := k3\<rparr>" t P] by (simp add: s4_def insert_commute)
      ultimately have "new_tree t P X a s4" using ne by (simp add: new_tree_def Let_def T)
      then show ?thesis using res by simp
    qed
  qed
qed

lemma rb_tree_destroy_new:
  assumes "new_tree t P X a s"
  shows "\<exists>s'. rb_tree_destroy a s = Some s' \<and> owns t P s' X"
proof -
  let ?T = "rb_trees s a"
  have N: "owns t P s (insert a (insert (rbt_nil ?T) (insert (rbt_root ?T) X)))"
    "distinct [a, rbt_nil ?T, rbt_root ?T]" "{a, rbt_nil ?T, rbt_root ?T} \<inter> X = {}"
    using assms by (auto simp: new_tree_def Let_def)
  obtain k1 where 1: "k_free (rbt_root ?T) s = Some (s\<lparr>memory := k1\<rparr>)"
    "owns t P (s\<lparr>memory := k1\<rparr>) (insert a (insert (rbt_nil ?T) X))"
    using k_free_owned [OF N(1), of "rbt_root ?T"] N(2,3) by (auto simp: insert_Diff_if)
  obtain k2 where 2: "k_free (rbt_nil ?T) (s\<lparr>memory := k1\<rparr>) = Some (s\<lparr>memory := k2\<rparr>)"
    "owns t P (s\<lparr>memory := k2\<rparr>) (insert a X)"
    using k_free_owned [OF 1(2), of "rbt_nil ?T"] N(2,3) by (auto simp: insert_Diff_if)
  obtain k3 where "k_free a (s\<lparr>memory := k2\<rparr>) = Some (s\<lparr>memory := k3\<rparr>)" "owns t P (s\<lparr>memory := k3\<rparr>) X"
    using k_free_owned [OF 2(2), of a] N(3) by (auto simp: insert_Diff_if)
  then show ?thesis using 1 2 by (simp add: rb_tree_destroy_def)
qed

section \<open>Properties\<close>

text \<open>\<open>rb_tree_create\<close> returns an empty red-black tree that owns exactly three new blocks, or a null
  pointer after giving back every block it took, whichever of its three allocations failed.\<close>

theorem rb_tree_create_all_or_nothing:
  assumes "owns t P s X"
  shows "case rb_tree_create s of None \<Rightarrow> t = Null
    | Some (None, s') \<Rightarrow> owns t P s' X
    | Some (Some a, s') \<Rightarrow> new_tree t P X a s' \<and> (\<exists>s2. rb_tree_destroy a s' = Some s2 \<and> owns t P s2 X)"
  using rb_tree_create_cases [OF assms] rb_tree_destroy_new by (auto split: option.splits)

theorem rb_tree_create_all_or_nothing_witness:
  "\<exists>s r s'. slab_init (small_kmem ended_frames) = Some (memory s) \<and>
     rb_tree_create s = Some (r, s') \<and>
     (case r of None \<Rightarrow> owns (FreeList MAX_ORDER) {0..<64} s' {}
      | Some a \<Rightarrow> new_tree (FreeList MAX_ORDER) {0..<64} {} a s')"
proof -
  obtain k where k: "slab_init (small_kmem ended_frames) = Some k" "kheap (FreeList MAX_ORDER) {0..<64} k {}"
    using small_kheap by blast
  define s where "s = \<lparr>memory = k, rb_nodes = (\<lambda>_. \<lparr>red = False, parent = 0, left = 0, right = 0\<rparr>),
    rb_trees = (\<lambda>_. \<lparr>rbt_nil = 0, rbt_root = (0 :: u32)\<rparr>)\<rparr>"
  have "owns (FreeList MAX_ORDER) {0..<64} s {}" by (rule owns_start [OF k(2)]) (simp add: s_def)
  note C = rb_tree_create_all_or_nothing [OF this]
  obtain r s' where r: "rb_tree_create s = Some (r, s')" using C by (cases "rb_tree_create s") auto
  have "case r of None \<Rightarrow> owns (FreeList MAX_ORDER) {0..<64} s' {}
      | Some a \<Rightarrow> new_tree (FreeList MAX_ORDER) {0..<64} {} a s'" using C r by (auto split: option.splits)
  then show ?thesis using k(1) r by (intro exI [of _ s] exI [of _ r] exI [of _ s']) (simp add: s_def)
qed

end
