(* ===== verification/Vmm.thy ===== *)
theory Vmm
  imports Paging Client
begin

text \<open>
  kern/mm/vmm.c: address spaces (\<open>mm_struct\<close>) as sorted lists of virtual memory areas
  (\<open>vma_struct\<close>), their creation and destruction on the object allocator, the cached lookup
  \<open>find_vma\<close> and the page fault handler. A pointer to a list entry is the structure it is embedded
  in with the name of the field, so \<open>to_struct\<close> is a case distinction; a pointer to an \<open>mm_struct\<close>
  or a \<open>vma_struct\<close> is the address \<open>kmalloc\<close> returned.
\<close>

section \<open>Structures\<close>

datatype vm_link = MmapList u32 | VmaLink u32

record vma_struct =
  vm_mm :: u32
  vm_start :: u32
  vm_end :: u32
  vm_flags :: u32

text \<open>\<open>map_count\<close> is a C \<open>int\<close>, kept as its 32-bit pattern; \<open>mmap_cache\<close> may be null, and the null
  \<open>pgdir\<close> is 0.\<close>

record mm_struct =
  mmap_cache :: "u32 option"
  pgdir :: u32
  map_count :: u32

record vm_heap = client +
  vmas :: "u32 \<Rightarrow> vma_struct"
  mms :: "u32 \<Rightarrow> mm_struct"
  vm_links :: "vm_link heap"

definition VM_READ :: u32 where "VM_READ = 1"
definition VM_WRITE :: u32 where "VM_WRITE = 2"
definition VM_EXEC :: u32 where "VM_EXEC = 4"
definition sizeof_vma_struct :: u32 where "sizeof_vma_struct = 24"
definition sizeof_mm_struct :: u32 where "sizeof_mm_struct = 20"

text \<open>\<open>to_struct(le, struct vma_struct, list_link)\<close>.\<close>

fun vma_of_link :: "vm_link \<Rightarrow> u32 option" where
  "vma_of_link (VmaLink v) = Some v"
| "vma_of_link (MmapList m) = None"

section \<open>Areas\<close>

definition vma_create :: "u32 \<Rightarrow> u32 \<Rightarrow> u32 \<Rightarrow> vm_heap \<Rightarrow> (u32 option \<times> vm_heap) option" where
  "vma_create start stop fl s =
     do { (r, s) \<leftarrow> k_malloc sizeof_vma_struct s;
          Some (r, case r of None \<Rightarrow> s
                   | Some v \<Rightarrow> s\<lparr>vmas := (vmas s)(v :=
                       (vmas s v)\<lparr>vm_start := start, vm_end := stop, vm_flags := fl\<rparr>)\<rparr>) }"

definition vma_destroy :: "u32 \<Rightarrow> vm_heap \<Rightarrow> vm_heap option" where
  "vma_destroy v s = k_free v s"

partial_function (option) find_vma_loop :: "vm_link \<Rightarrow> vm_link \<Rightarrow> u32 \<Rightarrow> vm_heap \<Rightarrow> u32 option option" where
  "find_vma_loop list le addr s =
     (let le = list_next le (vm_links s)
      in if le = list then Some None
         else do { v \<leftarrow> vma_of_link le;
                   if addr < vm_end (vmas s v) then Some (Some v) else find_vma_loop list le addr s })"

definition find_vma :: "u32 option \<Rightarrow> u32 \<Rightarrow> vm_heap \<Rightarrow> (u32 option \<times> vm_heap) option" where
  "find_vma mm addr s =
     (case mm of None \<Rightarrow> Some (None, s) | Some mm \<Rightarrow>
      do { r \<leftarrow> (case mmap_cache (mms s mm) of
                   Some v \<Rightarrow> if vm_start (vmas s v) \<le> addr \<and> addr < vm_end (vmas s v) then Some (Some v)
                             else find_vma_loop (MmapList mm) (MmapList mm) addr s
                 | None \<Rightarrow> find_vma_loop (MmapList mm) (MmapList mm) addr s);
           Some (r, case r of None \<Rightarrow> s
                    | Some v \<Rightarrow> s\<lparr>mms := (mms s)(mm := (mms s mm)\<lparr>mmap_cache := Some v\<rparr>)\<rparr>) })"

text \<open>The entry behind which a new area is linked: the last whose start is not above the new one.\<close>

partial_function (option) insert_vma_loop ::
  "vm_link \<Rightarrow> vm_link \<Rightarrow> vm_link \<Rightarrow> u32 \<Rightarrow> vm_heap \<Rightarrow> vm_link option" where
  "insert_vma_loop list le_prev le start s =
     (let le = list_next le (vm_links s)
      in if le = list then Some le_prev
         else do { v \<leftarrow> vma_of_link le;
                   if start < vm_start (vmas s v) then Some le_prev
                   else insert_vma_loop list le le start s })"

definition insert_vma_struct :: "u32 \<Rightarrow> u32 \<Rightarrow> vm_heap \<Rightarrow> vm_heap option" where
  "insert_vma_struct mm vma s =
     do { le_prev \<leftarrow> insert_vma_loop (MmapList mm) (MmapList mm) (MmapList mm) (vm_start (vmas s vma)) s;
          let s = s\<lparr>vmas := (vmas s)(vma := (vmas s vma)\<lparr>vm_mm := mm\<rparr>)\<rparr>;
          let s = s\<lparr>vm_links := list_add_after le_prev (VmaLink vma) (vm_links s)\<rparr>;
          Some (s\<lparr>mms := (mms s)(mm := (mms s mm)\<lparr>map_count := map_count (mms s mm) + 1\<rparr>)\<rparr>) }"

section \<open>Address spaces\<close>

definition mm_create :: "vm_heap \<Rightarrow> (u32 option \<times> vm_heap) option" where
  "mm_create s =
     do { (r, s) \<leftarrow> k_malloc sizeof_mm_struct s;
          Some (r, case r of None \<Rightarrow> s
                   | Some mm \<Rightarrow> s\<lparr>vm_links := list_init (MmapList mm) (vm_links s),
                       mms := (mms s)(mm := \<lparr>mmap_cache = None, pgdir = 0, map_count = 0\<rparr>)\<rparr>) }"

partial_function (option) mm_destroy_loop :: "vm_link \<Rightarrow> vm_heap \<Rightarrow> vm_heap option" where
  "mm_destroy_loop list s =
     (let le = list_next list (vm_links s)
      in if le = list then Some s
         else (let s = s\<lparr>vm_links := list_del le (vm_links s)\<rparr>
               in do { v \<leftarrow> vma_of_link le; s \<leftarrow> vma_destroy v s; mm_destroy_loop list s }))"

definition mm_destroy :: "u32 \<Rightarrow> vm_heap \<Rightarrow> vm_heap option" where
  "mm_destroy mm s = do { s \<leftarrow> mm_destroy_loop (MmapList mm) s; k_free mm s }"

text \<open>\<open>check_vma_struct\<close>, with the line it prints.\<close>

definition check_vma_struct :: "vm_heap \<Rightarrow> (string \<times> vm_heap) option" where
  "check_vma_struct s =
     do { (r, s) \<leftarrow> mm_create s;
          mm \<leftarrow> r;
          (r, s) \<leftarrow> vma_create 0 0xff 0 s;
          vma \<leftarrow> r;
          s \<leftarrow> insert_vma_struct mm vma s;
          mmap \<leftarrow> vma_of_link (list_next (MmapList mm) (vm_links s));
          if vm_start (vmas s mmap) \<noteq> 0 \<or> vm_end (vmas s mmap) \<noteq> 0xff
          then Some (''error check_vma_struct'' @ [CHR 0x0A], s)
          else do { s \<leftarrow> mm_destroy mm s; Some (''check_vma_struct over'' @ [CHR 0x0A], s) } }"

section \<open>Page faults\<close>

definition E_INVAL :: int where "E_INVAL = 3"

text \<open>Whether the \<open>switch\<close> on the two low bits of the error code goes to \<open>failed\<close>.\<close>

definition fault_refused :: "u32 \<Rightarrow> u32 \<Rightarrow> bool" where
  "fault_refused error_code fl =
     (let c = error_code AND 0x3 in
      if c = 1 then True
      else if c = 0 then fl AND (VM_READ OR VM_EXEC) = 0
      else fl AND VM_WRITE = 0)"

definition fault_perm :: "u32 \<Rightarrow> u32" where
  "fault_perm fl = (if fl AND VM_WRITE \<noteq> 0 then PTE_U OR PTE_W else PTE_U)"

text \<open>The handler works on the address spaces and on the page tables of theory Paging.\<close>

definition do_pgfault ::
  "'s pmm_manager \<Rightarrow> u32 \<Rightarrow> u32 \<Rightarrow> u32 \<Rightarrow> vm_heap \<Rightarrow> 's vm \<Rightarrow> (int \<times> vm_heap \<times> 's vm) option" where
  "do_pgfault m mm error_code addr h s =
     do { (vma, h) \<leftarrow> find_vma (Some mm) addr h;
          case vma of None \<Rightarrow> Some (-1, h, s) | Some v \<Rightarrow>
          if addr < vm_start (vmas h v) then Some (-1, h, s)
          else if fault_refused error_code (vm_flags (vmas h v)) then Some (-1, h, s)
          else
            (let perm = fault_perm (vm_flags (vmas h v));
                 addr = ROUNDDOWN addr PGSIZE
             in do { (ptep, s) \<leftarrow> get_pte m (pgdir (mms h mm)) addr s;
                     if ptep = 0 then Some (E_INVAL, h, s)
                     else do { (page, s) \<leftarrow> (if present (mem s ptep) then Some (pte2page (mem s ptep), s)
                                            else alloc_page m s);
                               (r, s) \<leftarrow> page_insert m (pgdir (mms h mm)) page addr perm s;
                               Some (0, h, s) } }) }"

end
