(* ===== verification/VmmInv.thy ===== *)
theory VmmInv
  imports Vmm
begin

text \<open>
  What the operations of kern/mm/vmm.c do to the address spaces: the invariant \<open>spaces\<close>, which ties
  the lists in memory to a map from address spaces to their areas and to the blocks in use, its
  preservation by every operation, and the page fault handler over the page table laws.
\<close>

section \<open>One address space\<close>

definition mm_ok :: "vm_heap \<Rightarrow> u32 \<Rightarrow> u32 list \<Rightarrow> bool" where
  "mm_ok s mm vs \<longleftrightarrow> ring (vm_links s) (MmapList mm) (map VmaLink vs) \<and>
     sorted (map (\<lambda>v. vm_start (vmas s v)) vs) \<and>
     map_count (mms s mm) = of_nat (length vs) \<and>
     (\<forall>v \<in> set vs. vm_mm (vmas s v) = mm) \<and>
     (\<forall>v. mmap_cache (mms s mm) = Some v \<longrightarrow> v \<in> set vs)"

definition areas_apart :: "vm_heap \<Rightarrow> u32 list \<Rightarrow> bool" where
  "areas_apart s vs \<longleftrightarrow> sorted_wrt (\<lambda>u v. vm_end (vmas s u) \<le> vm_start (vmas s v)) vs \<and>
     (\<forall>v \<in> set vs. vm_start (vmas s v) < vm_end (vmas s v))"

lemma mm_okD:
  assumes "mm_ok s mm vs"
  shows "ring (vm_links s) (MmapList mm) (map VmaLink vs)"
    "map_count (mms s mm) = of_nat (length vs)"
    "v \<in> set vs \<Longrightarrow> vm_mm (vmas s v) = mm"
    "mmap_cache (mms s mm) = Some v \<Longrightarrow> v \<in> set vs"
    "distinct vs"
  using assms by (auto simp: mm_ok_def ring_def distinct_map)

lemma mm_ok_frame:
  assumes "mm_ok s mm vs" "mms s' mm = mms s mm" "\<And>v. v \<in> set vs \<Longrightarrow> vmas s' v = vmas s v"
    and "\<And>p. p \<in> set (MmapList mm # map VmaLink vs) \<Longrightarrow> vm_links s' p = vm_links s p"
  shows "mm_ok s' mm vs"
proof -
  have "sorted (map (\<lambda>v. vm_start (vmas s' v)) vs) = sorted (map (\<lambda>v. vm_start (vmas s v)) vs)"
    using assms(3) by (simp cong: map_cong)
  moreover have "ring (vm_links s') (MmapList mm) (map VmaLink vs)"
    using assms(1,4) ring_frame [of "MmapList mm" "map VmaLink vs" "vm_links s'" "vm_links s"] by (simp add: mm_ok_def)
  ultimately show ?thesis using assms(1-3) by (simp add: mm_ok_def)
qed

section \<open>The loops\<close>

lemma find_vma_loop_lseg:
  "lseg (vm_links s) le (map VmaLink vs) (MmapList mm) \<Longrightarrow>
   find_vma_loop (MmapList mm) le addr s = Some (find (\<lambda>v. addr < vm_end (vmas s v)) vs)"
proof (induction vs arbitrary: le)
  case Nil
  then show ?case by (subst find_vma_loop.simps) (simp add: list_next_def)
next
  case (Cons v vs)
  then show ?case by (subst find_vma_loop.simps) (simp add: list_next_def)
qed

lemma insert_vma_loop_lseg:
  "lseg (vm_links s) le (map VmaLink vs) (MmapList mm) \<Longrightarrow>
   insert_vma_loop (MmapList mm) lp le start s =
     Some (last (lp # map VmaLink (takeWhile (\<lambda>v. vm_start (vmas s v) \<le> start) vs)))"
proof (induction vs arbitrary: le lp)
  case Nil
  then show ?case by (subst insert_vma_loop.simps) (simp add: list_next_def)
next
  case (Cons v vs)
  have "lseg (vm_links s) (VmaLink v) (map VmaLink vs) (MmapList mm)" using Cons.prems by simp
  from Cons.IH [OF this, of "VmaLink v"] Cons.prems show ?case
    by (subst insert_vma_loop.simps) (simp add: list_next_def linorder_not_less [symmetric] Let_def)
qed

lemma mm_destroy_loop_frees:
  assumes "ring (vm_links s) (MmapList mm) (map VmaLink vs)" "owns t P s (set vs \<union> X)" "set vs \<inter> X = {}"
  shows "\<exists>s'. mm_destroy_loop (MmapList mm) s = Some s' \<and> owns t P s' X \<and> vmas s' = vmas s \<and> mms s' = mms s \<and>
     (\<forall>p. p \<notin> set (MmapList mm # map VmaLink vs) \<longrightarrow> vm_links s' p = vm_links s p)"
  using assms
proof (induction vs arbitrary: s)
  case Nil
  then have "list_next (MmapList mm) (vm_links s) = MmapList mm" by (simp add: ring_next)
  then show ?case using Nil
    by (subst mm_destroy_loop.simps) simp
next
  case (Cons v vs)
  let ?s1 = "s\<lparr>vm_links := list_del (VmaLink v) (vm_links s)\<rparr>"
  have dist: "v \<notin> set vs" using Cons.prems(1) by (auto simp: ring_def)
  have "owns t P ?s1 (set (v # vs) \<union> X)" using Cons.prems(2) owns_memory [of ?s1 s] by simp
  from k_free_owned [OF this, of v] obtain k where
    k: "k_free v ?s1 = Some (?s1\<lparr>memory := k\<rparr>)" "owns t P (?s1\<lparr>memory := k\<rparr>) (set (v # vs) \<union> X - {v})" by auto
  have eq: "set (v # vs) \<union> X - {v} = set vs \<union> X" using dist Cons.prems(3) by auto
  let ?s2 = "?s1\<lparr>memory := k\<rparr>"
  have r: "ring (vm_links ?s2) (MmapList mm) (map VmaLink vs)"
    using ring_del [of "vm_links s" "MmapList mm" "[]" "VmaLink v" "map VmaLink vs"] Cons.prems(1) by simp
  have "list_next (MmapList mm) (vm_links s) = VmaLink v" using ring_next [OF Cons.prems(1)] by simp
  then have step: "mm_destroy_loop (MmapList mm) s = mm_destroy_loop (MmapList mm) ?s2"
    using k(1) by (subst mm_destroy_loop.simps) (simp add: vma_destroy_def)
  obtain s' where K: "mm_destroy_loop (MmapList mm) ?s2 = Some s'" "owns t P s' X" "vmas s' = vmas s" "mms s' = mms s"
    "\<And>p. p \<notin> set (MmapList mm # map VmaLink vs) \<Longrightarrow> vm_links s' p = vm_links ?s2 p"
    using Cons.IH [OF r k(2) [unfolded eq]] Cons.prems(3) by auto
  have "vm_links s' p = vm_links s p" if "p \<notin> set (MmapList mm # map VmaLink (v # vs))" for p
    using K(5) [of p] that list_del_ring_other [of "vm_links s" "MmapList mm" "[]" "VmaLink v" "map VmaLink vs" p]
      Cons.prems(1) by auto
  then show ?case using K(1-4) step by (intro exI [of _ s']) simp
qed

section \<open>All address spaces\<close>

text \<open>\<open>M\<close> maps every address space to its areas in list order; the areas of \<open>L\<close> are created but not
  yet linked. These structures are exactly the blocks in use.\<close>

definition areas :: "(u32 \<rightharpoonup> u32 list) \<Rightarrow> u32 set" where
  "areas M = {v. \<exists>m vs. M m = Some vs \<and> v \<in> set vs}"

definition spaces :: "page_ptr \<Rightarrow> nat set \<Rightarrow> vm_heap \<Rightarrow> (u32 \<rightharpoonup> u32 list) \<Rightarrow> u32 set \<Rightarrow> bool" where
  "spaces t P s M L \<longleftrightarrow> owns t P s (dom M \<union> areas M \<union> L) \<and>
     dom M \<inter> (areas M \<union> L) = {} \<and> areas M \<inter> L = {} \<and>
     (\<forall>m vs. M m = Some vs \<longrightarrow> mm_ok s m vs)"

lemma spacesD:
  assumes "spaces t P s M L"
  shows "owns t P s (dom M \<union> areas M \<union> L)" "dom M \<inter> (areas M \<union> L) = {}" "areas M \<inter> L = {}"
    "M m = Some vs \<Longrightarrow> mm_ok s m vs"
  using assms by (auto simp: spaces_def)

lemma areas_in: "M m = Some vs \<Longrightarrow> v \<in> set vs \<Longrightarrow> v \<in> areas M"
  by (auto simp: areas_def)

lemma areas_disjoint:
  assumes "spaces t P s M L" "M m = Some vs" "M m' = Some vs'" "m \<noteq> m'"
  shows "set vs \<inter> set vs' = {}"
  using mm_okD(3) [OF spacesD(4) [OF assms(1,2)]] mm_okD(3) [OF spacesD(4) [OF assms(1,3)]] assms(4) by fastforce

lemma areas_but:
  assumes "spaces t P s M L" "M m = Some vs"
  shows "areas M - set vs = {v. \<exists>m' us. m' \<noteq> m \<and> M m' = Some us \<and> v \<in> set us}"
proof (intro equalityI subsetI)
  fix v assume "v \<in> areas M - set vs"
  then obtain m' us where "M m' = Some us" "v \<in> set us" "v \<notin> set vs" by (auto simp: areas_def)
  then show "v \<in> {v. \<exists>m' us. m' \<noteq> m \<and> M m' = Some us \<and> v \<in> set us}"
    using assms(2) by (cases "m' = m") auto
next
  fix v assume "v \<in> {v. \<exists>m' us. m' \<noteq> m \<and> M m' = Some us \<and> v \<in> set us}"
  then obtain m' us where v: "m' \<noteq> m" "M m' = Some us" "v \<in> set us" by blast
  then have "v \<notin> set vs" using areas_disjoint [OF assms v(2)] by blast
  then show "v \<in> areas M - set vs" using areas_in [of M, OF v(2,3)] by blast
qed

lemma areas_upd:
  assumes "spaces t P s M L" "M m = Some vs"
  shows "areas (M(m \<mapsto> vs')) = areas M - set vs \<union> set vs'"
  unfolding areas_but [OF assms] by (auto simp: areas_def split: if_splits)

lemma areas_del:
  assumes "spaces t P s M L" "M m = Some vs"
  shows "areas (M(m := None)) = areas M - set vs"
  unfolding areas_but [OF assms] by (auto simp: areas_def split: if_splits)

section \<open>The operations\<close>

lemma mm_create_spaces:
  assumes "spaces t P s M L"
  shows "case mm_create s of None \<Rightarrow> t = Null
    | Some (None, s') \<Rightarrow> spaces t P s' M L
    | Some (Some m, s') \<Rightarrow> m \<notin> dom M \<union> areas M \<union> L \<and> spaces t P s' (M(m \<mapsto> [])) L"
proof (cases rule: k_malloc_cases [OF spacesD(1) [OF assms], of sizeof_mm_struct, case_names fault null got])
  case fault
  then show ?thesis by (simp add: mm_create_def)
next
  case (null k)
  have "mm_ok (s\<lparr>memory := k\<rparr>) m vs" if "M m = Some vs" for m vs
    by (rule mm_ok_frame [OF spacesD(4) [OF assms that]]) simp_all
  then show ?thesis using null assms by (simp add: mm_create_def spaces_def)
next
  case (got m k)
  define s' where "s' = s\<lparr>memory := k, vm_links := list_init (MmapList m) (vm_links s),
    mms := (mms s)(m := \<lparr>mmap_cache = None, pgdir = 0, map_count = 0\<rparr>)\<rparr>"
  have r: "mm_create s = Some (Some m, s')" using got(1) by (simp add: mm_create_def s'_def)
  have "mm_ok s' m' vs" if "M m' = Some vs" for m' vs
  proof (rule mm_ok_frame [OF spacesD(4) [OF assms that]])
    have "m' \<noteq> m" using got(2) that by blast
    then show "mms s' m' = mms s m'" by (simp add: s'_def)
    show "vm_links s' p = vm_links s p" if "p \<in> set (MmapList m' # map VmaLink vs)" for p
      using that \<open>m' \<noteq> m\<close> by (auto simp: s'_def intro: list_init_other)
  qed (simp add: s'_def)
  moreover have "mm_ok s' m []" by (simp add: mm_ok_def s'_def ring_init)
  moreover have "areas (M(m \<mapsto> [])) = areas M"
    using got(2) by (auto simp: areas_def split: if_splits)
  moreover have "owns t P s' (insert m (dom M \<union> areas M \<union> L))"
    using got(3) owns_memory [of s' "s\<lparr>memory := k\<rparr>" t P] by (simp add: s'_def)
  ultimately have "spaces t P s' (M(m \<mapsto> [])) L"
    using assms got(2) by (auto simp: spaces_def)
  then show ?thesis using r got(2) by simp
qed

lemma vma_create_spaces:
  assumes "spaces t P s M L"
  shows "case vma_create a b fl s of None \<Rightarrow> t = Null
    | Some (None, s') \<Rightarrow> spaces t P s' M L
    | Some (Some v, s') \<Rightarrow> v \<notin> dom M \<union> areas M \<union> L \<and> spaces t P s' M (insert v L) \<and>
        vm_start (vmas s' v) = a \<and> vm_end (vmas s' v) = b \<and> vm_flags (vmas s' v) = fl \<and>
        (\<forall>u. u \<noteq> v \<longrightarrow> vmas s' u = vmas s u)"
proof (cases rule: k_malloc_cases [OF spacesD(1) [OF assms], of sizeof_vma_struct, case_names fault null got])
  case fault
  then show ?thesis by (simp add: vma_create_def)
next
  case (null k)
  have "mm_ok (s\<lparr>memory := k\<rparr>) m vs" if "M m = Some vs" for m vs
    by (rule mm_ok_frame [OF spacesD(4) [OF assms that]]) simp_all
  then show ?thesis using null assms by (simp add: vma_create_def spaces_def)
next
  case (got v k)
  define s' where "s' = s\<lparr>memory := k, vmas := (vmas s)(v :=
    (vmas s v)\<lparr>vm_start := a, vm_end := b, vm_flags := fl\<rparr>)\<rparr>"
  have r: "vma_create a b fl s = Some (Some v, s')" using got(1) by (simp add: vma_create_def s'_def)
  have "mm_ok s' m vs" if "M m = Some vs" for m vs
  proof (rule mm_ok_frame [OF spacesD(4) [OF assms that]])
    fix u assume "u \<in> set vs"
    then have "u \<noteq> v" using got(2) areas_in [of M, OF that] by blast
    then show "vmas s' u = vmas s u" by (simp add: s'_def)
  qed (simp_all add: s'_def)
  moreover have "owns t P s' (insert v (dom M \<union> areas M \<union> L))"
    using got(3) owns_memory [of s' "s\<lparr>memory := k\<rparr>" t P] by (simp add: s'_def)
  ultimately have "spaces t P s' M (insert v L)" using assms got(2) by (auto simp: spaces_def)
  then show ?thesis using r got(2) by (simp add: s'_def)
qed

text \<open>Where a new area goes.\<close>

definition area_insert :: "vm_heap \<Rightarrow> u32 \<Rightarrow> u32 list \<Rightarrow> u32 list" where
  "area_insert s v vs =
     (let le = (\<lambda>u. vm_start (vmas s u) \<le> vm_start (vmas s v)) in takeWhile le vs @ v # dropWhile le vs)"

lemma sorted_wrt_insert:
  assumes "sorted_wrt R vs" "transp R" "\<And>u. u \<in> set vs \<Longrightarrow> Q u \<Longrightarrow> R u v"
    "\<And>u. u \<in> set vs \<Longrightarrow> \<not> Q u \<Longrightarrow> R v u"
  shows "sorted_wrt R (takeWhile Q vs @ v # dropWhile Q vs)"
  using assms(1,3,4)
proof (induction vs)
  case (Cons u vs)
  show ?case
  proof (cases "Q u")
    case True
    then have "R u x" if "x \<in> set (takeWhile Q vs @ v # dropWhile Q vs)" for x
      using that Cons.prems by (auto dest: set_takeWhileD set_dropWhileD)
    then show ?thesis using True Cons by simp
  next
    case False
    then have "R v u" using Cons.prems(3) by simp
    then have "R v x" if "x \<in> set vs" for x
      using Cons.prems(1) that assms(2) by (auto dest: transpD)
    then show ?thesis using False Cons.prems by simp
  qed
qed simp

lemma area_insert_set: "set (area_insert s v vs) = insert v (set vs)" "length (area_insert s v vs) = Suc (length vs)"
proof -
  let ?Q = "\<lambda>u. vm_start (vmas s u) \<le> vm_start (vmas s v)"
  have "set vs = set (takeWhile ?Q vs) \<union> set (dropWhile ?Q vs)"
    "length vs = length (takeWhile ?Q vs) + length (dropWhile ?Q vs)"
    by (simp_all only: takeWhile_dropWhile_id flip: set_append length_append)
  then show "set (area_insert s v vs) = insert v (set vs)" "length (area_insert s v vs) = Suc (length vs)"
    unfolding area_insert_def Let_def by (simp_all only: set_append length_append set_simps list.size) auto
qed

lemma insert_vma_struct_ok:
  assumes ok: "mm_ok s m vs" and fresh: "v \<notin> set vs"
  shows "\<exists>s'. insert_vma_struct m v s = Some s' \<and> mm_ok s' m (area_insert s v vs) \<and> memory s' = memory s \<and>
     (\<forall>m' us. m' \<noteq> m \<longrightarrow> v \<notin> set us \<longrightarrow> set vs \<inter> set us = {} \<longrightarrow> mm_ok s m' us \<longrightarrow> mm_ok s' m' us) \<and>
     (\<forall>u. vm_start (vmas s' u) = vm_start (vmas s u) \<and> vm_end (vmas s' u) = vm_end (vmas s u) \<and>
          vm_flags (vmas s' u) = vm_flags (vmas s u))"
proof -
  let ?Q = "\<lambda>u. vm_start (vmas s u) \<le> vm_start (vmas s v)"
  let ?us = "takeWhile ?Q vs" and ?ws = "dropWhile ?Q vs"
  let ?lp = "last (MmapList m # map VmaLink ?us)"
  define s' where "s' = s\<lparr>vmas := (vmas s)(v := (vmas s v)\<lparr>vm_mm := m\<rparr>),
    vm_links := list_add_after ?lp (VmaLink v) (vm_links s),
    mms := (mms s)(m := (mms s m)\<lparr>map_count := map_count (mms s m) + 1\<rparr>)\<rparr>"
  have split: "map VmaLink vs = map VmaLink ?us @ map VmaLink ?ws"
    by (simp flip: map_append)
  have ring: "ring (vm_links s) (MmapList m) (map VmaLink ?us @ map VmaLink ?ws)"
    using mm_okD(1) [OF ok] by (simp only: split)
  have "insert_vma_struct m v s = Some s'"
    using insert_vma_loop_lseg [of s "MmapList m" vs m "MmapList m" "vm_start (vmas s v)"] mm_okD(1) [OF ok]
    by (simp add: insert_vma_struct_def ring_def s'_def)
  moreover have "mm_ok s' m (area_insert s v vs)"
  proof -
    have "VmaLink v \<notin> set (MmapList m # map VmaLink ?us @ map VmaLink ?ws)"
      using fresh by (auto dest: set_takeWhileD set_dropWhileD)
    from ring_add_after [OF ring this]
    have "ring (vm_links s') (MmapList m) (map VmaLink (area_insert s v vs))"
      by (simp add: s'_def area_insert_def Let_def)
    moreover have "sorted_wrt (\<lambda>u w. vm_start (vmas s u) \<le> vm_start (vmas s w)) (area_insert s v vs)"
      unfolding area_insert_def Let_def
    proof (rule sorted_wrt_insert)
      show "sorted_wrt (\<lambda>u w. vm_start (vmas s u) \<le> vm_start (vmas s w)) vs"
        using ok by (simp add: mm_ok_def sorted_map)
    qed (auto simp: transp_def)
    moreover have "vm_start (vmas s' u) = vm_start (vmas s u)" for u by (simp add: s'_def)
    ultimately have "sorted (map (\<lambda>u. vm_start (vmas s' u)) (area_insert s v vs))"
      "ring (vm_links s') (MmapList m) (map VmaLink (area_insert s v vs))" by (simp_all only: sorted_map)
    moreover have "map_count (mms s' m) = of_nat (length (area_insert s v vs))"
      using mm_okD(2) [OF ok] by (simp add: s'_def area_insert_set)
    ultimately show ?thesis using ok by (auto simp: mm_ok_def s'_def area_insert_set)
  qed
  moreover have "mm_ok s' m' us" if M': "m' \<noteq> m" "v \<notin> set us" "set vs \<inter> set us = {}" "mm_ok s m' us" for m' us
  proof (rule mm_ok_frame [OF M'(4)])
    show "mms s' m' = mms s m'" using M'(1) by (simp add: s'_def)
    show "vmas s' u = vmas s u" if "u \<in> set us" for u using that M'(2) by (auto simp: s'_def)
    show "vm_links s' p = vm_links s p" if p: "p \<in> set (MmapList m' # map VmaLink us)" for p
    proof -
      have "p \<notin> set (MmapList m # VmaLink v # map VmaLink vs)" using p M' by auto
      then show ?thesis using list_add_after_ring_other [OF ring, of p "VmaLink v"] by (simp add: s'_def split)
    qed
  qed
  ultimately show ?thesis by (intro exI [of _ s']) (simp add: s'_def)
qed

lemma insert_vma_struct_spaces:
  assumes sp: "spaces t P s M L" and M: "M m = Some vs" and v: "v \<in> L"
  shows "\<exists>s'. insert_vma_struct m v s = Some s' \<and> spaces t P s' (M(m \<mapsto> area_insert s v vs)) (L - {v})"
proof -
  note ok = spacesD(4) [OF sp M] and D = spacesD(1-3) [OF sp]
  have fresh: "v \<notin> set us" if "M m' = Some us" for m' us using areas_in [of M, OF that] v D(3) by blast
  obtain s' where s': "insert_vma_struct m v s = Some s'" "mm_ok s' m (area_insert s v vs)" "memory s' = memory s"
    "\<And>m' us. m' \<noteq> m \<Longrightarrow> v \<notin> set us \<Longrightarrow> set vs \<inter> set us = {} \<Longrightarrow> mm_ok s m' us \<Longrightarrow> mm_ok s' m' us"
    using insert_vma_struct_ok [OF ok fresh [OF M]] by blast
  have "mm_ok s' m' us" if "M m' = Some us" "m' \<noteq> m" for m' us
    using s'(4) [OF that(2) fresh [OF that(1)] _ spacesD(4) [OF sp that(1)]] areas_disjoint [OF sp M that(1)] that(2)
    by blast
  moreover have "areas (M(m \<mapsto> area_insert s v vs)) = insert v (areas M)"
    unfolding areas_upd [OF sp M] using areas_in [of M, OF M] by (auto simp: area_insert_set)
  moreover have "owns t P s' (dom M \<union> areas M \<union> L)" using D(1) owns_memory [of s' s] s'(3) by simp
  moreover have "dom (M(m \<mapsto> area_insert s v vs)) \<union> insert v (areas M) \<union> (L - {v}) = dom M \<union> areas M \<union> L"
    using M v by auto
  ultimately show ?thesis using D v M s'(1,2) by (intro exI [of _ s']) (auto simp: spaces_def)
qed

lemma area_insert_apart:
  assumes "areas_apart s vs" "vm_start (vmas s v) < vm_end (vmas s v)"
    and "\<And>u. u \<in> set vs \<Longrightarrow> vm_end (vmas s u) \<le> vm_start (vmas s v) \<or> vm_end (vmas s v) \<le> vm_start (vmas s u)"
  shows "areas_apart s (area_insert s v vs)"
proof -
  let ?R = "\<lambda>u w. vm_end (vmas s u) \<le> vm_start (vmas s w) \<and> vm_start (vmas s u) < vm_end (vmas s u) \<and>
    vm_start (vmas s w) < vm_end (vmas s w)"
  have "sorted_wrt ?R (area_insert s v vs)" unfolding area_insert_def Let_def
  proof (rule sorted_wrt_insert)
    show "sorted_wrt ?R vs" using assms(1) by (auto simp: areas_apart_def intro: sorted_wrt_mono_rel [rotated])
    show "transp ?R" by (rule transpI) (auto dest: order.strict_implies_order order.trans)
    fix u assume u: "u \<in> set vs"
    have pos: "vm_start (vmas s u) < vm_end (vmas s u)" using assms(1) u by (simp add: areas_apart_def)
    show "vm_start (vmas s u) \<le> vm_start (vmas s v) \<Longrightarrow> ?R u v"
      using assms(2) assms(3) [OF u] pos by (meson leD order.trans)
    show "\<not> vm_start (vmas s u) \<le> vm_start (vmas s v) \<Longrightarrow> ?R v u"
      using assms(2) assms(3) [OF u] pos by (meson le_less_trans less_imp_le not_le)
  qed
  moreover have "\<forall>u \<in> set (area_insert s v vs). vm_start (vmas s u) < vm_end (vmas s u)"
    using assms(1,2) by (simp add: areas_apart_def area_insert_set)
  ultimately show ?thesis by (auto simp: areas_apart_def intro: sorted_wrt_mono_rel [rotated])
qed

lemma mm_destroy_spaces:
  assumes sp: "spaces t P s M L" and M: "M m = Some vs"
  shows "\<exists>s'. mm_destroy m s = Some s' \<and> spaces t P s' (M(m := None)) L \<and>
     vmas s' = vmas s \<and> mms s' = mms s"
proof -
  note ok = spacesD(4) [OF sp M] and D = spacesD(1-3) [OF sp]
  let ?X = "dom M \<union> (areas M - set vs) \<union> L"
  have sub: "set vs \<subseteq> areas M" using areas_in [of M, OF M] by blast
  then have eq: "dom M \<union> areas M \<union> L = set vs \<union> ?X" and disj: "set vs \<inter> ?X = {}" using D(2,3) by auto
  obtain s1 where K: "mm_destroy_loop (MmapList m) s = Some s1" "owns t P s1 ?X" "vmas s1 = vmas s" "mms s1 = mms s"
    "\<And>p. p \<notin> set (MmapList m # map VmaLink vs) \<Longrightarrow> vm_links s1 p = vm_links s p"
    using mm_destroy_loop_frees [OF mm_okD(1) [OF ok] D(1) [unfolded eq] disj] by blast
  have "m \<in> ?X" using M by auto
  from k_free_owned [OF K(2) this] obtain k where
    k: "k_free m s1 = Some (s1\<lparr>memory := k\<rparr>)" "owns t P (s1\<lparr>memory := k\<rparr>) (?X - {m})" by blast
  let ?s' = "s1\<lparr>memory := k\<rparr>"
  have "mm_ok ?s' m' us" if M': "M m' = Some us" "m' \<noteq> m" for m' us
  proof (rule mm_ok_frame [OF spacesD(4) [OF sp M'(1)]])
    show "vm_links ?s' p = vm_links s p" if p: "p \<in> set (MmapList m' # map VmaLink us)" for p
    proof -
      have "p \<notin> set (MmapList m # map VmaLink vs)" using p M'(2) areas_disjoint [OF sp M M'(1)] by auto
      then show ?thesis using K(5) by simp
    qed
  qed (simp_all add: K)
  moreover have "?X - {m} = dom (M(m := None)) \<union> areas (M(m := None)) \<union> L"
    unfolding areas_del [OF sp M] using D(2) M by auto
  ultimately have "spaces t P ?s' (M(m := None)) L"
    using k(2) D(2,3) sub by (auto simp: spaces_def areas_del [OF sp M] split: if_splits)
  then show ?thesis using K(1,3,4) k(1) by (simp add: mm_destroy_def)
qed

lemma find_apart:
  assumes "areas_apart s vs" "v \<in> set vs" "vm_start (vmas s v) \<le> addr" "addr < vm_end (vmas s v)"
  shows "find (\<lambda>v. addr < vm_end (vmas s v)) vs = Some v"
proof -
  obtain us ws where vs: "vs = us @ v # ws" using assms(2) by (auto simp: in_set_conv_decomp)
  have "\<not> addr < vm_end (vmas s u)" if "u \<in> set us" for u
    using assms(1,3) that vs by (auto simp: areas_apart_def sorted_wrt_append)
  then have "find (\<lambda>v. addr < vm_end (vmas s v)) us = None" by (simp add: find_None_iff)
  then show ?thesis using assms(4) unfolding vs by (induction us) (auto split: if_splits)
qed

lemma find_vma_ok:
  assumes ok: "mm_ok s m vs"
  shows "\<exists>r s'. find_vma (Some m) addr s = Some (r, s') \<and> mm_ok s' m vs \<and>
     (\<exists>c. s' = s\<lparr>mms := (mms s)(m := (mms s m)\<lparr>mmap_cache := c\<rparr>)\<rparr>) \<and>
     (areas_apart s vs \<longrightarrow> r = find (\<lambda>v. addr < vm_end (vmas s v)) vs)"
proof -
  let ?f = "find (\<lambda>v. addr < vm_end (vmas s v)) vs"
  define r where "r = (case mmap_cache (mms s m) of None \<Rightarrow> ?f
    | Some v \<Rightarrow> if vm_start (vmas s v) \<le> addr \<and> addr < vm_end (vmas s v) then Some v else ?f)"
  define c where "c = (case r of None \<Rightarrow> mmap_cache (mms s m) | Some v \<Rightarrow> Some v)"
  have loop: "find_vma_loop (MmapList m) (MmapList m) addr s = Some ?f"
    using mm_okD(1) [OF ok] by (intro find_vma_loop_lseg) (simp add: ring_def)
  have keep: "s = s\<lparr>mms := (mms s)(m := (mms s m)\<lparr>mmap_cache := x\<rparr>)\<rparr>" if "mmap_cache (mms s m) = x" for x
    using that by auto
  have "find_vma (Some m) addr s = Some (r, s\<lparr>mms := (mms s)(m := (mms s m)\<lparr>mmap_cache := c\<rparr>)\<rparr>)"
    by (auto simp: find_vma_def loop r_def c_def intro: keep split: option.splits)
  moreover have "v \<in> set vs" if "c = Some v" for v
    using that mm_okD(4) [OF ok] by (auto simp: c_def r_def find_Some_iff split: option.splits if_splits)
  then have "mm_ok (s\<lparr>mms := (mms s)(m := (mms s m)\<lparr>mmap_cache := c\<rparr>)\<rparr>) m vs" using ok by (simp add: mm_ok_def)
  moreover have "r = ?f" if "areas_apart s vs"
    using find_apart [OF that mm_okD(4) [OF ok]] by (auto simp: r_def split: option.split)
  ultimately show ?thesis by blast
qed

lemma find_vma_spaces:
  assumes sp: "spaces t P s M L" and M: "M m = Some vs" and f: "find_vma (Some m) addr s = Some (r, s')"
  shows "spaces t P s' M L"
proof -
  obtain c where s': "mm_ok s' m vs" "s' = s\<lparr>mms := (mms s)(m := (mms s m)\<lparr>mmap_cache := c\<rparr>)\<rparr>"
    using find_vma_ok [OF spacesD(4) [OF sp M], of addr] f by auto
  have "mm_ok s' m' us" if "M m' = Some us" for m' us
  proof (cases "m' = m")
    case True
    then show ?thesis using s'(1) that M by simp
  next
    case False
    then show ?thesis by (intro mm_ok_frame [OF spacesD(4) [OF sp that]]) (simp_all add: s'(2))
  qed
  moreover have "owns t P s' X = owns t P s X" for X by (rule owns_memory) (simp add: s'(2))
  ultimately show ?thesis using sp by (simp add: spaces_def)
qed

section \<open>The page fault handler\<close>

lemma PAGE_NUM_rounded: "PAGE_NUM (ROUNDDOWN la PGSIZE) = PAGE_NUM la"
proof -
  have "unat (PAGE_NUM la) < 2 ^ 20"
    using unsigned_less [of la, where ?'a = nat] by (simp add: PAGE_NUM_unat less_mult_imp_div_less)
  then show ?thesis unfolding PAGE_NUM_ROUNDDOWN by (simp only: word_unat_eq_iff PAGE_NUM_of_nat)
qed

lemma ordinary_rounded: "ordinary (ROUNDDOWN la PGSIZE) \<longleftrightarrow> ordinary la"
  using PAGE_NUM_rounded by (simp add: same_page)

text \<open>Which frame the handler maps: the one already there, or a free page.\<close>

lemma fault_page:
  assumes inv: "vm_inv (buddy_rel t) d F s" and F: "finite F" "2 \<le> card F" and o: "ordinary la"
  shows "\<exists>p s1 q s2 F2. get_pte buddy_pmm_manager (page2va d) la s = Some (p, s1) \<and> p \<noteq> 0 \<and>
     (if present (mem s1 p) then Some (pte2page (mem s1 p), s1) else alloc_page buddy_pmm_manager s1) = Some (q, s2) \<and>
     vm_inv (buddy_rel t) d F2 s2 \<and> F2 \<subseteq> F \<and> present (mem s2 (cell d (unat (PDX la)))) \<and>
     (case translate (mem s) d la of Some e \<Rightarrow> q = frame e | None \<Rightarrow> q \<in> F - F2) \<and>
     (\<forall>la'. ordinary la' \<longrightarrow> translate (mem s2) d la' = translate (mem s) d la') \<and>
     cr3 s2 = cr3 s \<and> tlb s2 = tlb s"
proof -
  have rel: "buddy_rel t (pmm s) F" using inv by (simp add: vm_inv_def)
  have ne: "F \<noteq> {}" using F(2) by auto
  obtain p s1 where g: "get_pte buddy_pmm_manager (page2va d) la s = Some (p, s1)"
    using buddy_supply.get_pte_some [OF rel ne] by blast
  obtain F1 where G: "F1 \<subseteq> F" "table_taken d (unat (PDX la)) (mem s) (mem s1) F F1" "vm_inv (buddy_rel t) d F1 s1"
    "p = cell (frame (mem s1 (cell d (unat (PDX la))))) (unat (PTX la))"
    "present (mem s1 (cell d (unat (PDX la))))"
    "\<And>la'. ordinary la' \<Longrightarrow> translate (mem s1) d la' = translate (mem s) d la'"
    "cr3 s1 = cr3 s" "tlb s1 = tlb s" using buddy.get_pte_correct [OF inv o g] by blast
  have "frame (mem s1 (cell d (unat (PDX la)))) < 2 ^ 18"
    using G(3,5) o PDX_lt tables_okD(4) by (auto simp: vm_inv_def)
  then have p0: "p \<noteq> 0" using G(4) cell_nonzero PTX_lt by simp
  have tr: "translate (mem s) d la = (if present (mem s1 p) then Some (mem s1 p) else None)"
    using buddy.entry_translate [where \<mu> = "mem s1", OF G(4,5)] G(6) [OF o] by simp
  show ?thesis
  proof (cases "present (mem s1 p)")
    case True
    then show ?thesis using g p0 G tr pte2page_frame
      by (intro exI [of _ p] exI [of _ s1] exI [of _ "frame (mem s1 p)"] exI [of _ s1] exI [of _ F1]) simp
  next
    case False
    have "F1 \<noteq> {}"
    proof
      assume "F1 = {}"
      then obtain f where "F \<subseteq> {f}" using G(2) by (auto simp: table_taken_def split: if_splits)
      then show False using F(2) card_mono [of "{f}" F] by simp
    qed
    moreover have rel1: "buddy_rel t (pmm s1) F1" using G(3) by (simp add: vm_inv_def)
    ultimately obtain q b where "alloc_pages buddy_pmm_manager 1 (pmm s1) = Some (Some q, b)"
      using buddy_supply.one_law by blast
    then obtain s2 where al: "alloc_page buddy_pmm_manager s1 = Some (q, s2)" by (auto simp: alloc_page_def)
    note A = buddy.alloc_page_some [OF rel1 al]
    have "tables_ok (mem s1) d (F1 - {q})"
      using G(3) by (auto simp: vm_inv_def tables_ok_def)
    then have "vm_inv (buddy_rel t) d (F1 - {q}) s2" using A by (simp add: vm_inv_def)
    then show ?thesis using g p0 G tr False al A
      by (intro exI [of _ p] exI [of _ s1] exI [of _ q] exI [of _ s2] exI [of _ "F1 - {q}"]) auto
  qed
qed

section \<open>Sequences of calls\<close>

text \<open>The calls of a client that links only areas it created and destroys only address spaces it
  created, from an allocator with no block in use.\<close>

inductive vm_reach :: "vm_heap \<Rightarrow> vm_heap \<Rightarrow> (u32 \<rightharpoonup> u32 list) \<Rightarrow> u32 set \<Rightarrow> bool" for s0 where
  start: "vm_reach s0 s0 Map.empty {}"
| new_mm: "vm_reach s0 s M L \<Longrightarrow> mm_create s = Some (Some m, s') \<Longrightarrow> vm_reach s0 s' (M(m \<mapsto> [])) L"
| no_mm: "vm_reach s0 s M L \<Longrightarrow> mm_create s = Some (None, s') \<Longrightarrow> vm_reach s0 s' M L"
| new_vma: "vm_reach s0 s M L \<Longrightarrow> vma_create a b fl s = Some (Some v, s') \<Longrightarrow> vm_reach s0 s' M (insert v L)"
| no_vma: "vm_reach s0 s M L \<Longrightarrow> vma_create a b fl s = Some (None, s') \<Longrightarrow> vm_reach s0 s' M L"
| link: "vm_reach s0 s M L \<Longrightarrow> M m = Some vs \<Longrightarrow> v \<in> L \<Longrightarrow> insert_vma_struct m v s = Some s' \<Longrightarrow>
    vm_reach s0 s' (M(m \<mapsto> area_insert s v vs)) (L - {v})"
| lookup: "vm_reach s0 s M L \<Longrightarrow> M m = Some vs \<Longrightarrow> find_vma (Some m) addr s = Some (r, s') \<Longrightarrow> vm_reach s0 s' M L"
| destroy: "vm_reach s0 s M L \<Longrightarrow> M m = Some vs \<Longrightarrow> mm_destroy m s = Some s' \<Longrightarrow> vm_reach s0 s' (M(m := None)) L"

lemma vm_reach_spaces:
  assumes "vm_reach s0 s M L" "owns t P s0 {}"
  shows "spaces t P s M L"
  using assms
proof (induction rule: vm_reach.induct)
  case start
  then show ?case by (simp add: spaces_def areas_def)
next
  case (new_mm s M L m s')
  then show ?case using mm_create_spaces [of t P s M L] by (simp only: option.case prod.case)
next
  case (no_mm s M L s')
  then show ?case using mm_create_spaces [of t P s M L] by (simp only: option.case prod.case)
next
  case (new_vma s M L a b fl v s')
  then show ?case using vma_create_spaces [of t P s M L a b fl] by (simp only: option.case prod.case)
next
  case (no_vma s M L a b fl s')
  then show ?case using vma_create_spaces [of t P s M L a b fl] by (simp only: option.case prod.case)
next
  case (link s M L m vs v s')
  then show ?case using insert_vma_struct_spaces [of t P s M L m vs v] by (metis option.inject)
next
  case (lookup s M L m vs addr r s')
  then show ?case by (blast intro: find_vma_spaces)
next
  case (destroy s M L m vs s')
  then show ?case using mm_destroy_spaces [of t P s M L m vs] by (metis option.inject)
qed

section \<open>Properties\<close>

text \<open>A heap without address spaces, over a fresh allocator.\<close>

definition empty_vm_heap :: "kmem \<Rightarrow> vm_heap" where
  "empty_vm_heap k = \<lparr>memory = k, vmas = \<lambda>_. \<lparr>vm_mm = 0, vm_start = 0, vm_end = 0, vm_flags = 0\<rparr>,
     mms = \<lambda>_. \<lparr>mmap_cache = None, pgdir = 0, map_count = 0\<rparr>,
     vm_links = \<lambda>p. \<lparr>prev = p, next = p\<rparr>\<rparr>"

text \<open>C8. After every sequence of calls, each address space is a well-formed ring of exactly the areas
  linked into it, sorted by start address, with the right count, owner and a cached area of its own;
  the structures in use are exactly the blocks taken from \<open>kmalloc\<close>.\<close>

theorem vm_calls_keep_spaces:
  assumes "vm_reach s0 s M L" and "owns t P s0 {}"
  shows "owns t P s (dom M \<union> areas M \<union> L) \<and> dom M \<inter> (areas M \<union> L) = {} \<and> areas M \<inter> L = {} \<and>
    (\<forall>m vs. M m = Some vs \<longrightarrow> ring (vm_links s) (MmapList m) (map VmaLink vs) \<and>
       sorted (map (\<lambda>v. vm_start (vmas s v)) vs) \<and> map_count (mms s m) = of_nat (length vs) \<and>
       (\<forall>v \<in> set vs. vm_mm (vmas s v) = m) \<and> (\<forall>v. mmap_cache (mms s m) = Some v \<longrightarrow> v \<in> set vs))"
  using vm_reach_spaces [OF assms] unfolding spaces_def mm_ok_def by blast

theorem vm_calls_keep_spaces_witness:
  "\<exists>k m s. slab_init (small_kmem ended_frames) = Some k \<and> mm_create (empty_vm_heap k) = Some (Some m, s) \<and>
     owns (FreeList MAX_ORDER) {0..<64} s {m} \<and> ring (vm_links s) (MmapList m) []"
proof -
  obtain k m k' where k: "slab_init (small_kmem ended_frames) = Some k"
    "owns (FreeList MAX_ORDER) {0..<64} (empty_vm_heap k) {}"
    "k_malloc 20 (empty_vm_heap k) = Some (Some m, (empty_vm_heap k)\<lparr>memory := k'\<rparr>)"
    using small_client [of empty_vm_heap] by (auto simp: empty_vm_heap_def)
  then obtain s where s: "mm_create (empty_vm_heap k) = Some (Some m, s)"
    by (simp add: mm_create_def sizeof_mm_struct_def)
  then have "vm_reach (empty_vm_heap k) s [m \<mapsto> []] {}" by (rule vm_reach.new_mm [OF vm_reach.start])
  from vm_calls_keep_spaces [OF this k(2)]
  have "owns (FreeList MAX_ORDER) {0..<64} s {m} \<and> ring (vm_links s) (MmapList m) []"
    by (auto simp: areas_def split: if_splits)
  then show ?thesis using k(1) s by blast
qed

text \<open>A heap with an address space of the two areas \<open>[0x1000, 0x3000)\<close> and \<open>[0x8000, 0x9000)\<close>, and an area
  \<open>[0x4000, 0x5000)\<close> that is not linked.\<close>

definition two_areas :: vm_heap where
  "two_areas = (empty_vm_heap (small_kmem ended_frames))\<lparr>
     vmas := (\<lambda>_. \<lparr>vm_mm = 1, vm_start = 0, vm_end = 0, vm_flags = VM_READ OR VM_WRITE\<rparr>)(
       2 := \<lparr>vm_mm = 1, vm_start = 0x1000, vm_end = 0x3000, vm_flags = VM_READ OR VM_WRITE\<rparr>,
       3 := \<lparr>vm_mm = 1, vm_start = 0x8000, vm_end = 0x9000, vm_flags = VM_READ\<rparr>,
       4 := \<lparr>vm_mm = 0, vm_start = 0x4000, vm_end = 0x5000, vm_flags = VM_READ\<rparr>),
     mms := (\<lambda>_. \<lparr>mmap_cache = Some 3, pgdir = page2va 20, map_count = 2\<rparr>),
     vm_links := (\<lambda>p. \<lparr>prev = p, next = p\<rparr>)(
       MmapList 1 := \<lparr>prev = VmaLink 3, next = VmaLink 2\<rparr>,
       VmaLink 2 := \<lparr>prev = MmapList 1, next = VmaLink 3\<rparr>,
       VmaLink 3 := \<lparr>prev = VmaLink 2, next = MmapList 1\<rparr>)\<rparr>"

lemma two_areas_ok: "mm_ok two_areas 1 [2, 3]" "areas_apart two_areas [2, 3]"
  by (simp_all add: mm_ok_def areas_apart_def ring_def two_areas_def empty_vm_heap_def)

text \<open>C16. \<open>insert_vma_struct\<close> links a new area behind the areas that start no later, so that areas that
  do not overlap stay in address order; the count grows by one, and the other address spaces and the
  bounds and flags of every area stay what they were.\<close>

theorem insert_vma_struct_sorted:
  assumes "mm_ok s m vs" and "v \<notin> set vs" and "areas_apart s vs" and "vm_start (vmas s v) < vm_end (vmas s v)"
    and "\<forall>u \<in> set vs. vm_end (vmas s u) \<le> vm_start (vmas s v) \<or> vm_end (vmas s v) \<le> vm_start (vmas s u)"
  shows "\<exists>s' us ws. insert_vma_struct m v s = Some s' \<and> vs = us @ ws \<and> mm_ok s' m (us @ v # ws) \<and>
    areas_apart s' (us @ v # ws) \<and>
    (\<forall>u. vm_start (vmas s' u) = vm_start (vmas s u) \<and> vm_end (vmas s' u) = vm_end (vmas s u) \<and>
         vm_flags (vmas s' u) = vm_flags (vmas s u)) \<and>
    (\<forall>m' xs. m' \<noteq> m \<longrightarrow> v \<notin> set xs \<longrightarrow> set vs \<inter> set xs = {} \<longrightarrow> mm_ok s m' xs \<longrightarrow> mm_ok s' m' xs)"
proof -
  let ?Q = "\<lambda>u. vm_start (vmas s u) \<le> vm_start (vmas s v)"
  obtain s' where s': "insert_vma_struct m v s = Some s'" "mm_ok s' m (area_insert s v vs)"
    "\<forall>m' xs. m' \<noteq> m \<longrightarrow> v \<notin> set xs \<longrightarrow> set vs \<inter> set xs = {} \<longrightarrow> mm_ok s m' xs \<longrightarrow> mm_ok s' m' xs"
    "\<forall>u. vm_start (vmas s' u) = vm_start (vmas s u) \<and> vm_end (vmas s' u) = vm_end (vmas s u) \<and>
       vm_flags (vmas s' u) = vm_flags (vmas s u)"
    using insert_vma_struct_ok [OF assms(1,2)] by blast
  have "areas_apart s (area_insert s v vs)" using assms by (intro area_insert_apart) auto
  then have "areas_apart s' (area_insert s v vs)" using s'(4) by (simp add: areas_apart_def)
  moreover have "vs = takeWhile ?Q vs @ dropWhile ?Q vs" by simp
  ultimately show ?thesis using s' unfolding area_insert_def Let_def by blast
qed

theorem insert_vma_struct_sorted_witness:
  "\<exists>s' us ws. insert_vma_struct 1 4 two_areas = Some s' \<and> [2, 3] = us @ ws \<and> mm_ok s' 1 (us @ 4 # ws) \<and>
    areas_apart s' (us @ 4 # ws)"
  using insert_vma_struct_sorted [where v = 4, OF two_areas_ok(1) _ two_areas_ok(2)]
  by (simp add: two_areas_def empty_vm_heap_def) blast

text \<open>C20. With areas that do not overlap, \<open>find_vma\<close> returns the first area that ends above the address,
  whatever is in its cache; it is the area that contains the address when there is one.\<close>

theorem find_vma_first:
  assumes "mm_ok s m vs" and "areas_apart s vs"
  shows "\<exists>s'. find_vma (Some m) addr s = Some (find (\<lambda>v. addr < vm_end (vmas s v)) vs, s') \<and>
    mm_ok s' m vs \<and> areas_apart s' vs \<and> vmas s' = vmas s \<and>
    (\<forall>v \<in> set vs. vm_start (vmas s v) \<le> addr \<and> addr < vm_end (vmas s v) \<longrightarrow>
       find (\<lambda>v. addr < vm_end (vmas s v)) vs = Some v)"
proof -
  obtain s' c where "find_vma (Some m) addr s = Some (find (\<lambda>v. addr < vm_end (vmas s v)) vs, s')" "mm_ok s' m vs"
    "s' = s\<lparr>mms := (mms s)(m := (mms s m)\<lparr>mmap_cache := c\<rparr>)\<rparr>"
    using find_vma_ok [OF assms(1), of addr] assms(2) by blast
  then show ?thesis using find_apart [OF assms(2)] assms(2) by (auto simp: areas_apart_def)
qed

theorem find_vma_first_witness:
  "(\<exists>s'. find_vma (Some 1) 0x2000 two_areas = Some (Some 2, s')) \<and>
   (\<exists>s'. find_vma (Some 1) 0x6000 two_areas = Some (Some 3, s'))"
  using find_vma_first [where addr = "0x2000", OF two_areas_ok] find_vma_first [where addr = "0x6000", OF two_areas_ok]
  by (auto simp: two_areas_def empty_vm_heap_def)

text \<open>C26. \<open>mm_destroy\<close> always finishes and gives back exactly the blocks of the address space and of its
  areas; every other address space stays as it was.\<close>

theorem mm_destroy_frees_all:
  assumes "spaces t P s M L" and "M m = Some vs"
  shows "\<exists>s'. mm_destroy m s = Some s' \<and>
    owns t P s' ((dom M \<union> areas M \<union> L) - insert m (set vs)) \<and>
    (\<forall>m' us. m' \<noteq> m \<longrightarrow> M m' = Some us \<longrightarrow> mm_ok s' m' us) \<and> vmas s' = vmas s \<and> mms s' = mms s"
proof -
  obtain s' where s': "mm_destroy m s = Some s'" "spaces t P s' (M(m := None)) L" "vmas s' = vmas s" "mms s' = mms s"
    using mm_destroy_spaces [OF assms] by blast
  have "set vs \<subseteq> areas M" using areas_in [of M, OF assms(2)] by blast
  then have "dom (M(m := None)) \<union> areas (M(m := None)) \<union> L = (dom M \<union> areas M \<union> L) - insert m (set vs)"
    using spacesD(2,3) [OF assms(1)] assms(2) unfolding areas_del [OF assms] by auto
  then have "owns t P s' ((dom M \<union> areas M \<union> L) - insert m (set vs))" using spacesD(1) [OF s'(2)] by simp
  moreover have "mm_ok s' m' us" if "m' \<noteq> m" "M m' = Some us" for m' us
    using spacesD(4) [OF s'(2), of m' us] that by simp
  ultimately show ?thesis using s' by blast
qed

theorem mm_destroy_frees_all_witness:
  "\<exists>k m s s'. slab_init (small_kmem ended_frames) = Some k \<and> mm_create (empty_vm_heap k) = Some (Some m, s) \<and>
     owns (FreeList MAX_ORDER) {0..<64} s {m} \<and> mm_destroy m s = Some s' \<and> owns (FreeList MAX_ORDER) {0..<64} s' {}"
proof -
  obtain k m k' where k: "slab_init (small_kmem ended_frames) = Some k"
    "owns (FreeList MAX_ORDER) {0..<64} (empty_vm_heap k) {}"
    "k_malloc 20 (empty_vm_heap k) = Some (Some m, (empty_vm_heap k)\<lparr>memory := k'\<rparr>)"
    using small_client [of empty_vm_heap] by (auto simp: empty_vm_heap_def)
  then obtain s where s: "mm_create (empty_vm_heap k) = Some (Some m, s)"
    by (simp add: mm_create_def sizeof_mm_struct_def)
  then have "vm_reach (empty_vm_heap k) s [m \<mapsto> []] {}" by (rule vm_reach.new_mm [OF vm_reach.start])
  then have sp: "spaces (FreeList MAX_ORDER) {0..<64} s [m \<mapsto> []] {}" by (rule vm_reach_spaces [OF _ k(2)])
  have set: "dom [m \<mapsto> []] \<union> areas [m \<mapsto> []] \<union> {} = {m}" by (auto simp: areas_def split: if_splits)
  have "owns (FreeList MAX_ORDER) {0..<64} s {m}" using spacesD(1) [OF sp] unfolding set .
  moreover obtain s' where "mm_destroy m s = Some s'" "owns (FreeList MAX_ORDER) {0..<64} s' {}"
    using mm_destroy_frees_all [OF sp, of m "[]"] unfolding set by auto
  ultimately show ?thesis using k(1) s by blast
qed

lemma do_pgfault_repairs:
  assumes "mm_ok h m vs" and "areas_apart h vs" and "pgdir (mms h m) = page2va d"
    and "v \<in> set vs" and "vm_start (vmas h v) \<le> addr" and "addr < vm_end (vmas h v)"
    and "\<not> fault_refused error_code (vm_flags (vmas h v))"
    and "vm_inv (buddy_rel t) d F s" and "finite F" and "2 \<le> card F" and "ordinary addr"
    and "cr3 s = PADDR (page2va d)" and "tlb_coherent d s"
  shows "\<exists>h' s' F' q. do_pgfault buddy_pmm_manager m error_code addr h s = Some (0, h', s') \<and>
    mm_ok h' m vs \<and> vmas h' = vmas h \<and> F' \<subseteq> F \<and> vm_inv (buddy_rel t) d F' s' \<and> tlb_coherent d s' \<and>
    (case translate (mem s) d addr of Some e \<Rightarrow> q = frame e | None \<Rightarrow> q \<in> F - F') \<and>
    (\<forall>la. ordinary la \<longrightarrow> translate (mem s') d la =
      (if PAGE_NUM la = PAGE_NUM addr then Some (page2pa q OR PTE_P OR fault_perm (vm_flags (vmas h v)))
       else translate (mem s) d la))"
proof -
  let ?la = "ROUNDDOWN addr PGSIZE" and ?perm = "fault_perm (vm_flags (vmas h v))"
  obtain h' c where h': "find_vma (Some m) addr h = Some (Some v, h')" "mm_ok h' m vs"
    "h' = h\<lparr>mms := (mms h)(m := (mms h m)\<lparr>mmap_cache := c\<rparr>)\<rparr>"
    using find_vma_ok [OF assms(1), of addr] assms(2) find_apart [OF assms(2,4,5,6)] by force
  have o: "ordinary ?la" using assms(11) ordinary_rounded by simp
  have page: "PAGE_NUM ?la = PAGE_NUM addr" by (rule PAGE_NUM_rounded)
  obtain p s1 q s2 F2 where G: "get_pte buddy_pmm_manager (page2va d) ?la s = Some (p, s1)" "p \<noteq> 0"
    "(if present (mem s1 p) then Some (pte2page (mem s1 p), s1) else alloc_page buddy_pmm_manager s1) = Some (q, s2)"
    "vm_inv (buddy_rel t) d F2 s2" "F2 \<subseteq> F" "present (mem s2 (cell d (unat (PDX ?la))))"
    "case translate (mem s) d ?la of Some e \<Rightarrow> q = frame e | None \<Rightarrow> q \<in> F - F2"
    "\<And>la'. ordinary la' \<Longrightarrow> translate (mem s2) d la' = translate (mem s) d la'"
    "cr3 s2 = cr3 s" "tlb s2 = tlb s"
    using fault_page [OF assms(8-10) o] by blast
  obtain p2 s2' where "get_pte buddy_pmm_manager (page2va d) ?la s2 = Some (p2, s2')"
    using buddy_supply.get_pte_some_if_present G(6) unfolding dir_cell by blast
  then obtain r s3 where ins: "page_insert buddy_pmm_manager (page2va d) q ?la ?perm s2 = Some (r, s3)"
    by (simp add: page_insert_def Let_def)
  obtain F' where I: "F' \<subseteq> F2" "vm_inv (buddy_rel t) d F' s3"
    "\<And>la'. ordinary la' \<Longrightarrow> translate (mem s3) d la' = (if PAGE_NUM la' = PAGE_NUM ?la
       then Some (page2pa q OR PTE_P OR ?perm) else translate (mem s2) d la')"
    "tlb s3 = (if cr3 s2 = PADDR (page2va d) then (tlb s2)(PAGE_NUM ?la := None) else tlb s2)"
    using buddy.page_insert_correct [OF G(4) o ins] by blast
  have "do_pgfault buddy_pmm_manager m error_code addr h s = Some (0, h', s3)"
    using h'(1,3) assms(3,5,7) G(1-3) ins by (simp add: do_pgfault_def Let_def not_less)
  moreover have "tlb_coherent d s3"
    using assms(12,13) G(8-10) I(3,4) by (auto simp: tlb_coherent_def)
  moreover have "case translate (mem s) d addr of Some e \<Rightarrow> q = frame e | None \<Rightarrow> q \<in> F - F'"
    using G(7) I(1) translate_same_page [OF page] by (auto split: option.splits)
  moreover have "vmas h' = vmas h" using h'(3) by simp
  ultimately show ?thesis using h'(2) I(1-3) G(5,8) page by (intro exI [of _ h'] exI [of _ s3] exI [of _ F'] exI [of _ q]) auto
qed

text \<open>C6. A page fault on an address inside an area that permits the access ends with the page mapped
  with the permissions of the area: to the frame it was already mapped to, or to a page that was free and
  is free no longer. Every other translation, the address space and the coherence of the TLB are kept.
  Two free pages are enough, one for a page table and one for the page.\<close>

theorem do_pgfault_maps_page:
  assumes "mm_ok h m vs" and "areas_apart h vs" and "pgdir (mms h m) = page2va d"
    and "v \<in> set vs" and "vm_start (vmas h v) \<le> addr" and "addr < vm_end (vmas h v)"
    and "\<not> fault_refused error_code (vm_flags (vmas h v))"
    and "vm_inv (buddy_rel t) d F s" and "finite F" and "2 \<le> card F" and "ordinary addr"
    and "cr3 s = PADDR (page2va d)" and "tlb_coherent d s"
  shows "\<exists>h' s' F' q. do_pgfault buddy_pmm_manager m error_code addr h s = Some (0, h', s') \<and>
    mm_ok h' m vs \<and> vmas h' = vmas h \<and> F' \<subseteq> F \<and> vm_inv (buddy_rel t) d F' s' \<and> tlb_coherent d s' \<and>
    (case translate (mem s) d addr of Some e \<Rightarrow> q = frame e | None \<Rightarrow> q \<in> F - F') \<and>
    (\<forall>la. ordinary la \<longrightarrow> translate (mem s') d la =
      (if PAGE_NUM la = PAGE_NUM addr then Some (page2pa q OR PTE_P OR fault_perm (vm_flags (vmas h v)))
       else translate (mem s) d la))"
  using assms by (rule do_pgfault_repairs)

theorem do_pgfault_maps_page_witness:
  "\<exists>h' s' F' q. do_pgfault buddy_pmm_manager 1 2 0x1abc two_areas small_vm = Some (0, h', s') \<and>
    F' \<subseteq> {0..<8} \<and> vm_inv (buddy_rel Null) 20 F' s' \<and> q \<in> {0..<8} - F' \<and>
    translate (mem s') 20 0x1000 = Some (page2pa q OR PTE_P OR (PTE_U OR PTE_W))"
proof -
  have va: "vm_start (vmas two_areas 2) \<le> 0x1abc" "0x1abc < vm_end (vmas two_areas 2)"
    "vm_flags (vmas two_areas 2) = VM_READ OR VM_WRITE" "pgdir (mms two_areas 1) = page2va 20"
    by (simp_all add: two_areas_def)
  have flags: "\<not> fault_refused 2 (VM_READ OR VM_WRITE)" "fault_perm (VM_READ OR VM_WRITE) = PTE_U OR PTE_W"
    by (simp_all add: fault_refused_def fault_perm_def VM_READ_def VM_WRITE_def)
  have num: "ordinary 0x1abc" "ordinary 0x1000" "PAGE_NUM 0x1000 = PAGE_NUM 0x1abc"
    by (simp_all add: self_slot_def PDX_def VPT_def PAGE_NUM_def)
  have vm: "translate (mem small_vm) 20 0x1abc = None" "cr3 small_vm = PADDR (page2va 20)" "tlb_coherent 20 small_vm"
    by (simp_all add: translate_def small_vm_def tlb_coherent_def)
  have in_list: "2 \<in> set [2, 3 :: u32]" "2 \<le> card {0..<8 :: nat}" by simp_all
  obtain h' s' F' q where R: "do_pgfault buddy_pmm_manager 1 2 0x1abc two_areas small_vm = Some (0, h', s')"
    "F' \<subseteq> {0..<8}" "vm_inv (buddy_rel Null) 20 F' s'" "q \<in> {0..<8} - F'"
    "\<forall>la. ordinary la \<longrightarrow> translate (mem s') 20 la =
      (if PAGE_NUM la = PAGE_NUM 0x1abc then Some (page2pa q OR PTE_P OR (PTE_U OR PTE_W))
       else translate (mem small_vm) 20 la)"
    using do_pgfault_maps_page [OF two_areas_ok va(4) in_list(1) va(1,2) flags(1) [folded va(3)] small_vm_inv
        finite_atLeastLessThan in_list(2) num(1) vm(2,3), unfolded va(3) flags vm(1) option.case] by blast
  have "translate (mem s') 20 0x1000 = Some (page2pa q OR PTE_P OR (PTE_U OR PTE_W))"
    using R(5) num(2,3) by simp
  then show ?thesis using R(1-4) by blast
qed

lemma do_pgfault_refused:
  assumes "mm_ok h m vs" and "areas_apart h vs"
    and "\<forall>v \<in> set vs. vm_start (vmas h v) \<le> addr \<and> addr < vm_end (vmas h v) \<longrightarrow>
      fault_refused error_code (vm_flags (vmas h v))"
  shows "\<exists>h'. do_pgfault pm m error_code addr h s = Some (-1, h', s) \<and> mm_ok h' m vs \<and> vmas h' = vmas h"
proof -
  let ?r = "find (\<lambda>v. addr < vm_end (vmas h v)) vs"
  obtain h' c where h': "find_vma (Some m) addr h = Some (?r, h')" "mm_ok h' m vs"
    "h' = h\<lparr>mms := (mms h)(m := (mms h m)\<lparr>mmap_cache := c\<rparr>)\<rparr>"
    using find_vma_ok [OF assms(1), of addr] assms(2) by blast
  have "do_pgfault pm m error_code addr h s = Some (-1, h', s)"
  proof (cases ?r)
    case None
    then show ?thesis using h'(1) by (simp add: do_pgfault_def)
  next
    case (Some v)
    then have "v \<in> set vs" "addr < vm_end (vmas h v)" by (auto simp: find_Some_iff)
    then show ?thesis using assms(3) Some h'(1,3) by (simp add: do_pgfault_def not_less)
  qed
  then show ?thesis using h' by simp
qed

text \<open>A page fault outside every area, or in an area that does not permit the access, or a read of a
  page that is present, returns -1 and leaves the page tables and the areas as they were.\<close>

theorem do_pgfault_refuses:
  assumes "mm_ok h m vs" and "areas_apart h vs"
    and "\<forall>v \<in> set vs. vm_start (vmas h v) \<le> addr \<and> addr < vm_end (vmas h v) \<longrightarrow>
      fault_refused error_code (vm_flags (vmas h v))"
  shows "\<exists>h'. do_pgfault pm m error_code addr h s = Some (-1, h', s) \<and> mm_ok h' m vs \<and> vmas h' = vmas h"
  using assms by (rule do_pgfault_refused)

theorem do_pgfault_refuses_witness:
  "(\<exists>h'. do_pgfault buddy_pmm_manager 1 2 0x8004 two_areas small_vm = Some (-1, h', small_vm)) \<and>
   (\<exists>h'. do_pgfault buddy_pmm_manager 1 0 0x4004 two_areas small_vm = Some (-1, h', small_vm))"
proof -
  have flags: "fault_refused 2 VM_READ" by (simp add: fault_refused_def VM_READ_def VM_WRITE_def)
  show ?thesis
    using do_pgfault_refuses [where addr = "0x8004" and error_code = 2, OF two_areas_ok]
      do_pgfault_refuses [where addr = "0x4004" and error_code = 0, OF two_areas_ok]
    by (simp add: two_areas_def empty_vm_heap_def flags) blast
qed

text \<open>The self-test reports success and gives its memory back whenever its two allocations succeed.\<close>

theorem check_vma_struct_passes:
  assumes "owns t P s X" and "check_vma_struct s = Some (out, s')"
  shows "out = ''check_vma_struct over'' @ [CHR 0x0A] \<and> owns t P s' X"
proof -
  have sp0: "spaces t P s Map.empty X" using assms(1) by (simp add: spaces_def areas_def)
  obtain m s1 v s2 s3 where c: "mm_create s = Some (Some m, s1)" "vma_create 0 0xff 0 s1 = Some (Some v, s2)"
    "insert_vma_struct m v s2 = Some s3"
    using assms(2) by (auto simp: check_vma_struct_def bind_eq_Some_conv split: prod.splits)
  have 1: "spaces t P s1 [m \<mapsto> []] X" "m \<notin> X" using mm_create_spaces [OF sp0] c(1) by auto
  have 2: "spaces t P s2 [m \<mapsto> []] (insert v X)" "v \<notin> X" "vm_start (vmas s2 v) = 0" "vm_end (vmas s2 v) = 0xff"
    using vma_create_spaces [OF 1(1), of 0 "0xff" 0] c(2) by auto
  have "mm_ok s2 m []" using spacesD(4) [OF 2(1)] by simp
  from insert_vma_struct_ok [OF this, of v] c(3)
  have ok: "mm_ok s3 m [v]" "vm_start (vmas s3 v) = 0" "vm_end (vmas s3 v) = 0xff"
    using 2(3,4) by (auto simp: area_insert_def)
  have "spaces t P s3 [m \<mapsto> [v]] X"
    using insert_vma_struct_spaces [OF 2(1), of m "[]" v] c(3) 2(2) by (simp add: area_insert_def)
  from mm_destroy_frees_all [OF this, of m "[v]"] obtain s4 where
    s4: "mm_destroy m s3 = Some s4" "owns t P s4 (dom [m \<mapsto> [v]] \<union> areas [m \<mapsto> [v]] \<union> X - {m, v})" by auto
  have "dom [m \<mapsto> [v]] \<union> areas [m \<mapsto> [v]] \<union> X - {m, v} = X"
    using 1(2) 2(2) by (auto simp: areas_def split: if_splits)
  moreover have "list_next (MmapList m) (vm_links s3) = VmaLink v" using ring_next [OF mm_okD(1) [OF ok(1)]] by simp
  ultimately show ?thesis using assms(2) c ok(2,3) s4 by (simp add: check_vma_struct_def)
qed

end
