(* ===== verification/Sched.thy ===== *)
theory Sched
  imports Proc
begin

text \<open>
  The behaviour of kern/process/sched.c: the run queue as a FIFO queue (through the interface
  \<open>entry_queue\<close> of queues whose entries live in the queued structures), waking processes up, time
  slices, the interrupt brackets, and the choice of a thread by \<open>schedule\<close>.
\<close>

section \<open>Interrupt brackets\<close>

lemma FL_IF_push: "FL_IF = push_bit 9 1"
  by (simp add: FL_IF_def)

lemma bit_FL_IF: "bit FL_IF n \<longleftrightarrow> n = 9"
  by (simp only: FL_IF_push bit_push_bit_iff bit_1_iff) auto

lemma FL_IF_bit: "w AND FL_IF \<noteq> 0 \<longleftrightarrow> bit w 9"
proof -
  have "w AND FL_IF = 0 \<longleftrightarrow> (\<forall>n. \<not> bit (w AND FL_IF) n)" by (metis bit_0_eq bit_eqI bot_apply bot_bool_def)
  then show ?thesis by (simp add: bit_and_iff bit_FL_IF)
qed

lemma intr_restore_save:
  assumes "local_intr_save s = (b, s1)" "eflags s2 = eflags s1"
  shows "eflags (local_intr_restore b s2) = eflags s"
proof (cases "eflags s AND FL_IF \<noteq> 0")
  case True
  then have "bit (eflags s) 9" by (simp add: FL_IF_bit)
  then have "(eflags s AND NOT FL_IF) OR FL_IF = eflags s"
    by (intro bit_word_eqI) (auto simp: bit_FL_IF bit_simps)
  then show ?thesis using assms True
    by (auto simp: local_intr_save_def local_intr_restore_def intr_disable_def intr_enable_def)
next
  case False
  then show ?thesis using assms by (auto simp: local_intr_save_def local_intr_restore_def)
qed

lemma intr_save_fields:
  assumes "local_intr_save s = (b, s1)"
  shows "s1 = s\<lparr>eflags := eflags s AND NOT FL_IF\<rparr>" "b \<longleftrightarrow> bit (eflags s) 9"
proof -
  have "eflags s AND NOT FL_IF = eflags s" if "\<not> bit (eflags s) 9"
    using that by (intro bit_word_eqI) (auto simp: bit_FL_IF bit_simps)
  then show "s1 = s\<lparr>eflags := eflags s AND NOT FL_IF\<rparr>" "b \<longleftrightarrow> bit (eflags s) 9"
    using assms by (auto simp: local_intr_save_def intr_disable_def FL_IF_bit split: if_splits)
qed

lemma restore_fields: "\<exists>e. local_intr_restore b s = s\<lparr>eflags := e\<rparr>"
  by (cases b) (auto simp: local_intr_restore_def intr_enable_def intro: exI [of _ "eflags s"])

section \<open>Queues of linked structures\<close>

text \<open>A queue whose entries are fields of the queued structures: an element may be in it once. \<open>put\<close>
  appends, \<open>first\<close> looks at the oldest element and \<open>drop\<close> takes any element out.\<close>

locale entry_queue =
  fixes ok :: "'s \<Rightarrow> 'a list \<Rightarrow> bool" and put :: "'a \<Rightarrow> 's \<Rightarrow> 's option"
    and first :: "'s \<Rightarrow> 'a option option" and drp :: "'a \<Rightarrow> 's \<Rightarrow> 's option"
  assumes put_law: "ok s xs \<Longrightarrow> x \<notin> set xs \<Longrightarrow> \<exists>s'. put x s = Some s' \<and> ok s' (xs @ [x])"
    and first_law: "ok s xs \<Longrightarrow> first s = Some (case xs of [] \<Rightarrow> None | x # _ \<Rightarrow> Some x)"
    and drop_law: "ok s (us @ x # ws) \<Longrightarrow> \<exists>s'. drp x s = Some s' \<and> ok s' (us @ ws)"

datatype 'a entry_op = Put 'a | Serve

text \<open>A scheduler that serves the oldest element, and the same on a list; putting an element in
  twice has no meaning.\<close>

fun serve_entries ::
  "('a \<Rightarrow> 's \<Rightarrow> 's option) \<Rightarrow> ('s \<Rightarrow> 'a option option) \<Rightarrow> ('a \<Rightarrow> 's \<Rightarrow> 's option) \<Rightarrow> 'a entry_op list \<Rightarrow> 's \<Rightarrow>
   ('a option list \<times> 's) option" where
  "serve_entries put first drp [] s = Some ([], s)"
| "serve_entries put first drp (Put x # ops) s = do { s \<leftarrow> put x s; serve_entries put first drp ops s }"
| "serve_entries put first drp (Serve # ops) s =
     do { r \<leftarrow> first s;
          s \<leftarrow> (case r of None \<Rightarrow> Some s | Some x \<Rightarrow> drp x s);
          (out, s) \<leftarrow> serve_entries put first drp ops s;
          Some (r # out, s) }"

fun serve_list :: "'a entry_op list \<Rightarrow> 'a list \<Rightarrow> ('a option list \<times> 'a list) option" where
  "serve_list [] xs = Some ([], xs)"
| "serve_list (Put x # ops) xs = (if x \<in> set xs then None else serve_list ops (xs @ [x]))"
| "serve_list (Serve # ops) [] = map_option (\<lambda>(out, xs). (None # out, xs)) (serve_list ops [])"
| "serve_list (Serve # ops) (x # xs) = map_option (\<lambda>(out, xs). (Some x # out, xs)) (serve_list ops xs)"

context entry_queue begin

lemma serve_refines:
  "serve_list ops xs = Some (out, ys) \<Longrightarrow> ok s xs \<Longrightarrow>
   \<exists>s'. serve_entries put first drp ops s = Some (out, s') \<and> ok s' ys"
proof (induction ops xs arbitrary: s out rule: serve_list.induct)
  case (1 xs)
  then show ?case by simp
next
  case (2 x ops xs)
  then have x: "x \<notin> set xs" "serve_list ops (xs @ [x]) = Some (out, ys)" by (auto split: if_splits)
  obtain s1 where "put x s = Some s1" "ok s1 (xs @ [x])" using put_law [OF "2.prems"(2) x(1)] by blast
  then show ?case using "2.IH" [OF x(1,2)] by simp
next
  case (3 ops)
  then obtain o1 where "serve_list ops [] = Some (o1, ys)" "out = None # o1" by auto
  then show ?case using "3.IH" [of o1 s] "3.prems"(2) first_law [OF "3.prems"(2)] by auto
next
  case (4 ops x xs)
  then obtain o1 where o1: "serve_list ops xs = Some (o1, ys)" "out = Some x # o1" by auto
  obtain s1 where s1: "drp x s = Some s1" "ok s1 xs" using drop_law [of s "[]" x xs] "4.prems"(2) by auto
  obtain s2 where "serve_entries put first drp ops s1 = Some (o1, s2)" "ok s2 ys" using "4.IH" [OF o1(1) s1(2)] by blast
  then show ?case using s1(1) o1(2) first_law [OF "4.prems"(2)] by simp
qed

text \<open>What was put in first comes out first.\<close>

lemma serve_all:
  assumes "ok s []" "distinct xs"
  shows "\<exists>s'. serve_entries put first drp (map Put xs @ replicate (length xs) Serve) s = Some (map Some xs, s') \<and> ok s' []"
proof -
  have drain: "serve_list (replicate (length q) Serve) q = Some (map Some q, [])" for q :: "'a list"
    by (induction q) auto
  have "serve_list (map Put ys @ ops) q = serve_list ops (q @ ys)"
    if "distinct (q @ ys)" for ys q and ops :: "'a entry_op list"
    using that by (induction ys arbitrary: q) auto
  from this [of "[]" xs] drain have
    "serve_list (map Put xs @ replicate (length xs) Serve) [] = Some (map Some xs, [])"
    using assms(2) by simp
  from serve_refines [OF this assms(1)] show ?thesis .
qed

end

section \<open>The run queue\<close>

text \<open>The processes of \<open>xs\<close> wait in the run queue at \<open>q\<close>, in this order.\<close>

definition rq_ok :: "u32 \<Rightarrow> kernel \<Rightarrow> u32 list \<Rightarrow> bool" where
  "rq_ok q s xs \<longleftrightarrow> rq s = Some q \<and> ring (plinks s) (RunList q) (map RunLink xs) \<and>
     proc_num (run_queues s q) = of_nat (length xs) \<and>
     (\<forall>p \<in> set xs. p_time_slice (procs s p) \<noteq> 0 \<and> p_time_slice (procs s p) \<le> max_time_slice (run_queues s q)) \<and>
     0 < max_time_slice (run_queues s q)"

lemma enqueue_ok:
  assumes ok: "rq_ok q s xs" and p: "p \<notin> set xs"
  shows "\<exists>s'. enqueue p s = Some s' \<and> rq_ok q s' (xs @ [p]) \<and> eflags s' = eflags s \<and> current s' = current s \<and>
     (\<forall>u. p_state (procs s' u) = p_state (procs s u))"
proof -
  let ?m = "max_time_slice (run_queues s q)"
  let ?ps = "if p_time_slice (procs s p) = 0 \<or> p_time_slice (procs s p) > ?m
    then (procs s)(p := (procs s p)\<lparr>p_time_slice := ?m\<rparr>) else procs s"
  define s' where "s' = s\<lparr>plinks := list_add_before (RunList q) (RunLink p) (plinks s), procs := ?ps,
    run_queues := (run_queues s)(q := (run_queues s q)\<lparr>proc_num := proc_num (run_queues s q) + 1\<rparr>)\<rparr>"
  have r: "rq s = Some q" and ring: "ring (plinks s) (RunList q) (map RunLink xs)" using ok by (simp_all add: rq_ok_def)
  have "enqueue p s = Some s'" by (simp add: enqueue_def r kernel_upd s'_def Let_def)
  moreover have "ring (plinks s') (RunList q) (map RunLink (xs @ [p]))"
    using ring_add_before [OF ring, of "RunLink p"] p by (auto simp: s'_def)
  moreover have "\<forall>u \<in> set xs. procs s' u = procs s u" using p by (auto simp: s'_def)
  moreover have "p_time_slice (procs s' p) \<noteq> 0 \<and> p_time_slice (procs s' p) \<le> ?m"
    using ok by (simp add: rq_ok_def s'_def)
  moreover have "run_queues s' q = \<lparr>proc_num = proc_num (run_queues s q) + 1, max_time_slice = ?m\<rparr>" "rq s' = rq s"
    by (simp_all add: s'_def)
  ultimately have "enqueue p s = Some s'" "rq_ok q s' (xs @ [p])" using ok by (simp_all add: rq_ok_def)
  moreover have "p_state (procs s' u) = p_state (procs s u)" for u by (simp add: s'_def)
  ultimately show ?thesis by (intro exI [of _ s']) (simp add: s'_def)
qed

lemma dequeue_ok:
  assumes ok: "rq_ok q s (us @ p # ws)"
  shows "\<exists>s'. dequeue p s = Some s' \<and> rq_ok q s' (us @ ws)"
proof -
  define s' where "s' = s\<lparr>plinks := list_del_init (RunLink p) (plinks s),
    run_queues := (run_queues s)(q := (run_queues s q)\<lparr>proc_num := proc_num (run_queues s q) - 1\<rparr>)\<rparr>"
  have r: "rq s = Some q" and ring: "ring (plinks s) (RunList q) (map RunLink us @ RunLink p # map RunLink ws)"
    using ok by (simp_all add: rq_ok_def)
  have "dequeue p s = Some s'" by (simp add: dequeue_def r kernel_upd s'_def Let_def)
  have pl: "plinks s' = list_init (RunLink p) (list_del (RunLink p) (plinks s))"
    by (simp add: s'_def list_del_init_def)
  have "ring (plinks s') (RunList q) (map RunLink (us @ ws))"
  proof -
    have "RunLink p \<notin> set (RunList q # map RunLink us @ map RunLink ws)" using ring by (auto simp: ring_def)
    then have "list_init (RunLink p) h u = h u" if "u \<in> set (RunList q # map RunLink us @ map RunLink ws)" for u h
      using that by (intro list_init_other) auto
    then have "ring (plinks s') (RunList q) (map RunLink us @ map RunLink ws) =
        ring (list_del (RunLink p) (plinks s)) (RunList q) (map RunLink us @ map RunLink ws)"
      unfolding pl by (rule ring_frame)
    then show ?thesis using ring_del [OF ring] by simp
  qed
  then have "rq_ok q s' (us @ ws)" using ok by (auto simp: rq_ok_def s'_def)
  with \<open>dequeue p s = Some s'\<close> show ?thesis by blast
qed

lemma pick_next_ok:
  assumes "rq_ok q s xs"
  shows "pick_next s = Some (case xs of [] \<Rightarrow> None | p # _ \<Rightarrow> Some p)"
  using assms ring_next [of "plinks s" "RunList q" "map RunLink xs"]
  by (cases xs) (simp_all add: pick_next_def rq_ok_def)

interpretation run_list: entry_queue "rq_ok q" enqueue pick_next dequeue
proof unfold_locales
  fix s xs p assume "rq_ok q s xs" "p \<notin> set xs"
  then show "\<exists>s'. enqueue p s = Some s' \<and> rq_ok q s' (xs @ [p])" using enqueue_ok by blast
qed (rule pick_next_ok, assumption, rule dequeue_ok)

section \<open>Waking a process\<close>

text \<open>Everything in the run queue is runnable.\<close>

definition sched_inv :: "u32 \<Rightarrow> kernel \<Rightarrow> u32 list \<Rightarrow> bool" where
  "sched_inv q s xs \<longleftrightarrow> rq_ok q s xs \<and> (\<forall>p \<in> set xs. p_state (procs s p) = PROC_RUNNABLE)"

lemma rq_ok_eflags [simp]: "rq_ok q (s\<lparr>eflags := e\<rparr>) xs = rq_ok q s xs"
  by (simp add: rq_ok_def)

lemma wakeup_proc_inv:
  assumes inv: "sched_inv q s xs"
  shows "\<exists>s'. wakeup_proc p s = Some s' \<and> eflags s' = eflags s \<and> current s' = current s \<and>
     sched_inv q s' (if p_state (procs s p) \<noteq> PROC_RUNNABLE \<and> current s \<noteq> Some p then xs @ [p] else xs) \<and>
     p_state (procs s' p) = PROC_RUNNABLE \<and> (\<forall>u. u \<noteq> p \<longrightarrow> p_state (procs s' u) = p_state (procs s u))"
proof -
  obtain b s1 where sv: "local_intr_save s = (b, s1)" by fastforce
  note f = intr_save_fields(1) [OF sv]
  show ?thesis
  proof (cases "p_state (procs s p) = PROC_RUNNABLE")
    case True
    obtain e where e: "local_intr_restore b s1 = s1\<lparr>eflags := e\<rparr>" using restore_fields by blast
    then have "e = eflags s" using intr_restore_save [OF sv refl] by simp
    then show ?thesis using True inv e by (simp add: wakeup_proc_def sv f sched_inv_def)
  next
    case False
    then have np: "p \<notin> set xs" using inv by (auto simp: sched_inv_def)
    define s2 where "s2 = upd_proc p (\<lambda>x. x\<lparr>p_state := PROC_RUNNABLE\<rparr>) s1"
    have ok2: "rq_ok q s2 xs" using inv by (auto simp: sched_inv_def rq_ok_def s2_def f kernel_upd)
    have st2: "p_state (procs s2 p) = PROC_RUNNABLE" "\<And>u. u \<noteq> p \<Longrightarrow> p_state (procs s2 u) = p_state (procs s u)"
      "current s2 = current s" "eflags s2 = eflags s1" by (simp_all add: s2_def f kernel_upd)
    obtain s3 where s3: "(if Some p \<noteq> current s2 then enqueue p s2 else Some s2) = Some s3"
      "rq_ok q s3 (if current s \<noteq> Some p then xs @ [p] else xs)" "eflags s3 = eflags s1" "current s3 = current s"
      "\<And>u. p_state (procs s3 u) = p_state (procs s2 u)"
      using enqueue_ok [OF ok2 np] ok2 st2(3,4) by (cases "current s = Some p") auto
    obtain e where e: "local_intr_restore b s3 = s3\<lparr>eflags := e\<rparr>" using restore_fields by blast
    then have "e = eflags s" using intr_restore_save [OF sv s3(3)] by simp
    moreover have "wakeup_proc p s = Some (s3\<lparr>eflags := e\<rparr>)"
      using s3(1) e False arg_cong [OF f, of procs] by (simp add: wakeup_proc_def sv Let_def flip: s2_def)
    moreover have "\<forall>u \<in> set (xs @ [p]). p_state (procs s3 u) = PROC_RUNNABLE"
      using s3(5) st2(1,2) inv unfolding sched_inv_def by (metis in_set_conv_decomp list.set_intros(1) rotate1.simps(2) set_ConsD set_rotate1)
    ultimately show ?thesis
      using s3 st2 inv False by (intro exI [of _ "s3\<lparr>eflags := e\<rparr>"]) (auto simp: sched_inv_def split: if_splits)
  qed
qed

section \<open>Time slices\<close>

lemma proc_tick_other [simp]:
  "idleproc (proc_tick p s) = idleproc s" "u \<noteq> p \<Longrightarrow> procs (proc_tick p s) u = procs s u"
  by (simp_all add: proc_tick_def kernel_upd Let_def)

lemma proc_tick_times:
  assumes "Some p \<noteq> idleproc s" "p_time_slice (procs s p) = int n" "0 < n"
  shows "idleproc ((proc_tick p ^^ k) s) = idleproc s \<and>
     p_time_slice (procs ((proc_tick p ^^ k) s) p) = int (n - k) \<and>
     p_need_resched (procs ((proc_tick p ^^ k) s) p) = (if k < n then p_need_resched (procs s p) else 1)"
proof (induction k)
  case 0
  then show ?case using assms(2,3) by simp
next
  case (Suc k)
  then show ?case using assms(1) by (auto simp: proc_tick_def kernel_upd Let_def)
qed

section \<open>Printing changes the log only\<close>

definition logged :: "kernel \<Rightarrow> kernel \<Rightarrow> bool" where
  "logged s x \<longleftrightarrow> (\<exists>l. x = s\<lparr>klog := l\<rparr>)"

named_theorems log_intros \<open>what only prints\<close>

lemma logged_refl [log_intros]: "logged s s"
proof -
  have "s = s\<lparr>klog := klog s\<rparr>" by simp
  then show ?thesis unfolding logged_def by blast
qed

lemma logged_kprintf [log_intros]: "logged s x \<Longrightarrow> logged s (kprintf f a x)"
  by (auto simp: logged_def kprintf_def)

lemma logged_lines [log_intros]: "logged s x \<Longrightarrow> logged s (fold (\<lambda>(fmt, v). kprintf fmt [Num v]) xs x)"
  by (induction xs arbitrary: x) (auto intro: log_intros)

lemma logged_print_regs [log_intros]: "logged s x \<Longrightarrow> logged s (print_regs r x)"
  unfolding print_regs_def by (rule logged_lines)

lemma logged_print_trapframe [log_intros]: "logged s x \<Longrightarrow> logged s (print_trapframe tf x)"
  unfolding print_trapframe_def Let_def by (intro log_intros)

lemma logged_print_pstate [log_intros]: "logged s x \<Longrightarrow> logged s (print_pstate st x)"
  by (cases st) (simp_all add: print_pstate_def log_intros)

lemma logged_case [log_intros]:
  "logged s x \<Longrightarrow> (\<And>v. logged s (f v)) \<Longrightarrow> logged s (case r of None \<Rightarrow> x | Some v \<Rightarrow> f v)"
  by (cases r) simp_all

lemma logged_print_proc_fields [log_intros]: "logged s x \<Longrightarrow> logged s (print_proc_fields q x)"
  unfolding print_proc_fields_def Let_def by (intro log_intros)

lemma print_threads:
  "fold (\<lambda>x r. Option.bind r (\<lambda>s. do { t \<leftarrow> thread_of_link x; Some (kprintf f [Str (t_name (threads s t))] s) }))
     (map ThreadLink ts) (Some s) =
   Some (s\<lparr>klog := klog s @ map (\<lambda>t. (f, [Str (t_name (threads s t))])) ts\<rparr>)"
  by (induction ts arbitrary: s) (simp_all add: kprintf_def)

lemma print_proc_some:
  assumes "ring (plinks s) (ThreadList p) (map ThreadLink ts)"
  shows "\<exists>l. print_proc (Some p) s = Some (s\<lparr>klog := l\<rparr>)"
proof -
  define x where "x = kprintf ''--------- [thread list] ---------\<newline>'' []
    (print_proc_fields (procs s p) (kprintf (''\<newline>------------------- [info process] ---------------\<newline>'' @ tab) [] s))"
  have "logged s x" unfolding x_def by (intro log_intros)
  then obtain l where l: "x = s\<lparr>klog := l\<rparr>" by (auto simp: logged_def)
  have "procs (kprintf (''\<newline>------------------- [info process] ---------------\<newline>'' @ tab) [] s) = procs s" by (simp add: kprintf_def)
  then have "print_proc (Some p) s =
    do { s \<leftarrow> list_walk (\<lambda>le s. do { t \<leftarrow> thread_of_link le; Some (kprintf ''%s->'' [Str (t_name (threads s t))] s) })
                        (plinks x) (ThreadList p) (ThreadList p) x;
         Some (kprintf ''--------------------------------------------------\<newline>\<newline>'' [] (kprintf ''\<newline>'' [] s)) }"
    unfolding print_proc_def x_def Let_def option.case by (simp only:)
  then show ?thesis
    unfolding l using assms by (simp add: list_walk_ring print_threads) (simp add: kprintf_def, blast)
qed

section \<open>Choosing a thread\<close>

lemma pick_fold:
  "\<exists>run nx'. fold (\<lambda>x r. Option.bind r (\<lambda>(run, nx). case run of None \<Rightarrow> Some (Some x, nx)
         | Some r \<Rightarrow> do { (y, nx) \<leftarrow> rand nx; Some (Some (if y mod 2 = 1 then x else r), nx) }))
       (map ThreadLink ts) (Some (r0, nx)) = Some (run, nx') \<and>
     (run = r0 \<or> (\<exists>t \<in> set ts. run = Some (ThreadLink t))) \<and> (ts \<noteq> [] \<longrightarrow> run \<noteq> None)"
proof (induction ts arbitrary: r0 nx)
  case (Cons t ts)
  show ?case
  proof (cases r0)
    case None
    then show ?thesis using Cons.IH [of "Some (ThreadLink t)" nx] by fastforce
  next
    case (Some r)
    obtain y n where y: "rand nx = Some (y, n)" using rand_correct [of nx] by blast
    then show ?thesis using Cons.IH [of "Some (if y mod 2 = 1 then ThreadLink t else r)" n] Some by (fastforce split: if_splits)
  qed
qed simp

lemma pick_thread_some:
  assumes "ring (plinks s) (ThreadList p) (map ThreadLink ts)"
  shows "\<exists>run nx. pick_thread p s = Some (run, nx) \<and>
     (case run of None \<Rightarrow> ts = [] | Some le \<Rightarrow> (\<exists>t \<in> set ts. le = ThreadLink t))"
  using pick_fold [of ts None "rand_next s"] assms
  by (fastforce simp: pick_thread_def list_walk_ring split: option.splits)

section \<open>Properties\<close>

text \<open>C15. Whatever processes are put into the run queue and taken from it, in any order, the scheduler
  is given exactly what a list gives: the process that has waited longest, or none; every waiting process has
  a usable time slice.\<close>

theorem run_queue_is_fifo:
  assumes "rq_ok q s xs" and "serve_list ops xs = Some (out, ys)"
  shows "\<exists>s'. serve_entries enqueue pick_next dequeue ops s = Some (out, s') \<and> rq_ok q s' ys"
  using assms(2,1) by (rule run_list.serve_refines)

text \<open>A kernel with an empty run queue at address 16, for the witnesses.\<close>

definition blank_proc :: proc_struct where
  "blank_proc = \<lparr>p_state = PROC_SLEEPING, p_pid = 1, p_need_resched = 0, p_name = ''p'', p_kstack = 0, p_mm = None,
     p_tf = None, p_cr3 = 0, p_time_slice = 3, p_parent = None, p_child = None, p_main = Some 64\<rparr>"

definition blank_context :: reg_context where
  "blank_context = \<lparr>c_eip = 0, c_esp = 0, c_ebx = 0, c_ecx = 0, c_edx = 0, c_esi = 0, c_edi = 0, c_ebp = 0\<rparr>"

definition blank_frame :: trapframe where
  "blank_frame = \<lparr>tf_regs = \<lparr>reg_edi = 0, reg_esi = 0, reg_ebp = 0, reg_oesp = 0, reg_ebx = 0, reg_edx = 0,
     reg_ecx = 0, reg_eax = 0\<rparr>, tf_es = 0, tf_ds = 0, tf_trapno = 0, tf_err = 0, tf_eip = 0, tf_cs = 0,
     tf_eflags = 0xFFFF, tf_esp = 0, tf_ss = 0\<rparr>"

definition small_kernel :: "kmem \<Rightarrow> kernel" where
  "small_kernel k = \<lparr>memory = k, procs = \<lambda>_. blank_proc,
     threads = \<lambda>t. \<lparr>t_name = ''t'', t_tid = uint t, t_parent = None, t_context = blank_context\<lparr>c_eip := t\<rparr>,
       t_kstack = 0, t_tf = 0\<rparr>,
     trapframes = \<lambda>_. blank_frame, run_queues = \<lambda>_. \<lparr>proc_num = 0, max_time_slice = 8\<rparr>,
     plinks = \<lambda>p. \<lparr>prev = p, next = p\<rparr>, current = Some 32, currentthread = None, idleproc = Some 32,
     rq = Some 16, boot_cr3 = 0, cpu = blank_context\<lparr>c_eip := 0xC0100000\<rparr>, eflags = 0x202, rand_next = 1, klog = []\<rparr>"

lemma small_kernel_rq: "sched_inv 16 (small_kernel k) []"
  by (simp add: sched_inv_def rq_ok_def ring_def small_kernel_def)

theorem run_queue_is_fifo_witness:
  "\<exists>s'. serve_entries enqueue pick_next dequeue [Put 48, Put 80, Serve, Serve, Serve] (small_kernel (small_kmem ended_frames))
     = Some ([Some 48, Some 80, None], s') \<and> rq_ok 16 s' []"
  using run_queue_is_fifo [of 16 "small_kernel (small_kmem ended_frames)" "[]" "[Put 48, Put 80, Serve, Serve, Serve]"]
    small_kernel_rq by (simp add: sched_inv_def)

text \<open>\<open>wakeup_proc\<close> makes a process runnable and, when it was not runnable and is not the current one,
  appends it to the run queue exactly once: a second call changes nothing. The queue stays a queue of runnable
  processes and the interrupt flag is what it was.\<close>

theorem wakeup_proc_enqueues_once:
  assumes "sched_inv q s xs"
  shows "\<exists>s' s''. wakeup_proc p s = Some s' \<and> eflags s' = eflags s \<and>
    sched_inv q s' (if p_state (procs s p) \<noteq> PROC_RUNNABLE \<and> current s \<noteq> Some p then xs @ [p] else xs) \<and>
    p_state (procs s' p) = PROC_RUNNABLE \<and> (\<forall>u. u \<noteq> p \<longrightarrow> p_state (procs s' u) = p_state (procs s u)) \<and>
    wakeup_proc p s' = Some s'' \<and> eflags s'' = eflags s \<and>
    sched_inv q s'' (if p_state (procs s p) \<noteq> PROC_RUNNABLE \<and> current s \<noteq> Some p then xs @ [p] else xs)"
proof -
  let ?ys = "if p_state (procs s p) \<noteq> PROC_RUNNABLE \<and> current s \<noteq> Some p then xs @ [p] else xs"
  obtain s' where s': "wakeup_proc p s = Some s'" "eflags s' = eflags s" "sched_inv q s' ?ys"
    "p_state (procs s' p) = PROC_RUNNABLE" "\<forall>u. u \<noteq> p \<longrightarrow> p_state (procs s' u) = p_state (procs s u)"
    using wakeup_proc_inv [OF assms] by blast
  obtain s'' where "wakeup_proc p s' = Some s''" "eflags s'' = eflags s'" "sched_inv q s'' ?ys"
    using wakeup_proc_inv [OF s'(3), of p] s'(4) by auto
  then show ?thesis using s' by metis
qed

theorem wakeup_proc_enqueues_once_witness:
  "\<exists>s'. wakeup_proc 48 (small_kernel (small_kmem ended_frames)) = Some s' \<and> sched_inv 16 s' [48] \<and> eflags s' = 0x202"
  using wakeup_proc_enqueues_once [where p = 48, OF small_kernel_rq [of "small_kmem ended_frames"]]
  by (auto simp: small_kernel_def blank_proc_def)

text \<open>A process other than the idle one that has a time slice of \<open>n\<close> ticks is asked to reschedule at
  exactly the \<open>n\<close>-th tick, and its slice never becomes negative.\<close>

theorem proc_tick_counts_slice:
  assumes "Some p \<noteq> idleproc s" and "p_time_slice (procs s p) = int n" and "0 < n" and "p_need_resched (procs s p) = 0"
  shows "p_time_slice (procs ((proc_tick p ^^ k) s) p) = int (n - k) \<and>
    (p_need_resched (procs ((proc_tick p ^^ k) s) p) \<noteq> 0 \<longleftrightarrow> n \<le> k)"
  using proc_tick_times [OF assms(1-3), of k] assms(4) by auto

theorem proc_tick_counts_slice_witness:
  "p_time_slice (procs ((proc_tick 48 ^^ 2) (small_kernel (small_kmem ended_frames))) 48) = 1 \<and>
   p_need_resched (procs ((proc_tick 48 ^^ 3) (small_kernel (small_kmem ended_frames))) 48) \<noteq> 0"
proof -
  let ?s = "small_kernel (small_kmem ended_frames)"
  have "Some 48 \<noteq> idleproc ?s" "p_time_slice (procs ?s 48) = int 3" "p_need_resched (procs ?s 48) = 0"
    by (simp_all add: small_kernel_def blank_proc_def)
  note T = proc_tick_counts_slice [OF this(1,2) _ this(3)]
  show ?thesis using T [of 2] T [of 3] by simp
qed

text \<open>What \<open>schedule\<close> relies on: the current process, its main thread and the list of its threads.\<close>

definition threads_ok :: "u32 \<Rightarrow> u32 \<Rightarrow> kernel \<Rightarrow> u32 list \<Rightarrow> bool" where
  "threads_ok p m s ts \<longleftrightarrow> current s = Some p \<and> p_main (procs s p) = Some m \<and>
     ring (plinks s) (ThreadList p) (map ThreadLink ts)"

lemma schedule_cases:
  assumes ok: "threads_ok p m s ts"
  shows "if ts = [] then
      (\<exists>s'. schedule s = Some (False, s') \<and> p_need_resched (procs s' p) = 0 \<and> eflags s' = eflags s \<and> cpu s' = cpu s \<and>
         threads s' = threads s \<and> memory s' = memory s \<and> plinks s' = plinks s)
    else
      (\<exists>t s'. schedule s = Some (True, s') \<and> t \<in> set ts \<and> currentthread s' = Some t \<and>
         eflags s' = eflags s AND NOT FL_IF \<and> memory s' = memory s \<and> plinks s' = plinks s \<and>
         p_need_resched (procs s' p) = (if t_tid (threads s t) = 0 then 0 else p_need_resched (procs s p)) \<and>
         threads s' = (threads s)(m := (threads s m)\<lparr>t_context := cpu s\<rparr>) \<and>
         cpu s' = (if t = m then cpu s else t_context (threads s t)))"
proof -
  have cur: "current s = Some p" "p_main (procs s p) = Some m" and ring: "ring (plinks s) (ThreadList p) (map ThreadLink ts)"
    using ok by (simp_all add: threads_ok_def)
  let ?s1 = "kprintf ''sched.c:schedule\<newline>'' [] s"
  have ring1: "ring (plinks ?s1) (ThreadList p) (map ThreadLink ts)" using ring by (simp add: kprintf_def)
  obtain l where l: "print_proc (Some p) ?s1 = Some (?s1\<lparr>klog := l\<rparr>)" using print_proc_some [OF ring1] by blast
  define s2 where "s2 = s\<lparr>klog := l\<rparr>"
  have s2: "?s1\<lparr>klog := l\<rparr> = s2" by (simp add: s2_def kprintf_def)
  obtain b s3 where sv: "local_intr_save s2 = (b, s3)" by fastforce
  note s3 = intr_save_fields(1) [OF sv]
  obtain run nx where run: "pick_thread p s3 = Some (run, nx)"
    "case run of None \<Rightarrow> ts = [] | Some le \<Rightarrow> \<exists>t \<in> set ts. le = ThreadLink t"
    using pick_thread_some [of s3 p ts] ring by (auto simp: s3 s2_def)
  have start: "schedule s = (let s = s3\<lparr>rand_next := nx\<rparr> in
      case run of
        Some le \<Rightarrow>
          do { t \<leftarrow> thread_of_link le;
               let s = kprintf ''schedule ready to run\<newline>'' [] s;
               let s = kprintf ''name:%s\<newline>'' [Str (t_name (threads s t))] s;
               let s = (if t_tid (threads s t) = 0 then upd_proc p (\<lambda>x. x\<lparr>p_need_resched := 0\<rparr>) s else s);
               s \<leftarrow> thread_run t (s\<lparr>currentthread := Some t\<rparr>);
               Some (True, s) }
      | None \<Rightarrow>
          (let s = upd_proc p (\<lambda>x. x\<lparr>p_need_resched := 0\<rparr>) s;
               s = local_intr_restore b s
           in Some (False, kprintf ''schedule end----------------------------------\<newline>'' [] s)))"
  proof -
    have "current ?s1 = Some p" "current s3 = Some p" using cur by (simp_all add: kprintf_def s3 s2_def)
    then show ?thesis unfolding schedule_def using l s2 sv run(1) by simp
  qed
  show ?thesis
  proof (cases run)
    case None
    define s4 where "s4 = upd_proc p (\<lambda>x. x\<lparr>p_need_resched := 0\<rparr>) (s3\<lparr>rand_next := nx\<rparr>)"
    obtain e where e: "local_intr_restore b s4 = s4\<lparr>eflags := e\<rparr>" using restore_fields by blast
    have "eflags s4 = eflags s3" by (simp add: s4_def kernel_upd)
    from intr_restore_save [OF sv this] have "e = eflags s" using e by (simp add: s2_def)
    then show ?thesis
      using None run(2) start e unfolding Let_def s4_def [symmetric]
      by (simp add: kprintf_def s4_def upd_proc_def s3 s2_def)
  next
    case (Some le)
    then obtain t where t: "t \<in> set ts" "le = ThreadLink t" using run(2) by auto
    define s4 where "s4 = kprintf ''name:%s\<newline>'' [Str (t_name (threads s3 t))] (kprintf ''schedule ready to run\<newline>'' [] (s3\<lparr>rand_next := nx\<rparr>))"
    have s4: "threads s4 = threads s" "procs s4 = procs s" "eflags s4 = eflags s AND NOT FL_IF" "memory s4 = memory s"
      "plinks s4 = plinks s" "cpu s4 = cpu s" "current s4 = Some p"
      using cur by (simp_all add: s4_def kprintf_def s3 s2_def)
    define s5 where "s5 = (if t_tid (threads s4 t) = 0 then upd_proc p (\<lambda>x. x\<lparr>p_need_resched := 0\<rparr>) s4 else s4)"
    have s5: "threads s5 = threads s" "eflags s5 = eflags s AND NOT FL_IF" "memory s5 = memory s" "plinks s5 = plinks s"
      "cpu s5 = cpu s" "current s5 = Some p" "p_main (procs s5 p) = Some m"
      "p_need_resched (procs s5 p) = (if t_tid (threads s t) = 0 then 0 else p_need_resched (procs s p))"
      using s4 cur by (simp_all add: s5_def upd_proc_def)
    have "schedule s = (do { s \<leftarrow> thread_run t (s5\<lparr>currentthread := Some t\<rparr>); Some (True, s) })"
      using start Some t(2) by (simp add: s5_def s4_def Let_def kprintf_def)
    moreover obtain c s6 where sv2: "local_intr_save (s5\<lparr>currentthread := Some t\<rparr>) = (c, s6)" by fastforce
    have s6: "s6 = s5\<lparr>currentthread := Some t, eflags := eflags s5 AND NOT FL_IF\<rparr>"
      using intr_save_fields(1) [OF sv2] by simp
    have off: "eflags s6 = eflags s AND NOT FL_IF" by (simp add: s6 s5 and.assoc)
    have "thread_run t (s5\<lparr>currentthread := Some t\<rparr>) = Some (switch_to m t s6)"
      using s5(6,7) sv2 by (simp add: thread_run_def) (simp add: s6)
    ultimately have r: "schedule s = Some (True, switch_to m t s6)" by simp
    have "ts \<noteq> []" using t(1) by auto
    moreover have "threads (switch_to m t s6) = (threads s)(m := (threads s m)\<lparr>t_context := cpu s\<rparr>)"
      "cpu (switch_to m t s6) = (if t = m then cpu s else t_context (threads s t))"
      "eflags (switch_to m t s6) = eflags s AND NOT FL_IF" "memory (switch_to m t s6) = memory s"
      "plinks (switch_to m t s6) = plinks s" "currentthread (switch_to m t s6) = Some t"
      "p_need_resched (procs (switch_to m t s6) p) = (if t_tid (threads s t) = 0 then 0 else p_need_resched (procs s p))"
      using off s5 by (simp_all add: switch_to_def upd_thread_def s6)
    ultimately show ?thesis using r t(1) by auto
  qed
qed

text \<open>C14. \<open>schedule\<close> always returns or switches: with no thread it clears the request to reschedule and
  restores the interrupt flag; otherwise it enters, with interrupts off, some thread of the current process. It
  saves the registers of its caller into the context of the main thread, whichever thread called it, so that
  choosing the main thread leads back to the caller and not to where the main thread was interrupted.\<close>

theorem schedule_enters_thread:
  assumes "threads_ok p m s ts"
  shows "\<exists>b s'. schedule s = Some (b, s') \<and> b = (ts \<noteq> []) \<and> memory s' = memory s \<and> plinks s' = plinks s \<and>
    (if ts = [] then p_need_resched (procs s' p) = 0 \<and> eflags s' = eflags s \<and> cpu s' = cpu s \<and> threads s' = threads s
     else \<exists>t \<in> set ts. currentthread s' = Some t \<and> eflags s' = eflags s AND NOT FL_IF \<and>
       p_need_resched (procs s' p) = (if t_tid (threads s t) = 0 then 0 else p_need_resched (procs s p)) \<and>
       threads s' = (threads s)(m := (threads s m)\<lparr>t_context := cpu s\<rparr>) \<and>
       cpu s' = (if t = m then cpu s else t_context (threads s t)))"
  using schedule_cases [OF assms] by (auto split: if_splits)

definition two_threads :: kernel where
  "two_threads = (small_kernel (small_kmem ended_frames))\<lparr>currentthread := Some 80,
     plinks := (\<lambda>p. \<lparr>prev = p, next = p\<rparr>)(
       ThreadList 32 := \<lparr>prev = ThreadLink 64, next = ThreadLink 80\<rparr>,
       ThreadLink 80 := \<lparr>prev = ThreadList 32, next = ThreadLink 64\<rparr>,
       ThreadLink 64 := \<lparr>prev = ThreadLink 80, next = ThreadList 32\<rparr>),
     threads := (threads (small_kernel (small_kmem ended_frames)))(64 := (threads (small_kernel (small_kmem ended_frames)) 64)\<lparr>t_tid := 0\<rparr>)\<rparr>"

lemma two_threads_ok: "threads_ok 32 64 two_threads [80, 64]"
  by (simp add: threads_ok_def two_threads_def small_kernel_def blank_proc_def ring_def)

theorem schedule_enters_thread_witness:
  "\<exists>s'. schedule two_threads = Some (True, s') \<and> currentthread s' \<in> {Some 80, Some 64} \<and>
     t_context (threads s' 64) = cpu two_threads"
  using schedule_enters_thread [OF two_threads_ok] by auto

text \<open>C38. When the last other thread of a process exits, the main thread is chosen and its saved context is
  overwritten by that of the thread that exits, which is thereby resumed: the main thread never runs again.\<close>

theorem thread_exit_loses_main:
  assumes "threads_ok p m s (us @ t # ws)" and m: "us @ ws = [m]"
    and "currentthread s = Some t" and "t_tid (threads s t) \<noteq> 0"
  shows "\<exists>s'. thread_exit s = Some (True, s') \<and> ring (plinks s') (ThreadList p) [ThreadLink m] \<and>
    currentthread s' = Some m \<and> cpu s' = cpu s \<and> t_context (threads s' m) = cpu s"
proof -
  define s1 where "s1 = upd_links (list_del (ThreadLink t)) (kprintf ''thread thread_exit begin\<newline>'' [] s)"
  have "ring (plinks s) (ThreadList p) (map ThreadLink us @ ThreadLink t # map ThreadLink ws)"
    using assms(1) by (simp add: threads_ok_def)
  from ring_del [OF this] have r: "ring (plinks s1) (ThreadList p) (map ThreadLink [m])"
    by (simp add: s1_def kernel_upd flip: m map_append)
  have "thread_exit s = schedule s1"
    using assms(3,4) by (simp add: thread_exit_def s1_def) (simp add: kprintf_def)
  moreover have ok: "threads_ok p m s1 [m]" using assms(1) r by (simp add: threads_ok_def s1_def kernel_upd)
  moreover have "cpu s1 = cpu s" by (simp add: s1_def kernel_upd)
  ultimately show ?thesis using schedule_cases [OF ok] r by auto
qed

theorem thread_exit_loses_main_witness:
  "\<exists>s'. thread_exit two_threads = Some (True, s') \<and> currentthread s' = Some 64 \<and> cpu s' = cpu two_threads \<and>
     t_context (threads s' 64) = cpu two_threads"
  using thread_exit_loses_main [where us = "[]" and t = 80 and ws = "[64]" and m = 64 and p = 32 and s = two_threads] two_threads_ok by (auto simp: two_threads_def small_kernel_def)

end
