(* ===== verification/ProcLife.thy ===== *)
theory ProcLife
  imports Sched
begin

text \<open>
  The life of a process and of a thread: what kern/process/proc.c and thread.c build when they create
  one, what they leave behind when one exits, the lookup by pid, and the state \<open>proc_init\<close> starts the
  scheduler in.
\<close>

section \<open>Allocations that must succeed\<close>

text \<open>The allocator after the requests of \<open>ns\<close>, when each is answered with a block: the functions below
  use the pointers \<open>kmalloc\<close> returns without a test.\<close>

fun alloc_run :: "u32 list \<Rightarrow> kmem \<Rightarrow> kmem option" where
  "alloc_run [] k = Some k"
| "alloc_run (n # ns) k = do { (r, k) \<leftarrow> kmalloc n k; v \<leftarrow> r; alloc_run ns k }"

lemma alloc_run_append: "alloc_run (ms @ ns) k = do { k \<leftarrow> alloc_run ms k; alloc_run ns k }"
  by (induction ms k rule: alloc_run.induct) (auto split: Option.bind_splits option.splits)

lemma thread_create_allocs:
  "map_option (\<lambda>(t, s'). memory s') (thread_create sy fn arg s) = alloc_run [sizeof_thread_t, KSTACKSIZE] (memory s)"
  by (auto simp: thread_create_def k_malloc_def upd_thread_def Let_def split: Option.bind_splits option.splits)

lemma alloc_proc_allocs:
  "map_option memory (do { (r, s') \<leftarrow> alloc_proc s; v \<leftarrow> r; Some s' }) = alloc_run [sizeof_proc_struct] (memory s)"
  by (auto simp: alloc_proc_def k_malloc_def upd_proc_def upd_links_def Let_def split: Option.bind_splits option.splits)

section \<open>Looking a process up\<close>

lemma find_proc_loop_stays:
  assumes "p_pid (procs s p) \<noteq> pid"
  shows "find_proc_loop (ProcLink p) pid s = None"
proof (rule ccontr)
  assume "find_proc_loop (ProcLink p) pid s \<noteq> None"
  then obtain r where "find_proc_loop (ProcLink p) pid s = Some r" by blast
  then have "ProcLink p = ProcLink p \<longrightarrow> p_pid (procs s p) \<noteq> pid \<longrightarrow> False"
  proof (induction "ProcLink p" pid s r rule: find_proc_loop.raw_induct [rotated, consumes 1, case_names 1])
    case (1 f pid s r)
    then show ?case by (auto simp: split: if_splits)
  qed
  then show False using assms by simp
qed

lemma find_proc_cases:
  assumes "ring (plinks s) ProcList (map ProcLink ps)"
  shows "find_proc pid s = (case ps of [] \<Rightarrow> Some None
    | p # _ \<Rightarrow> if p_pid (procs s p) = pid then Some (Some p) else None)"
proof (cases ps)
  case Nil
  then have "list_next ProcList (plinks s) = ProcList" using ring_next [OF assms] by simp
  then show ?thesis unfolding find_proc_def using Nil by (subst find_proc_loop.simps) simp
next
  case (Cons p qs)
  then have n: "list_next ProcList (plinks s) = ProcLink p" using ring_next [OF assms] by simp
  show ?thesis
  proof (cases "p_pid (procs s p) = pid")
    case True
    then show ?thesis unfolding find_proc_def n using Cons by (subst find_proc_loop.simps) simp
  next
    case False
    then show ?thesis unfolding find_proc_def n using Cons find_proc_loop_stays by simp
  qed
qed

section \<open>Creating a thread\<close>

lemma owns_step: "memory s' = memory s \<Longrightarrow> owns t P s X \<Longrightarrow> owns t P s' X"
  using owns_memory by blast

lemma thread_create_cases:
  assumes "owns t P s X" and "thread_create sy fn arg s = Some (th, s')"
  shows "\<exists>stk. th \<noteq> stk \<and> th \<notin> X \<and> stk \<notin> X \<and> owns t P s' ({th, stk} \<union> X) \<and>
     (let tf = stk + KSTACKSIZE - sizeof_trapframe; f = trapframes s tf in
      threads s' = (threads s)(th := \<lparr>t_name = t_name (threads s th), t_tid = t_tid (threads s th),
        t_parent = current s, t_context = (t_context (threads s th))\<lparr>c_esp := tf, c_eip := sym_run_entry sy\<rparr>,
        t_kstack = stk, t_tf = tf\<rparr>) \<and>
      trapframes s' = (trapframes s)(tf := f\<lparr>tf_cs := ucast KERNEL_CS, tf_ds := ucast KERNEL_DS,
        tf_es := ucast KERNEL_DS, tf_ss := ucast KERNEL_DS, tf_regs := (tf_regs f)\<lparr>reg_ebx := fn, reg_edx := arg\<rparr>,
        tf_eip := sym_thread_entry sy\<rparr>)) \<and>
     procs s' = procs s \<and> plinks s' = plinks s \<and> current s' = current s \<and> idleproc s' = idleproc s"
proof (cases rule: k_malloc_cases [OF assms(1), of sizeof_thread_t, case_names fault null got])
  case fault
  then show ?thesis using assms(2) by (simp add: thread_create_def)
next
  case null
  then show ?thesis using assms(2) by (simp add: thread_create_def)
next
  case a: (got v k)
  define s1 where "s1 = upd_thread v (\<lambda>x. x\<lparr>t_parent := current s\<rparr>) (s\<lparr>memory := k\<rparr>)"
  have o1: "owns t P s1 (insert v X)" by (rule owns_step [OF _ a(3)]) (simp add: s1_def upd_thread_def)
  show ?thesis
  proof (cases rule: k_malloc_cases [OF o1, of KSTACKSIZE, case_names fault null got])
    case fault
    then show ?thesis using assms(2) a by (simp add: thread_create_def s1_def upd_thread_def)
  next
    case null
    then show ?thesis using assms(2) a by (simp add: thread_create_def s1_def upd_thread_def)
  next
    case b: (got stk k2)
    let ?tf = "stk + KSTACKSIZE - sizeof_trapframe"
    have r: "th = v" "memory s' = k2"
      "threads s' = (threads s)(v := \<lparr>t_name = t_name (threads s v), t_tid = t_tid (threads s v),
        t_parent = current s, t_context = (t_context (threads s v))\<lparr>c_esp := ?tf, c_eip := sym_run_entry sy\<rparr>,
        t_kstack = stk, t_tf = ?tf\<rparr>)"
      "trapframes s' = (trapframes s)(?tf := (trapframes s ?tf)\<lparr>tf_cs := ucast KERNEL_CS, tf_ds := ucast KERNEL_DS,
        tf_es := ucast KERNEL_DS, tf_ss := ucast KERNEL_DS,
        tf_regs := (tf_regs (trapframes s ?tf))\<lparr>reg_ebx := fn, reg_edx := arg\<rparr>, tf_eip := sym_thread_entry sy\<rparr>)"
      "procs s' = procs s" "plinks s' = plinks s" "current s' = current s" "idleproc s' = idleproc s"
      using assms(2) a(1) b(1) by (auto simp: thread_create_def s1_def upd_thread_def Let_def)
    have "owns t P s' ({v, stk} \<union> X)"
      using owns_step [OF _ b(3), of s'] r(2) by (simp add: insert_commute)
    then show ?thesis using a(2) b(2) r by (intro exI [of _ stk]) (auto simp: Let_def)
  qed
qed

lemma thread_create_new:
  assumes "owns t P s X" and "thread_create sy fn arg s = Some (th, s')"
  obtains stk where "th \<noteq> stk" "th \<notin> X" "stk \<notin> X" "owns t P s' ({th, stk} \<union> X)"
    "c_eip (t_context (threads s' th)) = sym_run_entry sy"
    "c_esp (t_context (threads s' th)) = stk + KSTACKSIZE - sizeof_trapframe"
    "reg_ebx (tf_regs (trapframes s' (stk + KSTACKSIZE - sizeof_trapframe))) = fn"
    "procs s' = procs s" "plinks s' = plinks s" "idleproc s' = idleproc s"
    "\<forall>v. v \<noteq> th \<longrightarrow> threads s' v = threads s v"
    "\<forall>v. v \<noteq> stk + KSTACKSIZE - sizeof_trapframe \<longrightarrow> trapframes s' v = trapframes s v"
proof -
  from thread_create_cases [OF assms] obtain stk where c: "th \<noteq> stk" "th \<notin> X" "stk \<notin> X" "owns t P s' ({th, stk} \<union> X)"
    "threads s' = (threads s)(th := \<lparr>t_name = t_name (threads s th), t_tid = t_tid (threads s th),
        t_parent = current s, t_context = (t_context (threads s th))\<lparr>c_esp := stk + KSTACKSIZE - sizeof_trapframe,
        c_eip := sym_run_entry sy\<rparr>, t_kstack = stk, t_tf = stk + KSTACKSIZE - sizeof_trapframe\<rparr>)"
    "trapframes s' = (let tf = stk + KSTACKSIZE - sizeof_trapframe; f = trapframes s tf in
      (trapframes s)(tf := f\<lparr>tf_cs := ucast KERNEL_CS, tf_ds := ucast KERNEL_DS,
        tf_es := ucast KERNEL_DS, tf_ss := ucast KERNEL_DS, tf_regs := (tf_regs f)\<lparr>reg_ebx := fn, reg_edx := arg\<rparr>,
        tf_eip := sym_thread_entry sy\<rparr>))"
    "procs s' = procs s" "plinks s' = plinks s" "idleproc s' = idleproc s"
    unfolding Let_def by blast
  show ?thesis by (rule that [OF c(1-4) _ _ _ c(7-9)]) (simp_all add: c(5,6) Let_def)
qed

section \<open>Creating a process\<close>

lemma alloc_proc_cases:
  assumes "owns t P s X" and "alloc_proc s = Some (Some p, s')"
  shows "p \<notin> X \<and> owns t P s' (insert p X) \<and>
     procs s' = (procs s)(p := (procs s p)\<lparr>p_state := PROC_UNINIT, p_pid := -1, p_parent := None, p_mm := None,
       p_tf := None, p_cr3 := boot_cr3 s, p_time_slice := 0, p_main := None\<rparr>) \<and>
     ring (plinks s') (ThreadList p) [] \<and>
     (\<forall>q. q \<notin> {ThreadList p, RunLink p} \<longrightarrow> plinks s' q = plinks s q) \<and>
     threads s' = threads s \<and> trapframes s' = trapframes s \<and> current s' = current s \<and> idleproc s' = idleproc s"
proof (cases rule: k_malloc_cases [OF assms(1), of sizeof_proc_struct, case_names fault null got])
  case fault
  then show ?thesis using assms(2) by (simp add: alloc_proc_def)
next
  case null
  then show ?thesis using assms(2) by (simp add: alloc_proc_def)
next
  case (got v k)
  let ?h = "list_init (ThreadList v) (list_init (RunLink v) (plinks s))"
  have r: "p = v" "memory s' = k" "plinks s' = ?h"
    "procs s' = (procs s)(v := (procs s v)\<lparr>p_state := PROC_UNINIT, p_pid := -1, p_parent := None, p_mm := None,
       p_tf := None, p_cr3 := boot_cr3 s, p_time_slice := 0, p_main := None\<rparr>)"
    "threads s' = threads s" "trapframes s' = trapframes s" "current s' = current s" "idleproc s' = idleproc s"
    using assms(2) got(1) by (auto simp: alloc_proc_def upd_proc_def upd_links_def Let_def)
  have "owns t P s' (insert v X)" by (rule owns_step [OF _ got(3)]) (simp add: r(2))
  moreover have "ring ?h (ThreadList v) []" by (rule ring_init)
  moreover have "?h q = plinks s q" if "q \<notin> {ThreadList v, RunLink v}" for q
    using that by (simp add: list_init_other)
  ultimately show ?thesis using got(2) r by simp
qed

lemma kernel_thread_cases:
  assumes "owns t P s X" and "kernel_thread sy fn arg s = Some (1, s')" and "ring (plinks s) ProcList (map ProcLink ps)"
    and "set ps \<subseteq> X"
  shows "\<exists>p stk tf. p \<noteq> stk \<and> p \<notin> X \<and> stk \<notin> X \<and> owns t P s' ({p, stk} \<union> X) \<and>
     ring (plinks s') ProcList (map ProcLink (p # ps)) \<and>
     p_tf (procs s' p) = Some tf \<and> tf = stk + PGSIZE - sizeof_trapframe \<and> p_parent (procs s' p) = current s \<and>
     p_pid (procs s' p) = 1 \<and> p_state (procs s' p) = PROC_UNINIT \<and> p_kstack (procs s' p) = stk \<and>
     tf_eflags (trapframes s' tf) = FL_IF \<and> tf_eip (trapframes s' tf) = sym_kernel_thread_entry sy \<and>
     reg_ebx (tf_regs (trapframes s' tf)) = fn \<and> reg_edx (tf_regs (trapframes s' tf)) = arg"
proof -
  obtain p s1 where al: "alloc_proc s = Some (Some p, s1)"
    using assms(2) by (auto simp: kernel_thread_def Let_def bind_eq_Some_conv split: option.splits)
  note A = alloc_proc_cases [OF assms(1) al]
  define s2 where "s2 = upd_proc p (\<lambda>x. x\<lparr>p_parent := current s1\<rparr>) s1"
  have o2: "owns t P s2 (insert p X)" using A by (auto simp: s2_def upd_proc_def intro: owns_step [rotated])
  show ?thesis
  proof (cases rule: k_malloc_cases [OF o2, of PGSIZE, case_names fault null got])
    case fault
    then show ?thesis using assms(2) al by (simp add: kernel_thread_def s2_def upd_proc_def Let_def)
  next
    case null
    then show ?thesis using assms(2) al by (simp add: kernel_thread_def s2_def upd_proc_def Let_def)
  next
    case (got stk k)
    let ?tf = "stk + PGSIZE - sizeof_trapframe"
    have r: "memory s' = k" "plinks s' = list_add ProcList (ProcLink p) (plinks s1)"
      "procs s' = (procs s1)(p := (procs s1 p)\<lparr>p_parent := current s1, p_kstack := stk, p_pid := 1, p_time_slice := 0,
         p_tf := Some ?tf\<rparr>)"
      "trapframes s' = (trapframes s1)(?tf := \<lparr>tf_regs = \<lparr>reg_edi = 0, reg_esi = 0, reg_ebp = 0, reg_oesp = 0,
          reg_ebx = fn, reg_edx = arg, reg_ecx = 0, reg_eax = 0\<rparr>, tf_es = ucast KERNEL_DS, tf_ds = ucast KERNEL_DS,
          tf_trapno = 0, tf_err = 0, tf_eip = sym_kernel_thread_entry sy, tf_cs = ucast KERNEL_CS,
          tf_eflags = FL_IF, tf_esp = 0, tf_ss = ucast KERNEL_DS\<rparr>)"
      using assms(2) al got(1) by (auto simp: kernel_thread_def s2_def upd_proc_def upd_links_def Let_def)
    have "owns t P s' ({p, stk} \<union> X)"
      using owns_step [OF _ got(3), of s'] r(1) by (simp add: insert_commute)
    moreover have "ring (plinks s1) ProcList (map ProcLink ps)"
    proof -
      have "plinks s1 q = plinks s q" if "q \<in> set (ProcList # map ProcLink ps)" for q using A that by auto
      then show ?thesis using assms(3) ring_frame [of ProcList "map ProcLink ps" "plinks s1" "plinks s"] by blast
    qed
    then have "ring (plinks s') ProcList (map ProcLink (p # ps))"
      using ring_add [of "plinks s1" ProcList "map ProcLink ps" "ProcLink p"] A assms(4) r(2) by auto
    moreover have "procs s' p = (procs s1 p)\<lparr>p_parent := current s1, p_kstack := stk, p_pid := 1, p_time_slice := 0,
         p_tf := Some ?tf\<rparr>" by (simp only: r(3) fun_upd_same)
    moreover have "tf_eflags (trapframes s' ?tf) = FL_IF" "tf_eip (trapframes s' ?tf) = sym_kernel_thread_entry sy"
      "reg_ebx (tf_regs (trapframes s' ?tf)) = fn" "reg_edx (tf_regs (trapframes s' ?tf)) = arg"
      by (simp_all only: r(4) fun_upd_same trapframe.simps pushregs.simps)
    moreover have "p_state (procs s1 p) = PROC_UNINIT" "current s1 = current s" "p \<notin> X" using A by simp_all
    moreover have "p \<noteq> stk" "stk \<notin> X" using got(2) by auto
    ultimately show ?thesis
      by (intro exI [of _ p] exI [of _ stk] exI [of _ ?tf] conjI) simp_all
  qed
qed

section \<open>Leaving\<close>

lemma do_exit_thread_cases:
  assumes "current s = Some cur" and "p_parent (procs s cur) = Some par" and "owns t P s X"
    and "{cur, p_kstack (procs s cur)} \<subseteq> X" and "cur \<noteq> p_kstack (procs s cur)"
    and "ring (plinks s) ProcList (map ProcLink (us @ par # ws))"
    and "p_main (procs s par) = Some m" and "ring (plinks s) (ThreadList par) (map ThreadLink ts)"
  shows "\<exists>b s'. do_exit_thread e s = Some (b, s') \<and> ring (plinks s') ProcList (map ProcLink (us @ ws)) \<and>
     owns t P s' (X - {cur, p_kstack (procs s cur)})"
proof -
  let ?ks = "p_kstack (procs s cur)"
  obtain k1 where 1: "k_free ?ks s = Some (s\<lparr>memory := k1\<rparr>)" "owns t P (s\<lparr>memory := k1\<rparr>) (X - {?ks})"
    using k_free_owned [OF assms(3), of ?ks] assms(4) by auto
  define s2 where "s2 = upd_links (list_del (ProcLink par)) (s\<lparr>memory := k1\<rparr>)"
  have "owns t P s2 (X - {?ks})" by (rule owns_step [OF _ 1(2)]) (simp add: s2_def upd_links_def)
  from k_free_owned [OF this, of cur] obtain k2 where
    2: "k_free cur s2 = Some (s2\<lparr>memory := k2\<rparr>)" "owns t P (s2\<lparr>memory := k2\<rparr>) (X - {?ks} - {cur})"
    using assms(4,5) by auto
  define s3 where "s3 = s2\<lparr>memory := k2, current := Some par\<rparr>"
  have r: "do_exit_thread e s = schedule s3"
    using assms(1,2) 1(1) 2(1) by (simp add: do_exit_thread_def s2_def s3_def)
  have ring: "ring (plinks s) ProcList (map ProcLink us @ ProcLink par # map ProcLink ws)" using assms(6) by simp
  have "list_del (ProcLink par) (plinks s) q = plinks s q" if "q \<in> set (ThreadList par # map ThreadLink ts)" for q
    using that by (intro list_del_ring_other [OF ring]) auto
  then have "ring (plinks s3) (ThreadList par) (map ThreadLink ts)"
    using assms(8) ring_frame [of "ThreadList par" "map ThreadLink ts" "plinks s3" "plinks s"]
    by (simp add: s3_def s2_def upd_links_def)
  then have "threads_ok par m s3 ts" using assms(7) by (simp add: threads_ok_def s3_def s2_def upd_links_def)
  from schedule_cases [OF this] obtain b s' where s': "schedule s3 = Some (b, s')" "memory s' = memory s3" "plinks s' = plinks s3"
    by (auto split: if_splits)
  have "ring (plinks s') ProcList (map ProcLink (us @ ws))"
    using ring_del [OF ring] s'(3) by (simp add: s3_def s2_def upd_links_def)
  moreover have "owns t P s' (X - {?ks} - {cur})" by (rule owns_step [OF _ 2(2)]) (simp add: s'(2) s3_def)
  moreover have "X - {?ks} - {cur} = X - {cur, ?ks}" by auto
  ultimately show ?thesis using r s'(1) by auto
qed

section \<open>Properties\<close>

text \<open>\<open>find_proc\<close> answers only when the list is empty or its first process has the pid: otherwise it
  does not return, because its loop never moves on.\<close>

theorem find_proc_stays_at_first:
  assumes "ring (plinks s) ProcList (map ProcLink ps)"
  shows "find_proc pid s = (case ps of [] \<Rightarrow> Some None
    | p # _ \<Rightarrow> if p_pid (procs s p) = pid then Some (Some p) else None)"
  by (rule find_proc_cases [OF assms])

definition two_procs :: kernel where
  "two_procs = (small_kernel (small_kmem ended_frames))\<lparr>
     procs := (\<lambda>_. blank_proc)(96 := blank_proc\<lparr>p_pid := 2\<rparr>),
     plinks := (\<lambda>p. \<lparr>prev = p, next = p\<rparr>)(
       ProcList := \<lparr>prev = ProcLink 96, next = ProcLink 48\<rparr>,
       ProcLink 48 := \<lparr>prev = ProcList, next = ProcLink 96\<rparr>,
       ProcLink 96 := \<lparr>prev = ProcLink 48, next = ProcList\<rparr>)\<rparr>"

theorem find_proc_stays_at_first_witness:
  "find_proc 1 two_procs = Some (Some 48) \<and> p_pid (procs two_procs 96) = 2 \<and> find_proc 2 two_procs = None"
proof -
  have r: "ring (plinks two_procs) ProcList (map ProcLink [48, 96])"
    by (simp add: two_procs_def ring_def)
  have "p_pid (procs two_procs 48) = 1" "p_pid (procs two_procs 96) = 2"
    by (simp_all add: two_procs_def blank_proc_def)
  then show ?thesis using find_proc_stays_at_first [OF r, of 1] find_proc_stays_at_first [OF r, of 2] by simp
qed

text \<open>\<open>thread_create\<close> returns a thread with a stack of its own whose saved context starts, through
  \<open>run_entry\<close>, the function it was given; it fails, by using a null pointer, exactly when one of its two
  allocations does. The eflags of the new frame, and with them whether the thread starts with interrupts on, are
  what the memory happened to hold.\<close>

theorem thread_create_builds_context:
  assumes "owns t P s X"
  shows "case thread_create sy fn arg s of
      None \<Rightarrow> alloc_run [sizeof_thread_t, KSTACKSIZE] (memory s) = None
    | Some (th, s') \<Rightarrow> alloc_run [sizeof_thread_t, KSTACKSIZE] (memory s) = Some (memory s') \<and>
        (\<exists>stk tf. distinct [th, stk] \<and> {th, stk} \<inter> X = {} \<and> owns t P s' ({th, stk} \<union> X) \<and>
          t_kstack (threads s' th) = stk \<and> t_tf (threads s' th) = tf \<and> tf = stk + KSTACKSIZE - sizeof_trapframe \<and>
          c_esp (t_context (threads s' th)) = tf \<and> c_eip (t_context (threads s' th)) = sym_run_entry sy \<and>
          t_parent (threads s' th) = current s \<and>
          tf_eip (trapframes s' tf) = sym_thread_entry sy \<and> reg_ebx (tf_regs (trapframes s' tf)) = fn \<and>
          reg_edx (tf_regs (trapframes s' tf)) = arg \<and> tf_eflags (trapframes s' tf) = tf_eflags (trapframes s tf) \<and>
          (\<forall>u. u \<noteq> th \<longrightarrow> threads s' u = threads s u) \<and> (\<forall>a. a \<noteq> tf \<longrightarrow> trapframes s' a = trapframes s a))"
proof (cases "thread_create sy fn arg s")
  case None
  then show ?thesis using thread_create_allocs [of sy fn arg s] by simp
next
  case (Some r)
  then obtain th s' where r: "thread_create sy fn arg s = Some (th, s')" by (cases r) auto
  from thread_create_cases [OF assms r] obtain stk where c: "th \<noteq> stk" "th \<notin> X" "stk \<notin> X" "owns t P s' ({th, stk} \<union> X)"
    "threads s' = (threads s)(th := \<lparr>t_name = t_name (threads s th), t_tid = t_tid (threads s th),
        t_parent = current s, t_context = (t_context (threads s th))\<lparr>c_esp := stk + KSTACKSIZE - sizeof_trapframe,
        c_eip := sym_run_entry sy\<rparr>, t_kstack = stk, t_tf = stk + KSTACKSIZE - sizeof_trapframe\<rparr>)"
    "trapframes s' = (let tf = stk + KSTACKSIZE - sizeof_trapframe; f = trapframes s tf in
      (trapframes s)(tf := f\<lparr>tf_cs := ucast KERNEL_CS, tf_ds := ucast KERNEL_DS,
        tf_es := ucast KERNEL_DS, tf_ss := ucast KERNEL_DS, tf_regs := (tf_regs f)\<lparr>reg_ebx := fn, reg_edx := arg\<rparr>,
        tf_eip := sym_thread_entry sy\<rparr>))"
    unfolding Let_def by blast
  show ?thesis
    using thread_create_allocs [of sy fn arg s] unfolding r
    by (simp add: c) (use c in \<open>simp add: Let_def\<close>)
qed

definition some_symbols :: symbols where
  "some_symbols = \<lparr>sym_run_entry = 0xC0101000, sym_thread_entry = 0xC0102000, sym_kernel_thread_entry = 0xC0103000,
     sym_bootstack = 0xC0200000\<rparr>"

lemma small_kernel_owns: "\<exists>k. slab_init (small_kmem ended_frames) = Some k \<and>
    owns (FreeList MAX_ORDER) {0..<64} (small_kernel k) {}"
  using small_client [of small_kernel] by (auto simp: small_kernel_def)

theorem thread_create_builds_context_witness:
  "\<exists>k. slab_init (small_kmem ended_frames) = Some k \<and>
     (case thread_create some_symbols 0xC0104000 7 (small_kernel k) of
        None \<Rightarrow> alloc_run [sizeof_thread_t, KSTACKSIZE] k = None
      | Some (th, s') \<Rightarrow> alloc_run [sizeof_thread_t, KSTACKSIZE] k = Some (memory s') \<and>
          c_eip (t_context (threads s' th)) = 0xC0101000 \<and> tf_eflags (trapframes s' (t_tf (threads s' th))) = 0xFFFF)"
proof -
  obtain k where k: "slab_init (small_kmem ended_frames) = Some k"
    "owns (FreeList MAX_ORDER) {0..<64} (small_kernel k) {}" using small_kernel_owns by blast
  have "memory (small_kernel k) = k" "\<And>a. tf_eflags (trapframes (small_kernel k) a) = 0xFFFF"
    by (simp_all add: small_kernel_def blank_frame_def)
  then show ?thesis
    using thread_create_builds_context [OF k(2), of some_symbols "0xC0104000" 7] k(1)
    by (auto simp: some_symbols_def split: option.splits)
qed

text \<open>\<open>do_exit_thread\<close> frees the current process and its stack but takes the parent, not the current
  process, out of the process list: the freed process stays linked, and the parent that runs next is lost from
  the list.\<close>

theorem do_exit_thread_leaves_dangling_link:
  assumes "current s = Some cur" and "p_parent (procs s cur) = Some par" and "owns t P s X"
    and "{cur, p_kstack (procs s cur)} \<subseteq> X" and "cur \<noteq> p_kstack (procs s cur)"
    and "ring (plinks s) ProcList (map ProcLink (us @ par # ws))" and "cur \<in> set (us @ ws)"
    and "p_main (procs s par) = Some m" and "ring (plinks s) (ThreadList par) (map ThreadLink ts)"
  shows "\<exists>b s' Y. do_exit_thread e s = Some (b, s') \<and> ring (plinks s') ProcList (map ProcLink (us @ ws)) \<and>
    cur \<in> set (us @ ws) \<and> par \<notin> set (us @ ws) \<and> owns t P s' Y \<and> cur \<notin> Y"
proof -
  obtain b s' where "do_exit_thread e s = Some (b, s')" "ring (plinks s') ProcList (map ProcLink (us @ ws))"
    "owns t P s' (X - {cur, p_kstack (procs s cur)})"
    using do_exit_thread_cases [OF assms(1-6,8,9)] by blast
  moreover have "par \<notin> set (us @ ws)" using assms(6) by (auto simp: ring_def)
  ultimately show ?thesis using assms(7) by blast
qed

definition child_kernel :: "u32 \<Rightarrow> u32 \<Rightarrow> u32 \<Rightarrow> kernel \<Rightarrow> kernel" where
  "child_kernel cur ks par s = s\<lparr>current := Some cur,
     procs := (procs s)(cur := blank_proc\<lparr>p_kstack := ks, p_parent := Some par\<rparr>, par := blank_proc),
     plinks := (\<lambda>p. \<lparr>prev = p, next = p\<rparr>)(
       ProcList := \<lparr>prev = ProcLink par, next = ProcLink cur\<rparr>,
       ProcLink cur := \<lparr>prev = ProcList, next = ProcLink par\<rparr>,
       ProcLink par := \<lparr>prev = ProcLink cur, next = ProcList\<rparr>)\<rparr>"

theorem do_exit_thread_leaves_dangling_link_witness:
  "\<exists>s cur b s' Y. current s = Some cur \<and> do_exit_thread 0 s = Some (b, s') \<and>
     ring (plinks s') ProcList [ProcLink cur] \<and> owns (FreeList MAX_ORDER) {0..<64} s' Y \<and> cur \<notin> Y"
proof -
  let ?owns = "owns (FreeList MAX_ORDER) {0..<64} :: kernel \<Rightarrow> u32 set \<Rightarrow> bool"
  obtain k cur k1 where a: "?owns (small_kernel k\<lparr>memory := k1\<rparr>) {cur}" "stocked (FreeList MAX_ORDER) {0..<64} 0 112 k1"
    using small_client [of small_kernel] by (auto simp: small_kernel_def)
  have "stocked (FreeList MAX_ORDER) {0..<64} 0 (Suc 1) (memory (small_kernel k\<lparr>memory := k1\<rparr>))"
    using stocked_mono [OF a(2), of "Suc 1"] by simp
  from k_malloc_stocked [OF a(1) this, of 20] obtain ks k2 where b: "ks \<notin> {cur}"
    "?owns (small_kernel k\<lparr>memory := k2\<rparr>) {ks, cur}" "stocked (FreeList MAX_ORDER) {0..<64} 0 1 k2" by auto
  have "stocked (FreeList MAX_ORDER) {0..<64} 0 (Suc 0) (memory (small_kernel k\<lparr>memory := k2\<rparr>))"
    using b(3) by simp
  from k_malloc_stocked [OF b(2) this, of 20] obtain par k3 where c: "par \<notin> {ks, cur}"
    "?owns (small_kernel k\<lparr>memory := k3\<rparr>) {par, ks, cur}" by auto
  define s where "s = child_kernel cur ks par (small_kernel k\<lparr>memory := k3\<rparr>)"
  have o: "?owns s {par, ks, cur}" by (rule owns_step [OF _ c(2)]) (simp add: s_def child_kernel_def)
  have f: "current s = Some cur" "p_parent (procs s cur) = Some par" "p_kstack (procs s cur) = ks"
    "p_main (procs s par) = Some 64" "ring (plinks s) ProcList (map ProcLink ([cur] @ par # []))"
    "ring (plinks s) (ThreadList par) (map ThreadLink [])"
    using c(1) not_sym [of par cur] by (simp_all add: s_def child_kernel_def blank_proc_def ring_def)
  obtain r s' Y where "do_exit_thread 0 s = Some (r, s')" "ring (plinks s') ProcList [ProcLink cur]"
    "?owns s' Y" "cur \<notin> Y"
    using do_exit_thread_leaves_dangling_link [OF f(1,2) o _ _ f(5) _ f(4,6), of 0] f(3) b(1) by auto
  then show ?thesis using f(1) by blast
qed

section \<open>The first processes\<close>

definition init_sizes :: "u32 list" where
  "init_sizes = sizeof_proc_struct # concat (replicate 3 [sizeof_thread_t, KSTACKSIZE])"

definition idle_fields :: "symbols \<Rightarrow> proc_struct \<Rightarrow> proc_struct" where
  "idle_fields sy x = x\<lparr>p_pid := 0, p_need_resched := 1, p_name := ''idleproc'', p_state := PROC_RUNNABLE,
     p_kstack := sym_bootstack sy\<rparr>"

text \<open>The steps of \<open>proc_init\<close> with their states named.\<close>

definition init_trace ::
  "symbols \<Rightarrow> u32 \<Rightarrow> u32 \<Rightarrow> u32 \<Rightarrow> kernel \<Rightarrow> u32 \<Rightarrow> u32 \<Rightarrow> u32 \<Rightarrow> u32 \<Rightarrow> kernel \<Rightarrow> bool" where
  "init_trace sy f0 f1 f2 s idle m p1 p2 s5 \<longleftrightarrow> (\<exists>s1 s2 s3 s4.
     alloc_proc (upd_links (list_init ProcList) s) = Some (Some idle, s1) \<and>
     thread_create sy f0 0 (upd_proc idle (idle_fields sy) (s1\<lparr>idleproc := Some idle\<rparr>)) = Some (m, s2) \<and>
     thread_create sy f1 0 (upd_proc idle (\<lambda>x. x\<lparr>p_main := Some m\<rparr>)
       (upd_links (list_add_after (ThreadList idle) (ThreadLink m))
         (upd_thread m (\<lambda>t. t\<lparr>t_tid := 0, t_name := ''main''\<rparr>) s2))) = Some (p1, s3) \<and>
     thread_create sy f2 0 (upd_links (list_add_after (ThreadList idle) (ThreadLink p1))
       (upd_thread p1 (\<lambda>t. t\<lparr>t_tid := 1, t_name := ''pthr1''\<rparr>) s3)) = Some (p2, s4) \<and>
     s5 = (upd_thread p2 (\<lambda>t. t\<lparr>t_tid := 2, t_name := ''pthr2''\<rparr>) s4)\<lparr>current := Some idle\<rparr>)"

lemma proc_init_trace:
  "init_trace sy f0 f1 f2 s idle m p1 p2 s5 \<Longrightarrow> proc_init sy f0 f1 f2 s = print_proc (Some idle) s5"
  by (auto simp: init_trace_def proc_init_def idle_fields_def [abs_def] Let_def)

text \<open>What the steps build.\<close>

lemma init_trace_state:
  assumes tr: "init_trace sy f0 f1 f2 s idle m p1 p2 s5" and o: "owns t P s X"
  shows "distinct [idle, m, p1, p2] \<and> {idle, m, p1, p2} \<inter> X = {} \<and> (\<exists>Y. {idle, m, p1, p2} \<union> X \<subseteq> Y \<and> owns t P s5 Y) \<and>
     threads_ok idle m s5 [p1, m] \<and> idleproc s5 = Some idle \<and> ring (plinks s5) ProcList [] \<and>
     p_state (procs s5 idle) = PROC_RUNNABLE \<and> p_pid (procs s5 idle) = 0 \<and> p_need_resched (procs s5 idle) = 1 \<and>
     t_tid (threads s5 m) = 0 \<and> t_tid (threads s5 p1) = 1 \<and> t_tid (threads s5 p2) = 2 \<and>
     c_eip (t_context (threads s5 m)) = sym_run_entry sy \<and> c_eip (t_context (threads s5 p1)) = sym_run_entry sy \<and>
     reg_ebx (tf_regs (trapframes s5 (c_esp (t_context (threads s5 m))))) = f0 \<and>
     reg_ebx (tf_regs (trapframes s5 (c_esp (t_context (threads s5 p1))))) = f1"
proof -
  let ?s0 = "upd_links (list_init ProcList) s"
  obtain s1 s2 s3 s4 where a: "alloc_proc ?s0 = Some (Some idle, s1)"
    and b: "thread_create sy f0 0 (upd_proc idle (idle_fields sy) (s1\<lparr>idleproc := Some idle\<rparr>)) = Some (m, s2)"
    and c: "thread_create sy f1 0 (upd_proc idle (\<lambda>x. x\<lparr>p_main := Some m\<rparr>)
       (upd_links (list_add_after (ThreadList idle) (ThreadLink m))
         (upd_thread m (\<lambda>t. t\<lparr>t_tid := 0, t_name := ''main''\<rparr>) s2))) = Some (p1, s3)"
    and d: "thread_create sy f2 0 (upd_links (list_add_after (ThreadList idle) (ThreadLink p1))
       (upd_thread p1 (\<lambda>t. t\<lparr>t_tid := 1, t_name := ''pthr1''\<rparr>) s3)) = Some (p2, s4)"
    and e: "s5 = (upd_thread p2 (\<lambda>t. t\<lparr>t_tid := 2, t_name := ''pthr2''\<rparr>) s4)\<lparr>current := Some idle\<rparr>"
    using tr unfolding init_trace_def by blast
  define u1 where "u1 = upd_proc idle (idle_fields sy) (s1\<lparr>idleproc := Some idle\<rparr>)"
  define u2 where "u2 = upd_proc idle (\<lambda>x. x\<lparr>p_main := Some m\<rparr>)
       (upd_links (list_add_after (ThreadList idle) (ThreadLink m))
         (upd_thread m (\<lambda>t. t\<lparr>t_tid := 0, t_name := ''main''\<rparr>) s2))"
  define u3 where "u3 = upd_links (list_add_after (ThreadList idle) (ThreadLink p1))
       (upd_thread p1 (\<lambda>t. t\<lparr>t_tid := 1, t_name := ''pthr1''\<rparr>) s3)"
  have o0: "owns t P ?s0 X" by (rule owns_step [OF _ o]) (simp add: upd_links_def)
  note A = alloc_proc_cases [OF o0 a]
  have o1: "owns t P u1 (insert idle X)" by (rule owns_step [of _ s1]) (use A in \<open>simp_all add: u1_def upd_proc_def\<close>)
  obtain k0 where B: "m \<noteq> k0" "m \<notin> insert idle X" "k0 \<notin> insert idle X"
    "owns t P s2 ({m, k0} \<union> (insert idle X))"
    "c_eip (t_context (threads s2 m)) = sym_run_entry sy"
    "c_esp (t_context (threads s2 m)) = k0 + KSTACKSIZE - sizeof_trapframe"
    "reg_ebx (tf_regs (trapframes s2 (k0 + KSTACKSIZE - sizeof_trapframe))) = f0"
    "procs s2 = procs u1" "plinks s2 = plinks u1" "idleproc s2 = idleproc u1"
    "\<forall>v. v \<noteq> m \<longrightarrow> threads s2 v = threads u1 v"
    "\<forall>v. v \<noteq> k0 + KSTACKSIZE - sizeof_trapframe \<longrightarrow> trapframes s2 v = trapframes u1 v"
    by (rule thread_create_new [OF o1 b [folded u1_def]])
  have o2: "owns t P u2 ({m, k0} \<union> insert idle X)"
    by (rule owns_step [OF _ B(4)]) (simp add: u2_def upd_proc_def upd_links_def upd_thread_def)
  obtain k1 where C: "p1 \<noteq> k1" "p1 \<notin> {m, k0} \<union> insert idle X" "k1 \<notin> {m, k0} \<union> insert idle X"
    "owns t P s3 ({p1, k1} \<union> ({m, k0} \<union> insert idle X))"
    "c_eip (t_context (threads s3 p1)) = sym_run_entry sy"
    "c_esp (t_context (threads s3 p1)) = k1 + KSTACKSIZE - sizeof_trapframe"
    "reg_ebx (tf_regs (trapframes s3 (k1 + KSTACKSIZE - sizeof_trapframe))) = f1"
    "procs s3 = procs u2" "plinks s3 = plinks u2" "idleproc s3 = idleproc u2"
    "\<forall>v. v \<noteq> p1 \<longrightarrow> threads s3 v = threads u2 v"
    "\<forall>v. v \<noteq> k1 + KSTACKSIZE - sizeof_trapframe \<longrightarrow> trapframes s3 v = trapframes u2 v"
    by (rule thread_create_new [OF o2 c [folded u2_def]])
  have o3: "owns t P u3 ({p1, k1} \<union> ({m, k0} \<union> insert idle X))"
    by (rule owns_step [OF _ C(4)]) (simp add: u3_def upd_links_def upd_thread_def)
  obtain k2 where D: "p2 \<noteq> k2" "p2 \<notin> {p1, k1} \<union> ({m, k0} \<union> insert idle X)" "k2 \<notin> {p1, k1} \<union> ({m, k0} \<union> insert idle X)"
    "owns t P s4 ({p2, k2} \<union> ({p1, k1} \<union> ({m, k0} \<union> insert idle X)))"
    "c_eip (t_context (threads s4 p2)) = sym_run_entry sy"
    "c_esp (t_context (threads s4 p2)) = k2 + KSTACKSIZE - sizeof_trapframe"
    "reg_ebx (tf_regs (trapframes s4 (k2 + KSTACKSIZE - sizeof_trapframe))) = f2"
    "procs s4 = procs u3" "plinks s4 = plinks u3" "idleproc s4 = idleproc u3"
    "\<forall>v. v \<noteq> p2 \<longrightarrow> threads s4 v = threads u3 v"
    "\<forall>v. v \<noteq> k2 + KSTACKSIZE - sizeof_trapframe \<longrightarrow> trapframes s4 v = trapframes u3 v"
    by (rule thread_create_new [OF o3 d [folded u3_def]])
  have pl1: "plinks u1 = plinks s1" by (simp add: u1_def upd_proc_def)
  have pl2: "plinks u2 = list_add (ThreadList idle) (ThreadLink m) (plinks s2)"
    by (simp add: u2_def upd_proc_def upd_links_def upd_thread_def list_add_def)
  have pl3: "plinks u3 = list_add (ThreadList idle) (ThreadLink p1) (plinks s3)"
    by (simp add: u3_def upd_links_def upd_thread_def list_add_def)
  have r1: "ring (plinks s2) (ThreadList idle) []" using A B(9) pl1 by simp
  have r2: "ring (plinks u2) (ThreadList idle) [ThreadLink m]" unfolding pl2 by (rule ring_add [OF r1]) simp
  then have r2': "ring (plinks s3) (ThreadList idle) [ThreadLink m]" using C(9) by simp
  have r3: "ring (plinks s5) (ThreadList idle) [ThreadLink p1, ThreadLink m]"
    using ring_add [OF r2', of "ThreadLink p1"] C(2) D(9) pl3 e by (simp add: upd_thread_def)
  have "plinks ?s0 ProcList = \<lparr>prev = ProcList, next = ProcList\<rparr>" by (simp add: upd_links_def link_defs)
  then have "plinks s2 ProcList = \<lparr>prev = ProcList, next = ProcList\<rparr>" using A B(9) pl1 by simp
  then have "plinks s3 ProcList = \<lparr>prev = ProcList, next = ProcList\<rparr>"
    using list_add_ring_other [OF r1, of ProcList "ThreadLink m"] C(9) pl2 by simp
  then have "plinks s5 ProcList = \<lparr>prev = ProcList, next = ProcList\<rparr>"
    using list_add_ring_other [OF r2', of ProcList "ThreadLink p1"] D(9) pl3 e by (simp add: upd_thread_def)
  then have r4: "ring (plinks s5) ProcList []" by (simp add: ring_def)
  have ne: "m \<noteq> idle" "p1 \<noteq> idle" "p1 \<noteq> m" "p2 \<noteq> idle" "p2 \<noteq> m" "p2 \<noteq> p1" "idle \<notin> X" "m \<notin> X" "p1 \<notin> X" "p2 \<notin> X"
    "k1 \<noteq> k0" "k2 \<noteq> k1" "k2 \<noteq> k0" using A B(2) C(2,3) D(2,3) by auto
  have pr: "procs s5 = procs u2" using D(8) C(8) e by (simp add: u3_def upd_thread_def upd_links_def)
  have pi: "procs u2 idle = (procs u1 idle)\<lparr>p_main := Some m\<rparr>"
    using B(8) by (simp add: u2_def upd_proc_def upd_links_def upd_thread_def)
  have pu: "p_state (procs u1 idle) = PROC_RUNNABLE" "p_pid (procs u1 idle) = 0" "p_need_resched (procs u1 idle) = 1"
    by (simp_all add: u1_def upd_proc_def idle_fields_def)
  have tm: "threads s5 m = (threads s2 m)\<lparr>t_tid := 0, t_name := ''main''\<rparr>"
    using ne D(11) C(11) e by (simp add: upd_thread_def u3_def u2_def upd_links_def upd_proc_def)
  have t1: "threads s5 p1 = (threads s3 p1)\<lparr>t_tid := 1, t_name := ''pthr1''\<rparr>"
    using ne D(11) e by (simp add: upd_thread_def u3_def upd_links_def)
  have f0: "trapframes s5 (k0 + KSTACKSIZE - sizeof_trapframe) = trapframes s2 (k0 + KSTACKSIZE - sizeof_trapframe)"
    using ne(11,13) D(12) C(12) e by (simp add: upd_thread_def u3_def u2_def upd_links_def upd_proc_def)
  have f1: "trapframes s5 (k1 + KSTACKSIZE - sizeof_trapframe) = trapframes s3 (k1 + KSTACKSIZE - sizeof_trapframe)"
    using ne(12) D(12) e by (simp add: upd_thread_def u3_def upd_links_def)
  have o5: "owns t P s5 ({p2, k2} \<union> ({p1, k1} \<union> ({m, k0} \<union> insert idle X)))"
    by (rule owns_step [OF _ D(4)]) (simp add: e upd_thread_def)
  have ok: "threads_ok idle m s5 [p1, m]" using r3 pr pi by (simp add: threads_ok_def e upd_thread_def)
  have "idleproc u1 = Some idle" "idleproc u2 = idleproc s2" "idleproc u3 = idleproc s3" "idleproc s5 = idleproc s4"
    by (simp_all add: e upd_thread_def u3_def u2_def u1_def upd_links_def upd_proc_def)
  then have ip: "idleproc s5 = Some idle" by (simp only: D(10) C(10) B(10))
  have t2: "t_tid (threads s5 p2) = 2" by (simp add: e upd_thread_def)
  have "{idle, m, p1, p2} \<union> X \<subseteq> {p2, k2} \<union> ({p1, k1} \<union> ({m, k0} \<union> insert idle X))" by auto
  then have Y: "\<exists>Y. {idle, m, p1, p2} \<union> X \<subseteq> Y \<and> owns t P s5 Y" using o5
    by (intro exI [of _ "{p2, k2} \<union> ({p1, k1} \<union> ({m, k0} \<union> insert idle X))"] conjI)
  have "distinct [idle, m, p1, p2]" "{idle, m, p1, p2} \<inter> X = {}" using ne by auto
  moreover have "c_esp (t_context (threads s5 m)) = k0 + KSTACKSIZE - sizeof_trapframe"
    "c_esp (t_context (threads s5 p1)) = k1 + KSTACKSIZE - sizeof_trapframe"
    "c_eip (t_context (threads s5 m)) = sym_run_entry sy" "c_eip (t_context (threads s5 p1)) = sym_run_entry sy"
    "t_tid (threads s5 m) = 0" "t_tid (threads s5 p1) = 1"
    using B(5,6) C(5,6) by (simp_all add: tm t1)
  moreover have "p_state (procs s5 idle) = PROC_RUNNABLE" "p_pid (procs s5 idle) = 0" "p_need_resched (procs s5 idle) = 1"
    using pu by (simp_all add: pr pi)
  ultimately show ?thesis using ok ip r4 t2 Y B(7) C(7) f0 f1 by (simp only: simp_thms)
qed

lemma init_trace_allocs:
  "alloc_run init_sizes (memory s) = Some k \<Longrightarrow> \<exists>idle m p1 p2 s5. init_trace sy f0 f1 f2 s idle m p1 p2 s5"
proof -
  assume a: "alloc_run init_sizes (memory s) = Some k"
  have i: "init_sizes = [sizeof_proc_struct] @ [sizeof_thread_t, KSTACKSIZE] @ [sizeof_thread_t, KSTACKSIZE] @
      [sizeof_thread_t, KSTACKSIZE]" by (simp add: init_sizes_def eval_nat_numeral)
  obtain k0 k1 k2 k3 where K: "alloc_run [sizeof_proc_struct] (memory s) = Some k0"
    "alloc_run [sizeof_thread_t, KSTACKSIZE] k0 = Some k1" "alloc_run [sizeof_thread_t, KSTACKSIZE] k1 = Some k2"
    "alloc_run [sizeof_thread_t, KSTACKSIZE] k2 = Some k3"
    using a unfolding i alloc_run_append bind_eq_Some_conv by metis
  have mk: "\<exists>th s'. thread_create sy fn arg u = Some (th, s') \<and> memory s' = k'"
    if "alloc_run [sizeof_thread_t, KSTACKSIZE] (memory u) = Some k'" for fn arg u k'
    using thread_create_allocs [of sy fn arg u] that by auto
  let ?s0 = "upd_links (list_init ProcList) s"
  have "memory ?s0 = memory s" by (simp add: upd_links_def)
  then obtain idle s1 where 1: "alloc_proc ?s0 = Some (Some idle, s1)" "memory s1 = k0"
    using alloc_proc_allocs [of ?s0] K(1) by (auto simp: bind_eq_Some_conv)
  let ?u1 = "upd_proc idle (idle_fields sy) (s1\<lparr>idleproc := Some idle\<rparr>)"
  have "memory ?u1 = k0" using 1(2) by (simp add: upd_proc_def)
  then obtain m s2 where 2: "thread_create sy f0 0 ?u1 = Some (m, s2)" "memory s2 = k1" using mk [of ?u1 k1 f0 0] K(2) by auto
  let ?u2 = "upd_proc idle (\<lambda>x. x\<lparr>p_main := Some m\<rparr>)
       (upd_links (list_add_after (ThreadList idle) (ThreadLink m))
         (upd_thread m (\<lambda>t. t\<lparr>t_tid := 0, t_name := ''main''\<rparr>) s2))"
  have "memory ?u2 = k1" using 2(2) by (simp add: upd_proc_def upd_links_def upd_thread_def)
  then obtain p1 s3 where 3: "thread_create sy f1 0 ?u2 = Some (p1, s3)" "memory s3 = k2" using mk [of ?u2 k2 f1 0] K(3) by auto
  let ?u3 = "upd_links (list_add_after (ThreadList idle) (ThreadLink p1))
       (upd_thread p1 (\<lambda>t. t\<lparr>t_tid := 1, t_name := ''pthr1''\<rparr>) s3)"
  have "memory ?u3 = k2" using 3(2) by (simp add: upd_links_def upd_thread_def)
  then obtain p2 s4 where 4: "thread_create sy f2 0 ?u3 = Some (p2, s4)" using mk [of ?u3 k3 f2 0] K(4) by auto
  show ?thesis unfolding init_trace_def using 1(1) 2(1) 3(1) 4 by blast
qed

lemma proc_init_some:
  assumes "proc_init sy f0 f1 f2 s = Some s'"
  shows "\<exists>idle m p1 p2 s5. init_trace sy f0 f1 f2 s idle m p1 p2 s5"
proof -
  obtain idle s1 where 1: "alloc_proc (upd_links (list_init ProcList) s) = Some (Some idle, s1)"
    using assms by (auto simp: proc_init_def bind_eq_Some_conv)
  then show ?thesis
    using assms unfolding proc_init_def init_trace_def
    by (auto simp: bind_eq_Some_conv idle_fields_def [abs_def] Let_def split: prod.splits)
qed



end
