(* ===== verification/Monitor.thy ===== *)
theory Monitor
  imports Kdebug Console Graphic
begin

text \<open>
  kern/debug/monitor.c and kern/debug/panic.c: the command line of the kernel monitor. \<open>parse\<close> works in
  the buffer of \<open>readline\<close>, a list of bytes; a pointer into it is a position, and \<open>argv\<close> is a list of
  \<open>MAXARGS\<close> positions. A read behind the buffer or a write behind \<open>argv\<close> is undefined. What \<open>cprintf\<close> is
  given goes to the log of theory Proc; the prompt goes through the console as in \<open>readline\<close>. All commands
  ignore their arguments and the trap frame.
\<close>

section \<open>Splitting the line\<close>

definition MAXARGS :: nat where "MAXARGS = 16"
definition WHITESPACE :: "u8 list" where "WHITESPACE = [0x20, 0x09, 0x0A, 0x0D]"

definition is_space :: "u8 \<Rightarrow> bool" where
  "is_space c = (c \<in> set WHITESPACE)"

text \<open>The two inner loops of \<open>parse\<close>.\<close>

function skip_space :: "u8 list \<Rightarrow> nat \<Rightarrow> (u8 list \<times> nat) option" where
  "skip_space buf i =
     (if i < length buf then
        (if buf ! i \<noteq> 0 \<and> is_space (buf ! i) then skip_space (buf[i := 0]) (Suc i) else Some (buf, i))
      else None)"
  by pat_completeness auto
termination by (relation "measure (\<lambda>(buf, i). length buf - i)") auto

function skip_word :: "u8 list \<Rightarrow> nat \<Rightarrow> nat option" where
  "skip_word buf i =
     (if i < length buf then
        (if buf ! i \<noteq> 0 \<and> \<not> is_space (buf ! i) then skip_word buf (Suc i) else Some i)
      else None)"
  by pat_completeness auto
termination by (relation "measure (\<lambda>(buf, i). length buf - i)") auto

declare skip_space.simps [simp del] skip_word.simps [simp del]

partial_function (option) parse_loop ::
  "u8 list \<Rightarrow> nat \<Rightarrow> nat \<Rightarrow> nat list \<Rightarrow> kernel \<Rightarrow> (nat \<times> u8 list \<times> nat list \<times> kernel) option" where
  "parse_loop buf i argc argv k =
     do { (buf, i) \<leftarrow> skip_space buf i;
          if buf ! i = 0 then Some (argc, buf, argv, k)
          else do { let k = (if argc = MAXARGS - 1
                             then kprintf ''Too many arguments (max %d).\<newline>'' [Num (of_nat MAXARGS)] k else k);
                    argv \<leftarrow> (if argc < MAXARGS then Some (argv[argc := i]) else None);
                    i \<leftarrow> skip_word buf i;
                    parse_loop buf i (argc + 1) argv k } }"

text \<open>\<open>argv\<close> is the uninitialised array of the caller.\<close>

definition parse :: "u8 list \<Rightarrow> nat list \<Rightarrow> kernel \<Rightarrow> (nat \<times> u8 list \<times> nat list \<times> kernel) option" where
  "parse buf argv k = parse_loop buf 0 0 argv k"

text \<open>The string at a position of the buffer.\<close>

definition string_at :: "u8 list \<Rightarrow> nat \<Rightarrow> u8 list" where
  "string_at buf p = takeWhile (\<lambda>c. c \<noteq> 0) (drop p buf)"

section \<open>Commands\<close>

text \<open>The data the commands print: boot information, addresses of the literals that are drawn and printed,
  linker symbols, debugging table, the two registers \<open>print_stackframe\<close> reads.\<close>

record mon_env =
  me_binfo :: boot_info
  me_names :: "nat \<Rightarrow> u32"
  me_prompt :: u32
  me_symbols :: kern_symbols
  me_debug :: debug_data
  me_ebp :: u32
  me_eip :: u32

record mon_state =
  mo_mem :: bytes
  mo_con :: console
  mo_reader :: line_reader
  mo_kernel :: kernel
  mo_toc :: int
  mo_panic :: bool

definition mprintf :: "string \<Rightarrow> print_arg list \<Rightarrow> mon_state \<Rightarrow> mon_state" where
  "mprintf fmt args s = s\<lparr>mo_kernel := kprintf fmt args (mo_kernel s)\<rparr>"

definition mputchar :: "char \<Rightarrow> mon_state \<Rightarrow> mon_state" where
  "mputchar c s = s\<lparr>mo_con := cputchar (of_char c) (mo_con s)\<rparr>"

datatype command = Help | Kerninfo | Backtrace | Bootinfo

definition commands :: "(string \<times> string \<times> command) list" where
  "commands =
     [(''help'', ''Display this list of commands.'', Help),
      (''kerninfo'', ''Display information about the kernel.'', Kerninfo),
      (''backtrace'', ''Print backtrace of stack frame.'', Backtrace),
      (''bootinfo'', ''show bootinfo'', Bootinfo)]"

definition mon_help :: "mon_env \<Rightarrow> mon_state \<Rightarrow> (int \<times> mon_state) option" where
  "mon_help e s =
     do { s \<leftarrow> fold (\<lambda>i r. do { s \<leftarrow> r;
                  let s = mprintf ''%s - %s\<newline>'' [Str (fst (commands ! i)), Str (fst (snd (commands ! i)))] s;
                  \<mu> \<leftarrow> draw_str16 (me_binfo e) (me_names e i) \<lparr>pt_x = 20, pt_y = 40 + int i * 16\<rparr>
                         \<lparr>col_r = 43, col_g = 43, col_b = 43\<rparr> (mo_mem s);
                  Some (s\<lparr>mo_mem := \<mu>\<rparr>) }) [0..<length commands] (Some s);
          Some (0, mputchar (CHR ''*'') s) }"

definition mon_kerninfo :: "mon_env \<Rightarrow> mon_state \<Rightarrow> (int \<times> mon_state) option" where
  "mon_kerninfo e s = Some (0, s\<lparr>mo_kernel := print_kerninfo (me_symbols e) (mo_kernel s)\<rparr>)"

definition mon_bootinfo :: "mon_env \<Rightarrow> mon_state \<Rightarrow> (int \<times> mon_state) option" where
  "mon_bootinfo e s =
     (let b = me_binfo e;
          s = mprintf ''uint8_t: cyls=%d leds=%x  '' [Num (ucast (bi_cyls b)), Num (ucast (bi_leds b))] s;
          s = mprintf ''vmode=%x reserve=%x\<newline>'' [Num (ucast (bi_vmode b)), Num (ucast (bi_reserve b))] s;
          s = mprintf ''uint16_t: scrnx=%d scrny=%d\<newline>'' [Num (ucast (scrnx b)), Num (ucast (scrny b))] s;
          s = mprintf ''uint8_t: bitspixel=%d mem_model=%d\<newline>'' [Num (ucast (bitspixel b)), Num (ucast (bi_mem_model b))] s
      in Some (0, mprintf ''uint8_t: vram=%x\<newline>'' [Num (vram b)] s))"

definition mon_backtrace :: "mon_env \<Rightarrow> mon_state \<Rightarrow> (int \<times> mon_state) option" where
  "mon_backtrace e s =
     do { k \<leftarrow> print_stackframe (mo_mem s) (me_debug e) (me_ebp e) (me_eip e) (mo_kernel s);
          Some (0, s\<lparr>mo_kernel := k\<rparr>) }"

primrec run_command :: "command \<Rightarrow> mon_env \<Rightarrow> mon_state \<Rightarrow> (int \<times> mon_state) option" where
  "run_command Help = mon_help"
| "run_command Kerninfo = mon_kerninfo"
| "run_command Backtrace = mon_backtrace"
| "run_command Bootinfo = mon_bootinfo"

definition cstring :: "u8 list \<Rightarrow> string" where
  "cstring cs = map (\<lambda>c. char_of (unat c)) cs"

text \<open>The loop over \<open>commands\<close>, and \<open>runcmd\<close> on the buffer of \<open>readline\<close>.\<close>

definition find_command :: "u8 list \<Rightarrow> command option" where
  "find_command w = map_option (snd \<circ> snd) (find (\<lambda>(name, desc, f). map of_char name = w) commands)"

definition runcmd :: "mon_env \<Rightarrow> nat list \<Rightarrow> mon_state \<Rightarrow> (int \<times> mon_state) option" where
  "runcmd e argv s =
     do { (argc, buf, argv, k) \<leftarrow> parse (rl_buf (mo_reader s)) argv (mo_kernel s);
          let s = s\<lparr>mo_kernel := k, mo_reader := (mo_reader s)\<lparr>rl_buf := buf\<rparr>\<rparr>;
          if argc = 0 then Some (0, s)
          else (case find_command (string_at buf (argv ! 0)) of
                  Some c \<Rightarrow> run_command c e s
                | None \<Rightarrow> Some (0, mprintf ''Unknown command '%s'\<newline>'' [Str (cstring (string_at buf (argv ! 0)))] s)) }"

section \<open>The loop of the monitor, and panic\<close>

text \<open>One round of the loop: read a line and run it.\<close>

definition monitor_round :: "mon_env \<Rightarrow> nat list \<Rightarrow> mon_state \<Rightarrow> (int \<times> mon_state) option" where
  "monitor_round e argv s =
     do { (rl, con) \<leftarrow> readline (mo_mem s) (me_prompt e) (mo_reader s) (mo_con s);
          runcmd e argv (s\<lparr>mo_reader := rl, mo_con := con\<rparr>) }"

partial_function (option) monitor_loop :: "mon_env \<Rightarrow> nat list \<Rightarrow> mon_state \<Rightarrow> mon_state option" where
  "monitor_loop e argv s =
     (if mo_toc s = 0 then
        do { (r, s) \<leftarrow> monitor_round e argv s; if r < 0 then Some s else monitor_loop e argv s }
      else monitor_loop e argv s)"

definition monitor :: "mon_env \<Rightarrow> nat list \<Rightarrow> mon_state \<Rightarrow> mon_state option" where
  "monitor e argv s =
     (let s = mputchar (CHR ''&'') s;
          s = mprintf ''Welcome to the kernel debug monitor!!\<newline>'' [] s;
          s = mprintf ''Type 'help' for a list of commands.\<newline>'' [] s
      in monitor_loop e argv (s\<lparr>mo_toc := 0\<rparr>))"

partial_function (option) panic_dead :: "mon_env \<Rightarrow> nat list \<Rightarrow> mon_state \<Rightarrow> mon_state option" where
  "panic_dead e argv s = do { s \<leftarrow> monitor e argv s; panic_dead e argv s }"

definition panic ::
  "mon_env \<Rightarrow> nat list \<Rightarrow> string \<Rightarrow> u32 \<Rightarrow> string \<Rightarrow> print_arg list \<Rightarrow> mon_state \<Rightarrow> mon_state option" where
  "panic e argv fname line fmt args s =
     panic_dead e argv
       (if mo_panic s then s
        else mprintf ''\<newline>'' [] (mprintf fmt args
               (mprintf ''kernel panic at %s:%d:\<newline>    '' [Str fname, Num line] (s\<lparr>mo_panic := True\<rparr>))))"

section \<open>Splitting as a specification\<close>

text \<open>The words of a line with their positions, the first character being at position \<open>n\<close>.\<close>

function word_list :: "nat \<Rightarrow> u8 list \<Rightarrow> (nat \<times> u8 list) list" where
  "word_list n cs =
     (let sp = takeWhile is_space cs; w = takeWhile (\<lambda>c. \<not> is_space c) (drop (length sp) cs) in
      if w = [] then []
      else (n + length sp, w) # word_list (n + length sp + length w) (drop (length sp + length w) cs))"
  by pat_completeness auto
termination
proof (relation "measure (\<lambda>(n, cs). length cs)")
  fix n :: nat and cs sp w :: "u8 list"
  assume "w = takeWhile (\<lambda>c. \<not> is_space c) (drop (length sp) cs)" "w \<noteq> []"
  then have "length w > 0" "cs \<noteq> []" by auto
  then show "((n + length sp + length w, drop (length sp + length w) cs), (n, cs)) \<in> measure (\<lambda>(n, cs). length cs)"
    by simp
qed simp

declare word_list.simps [simp del]

definition words :: "u8 list \<Rightarrow> u8 list list" where
  "words cs = map snd (word_list 0 cs)"

text \<open>What \<open>parse\<close> leaves of a line.\<close>

definition blank :: "u8 list \<Rightarrow> u8 list" where
  "blank cs = map (\<lambda>c. if is_space c then 0 else c) cs"

lemma blank_simps [simp]:
  "blank [] = []" "blank (c # cs) = (if is_space c then 0 else c) # blank cs"
  "blank (xs @ ys) = blank xs @ blank ys" "length (blank cs) = length cs"
  by (simp_all add: blank_def)

lemma blank_word: "\<forall>c \<in> set w. \<not> is_space c \<Longrightarrow> blank w = w"
  by (induction w) auto

lemma not_space_zero [simp]: "\<not> is_space 0"
  by (simp add: is_space_def WHITESPACE_def)

lemma skip_space_run:
  assumes "\<forall>c \<in> set sp. is_space c" and "ys \<noteq> []" and "\<not> is_space (hd ys)"
  shows "skip_space (pre @ sp @ ys) (length pre) = Some (pre @ blank sp @ ys, length pre + length sp)"
  using assms
proof (induction sp arbitrary: pre)
  case Nil
  then show ?case by (cases ys) (simp_all add: skip_space.simps nth_append)
next
  case (Cons c sp)
  then have c: "is_space c" "c \<noteq> 0" using not_space_zero by auto
  have "skip_space (pre @ (c # sp) @ ys) (length pre) = skip_space ((pre @ [0]) @ sp @ ys) (length (pre @ [0]))"
    using c by (subst skip_space.simps) (simp add: nth_append list_update_append)
  also have "\<dots> = Some ((pre @ [0]) @ blank sp @ ys, length (pre @ [0]) + length sp)"
    by (rule Cons.IH) (use Cons.prems in auto)
  finally show ?case using c by simp
qed

lemma skip_word_run:
  assumes "\<forall>c \<in> set w. c \<noteq> 0 \<and> \<not> is_space c" and "ys \<noteq> []" and "hd ys = 0 \<or> is_space (hd ys)"
  shows "skip_word (pre @ w @ ys) (length pre) = Some (length pre + length w)"
  using assms
proof (induction w arbitrary: pre)
  case Nil
  then obtain y ys' where "ys = y # ys'" by (cases ys) auto
  with Nil.prems show ?case by (subst skip_word.simps) auto
next
  case (Cons c w)
  have "skip_word (pre @ (c # w) @ ys) (length pre) = skip_word ((pre @ [c]) @ w @ ys) (length (pre @ [c]))"
    using Cons.prems by (subst skip_word.simps) (simp add: nth_append)
  also have "\<dots> = Some (length (pre @ [c]) + length w)"
    using Cons.prems by (intro Cons.IH) simp_all
  also have "\<dots> = Some (length pre + length (c # w))" by simp
  finally show ?case .
qed

lemma word_list_unfold:
  assumes "sp = takeWhile is_space cs" and "w = takeWhile (\<lambda>c. \<not> is_space c) (drop (length sp) cs)"
    and "cs' = drop (length sp + length w) cs"
  shows "word_list n cs = (if w = [] then [] else (n + length sp, w) # word_list (n + length sp + length w) cs')"
    and "cs = sp @ w @ cs'" and "\<forall>c \<in> set sp. is_space c" and "\<forall>c \<in> set w. \<not> is_space c"
    and "cs' \<noteq> [] \<longrightarrow> is_space (hd cs')" and "w = [] \<Longrightarrow> cs' = []"
proof -
  have d: "drop (length sp) cs = dropWhile is_space cs" unfolding assms(1) by (rule dropWhile_eq_drop [symmetric])
  then have w: "w = takeWhile (\<lambda>c. \<not> is_space c) (dropWhile is_space cs)" using assms(2) by simp
  have "cs' = drop (length w) (drop (length sp) cs)" by (simp add: assms(3) add.commute)
  also have "\<dots> = dropWhile (\<lambda>c. \<not> is_space c) (dropWhile is_space cs)"
    unfolding d w by (rule dropWhile_eq_drop [symmetric])
  finally have cs': "cs' = dropWhile (\<lambda>c. \<not> is_space c) (dropWhile is_space cs)" .
  show "word_list n cs = (if w = [] then [] else (n + length sp, w) # word_list (n + length sp + length w) cs')"
    by (subst word_list.simps) (simp add: Let_def assms)
  show "cs = sp @ w @ cs'" unfolding assms(1) w cs' by simp
  show "\<forall>c \<in> set sp. is_space c" unfolding assms(1) by (metis set_takeWhileD)
  show "\<forall>c \<in> set w. \<not> is_space c" unfolding w by (metis set_takeWhileD)
  show "cs' \<noteq> [] \<longrightarrow> is_space (hd cs')" unfolding cs' using hd_dropWhile by blast
  show "cs' = []" if "w = []"
  proof (rule ccontr)
    assume ne: "cs' \<noteq> []"
    then have "dropWhile is_space cs \<noteq> []" unfolding cs' by (metis dropWhile.simps(1))
    then have "\<not> is_space (hd (dropWhile is_space cs))" by (rule hd_dropWhile)
    then have "w \<noteq> []" unfolding w using \<open>dropWhile is_space cs \<noteq> []\<close> by (cases "dropWhile is_space cs") auto
    then show False using that by blast
  qed
qed

text \<open>The loop from a position whose rest of the line is \<open>cs\<close>.\<close>

lemma parse_loop_correct:
  assumes "0 \<notin> set cs" and "length argv = MAXARGS" and "argc \<le> MAXARGS"
  shows "\<exists>argv' m. parse_loop (pre @ cs @ 0 # rest) (length pre) argc argv k =
      (if argc + length (word_list (length pre) cs) \<le> MAXARGS
       then Some (argc + length (word_list (length pre) cs), pre @ blank cs @ 0 # rest, argv', k\<lparr>klog := klog k @ m\<rparr>)
       else None) \<and>
    (argc + length (word_list (length pre) cs) \<le> MAXARGS \<longrightarrow> length argv' = MAXARGS \<and>
       take (argc + length (word_list (length pre) cs)) argv' = take argc argv @ map fst (word_list (length pre) cs) \<and>
       (argc + length (word_list (length pre) cs) < MAXARGS \<longrightarrow> m = []))"
  using assms
proof (induction "length cs" arbitrary: cs pre argc argv k rule: less_induct)
  case less
  define sp where "sp = takeWhile is_space cs"
  define w where "w = takeWhile (\<lambda>c. \<not> is_space c) (drop (length sp) cs)"
  define cs' where "cs' = drop (length sp + length w) cs"
  note W = word_list_unfold [OF sp_def w_def cs'_def]
  let ?ys = "w @ cs' @ 0 # rest"
  have nw: "\<not> is_space (hd ?ys)" using W(4) W(6) by (cases w) auto
  have sk: "skip_space (pre @ cs @ 0 # rest) (length pre) = Some (pre @ blank sp @ ?ys, length (pre @ blank sp))"
    using skip_space_run [OF W(3) _ nw, of pre] by (simp add: W(2))
  show ?case
  proof (cases "w = []")
    case True
    then have "parse_loop (pre @ cs @ 0 # rest) (length pre) argc argv k = Some (argc, pre @ blank sp @ 0 # rest, argv, k)"
      using W(6) by (simp add: parse_loop.simps [of "pre @ cs @ 0 # rest"] sk nth_append)
    moreover have "cs = sp" using W(2,6) True by simp
    ultimately show ?thesis using W(1) [of "length pre"] True less.prems(3,2)
      by (intro exI [of _ argv] exI [of _ "[]"]) simp
  next
    case False
    have z: "0 \<notin> set w" "0 \<notin> set cs'" using less.prems(1) by (auto simp: W(2))
    have hw: "?ys ! 0 \<noteq> 0" using False z(1) by (cases w) auto
    have rest: "cs' @ 0 # rest \<noteq> []" "hd (cs' @ 0 # rest) = 0 \<or> is_space (hd (cs' @ 0 # rest))"
      using W(5) by (cases cs'; simp)+
    have zw: "\<forall>c \<in> set w. c \<noteq> 0 \<and> \<not> is_space c" using z(1) W(4) by auto
    note sw = skip_word_run [OF zw rest, of "pre @ blank sp"]
    let ?pre = "pre @ blank sp @ w" and ?p = "length pre + length sp"
    let ?k = "if argc = MAXARGS - 1 then kprintf ''Too many arguments (max %d).\<newline>'' [Num (of_nat MAXARGS)] k else k"
    have step: "parse_loop (pre @ cs @ 0 # rest) (length pre) argc argv k =
      (if argc < MAXARGS then parse_loop (?pre @ cs' @ 0 # rest) (length ?pre) (argc + 1) (argv[argc := ?p]) ?k else None)"
      using sw hw by (simp add: parse_loop.simps [of "pre @ cs @ 0 # rest"] sk nth_append Let_def add.assoc)
    show ?thesis
    proof (cases "argc < MAXARGS")
      case True
      have sh: "length cs' < length cs" using False by (simp add: W(2))
      obtain argv' m where IH: "parse_loop (?pre @ cs' @ 0 # rest) (length ?pre) (argc + 1) (argv[argc := ?p]) ?k =
          (if argc + 1 + length (word_list (length ?pre) cs') \<le> MAXARGS
           then Some (argc + 1 + length (word_list (length ?pre) cs'), ?pre @ blank cs' @ 0 # rest, argv', ?k\<lparr>klog := klog ?k @ m\<rparr>)
           else None)"
        "argc + 1 + length (word_list (length ?pre) cs') \<le> MAXARGS \<longrightarrow> length argv' = MAXARGS \<and>
          take (argc + 1 + length (word_list (length ?pre) cs')) argv' =
            take (argc + 1) (argv[argc := ?p]) @ map fst (word_list (length ?pre) cs') \<and>
          (argc + 1 + length (word_list (length ?pre) cs') < MAXARGS \<longrightarrow> m = [])"
        using less.hyps [OF sh z(2), of "argv[argc := ?p]" "argc + 1" ?pre ?k] less.prems(2) True by auto
      have tk: "take (argc + 1) (argv[argc := ?p]) = take argc argv @ [?p]"
        using True less.prems(2) by (simp add: take_Suc_conv_app_nth)
      have bl: "blank cs = blank sp @ w @ blank cs'" using blank_word [OF W(4)] by (simp add: W(2))
      let ?m = "if argc = MAXARGS - 1 then (''Too many arguments (max %d).\<newline>'', [Num (of_nat MAXARGS)]) # m else m"
      have k: "?k\<lparr>klog := klog ?k @ m\<rparr> = k\<lparr>klog := klog k @ ?m\<rparr>" by (simp add: kprintf_def)
      have wl: "word_list (length pre) cs = (?p, w) # word_list (length ?pre) cs'"
        using W(1) [of "length pre"] False by (simp add: add.assoc)
      let ?n = "length (word_list (length ?pre) cs')"
      have A: "parse_loop (pre @ cs @ 0 # rest) (length pre) argc argv k =
        (if argc + 1 + ?n \<le> MAXARGS
         then Some (argc + 1 + ?n, ?pre @ blank cs' @ 0 # rest, argv', k\<lparr>klog := klog k @ ?m\<rparr>) else None)"
        by (simp only: step True if_True IH(1) k)
      have L: "argc + length (word_list (length pre) cs) = argc + 1 + ?n"
        "map fst (word_list (length pre) cs) = ?p # map fst (word_list (length ?pre) cs')"
        by (simp_all only: wl list.size list.map fst_conv)
      have B: "pre @ blank cs @ 0 # rest = ?pre @ blank cs' @ 0 # rest" by (simp only: bl append_assoc)
      show ?thesis
        unfolding L B using A IH(2) tk by (intro exI [of _ argv'] exI [of _ ?m]) auto
    next
      case f: False
      then have "argc = MAXARGS" using less.prems(3) by simp
      then show ?thesis using step f W(1) [of "length pre"] False by simp
    qed
  qed
qed

text \<open>The strings that start at the positions found.\<close>

lemma string_at_simps:
  "string_at (pre @ ys) (length pre) = takeWhile (\<lambda>c. c \<noteq> 0) ys"
  by (simp add: string_at_def)

lemma word_list_strings:
  assumes "0 \<notin> set cs"
  shows "\<forall>(p, w) \<in> set (word_list (length pre) cs). string_at (pre @ blank cs @ 0 # rest) p = w"
  using assms
proof (induction "length cs" arbitrary: cs pre rule: less_induct)
  case less
  define sp where "sp = takeWhile is_space cs"
  define w where "w = takeWhile (\<lambda>c. \<not> is_space c) (drop (length sp) cs)"
  define cs' where "cs' = drop (length sp + length w) cs"
  note W = word_list_unfold [OF sp_def w_def cs'_def]
  show ?case
  proof (cases "w = []")
    case True
    then show ?thesis by (simp add: W(1))
  next
    case False
    let ?pre = "pre @ blank sp @ w"
    have z: "0 \<notin> set w" "0 \<notin> set cs'" using less.prems by (auto simp: W(2))
    have bl: "pre @ blank cs @ 0 # rest = (pre @ blank sp) @ w @ blank cs' @ 0 # rest"
      using blank_word [OF W(4)] by (simp add: W(2))
    have "takeWhile (\<lambda>c. c \<noteq> 0) (blank cs' @ 0 # rest) = []" using W(5) by (cases cs') auto
    moreover have "takeWhile (\<lambda>c. c \<noteq> 0) (w @ ys) = w @ takeWhile (\<lambda>c. c \<noteq> 0) ys" for ys
      using z(1) by (intro takeWhile_append2) auto
    ultimately have first: "string_at (pre @ blank cs @ 0 # rest) (length (pre @ blank sp)) = w"
      unfolding bl string_at_simps by simp
    have sh: "length cs' < length cs" using False by (simp add: W(2))
    from less.hyps [OF sh z(2), of ?pre]
    have "\<forall>(p, w') \<in> set (word_list (length ?pre) cs'). string_at (pre @ blank cs @ 0 # rest) p = w'"
      by (simp only: bl append_assoc)
    then show ?thesis
      unfolding W(1) [of "length pre"] using first False by (auto simp: add.assoc)
  qed
qed

lemma parse_correct:
  assumes "0 \<notin> set line" and "length argv = MAXARGS"
  shows "MAXARGS < length (words line) \<Longrightarrow> parse (line @ 0 # rest) argv k = None"
    and "length (words line) \<le> MAXARGS \<Longrightarrow>
      \<exists>argv' m. parse (line @ 0 # rest) argv k =
          Some (length (words line), blank line @ 0 # rest, argv', k\<lparr>klog := klog k @ m\<rparr>) \<and>
        map (string_at (blank line @ 0 # rest)) (take (length (words line)) argv') = words line \<and>
        (length (words line) < MAXARGS \<longrightarrow> m = [])"
proof -
  have n: "length (words line) = length (word_list 0 line)" by (simp add: words_def)
  have "map (string_at (blank line @ 0 # rest)) (map fst (word_list 0 line)) = words line"
    unfolding words_def map_map using word_list_strings [OF assms(1), of "[]" rest] by (intro map_cong) auto
  moreover obtain argv' m where "parse (line @ 0 # rest) argv k =
      (if length (word_list 0 line) \<le> MAXARGS
       then Some (length (word_list 0 line), blank line @ 0 # rest, argv', k\<lparr>klog := klog k @ m\<rparr>) else None)"
    "length (word_list 0 line) \<le> MAXARGS \<longrightarrow> length argv' = MAXARGS \<and>
       take (length (word_list 0 line)) argv' = map fst (word_list 0 line) \<and>
       (length (word_list 0 line) < MAXARGS \<longrightarrow> m = [])"
    using parse_loop_correct [OF assms le0, where pre = "[]" and rest = rest and k = k]
    unfolding parse_def by (simp only: append_Nil list.size add_0 take_0) blast
  ultimately show "MAXARGS < length (words line) \<Longrightarrow> parse (line @ 0 # rest) argv k = None"
    and "length (words line) \<le> MAXARGS \<Longrightarrow>
      \<exists>argv' m. parse (line @ 0 # rest) argv k =
          Some (length (words line), blank line @ 0 # rest, argv', k\<lparr>klog := klog k @ m\<rparr>) \<and>
        map (string_at (blank line @ 0 # rest)) (take (length (words line)) argv') = words line \<and>
        (length (words line) < MAXARGS \<longrightarrow> m = [])"
    unfolding n by auto
qed

section \<open>Running a line\<close>

text \<open>What the monitor does with a line that is in the buffer.\<close>

definition answer :: "mon_env \<Rightarrow> u8 list \<Rightarrow> mon_state \<Rightarrow> (int \<times> mon_state) option" where
  "answer e line s =
     (if words line = [] then Some (0, s)
      else (case find_command (hd (words line)) of
              Some c \<Rightarrow> run_command c e s
            | None \<Rightarrow> Some (0, mprintf ''Unknown command '%s'\<newline>'' [Str (cstring (hd (words line)))] s)))"

abbreviation set_line :: "u8 list \<Rightarrow> mon_state \<Rightarrow> mon_state" where
  "set_line bs s \<equiv> s\<lparr>mo_reader := (mo_reader s)\<lparr>rl_buf := bs\<rparr>\<rparr>"

lemma runcmd_answers:
  assumes "0 \<notin> set line" and "length argv = MAXARGS" and "rl_buf (mo_reader s) = line @ 0 # rest"
    and "length (words line) < MAXARGS"
  shows "runcmd e argv s = answer e line (set_line (blank line @ 0 # rest) s)"
proof -
  obtain argv' where p: "parse (rl_buf (mo_reader s)) argv (mo_kernel s) =
      Some (length (words line), blank line @ 0 # rest, argv', mo_kernel s)"
    "map (string_at (blank line @ 0 # rest)) (take (length (words line)) argv') = words line"
    using parse_correct(2) [OF assms(1,2), of rest "mo_kernel s"] assms(3,4) by auto
  show ?thesis
  proof (cases "words line")
    case Nil
    then show ?thesis by (simp add: runcmd_def p(1) answer_def)
  next
    case (Cons w ws)
    have "string_at (blank line @ 0 # rest) (argv' ! 0) = w"
      using p(2) by (cases argv') (auto simp: Cons)
    with Cons show ?thesis
      by (simp add: runcmd_def p(1) answer_def Let_def split: option.split)
  qed
qed

lemma run_command_zero: "run_command c e s = Some (r, s') \<Longrightarrow> r = 0"
  by (cases c) (auto simp: mon_help_def mon_kerninfo_def mon_backtrace_def mon_bootinfo_def Let_def
      bind_eq_Some_conv)

lemma runcmd_zero: "runcmd e argv s = Some (r, s') \<Longrightarrow> r = 0"
  by (auto simp: runcmd_def bind_eq_Some_conv Let_def split: if_splits option.splits dest: run_command_zero)

text \<open>No command returns a negative number, so the loop of the monitor has no way out.\<close>

lemma monitor_loop_never_returns: "monitor_loop e argv s = None"
proof -
  have False if h: "monitor_loop e argv s = Some s'" for s'
  proof (rule monitor_loop.raw_induct [where P = "\<lambda>_ _ _ _. False", OF _ h])
    fix go :: "mon_env \<Rightarrow> nat list \<Rightarrow> mon_state \<Rightarrow> mon_state option" and e argv s s'
    assume "\<And>e argv s s'. go e argv s = Some s' \<Longrightarrow> False"
      and "(if mo_toc s = 0 then
              do { (r, s) \<leftarrow> monitor_round e argv s; if r < 0 then Some s else go e argv s }
            else go e argv s) = Some s'"
    then show False
      by (auto simp: monitor_round_def bind_eq_Some_conv split: if_splits dest!: runcmd_zero)
  qed
  then show ?thesis by (cases "monitor_loop e argv s") auto
qed

lemma monitor_never_returns: "monitor e argv s = None"
  by (simp add: monitor_def monitor_loop_never_returns Let_def)

lemma panic_never_returns: "panic e argv fname line fmt args s = None"
  unfolding panic_def by (subst panic_dead.simps) (simp add: monitor_never_returns)

section \<open>The prompt\<close>

lemma print_chars_string:
  assumes "\<forall>j < n. p (i + j) \<noteq> 0" and "p (i + n) = 0"
  shows "print_chars putch False p i (-1) w d =
    Some (w - int n, fold putch (map (\<lambda>j. sint (p (i + j))) [0..<n]) d)"
  using assms
proof (induction n arbitrary: i w d)
  case 0
  then show ?case by (simp add: print_chars.simps Let_def)
next
  case (Suc n)
  have nz: "p i \<noteq> 0" using Suc.prems(1) by fastforce
  then have "sint (p i) \<noteq> 0" by (metis signed_0 signed_word_eqI)
  then have "print_chars putch False p i (-1) w d = print_chars putch False p (Suc i) (-1) (w - 1) (putch (sint (p i)) d)"
    by (subst print_chars.simps) (simp add: Let_def)
  also have "\<dots> = Some (w - 1 - int n, fold putch (map (\<lambda>j. sint (p (Suc i + j))) [0..<n]) (putch (sint (p i)) d))"
    by (rule Suc.IH) (use Suc.prems in \<open>force+\<close>)
  also have "fold putch (map (\<lambda>j. sint (p (Suc i + j))) [0..<n]) (putch (sint (p i)) d) =
      fold putch (map (\<lambda>j. sint (p (i + j))) [0..<Suc n]) d"
    by (simp add: upt_conv_Cons map_Suc_upt [symmetric] comp_def del: upt_Suc)
  finally show ?case by simp
qed

lemma cprintf_string:
  assumes "w \<noteq> 0" and "\<mu> (w + of_nat n) = 0"
  shows "\<exists>m p. cprintf \<mu> (literal ''%s'') [w] con = Some (m, con\<lparr>ports := p\<rparr>)"
proof -
  define n0 where "n0 = (LEAST j. \<mu> (w + of_nat j) = 0)"
  have n0: "\<mu> (w + of_nat n0) = 0" unfolding n0_def by (rule LeastI [of _ n]) (rule assms(2))
  have before: "\<forall>j < n0. \<mu> (w + of_nat j) \<noteq> 0" unfolding n0_def using not_less_Least by blast
  let ?cs = "map (\<lambda>j. sint (bytes_at \<mu> w (0 + j))) [0..<n0]"
  have pc: "print_chars cputch False (bytes_at \<mu> w) 0 (-1) (-1) (con, 0) = Some (-1 - int n0, fold cputch ?cs (con, 0))"
    by (rule print_chars_string) (use n0 before in \<open>simp_all add: bytes_at_def\<close>)
  have cv: "convert cputch \<mu> new_escape 0x73 [w] (con, 0) = Some ([], fold cputch ?cs (con, 0))"
    using pc assms(1) by (simp add: convert_def print_string_def new_escape_def Let_def)
  have lit: "literal ''%s'' 0 = 0x25" "literal ''%s'' (Suc 0) = 0x73" "literal ''%s'' (Suc (Suc 0)) = 0"
    by (simp_all add: literal_def)
  have s1: "fmt_step ne cputch \<mu> (literal ''%s'') Text 0 [w] (con, 0) =
      Some (Some (Escape new_escape, Suc 0, [w]), (con, 0))" for ne
    by (simp add: fmt_step_def lit)
  have s2: "fmt_step ne cputch \<mu> (literal ''%s'') (Escape new_escape) (Suc 0) [w] (con, 0) =
      Some (Some (Text, Suc (Suc 0), []), fold cputch ?cs (con, 0))" for ne
    using cv by (simp add: fmt_step_def lit flag_def is_conversion_def)
  have "vprintfmt cputch \<mu> (literal ''%s'') [w] (con, 0) = Some (fold cputch ?cs (con, 0))"
    unfolding vprintfmt_def
    by (subst fmt_loop.simps, simp only: s1 option.case prod.case, subst fmt_loop.simps,
        simp only: s2 option.case prod.case, rule fmt_end [where fmt = "literal ''%s''"], rule lit(3))
  then show ?thesis using cputch_fold [of ?cs con 0] by (auto simp: cprintf_def vcprintf_def)
qed

lemma pending_ports [simp]: "pending (con\<lparr>ports := p\<rparr>) = pending con" "con_ok (con\<lparr>ports := p\<rparr>) = con_ok con"
  by (simp_all add: pending_def waiting_def con_ok_def)

lemma line_edit_zero: "c \<noteq> 0 \<Longrightarrow> 0 \<notin> set line \<Longrightarrow> 0 \<notin> set (line_edit c line)"
  using in_set_butlastD [of 0 line] by (auto simp: line_edit_def)

lemma line_edits_zero: "\<forall>c \<in> set cs. c \<noteq> 0 \<Longrightarrow> 0 \<notin> set line \<Longrightarrow> 0 \<notin> set (fold line_edit cs line)"
  by (induction cs arbitrary: line) (simp_all add: line_edit_zero)

text \<open>Reading a line with a prompt.\<close>

lemma readline_prompt:
  assumes "con_ok con" and "pending con = cs @ nl # rest" and "newline nl" and "\<forall>c \<in> set cs. \<not> newline c \<and> c \<noteq> 0"
    and "length (pending con) \<le> CONSBUFSIZE - 1" and "length (rl_buf rl) = BUFSIZE" and "\<mu> (prompt + of_nat n) = 0"
  shows "\<exists>rl' con' tl. readline \<mu> prompt rl con = Some (rl', con') \<and> con_ok con' \<and> pending con' = rest \<and>
    rl_buf rl' = fold line_edit cs [] @ 0 # tl"
proof -
  obtain con1 where c: "(if prompt \<noteq> 0 then map_option snd (cprintf \<mu> (literal ''%s'') [prompt] con) else Some con) = Some con1"
    "pending con1 = pending con" "con_ok con1"
    using cprintf_string [of prompt \<mu> n con] assms(1,7) by (cases "prompt = 0") auto
  obtain rl' con' where R: "readline_loop \<mu> 0 rl con1 = Some (rl', con')" "con_ok con'" "pending con' = rest"
    "take (Suc (length (fold line_edit cs []))) (rl_buf rl') = fold line_edit cs [] @ [0]"
    using readline_loop_correct [OF c(3) assms(2) [folded c(2)] assms(3,4) assms(5) [folded c(2)] assms(6), of 0 "[]" \<mu>]
    by (auto simp: Let_def BUFSIZE_def)
  have "rl_buf rl' = (fold line_edit cs [] @ [0]) @ drop (Suc (length (fold line_edit cs []))) (rl_buf rl')"
    by (subst R(4) [symmetric]) simp
  then show ?thesis using R(1-3) c(1) by (auto simp: readline_def)
qed

section \<open>Properties\<close>

text \<open>C37. \<open>parse\<close> splits a line at its white space: with at most 16 words it returns their number, writes a
  null byte over every white-space character and over nothing else, and \<open>argv\<close> then holds the start of each
  word as a null-terminated string, in order. With more than 16 words it writes behind \<open>argv\<close>, although it
  prints that there are too many.\<close>

theorem parse_splits_words:
  assumes "0 \<notin> set line" and "length argv = MAXARGS"
  shows "if length (words line) \<le> MAXARGS
    then \<exists>argv' k'. parse (line @ 0 # rest) argv k = Some (length (words line), blank line @ 0 # rest, argv', k') \<and>
      map (string_at (blank line @ 0 # rest)) (take (length (words line)) argv') = words line
    else parse (line @ 0 # rest) argv k = None"
  using parse_correct [OF assms, of rest k] by (auto simp: not_le)

theorem parse_splits_words_witness:
  "\<forall>k. \<exists>argv' k'. parse ([0x20, 0x68, 0x69, 0x09, 0x20, 0x6D] @ 0 # [0x78]) (replicate 16 7) k =
      Some (2, [0, 0x68, 0x69, 0, 0, 0x6D] @ 0 # [0x78], argv', k') \<and>
    map (string_at ([0, 0x68, 0x69, 0, 0, 0x6D] @ 0 # [0x78])) (take 2 argv') = [[0x68, 0x69], [0x6D]]"
proof
  fix k
  let ?l = "[0x20, 0x68, 0x69, 0x09, 0x20, 0x6D] :: u8 list"
  have w: "words ?l = [[0x68, 0x69], [0x6D]]" "blank ?l = [0, 0x68, 0x69, 0, 0, 0x6D]"
    by (simp_all add: words_def word_list.simps [of _ "_ # _"] word_list.simps [of _ "[]"] is_space_def WHITESPACE_def)
  have "0 \<notin> set ?l" "length (replicate 16 7 :: nat list) = MAXARGS" by (simp_all add: MAXARGS_def)
  from parse_splits_words [OF this, of "[0x78]" k] show "\<exists>argv' k'. parse ([0x20, 0x68, 0x69, 0x09, 0x20, 0x6D] @ 0 # [0x78]) (replicate 16 7) k =
      Some (2, [0, 0x68, 0x69, 0, 0, 0x6D] @ 0 # [0x78], argv', k') \<and>
    map (string_at ([0, 0x68, 0x69, 0, 0, 0x6D] @ 0 # [0x78])) (take 2 argv') = [[0x68, 0x69], [0x6D]]"
    unfolding w by (simp add: MAXARGS_def numeral_2_eq_2)
qed


definition small_monitor :: "kernel \<Rightarrow> mon_state" where
  "small_monitor k = \<lparr>mo_mem = \<lambda>_. 0, mo_con = new_console [0x23, 0x17, 0x1C],
     mo_reader = \<lparr>rl_buf = replicate BUFSIZE 0, rl_lines = 0, rl_drawn = []\<rparr>, mo_kernel = k, mo_toc = 0, mo_panic = False\<rparr>"


end
