(* ===== verification/GraphicProps.thy ===== *)
theory GraphicProps
  imports Graphic
begin

text \<open>
  What the drawing routines do to the frame buffer: every routine changes bytes of the buffer only,
  \<open>fill_rect\<close> paints exactly the visible part of its rectangle, and lines end exactly when their points are
  ordered.
\<close>

section \<open>The frame buffer as pixels\<close>

text \<open>A screen that is not empty, at least three bytes for a pixel, and a buffer that fits the address space.\<close>

definition screen_ok :: "boot_info \<Rightarrow> bool" where
  "screen_ok b \<longleftrightarrow> 0 < uint (scrnx b) \<and> 0 < uint (scrny b) \<and> 3 \<le> nBppixel b \<and> nBppixel b * uint (scrnx b) * uint (scrny b) \<le> 2 ^ 32"

definition in_frame :: "boot_info \<Rightarrow> u32 \<Rightarrow> bool" where
  "in_frame b a \<longleftrightarrow> uint (a - vram b) < nBppixel b * uint (scrnx b) * uint (scrny b)"

definition pixel_off :: "boot_info \<Rightarrow> int \<Rightarrow> int \<Rightarrow> int" where
  "pixel_off b x y = nBppixel b * uint (scrnx b) * y + nBppixel b * x"

definition pixel_at :: "boot_info \<Rightarrow> int \<Rightarrow> int \<Rightarrow> bytes \<Rightarrow> rgb" where
  "pixel_at b x y \<mu> = (let p = vram b + word_of_int (pixel_off b x y)
     in \<lparr>col_r = \<mu> (p + 2), col_g = \<mu> (p + 1), col_b = \<mu> p\<rparr>)"

definition same_outside :: "boot_info \<Rightarrow> bytes \<Rightarrow> bytes \<Rightarrow> bool" where
  "same_outside b \<mu> \<mu>' \<longleftrightarrow> (\<forall>a. \<not> in_frame b a \<longrightarrow> \<mu>' a = \<mu> a)"

lemma same_outside_refl: "same_outside b \<mu> \<mu>"
  by (simp add: same_outside_def)

lemma same_outside_trans: "same_outside b \<mu> \<mu>' \<Longrightarrow> same_outside b \<mu>' \<mu>'' \<Longrightarrow> same_outside b \<mu> \<mu>''"
  by (simp add: same_outside_def)

lemma same_outside_fold: "(\<And>x \<mu>. x \<in> set xs \<Longrightarrow> same_outside b \<mu> (f x \<mu>)) \<Longrightarrow> same_outside b \<mu> (fold f xs \<mu>)"
  by (induction xs arbitrary: \<mu>) (auto simp: same_outside_refl intro: same_outside_trans)

lemma pixel_valid_iff: "is_pixel_valid b x y \<longleftrightarrow> 0 \<le> x \<and> x < uint (scrnx b) \<and> 0 \<le> y \<and> y < uint (scrny b)"
  by (auto simp: is_pixel_valid_def)

lemma pixel_off_bounds:
  assumes "screen_ok b" and "is_pixel_valid b x y"
  shows "0 \<le> pixel_off b x y" and "pixel_off b x y + 3 \<le> nBppixel b * uint (scrnx b) * uint (scrny b)"
proof -
  let ?B = "nBppixel b" and ?X = "uint (scrnx b)" and ?Y = "uint (scrny b)"
  have B: "3 \<le> ?B" and v: "0 \<le> x" "x + 1 \<le> ?X" "0 \<le> y" "y + 1 \<le> ?Y"
    using assms by (auto simp: screen_ok_def pixel_valid_iff)
  show "0 \<le> pixel_off b x y" using B v by (simp add: pixel_off_def)
  have "?B * (x + 1) \<le> ?B * ?X" using B v by (intro mult_left_mono) auto
  moreover have "?B * ?X * (y + 1) \<le> ?B * ?X * ?Y" using B v by (intro mult_left_mono) auto
  ultimately show "pixel_off b x y + 3 \<le> ?B * ?X * ?Y" using B by (simp add: pixel_off_def algebra_simps)
qed

lemma pixel_off_apart:
  assumes "screen_ok b" and "is_pixel_valid b x y" and "is_pixel_valid b x' y'" and "(x, y) \<noteq> (x', y')"
  shows "pixel_off b x y + 3 \<le> pixel_off b x' y' \<or> pixel_off b x' y' + 3 \<le> pixel_off b x y"
proof -
  let ?B = "nBppixel b" and ?X = "uint (scrnx b)"
  have B: "3 \<le> ?B" using assms(1) by (simp add: screen_ok_def)
  have less: "pixel_off b u v + 3 \<le> pixel_off b u' v'"
    if "is_pixel_valid b u v" "is_pixel_valid b u' v'" "v < v' \<or> v = v' \<and> u < u'" for u v u' v'
  proof -
    have "?X * v + u + 1 \<le> ?X * v' + u'"
    proof (cases "v < v'")
      case True
      then have "?X * (v + 1) \<le> ?X * v'" by (intro mult_left_mono) auto
      then show ?thesis using that by (auto simp: pixel_valid_iff algebra_simps)
    qed (use that in auto)
    then have "?B * (?X * v + u + 1) \<le> ?B * (?X * v' + u')" using B by (intro mult_left_mono) auto
    then show ?thesis using B by (simp add: pixel_off_def algebra_simps)
  qed
  consider "y < y' \<or> y = y' \<and> x < x'" | "y' < y \<or> y' = y \<and> x' < x" using assms(4) by fastforce
  then show ?thesis using less [OF assms(2,3)] less [OF assms(3,2)] by cases auto
qed

lemma uint_offset: "0 \<le> i \<Longrightarrow> i < 2 ^ 32 \<Longrightarrow> uint (word_of_int i :: u32) = i"
  by (simp add: uint_word_of_int take_bit_eq_mod)

lemma offset_inj: "0 \<le> i \<Longrightarrow> i < 2 ^ 32 \<Longrightarrow> 0 \<le> j \<Longrightarrow> j < 2 ^ 32 \<Longrightarrow> (word_of_int i = (word_of_int j :: u32)) = (i = j)"
  by (metis uint_offset)

lemma set_pixel_put:
  "is_pixel_valid b x y \<Longrightarrow> set_pixel b x y c \<mu> = put_rgb (vram b + word_of_int (pixel_off b x y)) c \<mu>"
  by (simp add: set_pixel_def pixel_off_def)

lemma in_frame_offset:
  assumes "screen_ok b" and "is_pixel_valid b x y" and "k \<in> {0, 1, 2}"
  shows "in_frame b (vram b + word_of_int (pixel_off b x y) + word_of_int k)"
proof -
  have "0 \<le> pixel_off b x y + k" "pixel_off b x y + k < nBppixel b * uint (scrnx b) * uint (scrny b)"
    using pixel_off_bounds [OF assms(1,2)] assms(3) by auto
  moreover from this have "pixel_off b x y + k < 2 ^ 32" using assms(1) by (simp add: screen_ok_def)
  ultimately have "uint (word_of_int (pixel_off b x y + k) :: u32) = pixel_off b x y + k" by (intro uint_offset)
  moreover have "vram b + word_of_int (pixel_off b x y) + word_of_int k - vram b = word_of_int (pixel_off b x y + k)" by simp
  ultimately show ?thesis using \<open>pixel_off b x y + k < nBppixel b * uint (scrnx b) * uint (scrny b)\<close>
    unfolding in_frame_def by (simp only:)
qed

lemma set_pixel_outside: "screen_ok b \<Longrightarrow> same_outside b \<mu> (set_pixel b x y c \<mu>)"
proof (cases "is_pixel_valid b x y")
  case True
  assume ok: "screen_ok b"
  have "in_frame b (vram b + word_of_int (pixel_off b x y))" "in_frame b (vram b + word_of_int (pixel_off b x y) + 1)"
    "in_frame b (vram b + word_of_int (pixel_off b x y) + 2)"
    using in_frame_offset [OF ok True, of 0] in_frame_offset [OF ok True, of 1] in_frame_offset [OF ok True, of 2] by simp_all
  then show ?thesis unfolding same_outside_def set_pixel_put [OF True] put_rgb_def by (metis fun_upd_apply)
qed (simp add: set_pixel_def same_outside_refl)

lemma pixel_at_set_pixel:
  assumes ok: "screen_ok b" and v: "is_pixel_valid b x' y'"
  shows "pixel_at b x' y' (set_pixel b x y c \<mu>) = (if x = x' \<and> y = y' then c else pixel_at b x' y' \<mu>)"
proof (cases "is_pixel_valid b x y")
  case valid: True
  let ?o = "pixel_off b x y" and ?o' = "pixel_off b x' y'"
  have lim: "0 \<le> ?o" "?o + 3 \<le> 2 ^ 32" "0 \<le> ?o'" "?o' + 3 \<le> 2 ^ 32"
    using pixel_off_bounds [OF ok valid] pixel_off_bounds [OF ok v] ok by (auto simp: screen_ok_def)
  have eq: "(vram b + word_of_int ?o' + word_of_int i = vram b + word_of_int ?o + (word_of_int j :: u32)) = (?o' + i = ?o + j)"
    if "i \<in> {0, 1, 2}" "j \<in> {0, 1, 2}" for i j
  proof -
    have "(vram b + word_of_int ?o' + word_of_int i = vram b + word_of_int ?o + (word_of_int j :: u32)) =
      (word_of_int (?o' + i) = (word_of_int (?o + j) :: u32))" by (simp add: add.assoc)
    also have "\<dots> = (?o' + i = ?o + j)" using lim that by (intro offset_inj) auto
    finally show ?thesis .
  qed
  note e = eq [of 0 0] eq [of 0 1] eq [of 0 2] eq [of 1 0] eq [of 1 1] eq [of 1 2] eq [of 2 0] eq [of 2 1] eq [of 2 2]
  show ?thesis
  proof (cases "x = x' \<and> y = y'")
    case True
    then have "x' = x" "y' = y" by simp_all
    then show ?thesis using e by (cases c) (simp add: set_pixel_put [OF valid] put_rgb_def pixel_at_def Let_def)
  next
    case False
    then have apart: "?o + 3 \<le> ?o' \<or> ?o' + 3 \<le> ?o" using pixel_off_apart [OF ok valid v] by auto
    define p q where "p = vram b + (word_of_int ?o :: u32)" and "q = vram b + (word_of_int ?o' :: u32)"
    have ne: "q + word_of_int i \<noteq> p + word_of_int j" if "i \<in> {0, 1, 2}" "j \<in> {0, 1, 2}" for i j
      using eq [OF that] that apart unfolding p_def q_def by auto
    have "q \<noteq> p" "q \<noteq> p + 1" "q \<noteq> p + 2" "q + 1 \<noteq> p" "q + 1 \<noteq> p + 1" "q + 1 \<noteq> p + 2"
      "q + 2 \<noteq> p" "q + 2 \<noteq> p + 1" "q + 2 \<noteq> p + 2"
      using ne [of 0 0] ne [of 0 1] ne [of 0 2] ne [of 1 0] ne [of 1 1] ne [of 1 2] ne [of 2 0] ne [of 2 1] ne [of 2 2] by simp_all
    then show ?thesis
      unfolding set_pixel_put [OF valid] put_rgb_def pixel_at_def Let_def p_def [symmetric] q_def [symmetric]
      using False by auto
  qed
next
  case False
  then show ?thesis using v by (auto simp: set_pixel_def)
qed

section \<open>Every routine stays in the frame buffer\<close>

lemma line_x_outside: "screen_ok b \<Longrightarrow> same_outside b \<mu> (line_x fo b p2 c dy yt xt \<mu>)"
proof (induction fo b p2 c dy yt xt \<mu> rule: line_x.induct)
  case (1 fo b p2 c dy yt xt \<mu>)
  then show ?case
    by (subst line_x.simps) (auto intro: same_outside_trans [OF set_pixel_outside] same_outside_refl)
qed

lemma line_y_outside: "screen_ok b \<Longrightarrow> same_outside b \<mu> (line_y fo b p2 c dx xt yt \<mu>)"
proof (induction fo b p2 c dx xt yt \<mu> rule: line_y.induct)
  case (1 fo b p2 c dx xt yt \<mu>)
  then show ?case
    by (subst line_y.simps) (auto intro: same_outside_trans [OF set_pixel_outside] same_outside_refl)
qed

lemma line_body_outside: "screen_ok b \<Longrightarrow> same_outside b \<mu> (line_body fo b p1 p2 c \<mu>)"
  by (simp add: line_body_def Let_def line_x_outside line_y_outside)

lemma draw_asc16_outside: "screen_ok b \<Longrightarrow> same_outside b \<mu> (draw_asc16 b ch p c \<mu>)"
  unfolding draw_asc16_def by (intro same_outside_fold) (simp add: set_pixel_outside same_outside_refl)

lemma draw_str16_outside:
  assumes "screen_ok b" and "draw_str16 b p pt c \<mu> = Some \<mu>'"
  shows "same_outside b \<mu> \<mu>'"
proof -
  have "b = b \<longrightarrow> screen_ok b \<longrightarrow> same_outside b \<mu> \<mu>'"
    using assms(2)
  proof (induction b p pt c \<mu> \<mu>' rule: draw_str16.raw_induct [rotated, consumes 1, case_names 1])
    case (1 f b p pt c \<mu> \<mu>')
    show ?case
    proof (cases "\<mu> p = 0")
      case False
      then have "screen_ok b \<longrightarrow> same_outside b (draw_asc16 b (\<mu> p) pt c \<mu>) \<mu>'" using 1 by auto
      then show ?thesis by (metis same_outside_trans draw_asc16_outside)
    qed (use 1(2) in \<open>simp add: same_outside_refl\<close>)
  qed
  then show ?thesis using assms(1) by simp
qed

section \<open>Lines\<close>

definition antidiagonal :: "point \<Rightarrow> point \<Rightarrow> bool" where
  "antidiagonal p q \<longleftrightarrow> pt_x p < pt_x q \<and> pt_y q < pt_y p \<or> pt_x q < pt_x p \<and> pt_y p < pt_y q"

lemma antidiagonal_sym: "antidiagonal p q = antidiagonal q p"
  by (auto simp: antidiagonal_def)

lemma draw_line_swaps_forever:
  assumes "antidiagonal p1 p2"
  shows "draw_line fo b p1 p2 c \<mu> = None"
proof (rule ccontr)
  assume "draw_line fo b p1 p2 c \<mu> \<noteq> None"
  then obtain \<mu>' where "draw_line fo b p1 p2 c \<mu> = Some \<mu>'" by blast
  then have "\<not> antidiagonal p1 p2"
  proof (induction fo b p1 p2 c \<mu> \<mu>' rule: draw_line.raw_induct [rotated, consumes 1, case_names 1])
    case (1 f fo b p1 p2 c \<mu> \<mu>')
    then show ?case
      by (cases "pt_x p2 < pt_x p1 \<or> pt_y p2 < pt_y p1") (auto simp: antidiagonal_sym [of p1 p2], auto simp: antidiagonal_def)
  qed
  then show False using assms by simp
qed

lemma draw_line_ordered:
  assumes "\<not> antidiagonal p1 p2"
  shows "draw_line fo b p1 p2 c \<mu> = Some (if pt_x p2 < pt_x p1 \<or> pt_y p2 < pt_y p1 then line_body fo b p2 p1 c \<mu>
     else line_body fo b p1 p2 c \<mu>)"
proof (cases "pt_x p2 < pt_x p1 \<or> pt_y p2 < pt_y p1")
  case True
  then have "\<not> (pt_x p1 < pt_x p2 \<or> pt_y p1 < pt_y p2)" using assms by (auto simp: antidiagonal_def)
  then show ?thesis using True by (subst draw_line.simps, subst draw_line.simps) simp
next
  case False
  then show ?thesis by (subst draw_line.simps) simp
qed

section \<open>Filling\<close>

lemma if_max: "(if l < (0 :: int) then 0 else l) = max 0 l"
  by (simp add: max_def)

lemma if_min: "(if r > m then m else (r :: int)) = min r m"
  by (simp add: min_def)

lemma nBppixel_range: "0 \<le> nBppixel b" "nBppixel b < 256"
  using unsigned_greater_eq [of "drop_bit 3 (bitspixel b)", where ?'a = int] unsigned_less [of "drop_bit 3 (bitspixel b)", where ?'a = int]
  by (simp_all add: nBppixel_def)

lemma fill_put:
  assumes "is_pixel_valid b (uint j) (uint i)"
  shows "put_rgb (vram b + word_of_int (nBppixel b) * (ucast (scrnx b) * i + j)) c \<mu> = set_pixel b (uint j) (uint i) c \<mu>"
proof -
  have "word_of_int (pixel_off b (uint j) (uint i)) = word_of_int (nBppixel b) * (ucast (scrnx b) * i + j)"
    by (simp add: pixel_off_def algebra_simps)
  then show ?thesis using set_pixel_put [OF assms, of c \<mu>] by simp
qed

lemma fill_cols_eq:
  assumes "uint i < uint (scrny b)" and "uint right < uint (scrnx b)" and "uint j \<le> uint right + 1"
  shows "fill_cols b c right i j \<mu> = Some (fold (\<lambda>x. set_pixel b x (uint i) c) [uint j..uint right] \<mu>)"
  using assms(3)
proof (induction "nat (uint right + 1 - uint j)" arbitrary: j \<mu>)
  case 0
  then show ?case by (simp add: fill_cols.simps word_le_def)
next
  case (Suc n)
  then have le: "uint j \<le> uint right" by simp
  have "uint (scrnx b) < 2 ^ 16" using unsigned_less [of "scrnx b", where ?'a = int] by simp
  then have "uint (j + 1) = uint j + 1" using le assms(2) by (subst uint_plus_simple) (auto simp: word_le_def uint_word_ariths)
  moreover from this have "fill_cols b c right i (j + 1) \<mu>' = Some (fold (\<lambda>x. set_pixel b x (uint i) c) [uint (j + 1)..uint right] \<mu>')" for \<mu>'
    using Suc.hyps(2) le by (intro Suc.hyps(1)) auto
  moreover have "is_pixel_valid b (uint j) (uint i)" using assms(1,2) le by (simp add: pixel_valid_iff)
  ultimately show ?case
    using le by (subst fill_cols.simps) (simp add: word_le_def fill_put upto_rec1 [of "uint j"])
qed

lemma fill_rows_eq:
  assumes "uint bottom < uint (scrny b)" and "uint right < uint (scrnx b)" and "uint l \<le> uint right + 1" and "uint i \<le> uint bottom + 1"
  shows "fill_rows b c l right bottom i \<mu> =
    Some (fold (\<lambda>y. fold (\<lambda>x. set_pixel b x y c) [uint l..uint right]) [uint i..uint bottom] \<mu>)"
  using assms(4)
proof (induction "nat (uint bottom + 1 - uint i)" arbitrary: i \<mu>)
  case 0
  then show ?case by (simp add: fill_rows.simps word_le_def)
next
  case (Suc n)
  then have le: "uint i \<le> uint bottom" by simp
  have "uint (scrny b) < 2 ^ 16" using unsigned_less [of "scrny b", where ?'a = int] by simp
  then have "uint (i + 1) = uint i + 1" using le assms(1) by (subst uint_plus_simple) (auto simp: word_le_def uint_word_ariths)
  moreover from this have "fill_rows b c l right bottom (i + 1) \<mu>' =
      Some (fold (\<lambda>y. fold (\<lambda>x. set_pixel b x y c) [uint l..uint right]) [uint (i + 1)..uint bottom] \<mu>')" for \<mu>'
    using Suc.hyps(2) le by (intro Suc.hyps(1)) auto
  moreover have "fill_cols b c right i l \<mu> = Some (fold (\<lambda>x. set_pixel b x (uint i) c) [uint l..uint right] \<mu>)"
    using assms le by (intro fill_cols_eq) auto
  ultimately show ?case
    using le by (subst fill_rows.simps) (simp add: word_le_def upto_rec1 [of "uint i"])
qed

lemma pixel_at_row:
  assumes "screen_ok b" and "is_pixel_valid b x' y'"
  shows "pixel_at b x' y' (fold (\<lambda>x. set_pixel b x y c) xs \<mu>) = (if y' = y \<and> x' \<in> set xs then c else pixel_at b x' y' \<mu>)"
  by (induction xs arbitrary: \<mu>) (auto simp: pixel_at_set_pixel [OF assms])

lemma pixel_at_rows:
  assumes "screen_ok b" and "is_pixel_valid b x' y'"
  shows "pixel_at b x' y' (fold (\<lambda>y. fold (\<lambda>x. set_pixel b x y c) xs) ys \<mu>) =
    (if y' \<in> set ys \<and> x' \<in> set xs then c else pixel_at b x' y' \<mu>)"
  by (induction ys arbitrary: \<mu>) (auto simp: pixel_at_row [OF assms])

section \<open>Properties\<close>

text \<open>C21. When its rectangle is not wholly left of the screen or above it, \<open>fill_rect\<close> ends and gives the
  colour to exactly the pixels of the screen that lie in the rectangle; no byte outside the frame buffer
  changes.\<close>

theorem fill_rect_paints:
  assumes "screen_ok b" and "0 \<le> far_end (pt_x (rect_p q)) (rect_width q)" and "0 \<le> far_end (pt_y (rect_p q)) (rect_height q)"
  shows "\<exists>\<mu>'. fill_rect b q c \<mu> = Some \<mu>' \<and> same_outside b \<mu> \<mu>' \<and>
    (\<forall>x y. is_pixel_valid b x y \<longrightarrow> pixel_at b x y \<mu>' =
      (if pt_x (rect_p q) \<le> x \<and> x \<le> far_end (pt_x (rect_p q)) (rect_width q) \<and>
          pt_y (rect_p q) \<le> y \<and> y \<le> far_end (pt_y (rect_p q)) (rect_height q) then c else pixel_at b x y \<mu>))"
proof -
  define l t where "l = pt_x (rect_p q)" and "t = pt_y (rect_p q)"
  define r bt where "r = far_end l (rect_width q)" and "bt = far_end t (rect_height q)"
  let ?X = "uint (scrnx b)" and ?Y = "uint (scrny b)"
  have lim: "?X < 2 ^ 16" "?Y < 2 ^ 16" "0 \<le> ?X" "0 \<le> ?Y"
    using unsigned_less [of "scrnx b", where ?'a = int] unsigned_less [of "scrny b", where ?'a = int] by simp_all
  show ?thesis
  proof (cases "l > r \<or> t > bt \<or> l > ?X - 1 \<or> t > ?Y - 1")
    case True
    then have "fill_rect b q c \<mu> = Some \<mu>" by (simp add: fill_rect_def Let_def l_def r_def t_def bt_def)
    moreover have "\<not> (l \<le> x \<and> x \<le> r \<and> t \<le> y \<and> y \<le> bt)" if "is_pixel_valid b x y" for x y
      using True that by (auto simp: pixel_valid_iff)
    ultimately show ?thesis by (auto simp: same_outside_refl l_def r_def t_def bt_def)
  next
    case False
    define l' r' t' bt' where "l' = max 0 l" and "r' = min r (?X - 1)" and "t' = max 0 t" and "bt' = min bt (?Y - 1)"
    have "0 \<le> r" "0 \<le> bt" using assms(2,3) by (simp_all add: r_def bt_def l_def t_def)
    moreover have "0 < ?X" "0 < ?Y" using assms(1) by (simp_all add: screen_ok_def)
    ultimately have range: "0 \<le> l'" "l' \<le> r'" "r' < ?X" "0 \<le> t'" "t' \<le> bt'" "bt' < ?Y"
      using False lim by (auto simp: l'_def r'_def t'_def bt'_def)
    then have u: "uint (of_cint l') = l'" "uint (of_cint r') = r'" "uint (of_cint t') = t'" "uint (of_cint bt') = bt'"
      using lim unfolding of_cint_def by (intro uint_offset; simp)+
    have "fill_rect b q c \<mu> = fill_rows b c (of_cint l') (of_cint r') (of_cint bt') (of_cint t') \<mu>"
      using False unfolding fill_rect_def Let_def l_def [symmetric] r_def [symmetric] t_def [symmetric] bt_def [symmetric]
        if_max if_min l'_def r'_def t'_def bt'_def by (simp only: if_False)
    also have "\<dots> = Some (fold (\<lambda>y. fold (\<lambda>x. set_pixel b x y c) [l'..r']) [t'..bt'] \<mu>)"
      using fill_rows_eq [of "of_cint bt'" b "of_cint r'" "of_cint l'" "of_cint t'" c \<mu>] range u by simp
    finally have F: "fill_rect b q c \<mu> = Some (fold (\<lambda>y. fold (\<lambda>x. set_pixel b x y c) [l'..r']) [t'..bt'] \<mu>)" .
    have "same_outside b \<mu> (fold (\<lambda>y. fold (\<lambda>x. set_pixel b x y c) [l'..r']) [t'..bt'] \<mu>)"
      by (intro same_outside_fold set_pixel_outside assms(1))
    moreover have seen: "y \<in> set [t'..bt'] \<and> x \<in> set [l'..r'] \<longleftrightarrow> l \<le> x \<and> x \<le> r \<and> t \<le> y \<and> y \<le> bt" if "is_pixel_valid b x y" for x y
      using that by (auto simp: pixel_valid_iff l'_def r'_def t'_def bt'_def)
    moreover have "pixel_at b x y (fold (\<lambda>y. fold (\<lambda>x. set_pixel b x y c) [l'..r']) [t'..bt'] \<mu>) =
      (if l \<le> x \<and> x \<le> r \<and> t \<le> y \<and> y \<le> bt then c else pixel_at b x y \<mu>)" if "is_pixel_valid b x y" for x y
      unfolding pixel_at_rows [OF assms(1) that] seen [OF that] by (rule refl)
    ultimately show ?thesis
      unfolding F l_def [symmetric] t_def [symmetric] unfolding r_def [symmetric] bt_def [symmetric] by blast
  qed
qed

definition small_screen :: boot_info where
  "small_screen = \<lparr>bi_cyls = 0, bi_leds = 0, bi_vmode = 0, bi_reserve = 0, scrnx = 8, scrny = 4, bitspixel = 24,
     bi_mem_model = 0, vram = 0xE0000000\<rparr>"

definition red_ink :: rgb where "red_ink = \<lparr>col_r = 255, col_g = 0, col_b = 0\<rparr>"

lemma small_screen_ok: "screen_ok small_screen"
  by (simp add: screen_ok_def small_screen_def nBppixel_def drop_bit_eq_div)

theorem fill_rect_paints_witness:
  "\<exists>\<mu>'. fill_rect small_screen \<lparr>rect_p = \<lparr>pt_x = -2, pt_y = 1\<rparr>, rect_width = 5, rect_height = 9\<rparr> red_ink (\<lambda>_. 7) = Some \<mu>' \<and>
     pixel_at small_screen 2 3 \<mu>' = red_ink \<and> pixel_at small_screen 3 3 \<mu>' = pixel_at small_screen 3 3 (\<lambda>_. 7)"
proof -
  let ?q = "\<lparr>rect_p = \<lparr>pt_x = -2, pt_y = 1\<rparr>, rect_width = 5, rect_height = 9\<rparr>"
  have e: "far_end (-2) 5 = 2" "far_end 1 9 = 9" by (simp_all add: far_end_def to_int_def of_cint_def)
  have v: "is_pixel_valid small_screen 2 3" "is_pixel_valid small_screen 3 3" by (simp_all add: is_pixel_valid_def small_screen_def)
  have "0 \<le> far_end (pt_x (rect_p ?q)) (rect_width ?q)" "0 \<le> far_end (pt_y (rect_p ?q)) (rect_height ?q)" by (simp_all add: e)
  from fill_rect_paints [OF small_screen_ok this, of red_ink "\<lambda>_. 7"] v e show ?thesis by fastforce
qed

text \<open>A rectangle that ends in the row above the screen is filled for ever: the bottom -1 is compared as the
  largest unsigned number.\<close>

theorem fill_rect_above_screen: "fill_rows b c l r (- 1) i \<mu> = None"
proof (rule ccontr)
  assume "fill_rows b c l r (- 1) i \<mu> \<noteq> None"
  then obtain \<mu>' where "fill_rows b c l r (- 1) i \<mu> = Some \<mu>'" by blast
  then show False
  proof (induction b c l r "- 1 :: u32" i \<mu> \<mu>' rule: fill_rows.raw_induct [rotated, consumes 1, case_names 1])
    case (1 f b c l r i \<mu> \<mu>')
    then show ?case by (auto simp: bind_eq_Some_conv)
  qed
qed



text \<open>\<open>draw_button\<close> draws one of its two diagonals from the lower left to the upper right, so it never
  returns for a button of at least two by two pixels.\<close>

theorem draw_button_never_returns:
  assumes "x1 = pt_x (rect_p (cx_rect cx)) + pt_x (rect_p (fr_rect (bt_frame bt)))"
    and "y1 = pt_y (rect_p (cx_rect cx)) + pt_y (rect_p (fr_rect (bt_frame bt)))"
    and "x1 < far_end x1 (rect_width (fr_rect (bt_frame bt)))" and "y1 < far_end y1 (rect_height (fr_rect (bt_frame bt)))"
  shows "draw_button fo b cx bt \<mu> = None"
proof -
  have "antidiagonal \<lparr>pt_x = x1, pt_y = far_end y1 (rect_height (fr_rect (bt_frame bt)))\<rparr>
    \<lparr>pt_x = far_end x1 (rect_width (fr_rect (bt_frame bt))), pt_y = y1\<rparr>" using assms(3,4) by (simp add: antidiagonal_def)
  then have "draw_line fo b \<lparr>pt_x = x1, pt_y = far_end y1 (rect_height (fr_rect (bt_frame bt)))\<rparr>
    \<lparr>pt_x = far_end x1 (rect_width (fr_rect (bt_frame bt))), pt_y = y1\<rparr> ink \<nu> = None" for ink \<nu>
    by (rule draw_line_swaps_forever)
  then show ?thesis
    unfolding draw_button_def Let_def assms(1,2) [symmetric] by (simp add: bind_eq_None_conv)
qed

theorem draw_button_never_returns_witness:
  "draw_button fo small_screen \<lparr>cx_rect = get_scrn_rect small_screen, cx_bgc = red_ink\<rparr>
     \<lparr>bt_frame = \<lparr>fr_rect = \<lparr>rect_p = \<lparr>pt_x = 1, pt_y = 1\<rparr>, rect_width = 3, rect_height = 2\<rparr>, fr_bgc = red_ink, fr_frc = red_ink\<rparr>,
      bt_btc = red_ink\<rparr> \<mu> = None"
  by (rule draw_button_never_returns [OF refl refl]) (simp_all add: get_scrn_rect_def far_end_def to_int_def of_cint_def)

text \<open>Reading back a pixel that was just set gives its colour with red and blue exchanged at the origin,
  where the address \<open>get_pixel\<close> computes without the bytes per pixel is right.\<close>

theorem get_pixel_exchanges_colours:
  assumes "0 < scrnx b" and "0 < scrny b"
  shows "get_pixel b 0 0 (set_pixel b 0 0 c \<mu>) = \<lparr>col_r = col_b c, col_g = col_g c, col_b = col_r c\<rparr>"
proof -
  have "is_pixel_valid b 0 0" using assms by (simp add: pixel_valid_iff word_less_def)
  then show ?thesis by (simp add: get_pixel_def set_pixel_def put_rgb_def Let_def)
qed

end
