(* ===== verification/Trap.thy ===== *)
theory Trap
  imports Keybuf VmmInv Sched
begin

text \<open>
  kern/trap/trap.c: the interrupt descriptor table and the dispatch of traps to the page fault handler, the
  timer and the keyboard. The state puts the components together that a trap reaches: the console and its
  keyboard, the keyboard buffer \<open>kb\<close>, the kernel with its processes and trap frames, the address spaces and
  the page tables. \<open>cprintf\<close> goes to the log of the kernel, except inside the components that model the
  console themselves. A panic ends the run: the outcome of a trap is a return or a panic.
\<close>

section \<open>The descriptor table\<close>

record 's trap_state =
  ts_idt :: "gatedesc list"
  ts_idtr :: "u16 \<times> u32"
  ts_con :: console
  ts_kb :: keybuf
  ts_kernel :: kernel
  ts_spaces :: vm_heap
  ts_vm :: "'s vm"
  ts_check_mm :: "u32 option"
  ts_cr2 :: u32
  ts_ticks :: u32

definition upd_kernel :: "(kernel \<Rightarrow> kernel) \<Rightarrow> 's trap_state \<Rightarrow> 's trap_state" where
  "upd_kernel f s = s\<lparr>ts_kernel := f (ts_kernel s)\<rparr>"

text \<open>\<open>vectors\<close> is the table \<open>__vectors\<close> and \<open>idt\<close> the address of the descriptor table.\<close>

definition idt_init :: "(nat \<Rightarrow> u32) \<Rightarrow> u32 \<Rightarrow> 's trap_state \<Rightarrow> 's trap_state" where
  "idt_init vectors idt s =
     (let s = fold (\<lambda>i s. s\<lparr>ts_idt := (ts_idt s)[i := SETGATE (ts_idt s ! i) False GD_KTEXT (vectors i) DPL_KERNEL]\<rparr>)
                [0..<256] s;
          s = s\<lparr>ts_idtr := (256 * 8 - 1, idt)\<rparr>
      in upd_kernel (kprintf ''idt_init finished\<newline>'' []) s)"

section \<open>Dispatch\<close>

datatype 'a outcome = Returned 'a | Panicked 'a

definition T_PGFLT :: u32 where "T_PGFLT = 14"
definition TICK_NUM :: u32 where "TICK_NUM = 100"
definition trap_timer :: u32 where "trap_timer = ucast IRQ_OFFSET + of_nat IRQ_TIMER"
definition trap_kbd :: u32 where "trap_kbd = ucast IRQ_OFFSET + of_nat IRQ_KBD"

definition pgfault_handler :: "'s pmm_manager \<Rightarrow> u32 \<Rightarrow> 's trap_state \<Rightarrow> (int \<times> 's trap_state) option" where
  "pgfault_handler m err s =
     (case ts_check_mm s of None \<Rightarrow> Some (-1, s) | Some mm \<Rightarrow>
        do { (r, h, vm) \<leftarrow> do_pgfault m mm err (ts_cr2 s) (ts_spaces s) (ts_vm s);
             Some (r, s\<lparr>ts_spaces := h, ts_vm := vm\<rparr>) })"

definition trap_dispatch ::
  "'s pmm_manager \<Rightarrow> bytes \<Rightarrow> u32 \<Rightarrow> u32 \<Rightarrow> 's trap_state \<Rightarrow> 's trap_state outcome option" where
  "trap_dispatch m \<mu> kb tf s =
     (let f = trapframes (ts_kernel s) tf in
      if tf_trapno f = T_PGFLT then
        do { (r, s) \<leftarrow> pgfault_handler m (tf_err f) s;
             Some (if r \<noteq> 0
                   then Panicked (upd_kernel (kprintf ''pgfault handler error'' [] \<circ> print_trapframe tf \<circ>
                          kprintf ''page fault at tf:\<newline>'' []) s)
                   else Returned s) }
      else if tf_trapno f = trap_timer then
        (let s = s\<lparr>ts_ticks := ts_ticks s + 1\<rparr>
         in if ts_ticks s mod TICK_NUM = 0 then
              do { let s = upd_kernel (kprintf ''tick\<newline>'' []) s;
                   p \<leftarrow> current (ts_kernel s);
                   Some (Returned (upd_kernel (upd_proc p (\<lambda>x. x\<lparr>p_need_resched := 1\<rparr>)) s)) }
            else Some (Returned s))
      else if tf_trapno f = trap_kbd then
        do { (c, con) \<leftarrow> cons_getc \<mu> (ts_con s);
             let s = upd_kernel (kprintf ''%s [%03d] %c\<newline>''
               [Str (if tf_trapno f \<noteq> trap_kbd then ''serial'' else ''kbd''), Num (scast c), Num (scast c)]) (s\<lparr>ts_con := con\<rparr>);
             (r, buf, con) \<leftarrow> keybuf_push \<mu> kb c (ts_kb s, ts_con s);
             Some (Returned (s\<lparr>ts_kb := buf, ts_con := con\<rparr>)) }
      else Some (Returned s))"

definition trap :: "'s pmm_manager \<Rightarrow> bytes \<Rightarrow> u32 \<Rightarrow> u32 \<Rightarrow> 's trap_state \<Rightarrow> 's trap_state outcome option" where
  "trap m \<mu> kb tf s = trap_dispatch m \<mu> kb tf (upd_kernel (kprintf ''trap--- '' []) s)"

text \<open>A sequence of traps with the same frame; it stops at a panic.\<close>

primrec traps :: "nat \<Rightarrow> 's pmm_manager \<Rightarrow> bytes \<Rightarrow> u32 \<Rightarrow> u32 \<Rightarrow> 's trap_state \<Rightarrow> 's trap_state outcome option" where
  "traps 0 m \<mu> kb tf s = Some (Returned s)"
| "traps (Suc n) m \<mu> kb tf s =
     do { r \<leftarrow> trap m \<mu> kb tf s; case r of Returned s \<Rightarrow> traps n m \<mu> kb tf s | Panicked s \<Rightarrow> Some (Panicked s) }"

lemma trap_numbers: "T_PGFLT = 14" "trap_timer = 32" "trap_kbd = 33"
  by (simp_all add: T_PGFLT_def trap_timer_def trap_kbd_def IRQ_OFFSET_def IRQ_TIMER_def IRQ_KBD_def)

lemmas trap_defs = trap_def trap_dispatch_def pgfault_handler_def upd_kernel_def Let_def

section \<open>The table after \<open>idt_init\<close>\<close>

lemma idt_fold:
  assumes "n \<le> length (ts_idt s)"
  shows "\<exists>idt. fold (\<lambda>i s. s\<lparr>ts_idt := (ts_idt s)[i := SETGATE (ts_idt s ! i) False GD_KTEXT (v i) DPL_KERNEL]\<rparr>) [0..<n] s =
      s\<lparr>ts_idt := idt\<rparr> \<and> length idt = length (ts_idt s) \<and>
    (\<forall>i < n. idt ! i = SETGATE (ts_idt s ! i) False GD_KTEXT (v i) DPL_KERNEL) \<and> (\<forall>i \<ge> n. idt ! i = ts_idt s ! i)"
  using assms
proof (induction n)
  case 0
  then show ?case by (intro exI [of _ "ts_idt s"]) simp
next
  case (Suc n)
  then obtain idt where "fold (\<lambda>i s. s\<lparr>ts_idt := (ts_idt s)[i := SETGATE (ts_idt s ! i) False GD_KTEXT (v i) DPL_KERNEL]\<rparr>) [0..<n] s =
      s\<lparr>ts_idt := idt\<rparr>" "length idt = length (ts_idt s)"
    "\<forall>i < n. idt ! i = SETGATE (ts_idt s ! i) False GD_KTEXT (v i) DPL_KERNEL" "\<forall>i \<ge> n. idt ! i = ts_idt s ! i" by auto
  then show ?case using Suc.prems
    by (intro exI [of _ "idt[n := SETGATE (idt ! n) False GD_KTEXT (v n) DPL_KERNEL]"]) (auto simp: nth_list_update less_Suc_eq)
qed

section \<open>Timer\<close>

lemma timer_trap:
  assumes "tf_trapno (trapframes (ts_kernel s) tf) = trap_timer" and "current (ts_kernel s) = Some p"
  shows "\<exists>s'. trap m \<mu> kb tf s = Some (Returned s') \<and> ts_ticks s' = ts_ticks s + 1 \<and>
    trapframes (ts_kernel s') = trapframes (ts_kernel s) \<and> current (ts_kernel s') = Some p \<and>
    p_need_resched (procs (ts_kernel s') p) =
      (if (ts_ticks s + 1) mod TICK_NUM = 0 then 1 else p_need_resched (procs (ts_kernel s) p))"
  using assms by (auto simp: trap_defs kernel_upd trap_numbers)

lemma next_hundred: "n = 100 * q + r \<Longrightarrow> r < 100 \<Longrightarrow> n + (100 - r) = 100 * (q + (1 :: nat))"
  by simp

lemma hundred_ticks: "\<exists>k \<in> {1..100}. (t + of_nat k :: u32) mod TICK_NUM = 0"
proof (cases "unat t + 100 < 2 ^ 32")
  case True
  define k where "k = 100 - unat t mod 100"
  have k: "k \<in> {1..100}" by (auto simp: k_def)
  have "(unat t + k) mod 100 = 0"
  proof -
    have "unat t = 100 * (unat t div 100) + unat t mod 100" "unat t mod 100 < 100" by simp_all
    then have "unat t + k = 100 * (unat t div 100 + 1)" unfolding k_def by (rule next_hundred)
    then show ?thesis by simp
  qed
  moreover have "unat (t + of_nat k) = unat t + k"
    using True k by (subst unat_plus_simple [THEN iffD1]) (auto simp: word_le_nat_alt unat_word_ariths unat_of_nat_u32)
  ultimately have "unat ((t + of_nat k) mod TICK_NUM) = 0" by (simp add: unat_mod TICK_NUM_def)
  then show ?thesis using k by (intro bexI [of _ k]) (simp_all add: unat_eq_0)
next
  case False
  define k where "k = 2 ^ 32 - unat t"
  have "unat t < 2 ^ 32" using unsigned_less [of t, where ?'a = nat] by simp
  then have k: "k \<in> {1..100}" "unat t + k = 2 ^ 32" using False by (auto simp: k_def)
  have "t + of_nat k = of_nat (unat t + k)" by simp
  also have "\<dots> = 0" unfolding k(2) by simp
  finally show ?thesis using k(1) by (intro bexI [of _ k]) simp_all
qed

lemma timer_traps:
  assumes "tf_trapno (trapframes (ts_kernel s) tf) = trap_timer" and "current (ts_kernel s) = Some p"
  shows "\<exists>s'. traps n m \<mu> kb tf s = Some (Returned s') \<and> ts_ticks s' = ts_ticks s + of_nat n \<and>
    p_need_resched (procs (ts_kernel s') p) =
      (if \<exists>k \<in> {1..n}. (ts_ticks s + of_nat k) mod TICK_NUM = 0 then 1 else p_need_resched (procs (ts_kernel s) p))"
  using assms
proof (induction n arbitrary: s)
  case 0
  then show ?case by simp
next
  case (Suc n)
  obtain s1 where 1: "trap m \<mu> kb tf s = Some (Returned s1)" "ts_ticks s1 = ts_ticks s + 1"
    "trapframes (ts_kernel s1) = trapframes (ts_kernel s)" "current (ts_kernel s1) = Some p"
    "p_need_resched (procs (ts_kernel s1) p) =
      (if (ts_ticks s + 1) mod TICK_NUM = 0 then 1 else p_need_resched (procs (ts_kernel s) p))"
    using timer_trap [OF Suc.prems] by blast
  obtain s' where s': "traps n m \<mu> kb tf s1 = Some (Returned s')" "ts_ticks s' = ts_ticks s1 + of_nat n"
    "p_need_resched (procs (ts_kernel s') p) =
      (if \<exists>k \<in> {1..n}. (ts_ticks s1 + of_nat k) mod TICK_NUM = 0 then 1 else p_need_resched (procs (ts_kernel s1) p))"
    using Suc.IH [of s1] Suc.prems 1(3,4) by auto
  have "{1..Suc n} = insert 1 (Suc ` {1..n})" by (auto simp: image_iff)
  then have "(\<exists>k \<in> {1..Suc n}. (ts_ticks s + of_nat k) mod TICK_NUM = 0) \<longleftrightarrow>
      (ts_ticks s + of_nat 1) mod TICK_NUM = 0 \<or> (\<exists>k \<in> {1..n}. (ts_ticks s + of_nat (Suc k)) mod TICK_NUM = 0)"
    by (simp only: bex_simps)
  then have "(\<exists>k \<in> {1..Suc n}. (ts_ticks s + of_nat k) mod TICK_NUM = 0) \<longleftrightarrow>
    (ts_ticks s + 1) mod TICK_NUM = 0 \<or> (\<exists>k \<in> {1..n}. (ts_ticks s1 + of_nat k) mod TICK_NUM = 0)"
    by (simp only: 1(2) of_nat_1 of_nat_Suc add.assoc)
  then show ?case using 1 s' by (auto simp: algebra_simps)
qed

section \<open>Keyboard\<close>

text \<open>The first character typed and not yet read, or 0 when there is none.\<close>

definition next_key :: "u8 list \<Rightarrow> u8" where
  "next_key cs = (case cs of [] \<Rightarrow> 0 | c # _ \<Rightarrow> c)"

lemma cons_getc_correct:
  assumes "con_ok con" and "length (pending con) \<le> CONSBUFSIZE - 1"
  shows "\<exists>con'. cons_getc \<mu> con = Some (next_key (pending con), con') \<and> con_ok con' \<and> pending con' = tl (pending con)"
proof -
  obtain con1 where c1: "cons_intr \<mu> con = Some con1" "con_ok con1" "waiting con1 = pending con" "kin con1 = []"
    using cons_intr_correct [OF assms] by blast
  show ?thesis
  proof (cases "pending con")
    case Nil
    then show ?thesis using cons_take_correct [OF c1(2)] c1 by (auto simp: cons_getc_def kbd_intr_def pending_def next_key_def)
  next
    case (Cons c cs)
    then obtain con2 where "cons_take con1 = Some (c, con2)" "con_ok con2" "waiting con2 = cs" "kin con2 = kin con1"
      using cons_take_correct [OF c1(2)] c1(3) by auto
    then show ?thesis using c1 Cons by (auto simp: cons_getc_def kbd_intr_def pending_def next_key_def)
  qed
qed

section \<open>Properties\<close>

text \<open>C39. After \<open>idt_init\<close> every entry of the descriptor table is a present 32-bit interrupt gate of the kernel
  code segment and privilege level whose two offset fields give the address of its vector, and the table
  register covers exactly the table.\<close>

theorem idt_gates_well_formed:
  assumes "length (ts_idt s) = 256"
  shows "length (ts_idt (idt_init v idt s)) = 256 \<and> ts_idtr (idt_init v idt s) = (0x7FF, idt) \<and>
    (\<forall>g \<in> set (ts_idt (idt_init v idt s)). gd_p g = 1 \<and> gd_s g = 0 \<and> gd_dpl g = 0 \<and> gd_type g = 0xE \<and>
       gd_args g = 0 \<and> gd_rsv1 g = 0 \<and> ucast (gd_ss g) = GD_KTEXT) \<and>
    (\<forall>i < 256. gate_offset (ts_idt (idt_init v idt s) ! i) = v i)"
proof -
  obtain tbl where t: "fold (\<lambda>i s. s\<lparr>ts_idt := (ts_idt s)[i := SETGATE (ts_idt s ! i) False GD_KTEXT (v i) DPL_KERNEL]\<rparr>) [0..<256] s =
      s\<lparr>ts_idt := tbl\<rparr>" "length tbl = 256"
    "\<forall>i < 256. tbl ! i = SETGATE (ts_idt s ! i) False GD_KTEXT (v i) DPL_KERNEL"
    using idt_fold [of 256 s v] assms by auto
  have i: "ts_idt (idt_init v idt s) = tbl" "ts_idtr (idt_init v idt s) = (0x7FF, idt)"
    unfolding idt_init_def t(1) by (simp_all add: Let_def upd_kernel_def)
  have gate: "gd_p g = 1 \<and> gd_s g = 0 \<and> gd_dpl g = 0 \<and> gd_type g = 0xE \<and> gd_args g = 0 \<and> gd_rsv1 g = 0 \<and>
      ucast (gd_ss g) = GD_KTEXT" if g: "g \<in> set tbl" for g
  proof -
    obtain k where "k < length tbl" "tbl ! k = g" using g by (auto simp: in_set_conv_nth)
    then have "g = SETGATE (ts_idt s ! k) False GD_KTEXT (v k) DPL_KERNEL" using t(2,3) by auto
    then show ?thesis by (simp add: SETGATE_def DPL_KERNEL_def STS_IG32_def GD_KTEXT_def)
  qed
  have "gate_offset (tbl ! k) = v k" if "k < 256" for k using t(3) that by (simp add: gate_offset_SETGATE)
  with gate show ?thesis unfolding i using t(2) by blast
qed

text \<open>C23. Timer interrupts count without loss, and the current process is asked to reschedule exactly when the
  count reaches a multiple of 100; any 100 interrupts in a row do so, also across the wrap of the counter.\<close>

theorem timer_requests_resched:
  assumes "tf_trapno (trapframes (ts_kernel s) tf) = trap_timer" and "current (ts_kernel s) = Some p"
  shows "\<exists>s'. traps n m \<mu> kb tf s = Some (Returned s') \<and> ts_ticks s' = ts_ticks s + of_nat n \<and>
    p_need_resched (procs (ts_kernel s') p) =
      (if \<exists>k \<in> {1..n}. (ts_ticks s + of_nat k) mod TICK_NUM = 0 then 1 else p_need_resched (procs (ts_kernel s) p)) \<and>
    (100 \<le> n \<longrightarrow> p_need_resched (procs (ts_kernel s') p) = 1)"
proof -
  have "\<exists>k \<in> {1..n}. (ts_ticks s + of_nat k) mod TICK_NUM = 0" if "100 \<le> n"
    using hundred_ticks [of "ts_ticks s"] that by (meson atLeastAtMost_iff order_trans)
  moreover obtain s' where "traps n m \<mu> kb tf s = Some (Returned s')" "ts_ticks s' = ts_ticks s + of_nat n"
    "p_need_resched (procs (ts_kernel s') p) =
      (if \<exists>k \<in> {1..n}. (ts_ticks s + of_nat k) mod TICK_NUM = 0 then 1 else p_need_resched (procs (ts_kernel s) p))"
    using timer_traps [OF assms, of n m \<mu> kb] by blast
  ultimately show ?thesis by (intro exI [of _ s'] conjI impI) simp_all
qed

text \<open>C22. A keyboard interrupt moves the oldest character that was typed and not yet read from the console to
  the end of the keyboard buffer, or drops it when 31 characters wait there; when nothing was typed, as after the
  release of a key, it puts a null character into the buffer.\<close>

theorem keyboard_trap_delivers:
  assumes "tf_trapno (trapframes (ts_kernel s) tf) = trap_kbd"
    and "con_ok (ts_con s)" and "length (pending (ts_con s)) \<le> CONSBUFSIZE - 1" and "keybuf_ok (ts_kb s)"
  shows "\<exists>s'. trap m \<mu> kb tf s = Some (Returned s') \<and> con_ok (ts_con s') \<and> keybuf_ok (ts_kb s') \<and>
    pending (ts_con s') = tl (pending (ts_con s)) \<and>
    keys (ts_kb s') = (if length (keys (ts_kb s)) < 31 then keys (ts_kb s) @ [next_key (pending (ts_con s))] else keys (ts_kb s))"
proof -
  obtain con where con: "cons_getc \<mu> (ts_con s) = Some (next_key (pending (ts_con s)), con)" "con_ok con"
    "pending con = tl (pending (ts_con s))"
    using cons_getc_correct [OF assms(2,3)] by blast
  obtain buf ps where buf: "keybuf_push \<mu> kb (next_key (pending (ts_con s))) (ts_kb s, con) =
      Some (length (keys (ts_kb s)) < 31, buf, con\<lparr>ports := ps\<rparr>)" "keybuf_ok buf"
    "keys buf = (if length (keys (ts_kb s)) < 31 then keys (ts_kb s) @ [next_key (pending (ts_con s))] else keys (ts_kb s))"
    using keybuf_push_correct [OF assms(4)] by blast
  have "pending (con\<lparr>ports := ps\<rparr>) = pending con" by (simp add: pending_def)
  then show ?thesis using assms(1) con buf by (simp add: trap_defs kernel_upd trap_numbers)
qed


section \<open>A state for the witnesses\<close>

text \<open>A machine with two address areas, a current process at 48 and a frame with the given trap number and
  error code at address 0.\<close>

definition small_machine :: "u32 \<Rightarrow> u32 \<Rightarrow> u32 \<Rightarrow> buddy trap_state" where
  "small_machine no err cr2 =
     \<lparr>ts_idt = replicate 256 \<lparr>gd_off_15_0 = 0, gd_ss = 0, gd_args = 0, gd_rsv1 = 0, gd_type = 0, gd_s = 0, gd_dpl = 0,
        gd_p = 0, gd_off_31_16 = 0\<rparr>,
      ts_idtr = (0, 0), ts_con = new_console [0x1E], ts_kb = empty_keybuf,
      ts_kernel = (small_kernel (small_kmem ended_frames))\<lparr>current := Some 48,
        trapframes := \<lambda>_. blank_frame\<lparr>tf_trapno := no, tf_err := err\<rparr>\<rparr>,
      ts_spaces = two_areas, ts_vm = small_vm, ts_check_mm = Some 1, ts_cr2 = cr2, ts_ticks = 95\<rparr>"

lemma small_machine_frame: "tf_trapno (trapframes (ts_kernel (small_machine no err cr2)) 0) = no"
  "tf_err (trapframes (ts_kernel (small_machine no err cr2)) 0) = err" "current (ts_kernel (small_machine no err cr2)) = Some 48"
  by (simp_all add: small_machine_def)

theorem idt_gates_well_formed_witness:
  "gate_offset (ts_idt (idt_init (\<lambda>i. 0xC0100000 + of_nat i) 0xC0200000 (small_machine 0 0 0)) ! 14) = 0xC010000E"
proof -
  have "length (ts_idt (small_machine 0 0 0)) = 256" by (simp add: small_machine_def)
  from idt_gates_well_formed [OF this, of "\<lambda>i. 0xC0100000 + of_nat i" "0xC0200000"] show ?thesis by simp
qed

theorem timer_requests_resched_witness:
  "\<exists>s'. traps 5 buddy_pmm_manager (\<lambda>_. 0) 0 0 (small_machine 32 0 0) = Some (Returned s') \<and> ts_ticks s' = 100 \<and>
     p_need_resched (procs (ts_kernel s') 48) = 1"
proof -
  have t: "tf_trapno (trapframes (ts_kernel (small_machine 32 0 0)) 0) = trap_timer" "ts_ticks (small_machine 32 0 0) = 95"
    by (simp_all add: small_machine_def trap_numbers)
  have "\<exists>k \<in> {1..5}. (95 + of_nat k :: u32) mod TICK_NUM = 0" by (intro bexI [of _ 5]) (simp_all add: TICK_NUM_def)
  then show ?thesis
    using timer_requests_resched [OF t(1) small_machine_frame(3), of 5 buddy_pmm_manager "\<lambda>_. 0" 0] t(2) by auto
qed

theorem keyboard_trap_delivers_witness:
  "\<exists>s'. trap buddy_pmm_manager (\<lambda>_. 0) 0xC0110000 0 (small_machine 33 0 0) = Some (Returned s') \<and>
     keys (ts_kb s') = [0x61]"
proof -
  have t: "tf_trapno (trapframes (ts_kernel (small_machine 33 0 0)) 0) = trap_kbd" by (simp add: small_machine_def trap_numbers)
  have c: "ts_con (small_machine 33 0 0) = new_console [0x1E]" "ts_kb (small_machine 33 0 0) = empty_keybuf"
    by (simp_all add: small_machine_def)
  have "decode 0 [0x1E] = ([0x61], 0)"
    by (simp add: kbd_decode_def Let_def E0ESC_def shiftcode_def togglecode_def charcode_def normalmap_def
        table_def CTL_def SHIFT_def CAPSLOCK_def)
  then have p: "pending (new_console [0x1E]) = [0x61]"
    using new_console_ok(2) [of "[0x1E]"] by (simp add: pending_def) (simp add: new_console_def)
  have k: "con_ok (ts_con (small_machine 33 0 0))" "length (pending (ts_con (small_machine 33 0 0))) \<le> CONSBUFSIZE - 1"
    "keybuf_ok (ts_kb (small_machine 33 0 0))"
    unfolding c p by (simp_all add: new_console_ok CONSBUFSIZE_def empty_keybuf_ok)
  from keyboard_trap_delivers [OF t k, of buddy_pmm_manager "\<lambda>_. 0" "0xC0110000"] show ?thesis
    unfolding c p by (simp add: empty_keybuf_ok next_key_def) blast
qed


end
