(* ===== verification/Spec2Isabelle.thy ===== *)
theory Spec2Isabelle
  imports Paging KernelMem Bootmain Keybuf Devices Atomic RbAlloc RbWalk VmmInv ProcLife Monitor GraphicProps Trap
begin

text \<open>
  A verification library for the sharix kernel, a small 32-bit x86 kernel.

  \<^bold>\<open>The program.\<close> The boot code loads the kernel and leaves the memory map of the machine, the font and
  the boot information at fixed addresses. \<open>kern_init\<close> (kern/init/init.c) sets up the console, the physical
  page allocator and the page tables (\<open>pmm_init\<close>, which ends with \<open>slab_init\<close>), the interrupt controller,
  the descriptor table, the timer, the self-tests, the scheduler and the first processes, and idles.
  Interrupts enter through \<open>trap\<close>: the timer counts ticks and asks for rescheduling, the keyboard fills the
  console's buffer and the keyboard buffer, a page fault goes to the areas of an address space, which map a
  page from the page allocator through the page tables. The object allocator cuts pages into objects; the
  address spaces, processes, threads and trees keep their structures in objects from it. The drawing routines
  write to the frame buffer. The monitor reads a line and runs a command; the debugging commands look
  addresses up in the symbol table.

  \<^bold>\<open>How code becomes definitions.\<close> Machine integers are words of their width and wrap; a C \<open>int\<close> is an
  \<open>int\<close>, kept in range by \<open>to_int\<close> where the code converts an unsigned value. A structure is a record, the
  structures of one kind are a map from their addresses, and an embedded list entry is a constructor of a
  pointer type applied to its structure. The result \<open>None\<close> means that the C code left its defined
  behaviour at this point (a null or foreign pointer, an index out of bounds) or, for loops defined by
  \<^theory_text>\<open>partial_function\<close>, that it does not return; a property that a function returns is stated as the
  existence of a result. Every operation is executable, except those that take a function parameter for the
  compare function of a tree, the addresses of a table of vectors, or floating-point arithmetic.

  \<^bold>\<open>Theories.\<close>
  \<^item> \<open>Prelude\<close>, \<open>Clist\<close>: libs/types.h and libs/list.h; the integer types, the heap of list entries, the
    abstraction \<open>lseg\<close> of a list segment and the laws of insertion and deletion every list client uses.
  \<^item> \<open>PageAlloc\<close>, \<open>Buddy\<close>: the table \<open>struct pmm_manager\<close> of kern/mm/pmm.h with its contract, the locales
    \<open>page_source\<close>, \<open>page_allocator\<close> and \<open>page_supplier\<close>, and kern/mm/buddy_pmm.c. \<open>buddy_rel t s F\<close> says that exactly the
    pages \<open>F\<close> are free; \<open>t\<close> is what the list of the largest order ends in, because \<open>buddy_init\<close> leaves that
    header zeroed. The lemmas show that splitting and coalescing keep the free blocks disjoint.
  \<^item> \<open>Mmu\<close>, \<open>Paging\<close>: kern/mm/mmu.h, memlayout.h, pmm.c. \<open>translate\<close> is the walk of the
    processor; \<open>tables_ok\<close> and \<open>vm_inv\<close> say that directory, tables and free pages do not overlap. The
    operations are verified over any allocator that keeps the contract.
  \<^item> \<open>Startup\<close>: \<open>pmm_init\<close> and \<open>print_pgdir\<close> of pmm.c; the composition of memory scan, page allocator, tables,
    paging and object allocator. \<open>kernel_map\<close> is the address space it is meant to build, \<open>listed\<close> the
    runs of pages that are printed.
  \<^item> \<open>KernelMem\<close>: page tables, pages and heap after \<open>pmm_init\<close> as one state; the object allocator is a
    \<open>page_source\<close> for the tables, and \<open>memory_reach\<close> is the step relation of all their operations.
  \<^item> \<open>Slab\<close>, \<open>SlabInv\<close>, \<open>SlabOps\<close>, \<open>SlabAlloc\<close>, \<open>SlabFree\<close>, \<open>SlabInit\<close>, \<open>Kmalloc\<close>, \<open>Client\<close>: kern/mm/slab.c. The
    invariant \<open>slab_inv\<close> maps every slab to its cache and pages; \<open>kheap t P s H\<close> is what callers see, the
    blocks \<open>H\<close> they hold, and is an interpretation of the locale \<open>object_allocator\<close>. \<open>Client\<close> turns it into
    the interface of the components that keep their structures in objects.
  \<^item> \<open>Rbtree\<close>, \<open>RbRep\<close>, \<open>RbInsert\<close>, \<open>RbDelete\<close>, \<open>RbWalk\<close>, \<open>RbAlloc\<close>: kern/libs/rb_tree.c. A tree in the heap is
    related to a functional tree with a focus; the lemmas show what rotation, insertion, deletion, search and
    the walk do to its inorder sequence and to the red-black invariants.
  \<^item> \<open>Vmm\<close>, \<open>VmmInv\<close>: kern/mm/vmm.c. \<open>spaces\<close> ties address spaces to sorted rings of areas and to the blocks
    they own; \<open>vm_reach\<close> is the step relation of sequences of calls.
  \<^item> \<open>Proc\<close>, \<open>Sched\<close>, \<open>ProcLife\<close>: kern/process, kern/sync/sync.h, kern/driver/intr.c, \<open>switch_to\<close>. The run
    queue is an interpretation of the locale \<open>entry_queue\<close>. What \<open>cprintf\<close> prints there is a log of formats
    and arguments.
  \<^item> \<open>Trap\<close>: kern/trap/trap.c; the composition of page faults, timer and keyboard over one state.
  \<^item> \<open>Cstring\<close>, \<open>Printf\<close>, \<open>Atomic\<close>, \<open>Devices\<close>: libs/string.c, libs/printfmt.c, libs/atomic.h, libs/rand.c,
    libs/math.h, kern/driver/picirq.c, clock.c. Memory is a map from addresses to bytes; the string
    instructions of libs/x86.h are proved equal to the portable loops they replace.
  \<^item> \<open>Ring\<close>, \<open>Console\<close>, \<open>Keybuf\<close>: kern/driver/console.c, kern/libs/stdio.c, readline.c, libs/stringbuffer.c.
    \<open>fifo\<close> is the locale of bounded queues; both ring buffers interpret it. \<open>pending\<close> is the sequence of
    characters the waiting scan codes stand for.
  \<^item> \<open>Stabs\<close>, \<open>Kdebug\<close>: kern/debug/kdebug.c; the binary search of the symbol table against a linear scan, the
    lookup of an address, the back trace.
  \<^item> \<open>Graphic\<close>, \<open>GraphicProps\<close>: kern/graphic/graphic.c, kern/font/font.c, kern/component/component.c; what the
    drawing routines write and that they write nowhere else.
  \<^item> \<open>Monitor\<close>: kern/debug/monitor.c, panic.c; splitting the line into words and the round that reads a line
    and runs a command.
  \<^item> \<open>Bootmain\<close>: boot/setup/main.c and libs/elf.h; the loader over a disk that is a parameter, with what it
    relies on as the predicate \<open>ata_disk\<close>.
  \<^bold>\<open>Bounds and fuel.\<close> A back trace has \<open>STACKFRAME_DEPTH\<close> = 20 rounds, the bound of the code. The symbol
  table has at most \<open>2^30\<close> entries, which the sum of two \<open>int\<close> indices needs. Page frames are below \<open>2^18\<close>,
  the largest number the kernel's direct map of \<open>KMEMSIZE\<close> can reach. Loops that may run forever are
  \<^theory_text>\<open>partial_function\<close>s and not bounded by fuel; \<open>getchar\<close> on a keyboard that never sends is one.

  \<^bold>\<open>Not modelled.\<close> The assembly parts of the boot and set-up code and the stubs \<open>entry.S\<close>, \<open>vectors.S\<close>, \<open>trapentry.S\<close> are left out.
  \<open>kern_init\<close> itself is a fixed sequence of calls of modelled functions. Single privileged instructions of
  libs/x86.h have an effect on the model only where it has the register they write. The self-tests
  \<open>check_slab\<close>, \<open>check_rb_tree\<close> and \<open>check_pgfault\<close>, the bodies of the demonstration threads, the
  floating-point \<open>powlf\<close>, kern/graphic/window.c, kern/component/editbox.c and the build tools under tools/
  are left out. The values the processor may keep in its TLB are modelled as a
  map that loads of the new translations may fill; the loads themselves are not steps of the model.
\<close>

end
